(* ===== verification/Prelude.thy ===== *)
theory Prelude
  imports Main "HOL-Library.Word" "HOL-Library.Monad_Syntax"
begin

unbundle bit_operations_syntax

text \<open>
  Vocabulary shared by every component of the development: the machine integers of the
  32-bit boot code, C objects as lists of bytes with checked access, little-endian fields,
  and the generic facts about lists, options and words that the component proofs rely on.

  Conventions.  A C object (a buffer, a string, a sector) is the list of its bytes.  A pointer
  into it is an index, or the suffix of the list that starts there.  Reading or writing past
  the end of the object is undefined behaviour in C; here it is the value \<open>None\<close> of an
  \<open>option\<close> result, so a lemma that says \<open>f x = Some y\<close> says in particular that the
  code stays inside its objects.  \<open>None\<close> also stands for a loop that never ends, where a
  function is defined with \<^theory_text>\<open>partial_function (option)\<close>.
\<close>

type_synonym u8 = "8 word"
type_synonym u16 = "16 word"
type_synonym u32 = "32 word"
type_synonym u64 = "64 word"
type_synonym s32 = "32 word"
type_synonym bytes = "8 word list"

named_theorems le_defs \<open>definitions of the little-endian readers and writers\<close>
named_theorems unat_eqs \<open>word operations pushed through unat\<close>

section \<open>Checked access to objects\<close>

definition rd :: "'a list \<Rightarrow> nat \<Rightarrow> 'a option" where
  "rd buf i = (if i < length buf then Some (buf ! i) else None)"

definition wr :: "'a list \<Rightarrow> nat \<Rightarrow> 'a \<Rightarrow> 'a list option" where
  "wr buf i x = (if i < length buf then Some (buf[i := x]) else None)"

definition rd_range :: "'a list \<Rightarrow> nat \<Rightarrow> nat \<Rightarrow> 'a list option" where
  "rd_range buf i n = (if i + n \<le> length buf then Some (take n (drop i buf)) else None)"

definition wr_range :: "'a list \<Rightarrow> nat \<Rightarrow> 'a list \<Rightarrow> 'a list option" where
  "wr_range buf i xs =
     (if i + length xs \<le> length buf then Some (take i buf @ xs @ drop (i + length xs) buf)
      else None)"

lemma rd_Some_iff: "rd buf i = Some x \<longleftrightarrow> i < length buf \<and> buf ! i = x"
  by (simp add: rd_def)

lemma rd_in [simp]: "i < length buf \<Longrightarrow> rd buf i = Some (buf ! i)"
  by (simp add: rd_def)

lemma rd_out [simp]: "length buf \<le> i \<Longrightarrow> rd buf i = None"
  by (simp add: rd_def)

lemma wr_in [simp]: "i < length buf \<Longrightarrow> wr buf i x = Some (buf[i := x])"
  by (simp add: wr_def)

lemma wr_out [simp]: "length buf \<le> i \<Longrightarrow> wr buf i x = None"
  by (simp add: wr_def)

lemma wr_length: "wr buf i x = Some buf' \<Longrightarrow> length buf' = length buf"
  by (auto simp: wr_def split: if_splits)

lemma wr_range_length: "wr_range buf i xs = Some buf' \<Longrightarrow> length buf' = length buf"
  by (auto simp: wr_range_def split: if_splits)

lemma wr_range_append [simp]:
  "length mid = length xs \<Longrightarrow> wr_range (pre @ mid @ post) (length pre) xs = Some (pre @ xs @ post)"
  by (simp add: wr_range_def)

lemma rd_range_length: "rd_range buf i n = Some xs \<Longrightarrow> length xs = n"
  by (auto simp: rd_range_def split: if_splits)

lemma rd_range_in [simp]: "i + n \<le> length buf \<Longrightarrow> rd_range buf i n = Some (take n (drop i buf))"
  by (simp add: rd_range_def)

lemma rd_range_out [simp]: "length buf < i + n \<Longrightarrow> rd_range buf i n = None"
  by (simp add: rd_range_def)

section \<open>Little-endian fields\<close>

definition le16_of :: "u8 \<Rightarrow> u8 \<Rightarrow> u16" where
  "le16_of b0 b1 = ucast b0 + push_bit 8 (ucast b1)"

definition le32_of :: "u8 \<Rightarrow> u8 \<Rightarrow> u8 \<Rightarrow> u8 \<Rightarrow> u32" where
  "le32_of b0 b1 b2 b3 =
     ucast b0 + push_bit 8 (ucast b1) + push_bit 16 (ucast b2) + push_bit 24 (ucast b3)"

definition rd16 :: "bytes \<Rightarrow> nat \<Rightarrow> u16 option" where
  "rd16 buf i = do { b0 \<leftarrow> rd buf i; b1 \<leftarrow> rd buf (i + 1); Some (le16_of b0 b1) }"

definition rd32 :: "bytes \<Rightarrow> nat \<Rightarrow> u32 option" where
  "rd32 buf i = do { b0 \<leftarrow> rd buf i; b1 \<leftarrow> rd buf (i + 1); b2 \<leftarrow> rd buf (i + 2);
                     b3 \<leftarrow> rd buf (i + 3); Some (le32_of b0 b1 b2 b3) }"

lemma rd16_in: "i + 1 < length buf \<Longrightarrow> rd16 buf i = Some (le16_of (buf ! i) (buf ! (i + 1)))"
  by (simp add: rd16_def)

lemma rd16_out: "length buf \<le> i + 1 \<Longrightarrow> rd16 buf i = None"
  by (cases "i < length buf") (simp_all add: rd16_def)

lemma rd32_in:
  "i + 3 < length buf \<Longrightarrow>
   rd32 buf i = Some (le32_of (buf ! i) (buf ! (i + 1)) (buf ! (i + 2)) (buf ! (i + 3)))"
  by (simp add: rd32_def)

lemma unat_ucast_up:
  "LENGTH('a::len) \<le> LENGTH('b::len) \<Longrightarrow> unat (ucast (w::'a word) :: 'b word) = unat w"
  by (transfer, simp add: take_bit_take_bit min_def)

lemma unat_u8_lt [simp]: "unat (b::u8) < 256"
  using unsigned_less [of b, where 'a = nat] by simp

lemma unat_u8_le [simp]: "unat (b::u8) \<le> 255"
  using unat_u8_lt [of b] by linarith

lemma unat_u16_lt [simp]: "unat (b::u16) < 65536"
  using unsigned_less [of b, where 'a = nat] by simp

lemma unat_u32_lt [simp]: "unat (b::u32) < 4294967296"
  using unsigned_less [of b, where 'a = nat] by simp

lemma unat_u64_lt [simp]: "unat (b::u64) < 18446744073709551616"
  using unsigned_less [of b, where 'a = nat] by simp

lemma unat_push_bit:
  "unat (push_bit n (w::'a::len word)) = unat w * 2 ^ n mod 2 ^ LENGTH('a)"
proof -
  have "push_bit n w = of_nat (unat w * 2 ^ n)"
    by (simp add: push_bit_eq_mult)
  then show ?thesis
    by (simp only: unat_of_nat)
qed

lemma unat_drop_bit: "unat (drop_bit n (w::'a::len word)) = unat w div 2 ^ n"
  by (metis drop_bit_eq_div unat_drop_bit_eq)

lemma unat_mask_mod: "unat (w AND mask n :: 'a::len word) = unat w mod 2 ^ n"
  by (metis take_bit_eq_mask take_bit_eq_mod unsigned_take_bit_eq)

lemma unat_add_no_wrap:
  "unat a + unat b < 2 ^ LENGTH('a) \<Longrightarrow> unat (a + b :: 'a::len word) = unat a + unat b"
  by (simp add: unat_word_ariths)

lemma unat_sub_no_wrap: "b \<le> a \<Longrightarrow> unat (a - b :: 'a::len word) = unat a - unat b"
  by (simp add: unat_sub)

lemma unat_shr1_less: "w \<noteq> 0 \<Longrightarrow> unat (drop_bit 1 (w::'a::len word)) < unat w"
  by (metis div_less_dividend one_less_numeral_iff power_one_right semiring_norm(76)
      unat_drop_bit unat_gt_0)

lemma odd_unat_div: "odd (unat (w::'a::len word) div 2 ^ n) \<longleftrightarrow> bit w n"
  by (metis bit_iff_odd bit_unsigned_iff possible_bit_nat)

lemma pow_less_of_mult: "0 < x \<Longrightarrow> x * 2 ^ j < K \<Longrightarrow> 2 ^ j < (K::nat)"
  by (rule le_less_trans [of _ "x * 2 ^ j"]) simp_all

lemma unat_ucast_mod: "unat (ucast (w::'a::len word) :: 'b::len word) = unat w mod 2 ^ LENGTH('b)"
  by (simp only: unsigned_ucast_eq take_bit_eq_mod)

lemma ucast_of_nat_up:
  "i < 2 ^ 32 \<Longrightarrow> ucast (word_of_nat i :: u32) = (word_of_nat i :: u64)"
  by (simp add: word_unat_eq_iff unat_ucast_up unat_of_nat)

lemma unat_minus_one: "unat (- 1 :: 'a::len word) = 2 ^ LENGTH('a) - 1"
  by (simp add: unsigned_minus_1_eq_mask mask_eq_exp_minus_1)

lemma unat_of_nat_small: "i < 2 ^ LENGTH('a) \<Longrightarrow> unat (word_of_nat i :: 'a::len word) = i"
  by (simp add: unat_of_nat)

lemma unat_add_of_nat:
  "unat a + i < 2 ^ LENGTH('a) \<Longrightarrow> unat (a + word_of_nat i :: 'a::len word) = unat a + i"
  by (subst unat_add_no_wrap) (simp_all add: unat_of_nat_small)

lemma unat_round_up:
  assumes "0 < unat b" "unat a + unat b \<le> 2 ^ LENGTH('a)"
  shows "unat (a + b - 1 :: 'a::len word) = unat a + unat b - 1"
proof -
  have b: "unat (b - 1) = unat b - 1"
    using assms(1) by (subst unat_sub_no_wrap) (simp_all add: word_le_nat_alt)
  have "unat (a + (b - 1)) = unat a + unat (b - 1)"
    unfolding b by (rule unat_add_no_wrap [of a "b - 1", unfolded b]) (use assms in linarith)
  then show ?thesis using assms(1) b by (simp add: add_diff_eq)
qed

lemma word_eq_2_power: "unat (w :: 'a::len word) = 2 ^ k \<Longrightarrow> w = 2 ^ k"
proof -
  assume w: "unat w = 2 ^ k"
  then have "2 ^ k < (2 :: nat) ^ LENGTH('a)" using unsigned_less [of w, where 'a = nat] by simp
  then have "unat (word_of_nat (2 ^ k) :: 'a word) = 2 ^ k" by (rule unat_of_nat_small)
  then show ?thesis using w by (simp add: word_unat_eq_iff)
qed

lemma unat_le16_of: "unat (le16_of a b) = unat a + 256 * unat b"
proof -
  have "le16_of a b = of_nat (unat a + 256 * unat b)"
    by (simp add: le16_of_def push_bit_eq_mult)
  then show ?thesis
    using unat_u8_lt [of a] unat_u8_lt [of b]
    by (simp only:) (intro unat_of_nat_small, simp del: unat_u8_lt unat_u8_le)
qed

lemma unat_le32_of: "unat (le32_of a b c d) = unat a + 256 * unat b + 65536 * unat c + 16777216 * unat d"
proof -
  have "le32_of a b c d = of_nat (unat a + 256 * unat b + 65536 * unat c + 16777216 * unat d)"
    by (simp add: le32_of_def push_bit_eq_mult)
  then show ?thesis
    using unat_u8_lt [of a] unat_u8_lt [of b] unat_u8_lt [of c] unat_u8_lt [of d]
    by (simp only:) (intro unat_of_nat_small, simp del: unat_u8_lt unat_u8_le)
qed

section \<open>Offsets split into block and remainder\<close>

lemma div_mod_within:
  "n mod m + k < m \<Longrightarrow> (n + k) div m = n div m" "n mod m + k < m \<Longrightarrow> (n + k) mod m = n mod m + k" for n m k :: nat
proof -
  assume a: "n mod m + k < m"
  have n: "n + k = (n mod m + k) + m * (n div m)" by simp
  have "(n + k) div m = n div m + (n mod m + k) div m"
    using a by (subst n, subst div_mult_self2) simp_all
  then show "(n + k) div m = n div m" using a by simp
  have "(n + k) mod m = (n mod m + k) mod m" by (subst n, subst mod_mult_self2) simp
  then show "(n + k) mod m = n mod m + k" using a by simp
qed

lemma div_mod_across:
  "0 < m \<Longrightarrow> n mod m = m - 1 \<Longrightarrow> (n + 1) div m = n div m + 1"
  "0 < m \<Longrightarrow> n mod m = m - 1 \<Longrightarrow> (n + 1) mod m = 0" for n m :: nat
proof -
  assume a: "0 < m" "n mod m = m - 1"
  have "n + 1 = n mod m + 1 + m * (n div m)" by simp
  then have n: "n + 1 = m * (n div m + 1)" using a by simp
  show "(n + 1) div m = n div m + 1" "(n + 1) mod m = 0" unfolding n using a(1) by simp_all
qed

lemma mod_room: "d dvd n \<Longrightarrow> d dvd m \<Longrightarrow> 0 < m \<Longrightarrow> n mod m + d \<le> m" for n m d :: nat
proof -
  assume "d dvd n" and m: "d dvd m" "0 < m"
  then have "d dvd m - n mod m" by (simp add: dvd_mod dvd_diff_nat)
  moreover have "0 < m - n mod m" using m(2) by simp
  ultimately have "d \<le> m - n mod m" by (rule dvd_imp_le)
  then show ?thesis using m(2) mod_less_divisor [of m n] by linarith
qed

lemma ceil_div_cover: "0 < k \<Longrightarrow> n \<le> (n + k - 1) div k * k" for n k :: nat
proof -
  assume "0 < k"
  then have "n + k - 1 < k + (n + k - 1) div k * k" by (rule dividend_less_div_times)
  then show ?thesis by (simp add: mult.commute)
qed

end
