(* ===== verification/Libgcc.thy ===== *)
theory Libgcc
  imports Prelude "HOL-Library.Signed_Division"
begin

text \<open>
  The 64-bit division helpers of \<open>libcomcore/libgcc\<close>, which the 32-bit compiler calls for
  every \<open>/\<close> and \<open>%\<close> on 64-bit operands: the shift-and-subtract loop
  \<open>__udivmoddi4\<close>, its unsigned front ends \<open>__udivdi3\<close> and \<open>__umoddi3\<close>, and the
  signed ones \<open>__divdi3\<close> and \<open>__moddi3\<close>.  The result is an \<open>option\<close> because the
  normalisation loop would not end on a zero denominator; the explicit test for zero is what
  makes every call return, and \<open>Inl Divide_error\<close> is the trap that it raises
  (\<open>__divide_error\<close> is an assembly routine).
\<close>

datatype trap = Divide_error

section \<open>The code\<close>

text \<open>\<open>while ((int64_t) den >= 0) { den <<= 1; qbit <<= 1; }\<close>\<close>

partial_function (option) left_justify :: "u64 \<Rightarrow> u64 \<Rightarrow> (u64 \<times> u64) option" where
  "left_justify den qbit =
     (if 0 \<le> sint den then left_justify (push_bit 1 den) (push_bit 1 qbit)
      else Some (den, qbit))"

text \<open>
  The second loop; a state is \<open>num\<close>, \<open>den\<close>, \<open>quot\<close>, \<open>qbit\<close>, and the result
  is the quotient and the remainder left in \<open>num\<close>.
\<close>

function div_loop :: "u64 \<Rightarrow> u64 \<Rightarrow> u64 \<Rightarrow> u64 \<Rightarrow> u64 \<times> u64" where
  "div_loop num den quot qbit =
     (if qbit = 0 then (quot, num)
      else if den \<le> num
        then div_loop (num - den) (drop_bit 1 den) (quot + qbit) (drop_bit 1 qbit)
        else div_loop num (drop_bit 1 den) quot (drop_bit 1 qbit))"
  by pat_completeness auto
termination
  by (relation "measure (\<lambda>(num, den, quot, qbit). unat qbit)")
     (auto simp only: in_measure prod.case intro!: unat_shr1_less)

declare div_loop.simps [simp del]

definition udivmoddi4 :: "u64 \<Rightarrow> u64 \<Rightarrow> (trap + u64 \<times> u64) option" where
  "udivmoddi4 num den =
     (if den = 0 then Some (Inl Divide_error)
      else do { (den', qbit) \<leftarrow> left_justify den 1; Some (Inr (div_loop num den' 0 qbit)) })"

definition udivdi3 :: "u64 \<Rightarrow> u64 \<Rightarrow> (trap + u64) option" where
  "udivdi3 num den = map_option (map_sum id fst) (udivmoddi4 num den)"

definition umoddi3 :: "u64 \<Rightarrow> u64 \<Rightarrow> (trap + u64) option" where
  "umoddi3 num den = map_option (map_sum id snd) (udivmoddi4 num den)"

text \<open>
  The signed versions strip the signs, divide, and put a sign back.  The \<open>minus\<close> flag is
  toggled by both operands in \<open>__divdi3\<close>, and in \<open>__moddi3\<close> as well.
\<close>

definition strip_sign :: "u64 \<Rightarrow> bool \<times> u64" where
  "strip_sign x = (if sint x < 0 then (True, - x) else (False, x))"

definition divdi3 :: "u64 \<Rightarrow> u64 \<Rightarrow> (trap + u64) option" where
  "divdi3 num den =
     (let (mn, num') = strip_sign num; (md, den') = strip_sign den; minus = (mn \<noteq> md) in
      map_option (map_sum id (\<lambda>(q, r). if minus then - q else q)) (udivmoddi4 num' den'))"

definition moddi3 :: "u64 \<Rightarrow> u64 \<Rightarrow> (trap + u64) option" where
  "moddi3 num den =
     (let (mn, num') = strip_sign num; (md, den') = strip_sign den; minus = (mn \<noteq> md) in
      map_option (map_sum id (\<lambda>(q, r). if minus then - r else r)) (udivmoddi4 num' den'))"

section \<open>The unsigned loop divides\<close>

declare push_bit_Suc [simp del] drop_bit_Suc [simp del]

lemma push_bit_unat:
  fixes d :: u64
  assumes "unat d * 2 ^ j < 2 ^ 64"
  shows "unat (push_bit j d) = unat d * 2 ^ j"
  using assms by (simp add: unat_push_bit)

lemma drop_bit_push_bit_1:
  fixes d :: u64
  assumes "unat d * 2 ^ Suc j < 2 ^ 64"
  shows "drop_bit 1 (push_bit (Suc j) d) = push_bit j d"
proof (rule word_unat_eq_iff [THEN iffD2])
  have "unat (drop_bit 1 (push_bit (Suc j) d)) = unat d * 2 ^ Suc j div 2"
    using assms by (simp only: unat_drop_bit push_bit_unat power_one_right)
  also have "\<dots> = unat d * 2 ^ j" by simp
  also have "\<dots> = unat (push_bit j d)" using assms by (simp add: push_bit_unat)
  finally show "unat (drop_bit 1 (push_bit (Suc j) d)) = unat (push_bit j d)" .
qed

text \<open>
  The loop from stage \<open>j\<close>, where \<open>den\<close> and \<open>qbit\<close> are the denominator and 1
  shifted left by \<open>j\<close>: what is left to find is the quotient of \<open>num\<close> by \<open>d\<close>.
\<close>

lemma div_loop_0: "div_loop num den quot 0 = (quot, num)"
  by (simp add: div_loop.simps)

lemma div_loop_step:
  "qbit \<noteq> 0 \<Longrightarrow> div_loop num den quot qbit =
     (if den \<le> num then div_loop (num - den) (drop_bit 1 den) (quot + qbit) (drop_bit 1 qbit)
      else div_loop num (drop_bit 1 den) quot (drop_bit 1 qbit))"
  by (subst div_loop.simps) simp

lemma word_div_sub_shifted:
  fixes num d :: u64
  assumes d: "0 < unat d" and fits: "unat d * 2 ^ j < 2 ^ 64" and le: "push_bit j d \<le> num"
  shows "push_bit j 1 + (num - push_bit j d) div d = num div d"
    and "(num - push_bit j d) mod d = num mod d"
proof -
  let ?s = "push_bit j d"
  have us: "unat ?s = unat d * 2 ^ j" using fits by (rule push_bit_unat)
  have le': "unat d * 2 ^ j \<le> unat num" using le us by (simp add: word_le_nat_alt)
  have sub: "unat (num - ?s) = unat num - unat d * 2 ^ j"
    using le us by (simp add: unat_sub)
  have j1: "(2::nat) ^ j < 2 ^ 64"
    using d fits by (metis Suc_leI le_less_trans mult.commute mult.left_neutral mult_le_mono1
        One_nat_def mult.right_neutral)
  have one: "unat (push_bit j 1 :: u64) = 2 ^ j"
    using j1 push_bit_unat [of 1 j] by simp
  have q: "2 ^ j + (unat num - unat d * 2 ^ j) div unat d = unat num div unat d"
    using d le' by (metis div_mult_self2 le_add_diff_inverse add.commute
        not_less_zero add_diff_inverse_nat le_antisym nat_less_le not_less mult.commute)
  show "push_bit j 1 + (num - ?s) div d = num div d"
  proof (rule word_unat_eq_iff [THEN iffD2])
    have "unat (push_bit j 1 :: u64) + unat ((num - ?s) div d) = unat (num div d)"
      by (simp only: one unat_div_distrib sub q)
    moreover have "unat (num div d) < 2 ^ 64"
      using unsigned_less [of "num div d", where 'a = nat] by simp
    ultimately show "unat (push_bit j 1 + (num - ?s) div d) = unat (num div d)"
      by (simp add: unat_add_no_wrap)
  qed
  show "(num - ?s) mod d = num mod d"
  proof (rule word_unat_eq_iff [THEN iffD2])
    have "(unat num - unat d * 2 ^ j) mod unat d = unat num mod unat d"
      using le' by (metis le_add_diff_inverse mod_mult_self2 add.commute mult.commute)
    then show "unat ((num - ?s) mod d) = unat (num mod d)"
      by (simp only: unat_mod_distrib sub)
  qed
qed

lemma div_loop_correct:
  fixes num d quot :: u64
  assumes "0 < unat d" "unat d * 2 ^ j < 2 ^ 64" "unat num < unat d * 2 ^ Suc j"
  shows "div_loop num (push_bit j d) quot (push_bit j 1) = (quot + num div d, num mod d)"
  using assms
proof (induction j arbitrary: num quot)
  case 0
  show ?case
  proof (cases "d \<le> num")
    case True
    have "div_loop num d quot 1 = (quot + 1, num - d)"
      using True by (simp add: div_loop_step div_loop_0)
    moreover have "unat num div unat d = 1"
      using True "0.prems" by (intro div_nat_eqI) (simp_all add: word_le_nat_alt)
    then have "num div d = 1" by (simp add: word_unat_eq_iff unat_div_distrib)
    moreover have "num mod d = num - d"
      using word_div_sub_shifted(2) [OF "0.prems"(1,2), of num] True "0.prems"
      by (simp add: word_unat_eq_iff unat_mod_distrib unat_sub word_le_nat_alt)
    ultimately show ?thesis by simp
  next
    case False
    then have "unat num < unat d" by (simp add: word_le_nat_alt)
    then have "num div d = 0" "num mod d = num"
      by (auto simp: word_unat_eq_iff unat_div_distrib unat_mod_distrib)
    with False show ?thesis by (simp add: div_loop_step div_loop_0)
  qed
next
  case (Suc j)
  let ?s = "push_bit (Suc j) d"
  have fits: "unat d * 2 ^ j < 2 ^ 64" and fits': "unat (1::u64) * 2 ^ Suc j < 2 ^ 64"
    using Suc.prems(1,2) pow_less_of_mult [OF Suc.prems(1,2)] by auto
  have us: "unat ?s = unat d * 2 ^ Suc j" using Suc.prems(2) by (rule push_bit_unat)
  have qb: "push_bit (Suc j) (1::u64) \<noteq> 0"
    using push_bit_unat [OF fits'] by (auto simp: word_unat_eq_iff)
  note step = div_loop_step [OF qb, of num ?s quot, unfolded drop_bit_push_bit_1 [OF Suc.prems(2)]
      drop_bit_push_bit_1 [OF fits']]
  show ?case
  proof (cases "?s \<le> num")
    case True
    have "unat (num - ?s) < unat d * 2 ^ Suc j"
      using True Suc.prems(3) us by (simp add: unat_sub word_le_nat_alt)
    note IH = Suc.IH [OF Suc.prems(1) fits this, of "quot + push_bit (Suc j) 1"]
    show ?thesis
      using word_div_sub_shifted [OF Suc.prems(1,2) True]
      by (simp only: step True if_True IH add.assoc)
  next
    case False
    then have "unat num < unat d * 2 ^ Suc j" using us by (simp add: word_le_nat_alt)
    note IH = Suc.IH [OF Suc.prems(1) fits this, of quot]
    show ?thesis by (simp only: step False if_False IH)
  qed
qed

section \<open>The normalisation loop ends, with the top bit set\<close>

lemma sint_nonneg_iff: "0 \<le> sint (w::u64) \<longleftrightarrow> unat w < 2 ^ 63"
proof -
  have div2: "unat w div 2 ^ 63 < 2"
    using unat_u64_lt [of w] by (simp add: less_mult_imp_div_less)
  have "0 \<le> sint w \<longleftrightarrow> \<not> bit w 63"
    using bit_last_iff [of w] by auto
  also have "\<dots> \<longleftrightarrow> even (unat w div 2 ^ 63)"
    by (simp only: odd_unat_div [symmetric] not_not)
  also have "\<dots> \<longleftrightarrow> unat w div 2 ^ 63 = 0"
    using div2 by (auto simp: less_2_cases_iff)
  also have "\<dots> \<longleftrightarrow> unat w < 2 ^ 63"
    by (simp add: div_eq_0_iff)
  finally show ?thesis .
qed

lemma left_justify_ends:
  assumes "0 < unat d" "unat d * 2 ^ j < 2 ^ 64"
  shows "\<exists>k. left_justify (push_bit j d) (push_bit j 1) = Some (push_bit k d, push_bit k 1) \<and>
     unat d * 2 ^ k < 2 ^ 64 \<and> 2 ^ 63 \<le> unat d * 2 ^ k"
  using assms
proof (induction "64 - j" arbitrary: j rule: less_induct)
  case less
  have us: "unat (push_bit j d) = unat d * 2 ^ j" using less.prems(2) by (rule push_bit_unat)
  show ?case
  proof (cases "unat d * 2 ^ j < 2 ^ 63")
    case True
    have "(2::nat) ^ j < 2 ^ 63"
      using True less.prems(1) by (metis Suc_leI le_less_trans mult_le_mono1 mult_1 One_nat_def)
    then have "j < 63" by (rule power_less_imp_less_exp [rotated]) simp
    moreover have "unat d * 2 ^ Suc j < 2 ^ 64" using True by simp
    ultimately obtain k where k: "left_justify (push_bit (Suc j) d) (push_bit (Suc j) 1) =
        Some (push_bit k d, push_bit k 1)"
        "unat d * 2 ^ k < 2 ^ 64" "2 ^ 63 \<le> unat d * 2 ^ k"
      using less.hyps [of "Suc j", OF _ less.prems(1)] by fastforce
    have "left_justify (push_bit j d) (push_bit j 1) =
        left_justify (push_bit (Suc j) d) (push_bit (Suc j) 1)"
      using True us
      by (subst left_justify.simps) (simp add: sint_nonneg_iff push_bit_push_bit push_bit_eq_mult
          ac_simps)
    with k show ?thesis by auto
  next
    case False
    then show ?thesis
      using us less.prems(2)
      by (intro exI [of _ j]) (subst left_justify.simps, simp add: sint_nonneg_iff)
  qed
qed

lemma udivmoddi4_zero: "udivmoddi4 num 0 = Some (Inl Divide_error)"
  by (simp add: udivmoddi4_def)

lemma udivmoddi4_nonzero:
  assumes "den \<noteq> 0"
  shows "udivmoddi4 num den = Some (Inr (num div den, num mod den))"
proof -
  have d: "0 < unat den" using assms by (simp add: unat_gt_0)
  obtain k where k: "left_justify den 1 = Some (push_bit k den, push_bit k 1)"
      "unat den * 2 ^ k < 2 ^ 64" "2 ^ 63 \<le> unat den * 2 ^ k"
    using left_justify_ends [OF d, of 0] by auto
  have "2 ^ 64 \<le> 2 * (unat den * 2 ^ k)" using k(3) by simp
  also have "\<dots> = unat den * 2 ^ Suc k" by simp
  finally have "unat num < unat den * 2 ^ Suc k"
    by (rule less_le_trans [rotated]) (use unat_u64_lt [of num] in simp)
  from div_loop_correct [OF d k(2) this, of 0] k(1) assms show ?thesis
    by (simp add: udivmoddi4_def)
qed

text \<open>C22.  For every non-zero denominator the shift-and-subtract division returns, and returns the
  quotient and the remainder; for zero it raises the trap.\<close>

theorem udivmoddi4_correct:
  "udivmoddi4 num den =
     Some (if den = 0 then Inl Divide_error else Inr (num div den, num mod den))"
  by (simp add: udivmoddi4_zero udivmoddi4_nonzero)

section \<open>The signed front ends\<close>

lemma strip_sign_abs: "strip_sign x = (sint x < 0, word_of_int \<bar>sint x\<bar>)"
  by (simp add: strip_sign_def)

lemma abs_sint_bound: "\<bar>sint (x::u64)\<bar> < 2 ^ 64"
  using sint_ge [of x] sint_lt [of x] by simp

lemma word_of_int_eq_0: "word_of_int \<bar>sint (x::u64)\<bar> = (0::u64) \<longleftrightarrow> x = 0"
proof
  assume "word_of_int \<bar>sint x\<bar> = (0::u64)"
  then have "uint (word_of_int \<bar>sint x\<bar> :: u64) = 0" by simp
  then have "\<bar>sint x\<bar> mod 2 ^ 64 = 0" by (simp add: uint_word_of_int)
  then have "sint x = 0" using abs_sint_bound [of x] by simp
  then show "x = 0" by (simp add: signed_eq_0_iff)
qed simp

lemma word_div_of_int:
  "0 \<le> a \<Longrightarrow> 0 \<le> b \<Longrightarrow> a < 2 ^ 64 \<Longrightarrow> b < 2 ^ 64 \<Longrightarrow>
     word_of_int a div word_of_int b = (word_of_int (a div b) :: u64)"
  by (simp add: word_div_def uint_word_of_int)

lemma word_mod_of_int:
  "0 \<le> a \<Longrightarrow> 0 \<le> b \<Longrightarrow> a < 2 ^ 64 \<Longrightarrow> b < 2 ^ 64 \<Longrightarrow>
     word_of_int a mod word_of_int b = (word_of_int (a mod b) :: u64)"
  by (simp add: word_mod_def uint_word_of_int)

text \<open>C40.  The signed division truncates towards zero, as C prescribes, for every non-zero
  denominator (the overflowing \<open>INT64_MIN / -1\<close> wraps to \<open>INT64_MIN\<close>).\<close>

theorem divdi3_truncates:
  "divdi3 num den = Some (if den = 0 then Inl Divide_error
                          else Inr (word_of_int (sint num sdiv sint den)))"
  using abs_sint_bound [of num] abs_sint_bound [of den]
  by (auto simp: divdi3_def strip_sign_abs udivmoddi4_zero udivmoddi4_nonzero word_of_int_eq_0
      word_div_of_int signed_divide_int_def sgn_if)

text \<open>
  What \<open>__moddi3\<close> computes: the magnitude of the remainder, with a minus sign when exactly one
  operand is negative.
\<close>

lemma moddi3_value:
  "den \<noteq> 0 \<Longrightarrow> moddi3 num den = Some (Inr (word_of_int
     ((if (sint num < 0) \<noteq> (sint den < 0) then - 1 else 1) * (\<bar>sint num\<bar> mod \<bar>sint den\<bar>))))"
  using abs_sint_bound [of num] abs_sint_bound [of den]
  by (auto simp: moddi3_def strip_sign_abs udivmoddi4_nonzero word_of_int_eq_0 word_mod_of_int)

lemma smod_value:
  "word_of_int (a smod b) =
     (word_of_int ((if a < 0 then - 1 else 1) * (\<bar>a\<bar> mod \<bar>b\<bar>)) :: u64)"
  by (auto simp: signed_modulo_int_def sgn_if)

lemma neg_word_eq_self:
  assumes "0 \<le> r" "r < 2 ^ 63" "word_of_int r = (- word_of_int r :: u64)"
  shows "r = 0"
proof -
  have "word_of_int (2 * r) = (word_of_int r + word_of_int r :: u64)" by simp
  also have "\<dots> = 0" using assms(3) by (metis add.right_inverse)
  finally have "uint (word_of_int (2 * r) :: u64) = 0" by (simp only: uint_0_eq)
  then have "2 * r mod 2 ^ 64 = 0" by (simp only: uint_word_of_int take_bit_eq_mod) simp
  with assms(1,2) show ?thesis by simp
qed

text \<open>C23.  \<open>__moddi3\<close> agrees with C's \<open>%\<close> (remainder with the sign of the dividend)
  exactly when the divisor is positive or divides the dividend: toggling \<open>minus\<close> for a
  negative divisor gives the remainder the wrong sign, e.g. \<open>7 % -2\<close> comes out as -1.\<close>

theorem moddi3_agrees_iff:
  assumes "den \<noteq> 0"
  shows "moddi3 num den = Some (Inr (word_of_int (sint num smod sint den))) \<longleftrightarrow>
     0 < sint den \<or> sint den dvd sint num"
proof -
  let ?r = "\<bar>sint num\<bar> mod \<bar>sint den\<bar>"
  have den0: "sint den \<noteq> 0" using assms by (simp add: signed_eq_0_iff)
  have "\<bar>sint den\<bar> \<le> 2 ^ 63" using sint_ge [of den] sint_lt [of den] by simp
  then have r: "0 \<le> ?r" "?r < 2 ^ 63"
    using den0 by (simp, intro less_le_trans [OF pos_mod_bound]) simp_all
  have dvd: "?r = 0 \<longleftrightarrow> sint den dvd sint num" by (metis abs_dvd_iff dvd_abs_iff mod_eq_0_iff_dvd)
  show ?thesis
    unfolding moddi3_value [OF assms] smod_value
    using neg_word_eq_self [OF r] den0 dvd by (auto simp: minus_equation_iff [of _ "word_of_int ?r"])
qed

theorem moddi3_agrees_iff_witness:
  "moddi3 7 (- 2) \<noteq> Some (Inr (word_of_int (sint (7::u64) smod sint (- 2::u64)))) \<and>
   moddi3 (- 7) 2 = Some (Inr (word_of_int (sint (- 7::u64) smod sint (2::u64))))"
  using moddi3_agrees_iff [of "- 2" 7] moddi3_agrees_iff [of 2 "- 7"] by simp

end
