(* ===== verification/Cstring.thy ===== *)
theory Cstring
  imports Prelude "HOL-Library.List_Lexorder"
begin

text \<open>
  The C string routines of \<open>libcomcore\<close> and the case-insensitive comparisons of
  \<open>libcore\<close>, over byte objects.  A \<open>const char *\<close> is the suffix of its object that
  starts at the pointer, a \<open>char *\<close> that is written through is the whole destination object.
  \<open>None\<close> is a read or write outside the object: a missing terminator or a destination that is
  too short.  Source and destination are distinct objects.
\<close>

section \<open>What a C string is\<close>

definition cstr :: "bytes \<Rightarrow> bytes" where
  "cstr s = takeWhile (\<lambda>c. c \<noteq> 0) s"

definition is_cstr :: "bytes \<Rightarrow> bool" where
  "is_cstr s \<longleftrightarrow> 0 \<in> set s"

lemma cstr_simps [simp]:
  "cstr [] = []"
  "cstr (c # s) = (if c = 0 then [] else c # cstr s)"
  by (simp_all add: cstr_def)

lemma is_cstr_simps [simp]:
  "\<not> is_cstr []"
  "is_cstr (c # s) \<longleftrightarrow> c = 0 \<or> is_cstr s"
  by (auto simp: is_cstr_def)

lemma cstr_no_nul [simp]: "0 \<notin> set (cstr s)"
  by (induction s) auto

lemma cstr_append_nul [simp]: "0 \<notin> set s \<Longrightarrow> cstr (s @ 0 # t) = s"
  by (induction s) auto

lemma is_cstr_append_nul [simp]: "is_cstr (s @ 0 # t)"
  by (simp add: is_cstr_def)

lemma is_cstr_split: "is_cstr s \<Longrightarrow> \<exists>t. s = cstr s @ 0 # t"
  by (induction s) auto

lemma length_cstr_less: "is_cstr s \<Longrightarrow> length (cstr s) < length s"
  by (induction s) auto

section \<open>Length and search\<close>

fun strlen :: "bytes \<Rightarrow> nat option" where
  "strlen [] = None"
| "strlen (c # ss) = (if c \<noteq> 0 then map_option Suc (strlen ss) else Some 0)"

text \<open>\<open>strchr\<close> gives the offset of the character from the start, or \<open>Some None\<close> for NULL.\<close>

fun strchr :: "bytes \<Rightarrow> u8 \<Rightarrow> nat option option" where
  "strchr [] c = None"
| "strchr (x # s) c =
     (if x \<noteq> c then (if x = 0 then Some None else map_option (map_option Suc) (strchr s c))
      else Some (Some 0))"

lemma strlen_cstr: "strlen s = (if is_cstr s then Some (length (cstr s)) else None)"
  by (induction s) auto

lemma strlen_append_nul [simp]: "0 \<notin> set s \<Longrightarrow> strlen (s @ 0 # t) = Some (length s)"
  by (simp add: strlen_cstr)

lemma strchr_Some: "strchr s c = Some (Some i) \<Longrightarrow>
    i < length s \<and> s ! i = c \<and> c \<notin> set (take i s) \<and> 0 \<notin> set (take i s)"
proof (induction s arbitrary: i)
  case (Cons x s)
  then show ?case by (cases i) (auto split: if_splits)
qed simp

lemma strchr_None: "strchr s c = Some None \<Longrightarrow> is_cstr s \<and> c \<notin> set (cstr s) \<and> c \<noteq> 0"
  by (induction s) (auto split: if_splits)

lemma strchr_defined: "is_cstr s \<Longrightarrow> strchr s c \<noteq> None"
  by (induction s) auto

text \<open>On a terminated string \<open>strchr\<close> stays inside the object and returns the first
  position of the character (the terminator included), or NULL exactly when it does not occur.\<close>

theorem strchr_first:
  assumes "is_cstr s"
  shows "strchr s c =
    Some (if c \<in> set (cstr s) \<or> c = 0 then Some (length (takeWhile (\<lambda>x. x \<noteq> c) (cstr s))) else None)"
  using assms by (induction s) auto

theorem strchr_first_witness:
  "is_cstr [47, 97, 0] \<and> strchr [47, 97, 0] 97 = Some (Some 1)"
  using strchr_first [of "[47, 97, 0]" 97] by simp

section \<open>Comparison\<close>

fun memcmp_loop :: "bytes \<Rightarrow> bytes \<Rightarrow> nat \<Rightarrow> int \<Rightarrow> int option" where
  "memcmp_loop c1 c2 0 d = Some d"
| "memcmp_loop (a # c1) (b # c2) (Suc n) d =
     (let d = uint a - uint b in if d \<noteq> 0 then Some d else memcmp_loop c1 c2 n d)"
| "memcmp_loop _ _ (Suc n) d = None"

definition memcmp :: "bytes \<Rightarrow> bytes \<Rightarrow> nat \<Rightarrow> int option" where
  "memcmp s1 s2 n = memcmp_loop s1 s2 n 0"

fun strcmp :: "bytes \<Rightarrow> bytes \<Rightarrow> int option" where
  "strcmp (a # c1) (b # c2) =
     (let d = uint a - uint b in if d \<noteq> 0 \<or> a = 0 then Some d else strcmp c1 c2)"
| "strcmp _ _ = None"

fun strncmp_loop :: "bytes \<Rightarrow> bytes \<Rightarrow> nat \<Rightarrow> int \<Rightarrow> int option" where
  "strncmp_loop c1 c2 0 d = Some d"
| "strncmp_loop (a # c1) (b # c2) (Suc n) d =
     (let d = uint a - uint b in if d \<noteq> 0 \<or> a = 0 then Some d else strncmp_loop c1 c2 n d)"
| "strncmp_loop _ _ (Suc n) d = None"

definition strncmp :: "bytes \<Rightarrow> bytes \<Rightarrow> nat \<Rightarrow> int option" where
  "strncmp s1 s2 n = strncmp_loop s1 s2 n 0"

text \<open>\<open>toupper\<close> and \<open>tolower\<close> of \<open>ctype.h\<close>: ASCII only, other values pass through.\<close>

definition toupper :: "int \<Rightarrow> int" where
  "toupper c = (if c \<ge> 97 \<and> c \<le> 122 then c - 32 else c)"

definition tolower :: "int \<Rightarrow> int" where
  "tolower c = (if c \<ge> 65 \<and> c \<le> 90 then c + 32 else c)"

fun strncasecmp_loop :: "bytes \<Rightarrow> bytes \<Rightarrow> nat \<Rightarrow> int \<Rightarrow> int option" where
  "strncasecmp_loop c1 c2 0 d = Some d"
| "strncasecmp_loop (a # c1) (b # c2) (Suc n) d =
     (let d = toupper (uint a) - toupper (uint b)
      in if d \<noteq> 0 \<or> a = 0 then Some d else strncasecmp_loop c1 c2 n d)"
| "strncasecmp_loop _ _ (Suc n) d = None"

definition strncasecmp :: "bytes \<Rightarrow> bytes \<Rightarrow> nat \<Rightarrow> int option" where
  "strncasecmp s1 s2 n = strncasecmp_loop s1 s2 n 0"

text \<open>\<open>strcasecmp\<close> passes \<open>-1\<close> as the \<open>size_t\<close> bound, which is \<open>2 ^ 32 - 1\<close>.\<close>

definition strcasecmp :: "bytes \<Rightarrow> bytes \<Rightarrow> int option" where
  "strcasecmp s1 s2 = strncasecmp s1 s2 (2 ^ 32 - 1)"

lemma uint_u8_eq [simp]: "uint a = uint b \<longleftrightarrow> a = (b::u8)"
  by (simp add: word_uint_eq_iff)

lemma uint_u8_less [simp]: "uint a < uint b \<longleftrightarrow> a < (b::u8)"
  by (simp add: word_less_def)

lemma uint_u8_0 [simp]: "uint (a::u8) = 0 \<longleftrightarrow> a = 0" "0 < uint (a::u8) \<longleftrightarrow> a \<noteq> 0"
  by (auto simp: word_gt_0_no uint_0_iff order_less_le)

lemma memcmp_equal_iff:
  "n \<le> length s1 \<Longrightarrow> n \<le> length s2 \<Longrightarrow> memcmp s1 s2 n = Some 0 \<longleftrightarrow> take n s1 = take n s2"
proof -
  have "n \<le> length s1 \<Longrightarrow> n \<le> length s2 \<Longrightarrow>
      memcmp_loop s1 s2 n 0 = Some 0 \<longleftrightarrow> take n s1 = take n s2"
    by (induction s1 s2 n "0::int" rule: memcmp_loop.induct) (auto simp: Let_def)
  then show "n \<le> length s1 \<Longrightarrow> n \<le> length s2 \<Longrightarrow> ?thesis" by (simp add: memcmp_def)
qed

lemma memcmp_defined:
  "n \<le> length s1 \<Longrightarrow> n \<le> length s2 \<Longrightarrow> \<exists>d. memcmp s1 s2 n = Some d"
proof -
  have "n \<le> length s1 \<Longrightarrow> n \<le> length s2 \<Longrightarrow> \<exists>d'. memcmp_loop s1 s2 n d = Some d'" for d
    by (induction s1 s2 n d rule: memcmp_loop.induct) (auto simp: Let_def)
  then show "n \<le> length s1 \<Longrightarrow> n \<le> length s2 \<Longrightarrow> ?thesis" by (simp add: memcmp_def)
qed

lemma strcmp_lex:
  "is_cstr s1 \<Longrightarrow> is_cstr s2 \<Longrightarrow> \<exists>d. strcmp s1 s2 = Some d \<and>
     (d = 0 \<longleftrightarrow> cstr s1 = cstr s2) \<and> (d < 0 \<longleftrightarrow> cstr s1 < cstr s2)"
proof (induction s1 s2 rule: strcmp.induct)
  case (1 a c1 b c2)
  then show ?case
    by (cases "a = b"; cases "a = 0"; cases "b = 0")
      (auto simp: Let_def word_neq_0_conv)
qed simp_all

text \<open>On terminated strings \<open>strcmp\<close> never leaves the objects and its sign is the
  lexicographic order of the strings as unsigned bytes.\<close>

theorem strcmp_lexicographic:
  assumes "is_cstr s1" "is_cstr s2"
  shows "\<exists>d. strcmp s1 s2 = Some d \<and>
    (d = 0 \<longleftrightarrow> cstr s1 = cstr s2) \<and> (d < 0 \<longleftrightarrow> cstr s1 < cstr s2) \<and> (0 < d \<longleftrightarrow> cstr s2 < cstr s1)"
  using strcmp_lex [OF assms] by (metis linorder_less_linear order.asym order.irrefl)

theorem strcmp_lexicographic_witness:
  "\<exists>d. strcmp [97, 98, 0] [97, 200, 0, 1] = Some d \<and> d < 0"
  using strcmp_lexicographic [of "[97, 98, 0]" "[97, 200, 0, 1]"] by auto

lemma strncmp_upto:
  "is_cstr s1 \<Longrightarrow> is_cstr s2 \<Longrightarrow> \<exists>d. strncmp_loop s1 s2 n 0 = Some d \<and>
     (d = 0 \<longleftrightarrow> take n (cstr s1) = take n (cstr s2))"
  by (induction s1 s2 n "0::int" rule: strncmp_loop.induct) (auto simp: Let_def)

lemma strncmp_equal_iff:
  "is_cstr s1 \<Longrightarrow> is_cstr s2 \<Longrightarrow> strncmp s1 s2 n = Some 0 \<longleftrightarrow> take n (cstr s1) = take n (cstr s2)"
  using strncmp_upto [of s1 s2 n] by (auto simp: strncmp_def)

lemma strncmp_defined:
  "is_cstr s1 \<Longrightarrow> is_cstr s2 \<Longrightarrow> \<exists>d. strncmp s1 s2 n = Some d"
  using strncmp_upto [of s1 s2 n] by (auto simp: strncmp_def)

definition upcase :: "u8 \<Rightarrow> int" where
  "upcase c = toupper (uint c)"

lemma upcase_0 [simp]: "upcase 0 = 0"
  by (simp add: upcase_def toupper_def)

lemma upcase_eq_0 [simp]: "upcase c = 0 \<longleftrightarrow> c = 0"
  by (auto simp: upcase_def toupper_def)

lemma strncasecmp_upto:
  "is_cstr s1 \<Longrightarrow> is_cstr s2 \<Longrightarrow> \<exists>d. strncasecmp_loop s1 s2 n 0 = Some d \<and>
     (d = 0 \<longleftrightarrow> map upcase (take n (cstr s1)) = map upcase (take n (cstr s2)))"
proof (induction s1 s2 n "0::int" rule: strncasecmp_loop.induct)
  case (2 a c1 b c2 n)
  then show ?case
    using upcase_eq_0 [of a] upcase_eq_0 [of b]
    by (cases "upcase a = upcase b") (auto simp: Let_def simp flip: upcase_def)
qed simp_all

lemma strcasecmp_fold:
  assumes "is_cstr s1" "is_cstr s2" "length s1 < 2 ^ 32" "length s2 < 2 ^ 32"
  shows "\<exists>d. strcasecmp s1 s2 = Some d \<and> (d = 0 \<longleftrightarrow> map upcase (cstr s1) = map upcase (cstr s2))"
proof -
  have "length (cstr s1) \<le> 2 ^ 32 - 1" "length (cstr s2) \<le> 2 ^ 32 - 1"
    using assms length_cstr_less [of s1] length_cstr_less [of s2] by simp_all
  then show ?thesis
    using strncasecmp_upto [OF assms(1,2), of "2 ^ 32 - 1"]
    by (simp only: strcasecmp_def strncasecmp_def take_all)
qed

section \<open>Copying\<close>

text \<open>The result is the destination object afterwards; \<open>stpcpy\<close> adds the end offset.\<close>

fun strcpy :: "bytes \<Rightarrow> bytes \<Rightarrow> bytes option" where
  "strcpy (q # dst) (ch # p) =
     (if ch \<noteq> 0 then map_option ((#) ch) (strcpy dst p) else Some (ch # dst))"
| "strcpy _ _ = None"

fun stpcpy :: "bytes \<Rightarrow> bytes \<Rightarrow> (bytes \<times> nat) option" where
  "stpcpy (q # dst) (ch # p) =
     (if ch = 0 then Some (ch # dst, 0)
      else map_option (\<lambda>(dst', e). (ch # dst', Suc e)) (stpcpy dst p))"
| "stpcpy _ _ = None"

fun strncpy :: "bytes \<Rightarrow> bytes \<Rightarrow> nat \<Rightarrow> bytes option" where
  "strncpy dst src 0 = Some dst"
| "strncpy (q # dst) (ch # p) (Suc n) =
     (if ch = 0 then Some (ch # dst) else map_option ((#) ch) (strncpy dst p n))"
| "strncpy _ _ (Suc n) = None"

text \<open>
  The loop \<open>while ((ch = *p++)) { if (bytes < size) *q++ = ch; bytes++; }\<close> shared by
  \<open>strlcpy\<close> and \<open>strlcat\<close>: \<open>q\<close> is the write offset into the destination.
\<close>

fun strl_loop :: "bytes \<Rightarrow> nat \<Rightarrow> nat \<Rightarrow> bytes \<Rightarrow> nat \<Rightarrow> (bytes \<times> nat \<times> nat) option" where
  "strl_loop dst q b [] sz = None"
| "strl_loop dst q b (ch # p) sz =
     (if ch = 0 then Some (dst, q, b)
      else if b < sz then do { dst' \<leftarrow> wr dst q ch; strl_loop dst' (q + 1) (b + 1) p sz }
      else strl_loop dst q (b + 1) p sz)"

definition strlcpy :: "bytes \<Rightarrow> bytes \<Rightarrow> nat \<Rightarrow> (bytes \<times> nat) option" where
  "strlcpy dst src sz =
     do { (dst, q, b) \<leftarrow> strl_loop dst 0 0 src sz; dst \<leftarrow> wr dst q 0; Some (dst, b) }"

text \<open>\<open>while (bytes < size && *q) { q++; bytes++; }\<close>\<close>

fun strlcat_end :: "bytes \<Rightarrow> nat \<Rightarrow> nat \<Rightarrow> nat option" where
  "strlcat_end dst b 0 = Some b"
| "strlcat_end [] b (Suc n) = None"
| "strlcat_end (c # q) b (Suc n) = (if c \<noteq> 0 then strlcat_end q (b + 1) n else Some b)"

definition strlcat :: "bytes \<Rightarrow> bytes \<Rightarrow> nat \<Rightarrow> (bytes \<times> nat) option" where
  "strlcat dst src sz =
     do { b \<leftarrow> strlcat_end dst 0 sz;
          (dst, q, b) \<leftarrow> strl_loop dst b b src sz; dst \<leftarrow> wr dst q 0; Some (dst, b) }"

lemma strcpy_value:
  "is_cstr src \<Longrightarrow> strcpy dst src =
     (if length (cstr src) < length dst
      then Some (cstr src @ 0 # drop (Suc (length (cstr src))) dst) else None)"
  by (induction dst src rule: strcpy.induct) auto

lemma stpcpy_value:
  "is_cstr src \<Longrightarrow> stpcpy dst src =
     (if length (cstr src) < length dst
      then Some (cstr src @ 0 # drop (Suc (length (cstr src))) dst, length (cstr src)) else None)"
  by (induction dst src rule: stpcpy.induct) auto

text \<open>\<open>strcpy\<close> of a terminated string returns exactly when the destination object has room
  for the string and its terminator; it then holds the string, and the bytes behind it are
  untouched.\<close>

theorem strcpy_exact:
  assumes "is_cstr src"
  shows "strcpy dst src =
    (if length (cstr src) < length dst
     then Some (cstr src @ 0 # drop (Suc (length (cstr src))) dst) else None)"
  using assms by (rule strcpy_value)

theorem strcpy_exact_witness:
  "strcpy [1, 2, 3, 4] [97, 0, 9] = Some [97, 0, 3, 4]"
  using strcpy_exact [of "[97, 0, 9]" "[1, 2, 3, 4]"] by simp

lemma strncpy_value:
  "is_cstr src \<Longrightarrow> strncpy dst src n =
     (if length (cstr src) < n
      then (if length (cstr src) < length dst
            then Some (cstr src @ 0 # drop (Suc (length (cstr src))) dst) else None)
      else if n \<le> length dst then Some (take n (cstr src) @ drop n dst) else None)"
  by (induction dst src n rule: strncpy.induct) auto

section \<open>Truncating copies\<close>

lemma strl_loop_full:
  "is_cstr src \<Longrightarrow> sz \<le> b \<Longrightarrow> strl_loop dst q b src sz = Some (dst, q, b + length (cstr src))"
  by (induction dst q b src sz rule: strl_loop.induct) auto

lemma list_update_append_take:
  "q < length dst \<Longrightarrow> take (Suc q) (dst[q := x]) = take q dst @ [x]"
  by (simp add: take_Suc_conv_app_nth)

lemma strl_loop_value:
  "is_cstr src \<Longrightarrow> q + min (length (cstr src)) (sz - b) \<le> length dst \<Longrightarrow>
   strl_loop dst q b src sz =
     Some (take q dst @ take (sz - b) (cstr src) @ drop (q + min (length (cstr src)) (sz - b)) dst,
       q + min (length (cstr src)) (sz - b), b + length (cstr src))"
proof (induction dst q b src sz rule: strl_loop.induct)
  case (2 dst q b ch p sz)
  show ?case
  proof (cases "ch = 0")
    case False
    show ?thesis
    proof (cases "b < sz")
      case True
      then obtain m where m: "sz - b = Suc m" "sz - Suc b = m"
        by (metis Suc_diff_Suc)
      have "q < length dst" using "2.prems"(2) False True m by simp
      with False True 2 m show ?thesis
        by (simp add: list_update_append_take)
    next
      case b: False
      with False 2 show ?thesis by (simp add: strl_loop_full)
    qed
  qed simp
qed simp

lemma strl_loop_overrun:
  "is_cstr src \<Longrightarrow> q \<le> length dst \<Longrightarrow> length dst < q + min (length (cstr src)) (sz - b) \<Longrightarrow>
   strl_loop dst q b src sz = None"
proof (induction dst q b src sz rule: strl_loop.induct)
  case (2 dst q b ch p sz)
  show ?case
  proof (cases "ch = 0 \<or> \<not> b < sz \<or> \<not> q < length dst")
    case True
    with "2.prems" show ?thesis by (auto simp: wr_def)
  next
    case False
    then obtain m where "sz - b = Suc m" "sz - Suc b = m"
      by (metis Suc_diff_Suc)
    with False 2 show ?thesis by simp
  qed
qed simp

text \<open>C28.  \<open>strlcpy\<close> needs one byte more than its \<open>size\<close> argument says: it returns exactly when
  the destination object is longer than \<open>min(strlen(src), size)\<close>, and writes its terminator at
  that offset.  So a source of \<open>size\<close> characters or more makes it write \<open>dst[size]\<close>, one past
  a buffer of \<open>size\<close> bytes.\<close>

theorem strlcpy_needs_extra_byte:
  assumes "is_cstr src"
  shows "strlcpy dst src sz =
    (let k = min (length (cstr src)) sz in
     if k < length dst then Some (take k (cstr src) @ 0 # drop (Suc k) dst, length (cstr src))
     else None)"
proof -
  let ?k = "min (length (cstr src)) sz"
  show ?thesis
  proof (cases "?k \<le> length dst")
    case True
    have tk: "take sz (cstr src) = take ?k (cstr src)" by (simp add: min_def)
    have "strl_loop dst 0 0 src sz = Some (take ?k (cstr src) @ drop ?k dst, ?k, length (cstr src))"
      using strl_loop_value [OF assms, of 0 sz 0 dst] True by (simp add: tk)
    moreover have "(take ?k (cstr src) @ drop ?k dst)[?k := 0] =
        take ?k (cstr src) @ 0 # drop (Suc ?k) dst" if "?k < length dst"
      using that by (simp add: list_update_append Cons_nth_drop_Suc [OF that, symmetric])
    ultimately show ?thesis
      using True by (simp add: strlcpy_def wr_def Let_def)
  next
    case False
    then show ?thesis
      using strl_loop_overrun [OF assms, of 0 dst sz 0] by (auto simp: strlcpy_def Let_def min_def)
  qed
qed

theorem strlcpy_needs_extra_byte_witness:
  "strlcpy [0, 0] [97, 98, 99, 0] 2 = None \<and> strlcpy [0, 0, 0] [97, 98, 99, 0] 2 = Some ([97, 98, 0], 3)"
  using strlcpy_needs_extra_byte [of "[97, 98, 99, 0]" "[0, 0]" 2]
    strlcpy_needs_extra_byte [of "[97, 98, 99, 0]" "[0, 0, 0]" 2] by simp

lemma strlcat_end_value:
  "strlcat_end dst b n =
     (if is_cstr dst \<and> length (cstr dst) < n then Some (b + length (cstr dst))
      else if n \<le> length (cstr dst) then Some (b + n) else None)"
  by (induction dst b n rule: strlcat_end.induct) auto

lemma strlcat_appends:
  assumes "is_cstr dst" "is_cstr src" "length (cstr dst) + length (cstr src) < sz" "sz \<le> length dst"
  shows "\<exists>rest. strlcat dst src sz =
    Some (cstr dst @ cstr src @ 0 # rest, length (cstr dst) + length (cstr src))"
proof -
  let ?b = "length (cstr dst)" and ?n = "length (cstr src)"
  have "strlcat_end dst 0 sz = Some ?b"
    using assms by (simp add: strlcat_end_value)
  moreover have tk: "take ?b dst = cstr dst"
    using is_cstr_split [OF assms(1)] by (metis append_eq_conv_conj)
  have "strl_loop dst ?b ?b src sz = Some (cstr dst @ cstr src @ drop (?b + ?n) dst, ?b + ?n, ?b + ?n)"
    using strl_loop_value [OF assms(2), of ?b sz ?b dst] assms(3,4) by (simp add: tk)
  moreover have "drop (?b + ?n) dst = dst ! (?b + ?n) # drop (Suc (?b + ?n)) dst"
    using assms(3,4) by (simp add: Cons_nth_drop_Suc)
  ultimately show ?thesis
    using assms(3,4) by (simp add: strlcat_def wr_def list_update_append)
qed

section \<open>Duplicating\<close>

text \<open>
  \<open>strdup\<close> and \<open>zalloc\<close> over an allocator \<open>alloc\<close>: \<open>alloc n = None\<close> is a NULL result,
  otherwise it gives a fresh object.  The outer \<open>option\<close> is undefined behaviour as before.
\<close>

definition strdup :: "(nat \<Rightarrow> bytes option) \<Rightarrow> bytes \<Rightarrow> bytes option option" where
  "strdup alloc s =
     do { n \<leftarrow> strlen s;
          let l = n + 1;
          case alloc l of
            None \<Rightarrow> Some None
          | Some d \<Rightarrow> do { src \<leftarrow> rd_range s 0 l; d \<leftarrow> wr_range d 0 src; Some (Some d) } }"

definition zalloc :: "(nat \<Rightarrow> bytes option) \<Rightarrow> nat \<Rightarrow> bytes option option" where
  "zalloc alloc sz =
     (case alloc sz of
        None \<Rightarrow> Some None
      | Some p \<Rightarrow> map_option Some (wr_range p 0 (replicate sz 0)))"

lemma strdup_copies:
  assumes "is_cstr s" "alloc (Suc (length (cstr s))) = Some d" "Suc (length (cstr s)) \<le> length d"
  shows "\<exists>d'. strdup alloc s = Some (Some d') \<and> is_cstr d' \<and> cstr d' = cstr s \<and> length d' = length d"
proof -
  obtain t where s: "s = cstr s @ 0 # t" using is_cstr_split [OF assms(1)] by blast
  have "take (Suc (length (cstr s))) s = cstr s @ [0]"
    by (subst s) simp
  moreover have "Suc (length (cstr s)) \<le> length s"
    using length_cstr_less [OF assms(1)] by simp
  ultimately show ?thesis
    using assms by (auto simp: strdup_def strlen_cstr wr_range_def)
qed

lemma strdup_fails:
  "is_cstr s \<Longrightarrow> alloc (Suc (length (cstr s))) = None \<Longrightarrow> strdup alloc s = Some None"
  by (simp add: strdup_def strlen_cstr)

lemma zalloc_zero:
  "alloc sz = Some p \<Longrightarrow> sz \<le> length p \<Longrightarrow>
   zalloc alloc sz = Some (Some (replicate sz 0 @ drop sz p))"
  by (simp add: zalloc_def wr_range_def)

end
