(* ===== verification/Rllpack.thy ===== *)
theory Rllpack
  imports Prelude
begin

text \<open>
  The run-length compressor of \<open>libcore/rllpack.c\<close>, which packs the memory-move descriptors
  into high memory.  The packer reads \<open>cnt\<close> bytes upwards from ESI and writes downwards from
  EDI; the unpacker reads downwards from ESI and writes upwards from EDI.  The packed area is
  modelled by the list of its bytes in the order in which they are written, that is, from the
  highest address down, which is also the order in which the unpacker reads them.  The two
  areas are disjoint.  \<open>hdr\<close>, the pointer to the header of the current verbatim group, is an index
  into that list.  A 16-bit store at the lowered pointer puts the high byte at the higher
  address, so it appends the high byte and then the low byte.
\<close>

section \<open>The packer\<close>

text \<open>\<open>while (run < tcnt && i[run] == c) run++;\<close>\<close>

function count_run :: "bytes \<Rightarrow> u8 \<Rightarrow> nat \<Rightarrow> nat \<Rightarrow> nat" where
  "count_run i c run tcnt =
     (if run < tcnt \<and> i ! run = c then count_run i c (run + 1) tcnt else run)"
  by pat_completeness auto
termination by (relation "measure (\<lambda>(i, c, run, tcnt). tcnt - run)") auto

declare count_run.simps [simp del]

lemma count_run_bounds:
  "run \<le> tcnt \<Longrightarrow> run \<le> count_run i c run tcnt \<and> count_run i c run tcnt \<le> tcnt"
proof (induction i c run tcnt rule: count_run.induct)
  case (1 i c run tcnt)
  then show ?case by (subst (1 2) count_run.simps) auto
qed

lemma count_run_same:
  "run \<le> k \<Longrightarrow> k < count_run i c run tcnt \<Longrightarrow> i ! k = c"
proof (induction i c run tcnt rule: count_run.induct)
  case (1 i c run tcnt)
  then show ?case
    by (cases "k = run") (auto simp: count_run.simps [of i c run tcnt] split: if_splits)
qed

text \<open>
  The state of the packing loop: the bytes still to read, the packed bytes, the header index
  and \<open>vrun\<close>, the length of the open verbatim group.  \<open>None\<close> as header is the initial NULL;
  \<open>vrun = (size_t)-1\<close>, which is at least 128, forces a new group.
\<close>

definition no_vrun :: nat where
  "no_vrun = 2 ^ 32 - 1"

function pack_loop :: "bytes \<Rightarrow> bytes \<Rightarrow> nat option \<Rightarrow> nat \<Rightarrow> bytes option" where
  "pack_loop i out hdr vrun =
     (if i = [] then Some out
      else let c = i ! 0; cnt = length i;
               tcnt = (if cnt > 8191 then 8191 else cnt);
               run = count_run i c 1 tcnt
           in if run < 3
              then let (out, hdr, vrun) =
                         (if vrun \<ge> 128 then (out @ [0], Some (length out), 0)
                          else (out, hdr, vrun));
                       out = out @ [c]; vrun = vrun + 1
                   in case hdr of
                        None \<Rightarrow> None
                      | Some h \<Rightarrow>
                          do { out \<leftarrow> wr out h (word_of_nat vrun);
                               pack_loop (drop 1 i) out hdr vrun }
              else let out = (if run < 224 - 126 then out @ [word_of_nat (run + 126)]
                              else let w = word_of_nat (run + 224 * 256) :: u16
                                   in out @ [ucast (drop_bit 8 w), ucast w]);
                       out = out @ [c]
                   in pack_loop (drop run i) out hdr no_vrun)"
  by pat_completeness auto
termination
  by (relation "measure (\<lambda>(i, out, hdr, vrun). length i)") (auto split: if_splits)

declare pack_loop.simps [simp del]

text \<open>\<open>rllpack\<close>: the packed bytes, ending with the zero that stops the unpacker.\<close>

definition rllpack :: "bytes \<Rightarrow> bytes option" where
  "rllpack src = do { out \<leftarrow> pack_loop src [] None no_vrun; Some (out @ [0]) }"

section \<open>The unpacker\<close>

text \<open>
  Reading past the packed bytes is \<open>None\<close>.  The result is the output and the packed bytes
  that were not consumed (where the returned ESI points).
\<close>

function unpack_loop :: "bytes \<Rightarrow> bytes \<Rightarrow> (bytes \<times> bytes) option" where
  "unpack_loop i out =
     (case i of
        [] \<Rightarrow> None
      | c # i \<Rightarrow>
          if c = 0 then Some (out, i)
          else if unat c \<le> 128
            then do { v \<leftarrow> rd_range i 0 (unat c); unpack_loop (drop (unat c) i) (out @ v) }
          else if unat c < 224
            then (case i of
                    [] \<Rightarrow> None
                  | b # i \<Rightarrow> unpack_loop i (out @ replicate (unat c - 126) b))
          else (case i of
                  l # b # i \<Rightarrow> unpack_loop i (out @ replicate ((unat c - 224) * 256 + unat l) b)
                | _ \<Rightarrow> None))"
  by pat_completeness auto
termination
  by (relation "measure (\<lambda>(i, out). length i)") (auto simp: rd_range_def split: if_splits)

declare unpack_loop.simps [simp del]

definition rllunpack :: "bytes \<Rightarrow> (bytes \<times> bytes) option" where
  "rllunpack packed = unpack_loop packed []"

section \<open>Round trip\<close>

text \<open>
  The unpacker on a closed prefix: \<open>unpacks_to p xs\<close> says that the group sequence \<open>p\<close> expands to
  \<open>xs\<close>, whatever follows.
\<close>

definition unpacks_to :: "bytes \<Rightarrow> bytes \<Rightarrow> bool" where
  "unpacks_to p xs \<longleftrightarrow> (\<forall>rest out. unpack_loop (p @ rest) out = unpack_loop rest (out @ xs))"

lemma unpacks_to_Nil: "unpacks_to [] []"
  by (simp add: unpacks_to_def)

lemma unpacks_to_append:
  "unpacks_to p xs \<Longrightarrow> unpacks_to q ys \<Longrightarrow> unpacks_to (p @ q) (xs @ ys)"
  by (simp add: unpacks_to_def)

lemma unpacks_to_verbatim:
  assumes "vs \<noteq> []" "length vs \<le> 128"
  shows "unpacks_to (word_of_nat (length vs) # vs) vs"
proof -
  have "unat (word_of_nat (length vs) :: u8) = length vs"
    using assms(2) by (simp add: unat_of_nat)
  moreover from this have "(word_of_nat (length vs) :: u8) \<noteq> 0"
    using assms(1) by (auto simp: unat_eq_0 simp flip: unat_eq_0)
  ultimately show ?thesis
    using assms by (simp add: unpacks_to_def unpack_loop.simps [of "_ # _"])
qed

lemma unpacks_to_short_run:
  assumes "3 \<le> n" "n < 98"
  shows "unpacks_to [word_of_nat (n + 126), c] (replicate n c)"
proof -
  have u: "unat (word_of_nat (n + 126) :: u8) = n + 126"
    using assms by (subst unat_of_nat) simp
  then have "(word_of_nat (n + 126) :: u8) \<noteq> 0"
    by (metis add_is_0 unsigned_0 zero_neq_numeral)
  with u assms show ?thesis
    by (simp add: unpacks_to_def unpack_loop.simps [of "_ # _"])
qed

lemma unpacks_to_long_run:
  assumes "98 \<le> n" "n \<le> 8191"
  defines "w \<equiv> word_of_nat (n + 224 * 256) :: u16"
  shows "unpacks_to [ucast (drop_bit 8 w), ucast w, c] (replicate n c)"
proof -
  have w: "unat w = n + 57344"
    unfolding w_def using assms(2) by (subst unat_of_nat) simp
  have "unat (ucast (drop_bit 8 w) :: u8) = (n + 57344) div 256"
    using assms(2) by (simp only: unat_ucast_mod unat_drop_bit w) simp
  also have "\<dots> = n div 256 + 224" by simp
  finally have hi: "unat (ucast (drop_bit 8 w) :: u8) = n div 256 + 224" .
  have lo: "unat (ucast w :: u8) = n mod 256"
    using mod_mult_self1 [of n 224 256] by (simp add: unat_ucast_mod w)
  have "unat (ucast (drop_bit 8 w) :: u8) \<noteq> 0" unfolding hi by simp
  then have "(ucast (drop_bit 8 w) :: u8) \<noteq> 0" by (simp only: unat_eq_0 not_False_eq_True)
  moreover have "(n div 256 + 224 - 224) * 256 + n mod 256 = n" by simp
  ultimately show ?thesis
    unfolding unpacks_to_def using hi lo
    by (intro allI, subst unpack_loop.simps) simp
qed

text \<open>
  What the packing loop keeps: a closed prefix, or a closed prefix followed by an open verbatim
  group of \<open>vrun\<close> bytes whose header is at \<open>hdr\<close>.
\<close>

definition group_inv :: "bytes \<Rightarrow> nat option \<Rightarrow> nat \<Rightarrow> bytes \<Rightarrow> bool" where
  "group_inv out hdr vrun xs \<longleftrightarrow>
     (if vrun < 128
      then \<exists>pre vs ys. out = pre @ word_of_nat vrun # vs \<and> length vs = vrun \<and> vs \<noteq> [] \<and>
             hdr = Some (length pre) \<and> unpacks_to pre ys \<and> xs = ys @ vs
      else unpacks_to out xs)"

lemma group_inv_unpacks: "group_inv out hdr vrun xs \<Longrightarrow> unpacks_to out xs"
  by (auto simp: group_inv_def split: if_splits intro!: unpacks_to_append unpacks_to_verbatim)

lemma group_inv_closed: "unpacks_to out xs \<Longrightarrow> group_inv out hdr no_vrun xs"
  by (simp add: group_inv_def no_vrun_def)

lemma group_inv_new:
  assumes "unpacks_to out xs"
  shows "group_inv (out @ [1, c]) (Some (length out)) 1 (xs @ [c])"
  using assms unfolding group_inv_def
  by (intro if_P [THEN iffD2] exI [of _ out] exI [of _ "[c]"] exI [of _ xs]) simp_all

lemma group_inv_extend:
  assumes "group_inv out hdr vrun xs" "vrun < 128"
  obtains h where "hdr = Some h" "h < length out"
    "group_inv ((out @ [c])[h := word_of_nat (vrun + 1)]) hdr (vrun + 1) (xs @ [c])"
proof -
  obtain pre vs ys where o: "out = pre @ word_of_nat vrun # vs" "length vs = vrun"
      "hdr = Some (length pre)" "unpacks_to pre ys" "xs = ys @ vs"
    using assms by (auto simp: group_inv_def)
  let ?out = "(out @ [c])[length pre := word_of_nat (vrun + 1)]"
  have out': "?out = pre @ word_of_nat (vrun + 1) # (vs @ [c])"
    by (simp add: o(1) list_update_append)
  have "group_inv ?out hdr (vrun + 1) (xs @ [c])"
  proof (cases "vrun + 1 < 128")
    case True
    then show ?thesis
      unfolding group_inv_def out' using o
      by (intro if_P [THEN iffD2] exI [of _ pre] exI [of _ "vs @ [c]"] exI [of _ ys]) simp_all
  next
    case False
    then have "unpacks_to (word_of_nat (vrun + 1) # (vs @ [c])) (vs @ [c])"
      using unpacks_to_verbatim [of "vs @ [c]"] o(2) assms(2) by simp
    with False o show ?thesis
      unfolding group_inv_def out' using unpacks_to_append by fastforce
  qed
  with o show ?thesis by (intro that [of "length pre"]) simp_all
qed

lemma take_count_run:
  assumes "i \<noteq> []" "tc \<le> length i" "1 \<le> tc"
  shows "take (count_run i (i ! 0) 1 tc) i = replicate (count_run i (i ! 0) 1 tc) (i ! 0)"
    (is "take ?r i = replicate ?r ?c")
proof (rule nth_equalityI)
  have r: "1 \<le> ?r" "?r \<le> tc" using count_run_bounds assms(3) by auto
  then show "length (take ?r i) = length (replicate ?r ?c)" using assms(2) by simp
  fix k assume "k < length (take ?r i)"
  then show "take ?r i ! k = replicate ?r ?c ! k"
    using count_run_same [of 1 k i ?c tc] by (cases "k = 0") auto
qed

text \<open>The three shapes of an iteration, with the run length at hand.\<close>

definition tcnt_of :: "bytes \<Rightarrow> nat" where
  "tcnt_of i = (if length i > 8191 then 8191 else length i)"

definition run_of :: "bytes \<Rightarrow> nat" where
  "run_of i = count_run i (i ! 0) 1 (tcnt_of i)"

definition run_code :: "nat \<Rightarrow> u8 \<Rightarrow> bytes" where
  "run_code run c =
     (if run < 98 then [word_of_nat (run + 126), c]
      else [ucast (drop_bit 8 (word_of_nat (run + 224 * 256) :: u16)),
            ucast (word_of_nat (run + 224 * 256) :: u16), c])"

lemma run_of_bounds: "i \<noteq> [] \<Longrightarrow> 1 \<le> run_of i \<and> run_of i \<le> length i \<and> run_of i \<le> 8191"
  using count_run_bounds [of 1 "tcnt_of i" i "i ! 0"]
  by (auto simp: run_of_def tcnt_of_def Suc_le_eq split: if_splits)

lemma take_run_of: "i \<noteq> [] \<Longrightarrow> take (run_of i) i = replicate (run_of i) (i ! 0)"
  using take_count_run [of i "tcnt_of i"] by (auto simp: run_of_def tcnt_of_def Suc_le_eq)

lemma pack_loop_Nil: "pack_loop [] out hdr vrun = Some out"
  by (simp add: pack_loop.simps)

lemma pack_loop_run:
  "i \<noteq> [] \<Longrightarrow> 3 \<le> run_of i \<Longrightarrow>
   pack_loop i out hdr vrun = pack_loop (drop (run_of i) i) (out @ run_code (run_of i) (i ! 0)) hdr no_vrun"
  by (subst pack_loop.simps) (simp add: Let_def run_of_def [symmetric] tcnt_of_def run_code_def
      del: One_nat_def add: run_of_def [unfolded tcnt_of_def, symmetric])

lemma pack_loop_new_group:
  "i \<noteq> [] \<Longrightarrow> run_of i < 3 \<Longrightarrow> 128 \<le> vrun \<Longrightarrow>
   pack_loop i out hdr vrun = pack_loop (drop 1 i) (out @ [1, i ! 0]) (Some (length out)) 1"
  by (subst pack_loop.simps) (simp add: Let_def list_update_append
      del: One_nat_def add: run_of_def [unfolded tcnt_of_def, symmetric])

lemma pack_loop_extend:
  "i \<noteq> [] \<Longrightarrow> run_of i < 3 \<Longrightarrow> vrun < 128 \<Longrightarrow> h < length out \<Longrightarrow>
   pack_loop i out (Some h) vrun =
     pack_loop (drop 1 i) ((out @ [i ! 0])[h := word_of_nat (vrun + 1)]) (Some h) (vrun + 1)"
  by (subst pack_loop.simps) (simp add: Let_def
      del: One_nat_def add: run_of_def [unfolded tcnt_of_def, symmetric])

lemma unpacks_to_run_code:
  "3 \<le> n \<Longrightarrow> n \<le> 8191 \<Longrightarrow> unpacks_to (run_code n c) (replicate n c)"
  using unpacks_to_short_run [of n c] unpacks_to_long_run [of n c] by (simp add: run_code_def)

lemma pack_loop_unpacks:
  assumes "group_inv out hdr vrun xs"
  shows "\<exists>out'. pack_loop i out hdr vrun = Some out' \<and> unpacks_to out' (xs @ i)"
  using assms
proof (induction "length i" arbitrary: i out hdr vrun xs rule: less_induct)
  case less
  show ?case
  proof (cases "i = []")
    case True
    with less.prems show ?thesis by (auto simp: pack_loop_Nil dest: group_inv_unpacks)
  next
    case False
    note run = run_of_bounds [OF False]
    have i1: "[i ! 0] @ drop 1 i = i" using False by (cases i) auto
    show ?thesis
    proof (cases "run_of i < 3")
      case short: True
      have dec: "length (drop 1 i) < length i" using False by simp
      show ?thesis
      proof (cases "vrun < 128")
        case True
        obtain h where h: "hdr = Some h" "h < length out"
          "group_inv ((out @ [i ! 0])[h := word_of_nat (vrun + 1)]) hdr (vrun + 1) (xs @ [i ! 0])"
          using group_inv_extend [OF less.prems True] by blast
        from less.hyps [OF dec h(3)] show ?thesis
          using pack_loop_extend [OF False short True h(2)] h(1) i1 by (metis append_assoc)
      next
        case closed: False
        then have "unpacks_to out xs" using less.prems by (simp add: group_inv_def)
        from less.hyps [OF dec group_inv_new [OF this]] show ?thesis
          using pack_loop_new_group [OF False short] closed i1 by (metis append_assoc not_less)
      qed
    next
      case long: False
      let ?n = "run_of i"
      have "unpacks_to (out @ run_code ?n (i ! 0)) (xs @ replicate ?n (i ! 0))"
        using long run group_inv_unpacks [OF less.prems]
        by (intro unpacks_to_append unpacks_to_run_code) simp_all
      moreover have "length (drop ?n i) < length i" using run by (simp only: length_drop) linarith
      moreover have "(xs @ replicate ?n (i ! 0)) @ drop ?n i = xs @ i"
        by (simp flip: take_run_of [OF False])
      ultimately show ?thesis
        using less.hyps [of "drop ?n i", OF _ group_inv_closed] pack_loop_run [OF False] long
        by (metis not_less)
    qed
  qed
qed

text \<open>C11.  Packing never fails, and unpacking the packed bytes gives the input back, leaving
  exactly what follows the packed area unread.\<close>

theorem rllpack_roundtrip:
  "\<exists>packed. rllpack src = Some packed \<and> rllunpack (packed @ rest) = Some (src, rest)"
proof -
  have "group_inv [] None no_vrun []" by (rule group_inv_closed [OF unpacks_to_Nil])
  then obtain out where "pack_loop src [] None no_vrun = Some out" "unpacks_to out src"
    using pack_loop_unpacks by fastforce
  then show ?thesis
    by (auto simp: rllpack_def rllunpack_def unpacks_to_def unpack_loop.simps [of "0 # _"])
qed

end
