(* ===== verification/Dll.thy ===== *)
theory Dll
  imports Prelude
begin

text \<open>
  Circular doubly linked lists with a head node, the structure behind the LRU chain of the block
  cache and behind both chains of the memory allocator.  \<open>ring nx pv h xs\<close> says that the nodes
  \<open>xs\<close>, in this order, are linked behind the head \<open>h\<close> by the successor function \<open>nx\<close> and the
  predecessor function \<open>pv\<close>, where \<open>None\<close> is a NULL link.  The locale \<open>dll_store\<close> is the interface
  of a store that holds such links (read a link, write a link), and its lemmas are the unlink
  and insert sequences of the code, once for all stores.
\<close>

section \<open>Rings\<close>

fun links :: "('p \<Rightarrow> 'p option) \<Rightarrow> ('p \<Rightarrow> 'p option) \<Rightarrow> 'p list \<Rightarrow> bool" where
  "links nx pv (a # b # r) \<longleftrightarrow> nx a = Some b \<and> pv b = Some a \<and> links nx pv (b # r)"
| "links nx pv _ \<longleftrightarrow> True"

definition ring :: "('p \<Rightarrow> 'p option) \<Rightarrow> ('p \<Rightarrow> 'p option) \<Rightarrow> 'p \<Rightarrow> 'p list \<Rightarrow> bool" where
  "ring nx pv h xs \<longleftrightarrow> distinct (h # xs) \<and> links nx pv (h # xs @ [h])"

lemma links_append:
  "links nx pv (as @ x # bs) \<longleftrightarrow> links nx pv (as @ [x]) \<and> links nx pv (x # bs)"
proof (induction as)
  case (Cons a as)
  then show ?case by (cases as) auto
qed simp

lemma links_Cons: "links nx pv (a # r) \<longleftrightarrow>
    (case r of [] \<Rightarrow> True | b # _ \<Rightarrow> nx a = Some b \<and> pv b = Some a) \<and> links nx pv r"
  by (cases r) auto

text \<open>Only the links out of \<open>butlast\<close> and into \<open>tl\<close> matter.\<close>

lemma links_cong:
  "(\<And>a. a \<in> set (butlast xs) \<Longrightarrow> nx a = nx' a) \<Longrightarrow> (\<And>a. a \<in> set (tl xs) \<Longrightarrow> pv a = pv' a) \<Longrightarrow>
   links nx pv xs = links nx' pv' xs"
proof (induction nx pv xs rule: links.induct)
  case (1 nx pv a b r)
  have "links nx pv (b # r) = links nx' pv' (b # r)"
    by (rule "1.IH") (use "1.prems" in \<open>auto intro: list.set_sel(2)\<close>)
  with "1.prems" show ?case by simp
qed simp_all

lemma links_upd:
  "p \<notin> set (butlast xs) \<Longrightarrow> links (nx(p := v)) pv xs = links nx pv xs"
  "n \<notin> set (tl xs) \<Longrightarrow> links nx (pv(n := v)) xs = links nx pv xs"
  by (auto intro!: links_cong)

lemma ring_upd:
  assumes "x \<notin> set (h # xs)"
  shows "ring (nx(x := v)) pv h xs = ring nx pv h xs" "ring nx (pv(x := v)) h xs = ring nx pv h xs"
proof -
  have "x \<notin> set (butlast (h # xs @ [h]))" "x \<notin> set (tl (h # xs @ [h]))"
    using assms in_set_butlastD [of x "h # xs @ [h]"] by auto
  then show "ring (nx(x := v)) pv h xs = ring nx pv h xs" "ring nx (pv(x := v)) h xs = ring nx pv h xs"
    by (simp_all only: ring_def links_upd not_False_eq_True)
qed

lemma links_mid:
  "links nx pv (us @ a # b # vs) \<longleftrightarrow>
   links nx pv (us @ [a]) \<and> nx a = Some b \<and> pv b = Some a \<and> links nx pv (b # vs)"
  by (subst links_append) simp

lemma all_nat_split: "(\<forall>i. P i) \<longleftrightarrow> P 0 \<and> (\<forall>i. P (Suc i))"
  by (metis not0_implies_Suc)

lemma links_nth:
  "links nx pv xs \<longleftrightarrow>
   (\<forall>i. Suc i < length xs \<longrightarrow> nx (xs ! i) = Some (xs ! Suc i) \<and> pv (xs ! Suc i) = Some (xs ! i))"
proof (induction nx pv xs rule: links.induct)
  case (1 nx pv a b r)
  show ?case
    by (subst links.simps, subst "1.IH", subst all_nat_split) simp
qed simp_all

lemma ring_split:
  assumes "h # xs @ [h] = us @ a # b # vs"
  shows "ring nx pv h xs \<longleftrightarrow> distinct (h # xs) \<and> links nx pv (us @ [a]) \<and>
    nx a = Some b \<and> pv b = Some a \<and> links nx pv (b # vs)"
  by (simp only: ring_def assms links_mid)

lemma ring_link: "ring nx pv h xs \<Longrightarrow> h # xs @ [h] = us @ a # b # vs \<Longrightarrow> nx a = Some b \<and> pv b = Some a"
  by (simp add: ring_split)

lemma ring_distinct: "ring nx pv h xs \<Longrightarrow> distinct (h # xs)"
  by (simp add: ring_def)

lemma ring_succ:
  assumes "ring nx pv h (as @ x # bs)"
  shows "nx x = Some (hd (bs @ [h]))"
proof -
  obtain b vs where "bs @ [h] = b # vs" by (cases bs) auto
  then show ?thesis using ring_link [OF assms, of "h # as" x b vs] by simp
qed

lemma ring_pred:
  assumes "ring nx pv h (as @ x # bs)"
  shows "pv x = Some (last (h # as))"
proof -
  obtain us a where "h # as = us @ [a]" by (metis rev_exhaust list.distinct(1))
  then show ?thesis using ring_link [OF assms, of us a x "bs @ [h]"] by simp
qed

lemma ring_head_succ: "ring nx pv h xs \<Longrightarrow> nx h = Some (hd (xs @ [h]))"
  by (cases xs) (auto simp: ring_def)

lemma ring_head_pred: 
  assumes "ring nx pv h xs"
  shows "pv h = Some (last (h # xs))"
proof -
  obtain us a where "h # xs = us @ [a]" by (metis rev_exhaust list.distinct(1))
  then show ?thesis using ring_link [OF assms, of us a h "[]"] by simp
qed

section \<open>Removing and inserting a node\<close>

text \<open>Around any position of a ring, the predecessor \<open>p\<close> and the successor \<open>n\<close>.\<close>

lemma ring_neighbours:
  assumes "distinct (h # as @ bs)" "h # as = us @ [p]" "bs @ [h] = n # vs"
  shows "p \<notin> set us" "p \<notin> set bs" "n \<notin> set vs" "n \<notin> set as"
    "set us \<union> {p} = set (h # as)" "set vs \<union> {n} = set (h # bs)"
    "butlast (n # vs) = bs" "tl (us @ [p]) = as"
proof -
  have d: "distinct (h # as)" "distinct (bs @ [h])" "set (h # as) \<inter> set bs = {}"
      "set as \<inter> set (bs @ [h]) = {}"
    using assms(1) by auto
  show U: "set us \<union> {p} = set (h # as)" and V: "set vs \<union> {n} = set (h # bs)"
    using arg_cong [OF assms(2), of set] arg_cong [OF assms(3), of set] by auto
  show "p \<notin> set us" "p \<notin> set bs" "n \<notin> set vs" "n \<notin> set as"
    using d(1) [unfolded assms(2)] d(2) [unfolded assms(3)] d(3) [unfolded assms(2)]
      d(4) [unfolded assms(3)] by auto
  show "butlast (n # vs) = bs" by (metis assms(3) butlast_snoc)
  show "tl (us @ [p]) = as" by (metis assms(2) list.sel(3))
qed

lemma neighbours_ex:
  obtains us vs where "h # as = us @ [last (h # as)]" "bs @ [h] = hd (bs @ [h]) # vs"
  by (metis append_butlast_last_id list.collapse list.distinct(1) append_is_Nil_conv)

lemma ring_weave:
  assumes "h # as = us @ [p]" "bs @ [h] = n # vs"
  shows "h # (as @ bs) @ [h] = us @ p # n # vs"
    and "h # (as @ x # bs) @ [h] = us @ p # x # n # vs"
  using assms by (metis append.assoc append_Cons append_Nil)+

lemma links_frame:
  "links nx pv xs \<Longrightarrow> (\<And>a. a \<in> set (butlast xs) \<Longrightarrow> nx' a = nx a) \<Longrightarrow>
   (\<And>a. a \<in> set (tl xs) \<Longrightarrow> pv' a = pv a) \<Longrightarrow> links nx' pv' xs"
  by (simp add: links_cong [of xs nx' nx pv' pv])

text \<open>The two pointer writes of an unlink, as updates of the link functions.\<close>

lemma ring_unlink:
  assumes R: "ring nx pv h (as @ x # bs)"
  defines "p \<equiv> last (h # as)" and "n \<equiv> hd (bs @ [h])"
  shows "ring (nx(p := Some n)) (pv(n := Some p)) h (as @ bs)"
proof -
  have d: "distinct (h # as @ bs)" using R by (simp add: ring_def)
  obtain us vs where e: "h # as = us @ [p]" "bs @ [h] = n # vs"
    unfolding p_def n_def by (rule neighbours_ex)
  note nb = ring_neighbours [OF d e]
  have L: "links nx pv (us @ [p])" "links nx pv (n # vs)"
    using R by (simp_all add: ring_split [OF ring_weave(2) [OF e]])
  have "links (nx(p := Some n)) (pv(n := Some p)) (us @ [p])"
    "links (nx(p := Some n)) (pv(n := Some p)) (n # vs)"
    by (rule links_frame [OF L(1)]; use nb in auto) (rule links_frame [OF L(2)]; use nb in auto)
  then show ?thesis
    using d by (simp add: ring_split [OF ring_weave(1) [OF e]])
qed

text \<open>The four pointer writes of an insertion between neighbours.\<close>

lemma ring_insert:
  assumes R: "ring nx pv h (as @ bs)" and x: "x \<notin> set (h # as @ bs)"
  defines "p \<equiv> last (h # as)" and "n \<equiv> hd (bs @ [h])"
  shows "ring (nx(p := Some x, x := Some n)) (pv(n := Some x, x := Some p)) h (as @ x # bs)"
    (is "ring ?nx ?pv h _")
proof -
  have d: "distinct (h # as @ bs)" using R by (simp add: ring_def)
  obtain us vs where e: "h # as = us @ [p]" "bs @ [h] = n # vs"
    unfolding p_def n_def by (rule neighbours_ex)
  note nb = ring_neighbours [OF d e]
  have L: "links nx pv (us @ [p])" "links nx pv (n # vs)"
    using R by (simp_all add: ring_split [OF ring_weave(1) [OF e]])
  have xs: "x \<notin> set us \<union> {p}" "x \<notin> set vs \<union> {n}"
    unfolding nb(5,6) using x by auto
  have "links ?nx ?pv (us @ [p])" "links ?nx ?pv (n # vs)"
    by (rule links_frame [OF L(1)]; use nb xs in auto) (rule links_frame [OF L(2)]; use nb xs in auto)
  moreover have whole: "h # (as @ x # bs) @ [h] = (us @ [p]) @ x # n # vs"
    using ring_weave(2) [OF e, of x] by (metis append.assoc append_Cons append_Nil)
  ultimately show ?thesis
    using d x xs by (auto simp: ring_split [OF whole] links_mid)
qed

lemma ring_replace:
  assumes R: "ring nx pv h (as @ x # bs)" and y: "y \<notin> set (h # as @ x # bs)"
  defines "p \<equiv> last (h # as)" and "n \<equiv> hd (bs @ [h])"
  shows "ring (nx(p := Some y, y := Some n)) (pv(n := Some y, y := Some p)) h (as @ y # bs)"
proof -
  have "ring (nx(p := Some n)) (pv(n := Some p)) h (as @ bs)" unfolding p_def n_def by (rule ring_unlink [OF R])
  from ring_insert [OF this, of y] y show ?thesis by (simp add: p_def n_def)
qed

section \<open>A store of links\<close>

text \<open>
  The interface: \<open>nxt\<close> and \<open>prv\<close> read a link (\<open>None\<close> for NULL or for no such node), \<open>put_nxt\<close>
  and \<open>put_prv\<close> write one and fail (\<open>None\<close>) on an address where \<open>has\<close> finds no node.
\<close>

locale dll_store =
  fixes nxt prv :: "'s \<Rightarrow> 'p \<Rightarrow> 'p option"
    and put_nxt put_prv :: "'s \<Rightarrow> 'p \<Rightarrow> 'p option \<Rightarrow> 's option"
    and has :: "'s \<Rightarrow> 'p \<Rightarrow> bool"
  assumes put_nxt_ex: "has s p \<Longrightarrow> \<exists>s'. put_nxt s p v = Some s'"
    and put_prv_ex: "has s p \<Longrightarrow> \<exists>s'. put_prv s p v = Some s'"
    and put_nxt_nxt: "put_nxt s p v = Some s' \<Longrightarrow> nxt s' = (nxt s)(p := v)"
    and put_nxt_prv: "put_nxt s p v = Some s' \<Longrightarrow> prv s' = prv s"
    and put_prv_prv: "put_prv s p v = Some s' \<Longrightarrow> prv s' = (prv s)(p := v)"
    and put_prv_nxt: "put_prv s p v = Some s' \<Longrightarrow> nxt s' = nxt s"
    and put_nxt_has: "put_nxt s p v = Some s' \<Longrightarrow> has s' = has s"
    and put_prv_has: "put_prv s p v = Some s' \<Longrightarrow> has s' = has s"
begin

abbreviation is_ring :: "'s \<Rightarrow> 'p \<Rightarrow> 'p list \<Rightarrow> bool" where
  "is_ring s h xs \<equiv> ring (nxt s) (prv s) h xs \<and> (\<forall>p \<in> set (h # xs). has s p)"

lemma unlink_next_first:
  assumes R: "is_ring s h (as @ x # bs)"
  defines "p \<equiv> last (h # as)" and "n \<equiv> hd (bs @ [h])"
  obtains s1 s2 where "nxt s x = Some n" "prv s x = Some p"
    "put_nxt s p (Some n) = Some s1" "nxt s1 x = Some n" "prv s1 x = Some p"
    "put_prv s1 n (Some p) = Some s2" "is_ring s2 h (as @ bs)"
    "nxt s2 = (nxt s)(p := Some n)" "prv s2 = (prv s)(n := Some p)" "has s2 = has s"
proof -
  have nx: "nxt s x = Some n" and pv: "prv s x = Some p"
    using R ring_succ ring_pred unfolding p_def n_def by fast+
  have "p \<in> set (h # as)" unfolding p_def by (rule last_in_set) simp
  then have p: "has s p" "p \<noteq> x" using R by (auto simp: ring_def)
  obtain s1 where s1: "put_nxt s p (Some n) = Some s1" using put_nxt_ex p by blast
  note l1 = put_nxt_nxt [OF s1] put_nxt_prv [OF s1] put_nxt_has [OF s1]
  have "n \<in> set (bs @ [h])" unfolding n_def by (rule list.set_sel) simp
  then have "has s1 n" using R l1 by auto
  then obtain s2 where s2: "put_prv s1 n (Some p) = Some s2" using put_prv_ex by blast
  note l2 = put_prv_prv [OF s2] put_prv_nxt [OF s2] put_prv_has [OF s2]
  have "ring ((nxt s)(p := Some n)) ((prv s)(n := Some p)) h (as @ bs)"
    using R ring_unlink unfolding p_def n_def by fast
  then have "is_ring s2 h (as @ bs)"
    using R by (auto simp: l1 l2)
  with nx pv s1 s2 p l1 l2 show ?thesis
    by (intro that [of s1 s2]) simp_all
qed

text \<open>Insertion before the head, that is, at the tail: \<open>x->prev = h->prev; h->prev->next = x;
  x->next = h; h->prev = x\<close>.\<close>

lemma append_tail:
  assumes R: "is_ring s h xs" and x: "has s x" "x \<notin> set (h # xs)"
  defines "p \<equiv> last (h # xs)"
  obtains s1 s2 s3 s4 where "prv s h = Some p"
    "put_prv s x (Some p) = Some s1" "prv s1 h = Some p"
    "put_nxt s1 p (Some x) = Some s2" "put_nxt s2 x (Some h) = Some s3"
    "put_prv s3 h (Some x) = Some s4" "is_ring s4 h (xs @ [x])"
    "nxt s4 = (nxt s)(p := Some x, x := Some h)" "prv s4 = (prv s)(x := Some p, h := Some x)"
    "has s4 = has s"
proof -
  have pv: "prv s h = Some p" using R ring_head_pred unfolding p_def by fast
  have "p \<in> set (h # xs)" unfolding p_def by (rule last_in_set) simp
  then have p: "has s p" "has s h" "x \<noteq> h" using R x(2) by auto
  obtain s1 where s1: "put_prv s x (Some p) = Some s1" using put_prv_ex x by blast
  note l1 = put_prv_prv [OF s1] put_prv_nxt [OF s1] put_prv_has [OF s1]
  obtain s2 where s2: "put_nxt s1 p (Some x) = Some s2" using put_nxt_ex p by (metis l1(3))
  note l2 = put_nxt_nxt [OF s2] put_nxt_prv [OF s2] put_nxt_has [OF s2]
  obtain s3 where s3: "put_nxt s2 x (Some h) = Some s3" using put_nxt_ex x by (metis l1(3) l2(3))
  note l3 = put_nxt_nxt [OF s3] put_nxt_prv [OF s3] put_nxt_has [OF s3]
  obtain s4 where s4: "put_prv s3 h (Some x) = Some s4"
    using put_prv_ex p by (metis l1(3) l2(3) l3(3))
  note l4 = put_prv_prv [OF s4] put_prv_nxt [OF s4] put_prv_has [OF s4]
  have "ring ((nxt s)(p := Some x, x := Some h)) ((prv s)(h := Some x, x := Some p)) h (xs @ [x])"
    using ring_insert [of "nxt s" "prv s" h xs "[]" x] R x unfolding p_def by simp
  then have "is_ring s4 h (xs @ [x])"
    using R x p by (auto simp: l1 l2 l3 l4 fun_upd_twist)
  with pv s1 s2 s3 s4 p show ?thesis
    by (intro that [of s1 s2 s3 s4]) (simp_all add: l1 l2 l3 l4)
qed

end

end
