(* ===== verification/Cache.thy ===== *)
theory Cache
  imports Dll
begin

text \<open>
  The block cache of \<open>libcore/fs/cache.c\<close>, with the device structure of \<open>fs.h\<close> that holds it.
  Descriptors are numbered as in the code: the head node is number 0 and \<open>cache[i]\<close> is number
  \<open>i + 1\<close>.  The LRU chain runs from the head's successor (the next victim) to its predecessor
  (the most recently used block); a locked block is off the chain, with NULL links.  The data
  areas are slices of the cache buffer; \<open>c_data\<close> is an offset into it (NULL for the head).  Reads
  go through the \<open>rdwr_sectors\<close> function pointer of the disk, a parameter \<open>rdwr\<close> here, which
  gives the new disk state and the bytes it stored in the buffer.
\<close>

section \<open>State\<close>

record cache =
  c_block :: u64
  c_prev :: "nat option"
  c_next :: "nat option"
  c_data :: "nat option"

record 'd device =
  dev_disk :: 'd
  cache_data :: bytes
  cache_head :: "nat option"
  cache_nodes :: "cache list"
  cache_block_size :: u16
  cache_entries :: u16
  cache_size :: u32

text \<open>\<open>sizeof(struct cache)\<close> on i386: an 8-byte block number and three pointers.\<close>

definition sizeof_cache :: u32 where
  "sizeof_cache = 20"

definition has_node :: "'d device \<Rightarrow> nat \<Rightarrow> bool" where
  "has_node dev p \<longleftrightarrow> p < length (cache_nodes dev)"

definition node_next :: "'d device \<Rightarrow> nat \<Rightarrow> nat option" where
  "node_next dev p = (if has_node dev p then c_next (cache_nodes dev ! p) else None)"

definition node_prev :: "'d device \<Rightarrow> nat \<Rightarrow> nat option" where
  "node_prev dev p = (if has_node dev p then c_prev (cache_nodes dev ! p) else None)"

definition put_next :: "'d device \<Rightarrow> nat \<Rightarrow> nat option \<Rightarrow> 'd device option" where
  "put_next dev p v =
     (if has_node dev p
      then Some (dev\<lparr>cache_nodes := (cache_nodes dev)[p := (cache_nodes dev ! p)\<lparr>c_next := v\<rparr>]\<rparr>)
      else None)"

definition put_prev :: "'d device \<Rightarrow> nat \<Rightarrow> nat option \<Rightarrow> 'd device option" where
  "put_prev dev p v =
     (if has_node dev p
      then Some (dev\<lparr>cache_nodes := (cache_nodes dev)[p := (cache_nodes dev ! p)\<lparr>c_prev := v\<rparr>]\<rparr>)
      else None)"

definition put_block :: "'d device \<Rightarrow> nat \<Rightarrow> u64 \<Rightarrow> 'd device option" where
  "put_block dev p b =
     (if has_node dev p
      then Some (dev\<lparr>cache_nodes := (cache_nodes dev)[p := (cache_nodes dev ! p)\<lparr>c_block := b\<rparr>]\<rparr>)
      else None)"

section \<open>Operations\<close>

text \<open>The loop of \<open>cache_init\<close> over the descriptors \<open>cache[i]\<close>, \<open>k\<close> of them left.\<close>

primrec cache_init_loop :: "nat \<Rightarrow> nat \<Rightarrow> nat \<Rightarrow> nat \<Rightarrow> nat \<Rightarrow> cache list \<Rightarrow> cache list" where
  "cache_init_loop 0 i prev data bs nodes = nodes"
| "cache_init_loop (Suc k) i prev data bs nodes =
     (let cur = i + 1;
          nodes = nodes[cur := (nodes ! cur)\<lparr>c_data := Some data, c_block := - 1, c_prev := Some prev\<rparr>];
          nodes = nodes[prev := (nodes ! prev)\<lparr>c_next := Some cur\<rparr>]
      in cache_init_loop k (i + 1) cur (data + bs) bs nodes)"

definition zero_node :: cache where
  "zero_node = \<lparr>c_block = 0, c_prev = None, c_next = None, c_data = None\<rparr>"

text \<open>The head node, and the link of the last descriptor to it (\<open>head->prev->next = head\<close>).\<close>

definition init_head :: "nat \<Rightarrow> cache list" where
  "init_head n =
     (let nodes = replicate (n + 1) zero_node;
          nodes = nodes[0 := (nodes ! 0)\<lparr>c_prev := Some n\<rparr>];
          nodes = nodes[n := (nodes ! n)\<lparr>c_next := Some 0\<rparr>]
      in nodes[0 := (nodes ! 0)\<lparr>c_block := - 1, c_data := None\<rparr>])"

definition cache_init :: "'d device \<Rightarrow> nat \<Rightarrow> 'd device" where
  "cache_init dev block_size_shift =
     (let bs = word_of_nat (2 ^ block_size_shift) :: u16 in
      if cache_size dev < ucast bs + 2 * sizeof_cache
      then dev\<lparr>cache_block_size := bs, cache_head := None\<rparr>
      else let entries = ucast ((cache_size dev - sizeof_cache) div (ucast bs + sizeof_cache)) :: u16;
               n = unat entries
           in dev\<lparr>cache_block_size := bs, cache_entries := entries, cache_head := Some 0,
                  cache_nodes := cache_init_loop n 0 0 0 (unat bs) (init_head n)\<rparr>)"

definition cache_lock_block :: "'d device \<Rightarrow> nat \<Rightarrow> 'd device option" where
  "cache_lock_block dev cs =
     do { p \<leftarrow> node_prev dev cs; dev \<leftarrow> put_next dev p (node_next dev cs);
          n \<leftarrow> node_next dev cs; dev \<leftarrow> put_prev dev n (node_prev dev cs);
          dev \<leftarrow> put_prev dev cs None; put_next dev cs None }"

text \<open>The search loop over \<open>cache_entries\<close> descriptors from \<open>cache_head + 1\<close>.\<close>

fun find_cached :: "cache list \<Rightarrow> u64 \<Rightarrow> nat \<Rightarrow> nat option" where
  "find_cached [] block i = None"
| "find_cached (cs # rest) block i =
     (if c_block cs = block then Some i else find_cached rest block (i + 1))"

text \<open>\<open>Move to the end of the LRU chain, unless the block is already locked\<close>.\<close>

definition lru_touch :: "'d device \<Rightarrow> nat \<Rightarrow> nat \<Rightarrow> 'd device option" where
  "lru_touch dev head cs =
     (if node_next dev cs \<noteq> None
      then do { p \<leftarrow> node_prev dev cs; dev \<leftarrow> put_next dev p (node_next dev cs);
                n \<leftarrow> node_next dev cs; dev \<leftarrow> put_prev dev n (node_prev dev cs);
                dev \<leftarrow> put_prev dev cs (node_prev dev head);
                t \<leftarrow> node_prev dev head; dev \<leftarrow> put_next dev t (Some cs);
                dev \<leftarrow> put_next dev cs (Some head);
                put_prev dev head (Some cs) }
      else Some dev)"

definition get_cache_block :: "'d device \<Rightarrow> u64 \<Rightarrow> (nat \<times> 'd device) option" where
  "get_cache_block dev block =
     do { head \<leftarrow> cache_head dev;
          cs \<leftarrow> (case find_cached (take (unat (cache_entries dev)) (drop (head + 1) (cache_nodes dev)))
                        block (head + 1) of
                   Some cs \<Rightarrow> Some cs
                 | None \<Rightarrow> node_next dev head);
          dev \<leftarrow> lru_touch dev head cs;
          Some (cs, dev) }"

text \<open>\<open>getoneblk\<close> of \<open>diskio.c\<close>: one block as \<open>block_size / sector_size\<close> sectors.\<close>

definition getoneblk ::
  "('d \<Rightarrow> u64 \<Rightarrow> u32 \<Rightarrow> 'd \<times> bytes) \<Rightarrow> u32 \<Rightarrow> 'd \<Rightarrow> u64 \<Rightarrow> u16 \<Rightarrow> 'd \<times> bytes" where
  "getoneblk rdwr secsz disk block block_size =
     (let sec_per_block = ucast block_size div secsz
      in rdwr disk (block * ucast sec_per_block) sec_per_block)"

definition get_cache ::
  "('d \<Rightarrow> u64 \<Rightarrow> u32 \<Rightarrow> 'd \<times> bytes) \<Rightarrow> u32 \<Rightarrow> 'd device \<Rightarrow> u64 \<Rightarrow> ('d device \<times> nat) option" where
  "get_cache rdwr secsz dev block =
     do { (cs, dev) \<leftarrow> get_cache_block dev block;
          c \<leftarrow> rd (cache_nodes dev) cs;
          if c_block c \<noteq> block
          then do { dev \<leftarrow> put_block dev cs block;
                    data \<leftarrow> c_data c;
                    let (disk, bs) = getoneblk rdwr secsz (dev_disk dev) block (cache_block_size dev);
                    buf \<leftarrow> wr_range (cache_data dev) data bs;
                    Some (dev\<lparr>dev_disk := disk, cache_data := buf\<rparr>, data) }
          else do { data \<leftarrow> c_data c; Some (dev, data) } }"

text \<open>
  What the file systems do with the returned pointer: they read the block behind it, before
  the next call of \<open>get_cache\<close>.
\<close>

definition read_block ::
  "('d \<Rightarrow> u64 \<Rightarrow> u32 \<Rightarrow> 'd \<times> bytes) \<Rightarrow> u32 \<Rightarrow> 'd device \<Rightarrow> u64 \<Rightarrow> ('d device \<times> bytes) option" where
  "read_block rdwr secsz dev block =
     do { (dev, data) \<leftarrow> get_cache rdwr secsz dev block;
          bs \<leftarrow> rd_range (cache_data dev) data (unat (cache_block_size dev));
          Some (dev, bs) }"

section \<open>The LRU chain is a ring\<close>

interpretation lru: dll_store node_next node_prev put_next put_prev has_node
  by unfold_locales
    (auto simp: put_next_def put_prev_def node_next_def node_prev_def has_node_def fun_eq_iff
      nth_list_update split: if_splits)

text \<open>What the link writes leave alone.\<close>

definition same_payload :: "'d device \<Rightarrow> 'd device \<Rightarrow> bool" where
  "same_payload dev dev' \<longleftrightarrow>
     dev_disk dev' = dev_disk dev \<and> cache_data dev' = cache_data dev \<and>
     cache_head dev' = cache_head dev \<and> cache_block_size dev' = cache_block_size dev \<and>
     cache_entries dev' = cache_entries dev \<and> cache_size dev' = cache_size dev \<and>
     map c_block (cache_nodes dev') = map c_block (cache_nodes dev) \<and>
     map c_data (cache_nodes dev') = map c_data (cache_nodes dev)"

lemma same_payload_refl [simp]: "same_payload dev dev"
  by (simp add: same_payload_def)

lemma same_payload_trans [trans]:
  "same_payload a b \<Longrightarrow> same_payload b c \<Longrightarrow> same_payload a c"
  by (simp add: same_payload_def)

lemma put_next_payload: "put_next dev p v = Some dev' \<Longrightarrow> same_payload dev dev'"
  by (auto simp: put_next_def same_payload_def has_node_def map_update list_update_same_conv
      split: if_splits)

lemma put_prev_payload: "put_prev dev p v = Some dev' \<Longrightarrow> same_payload dev dev'"
  by (auto simp: put_prev_def same_payload_def has_node_def map_update list_update_same_conv
      split: if_splits)

lemma same_payload_length:
  "same_payload dev dev' \<Longrightarrow> length (cache_nodes dev') = length (cache_nodes dev)"
  unfolding same_payload_def by (metis length_map)

lemma same_payload_nth:
  assumes "same_payload dev dev'" "i < length (cache_nodes dev)"
  shows "c_block (cache_nodes dev' ! i) = c_block (cache_nodes dev ! i)"
    "c_data (cache_nodes dev' ! i) = c_data (cache_nodes dev ! i)"
  using assms same_payload_length [OF assms(1)] unfolding same_payload_def by (metis nth_map)+

text \<open>The chain: \<open>xs\<close> lists the unlocked descriptors, the next victim first.\<close>

definition chain_ok :: "'d device \<Rightarrow> nat list \<Rightarrow> bool" where
  "chain_ok dev xs \<longleftrightarrow> cache_head dev = Some 0 \<and> lru.is_ring dev 0 xs \<and>
     (\<forall>i. 0 < i \<longrightarrow> i \<notin> set xs \<longrightarrow> node_next dev i = None)"

lemma lru_touch_moves:
  assumes C: "chain_ok dev (as @ cs # bs)"
  obtains dev' where "lru_touch dev 0 cs = Some dev'" "chain_ok dev' (as @ bs @ [cs])"
    "same_payload dev dev'"
proof -
  have R: "lru.is_ring dev 0 (as @ cs # bs)" using C by (simp add: chain_ok_def)
  obtain p n s1 s2 where u: "node_next dev cs = Some n" "node_prev dev cs = Some p"
      "put_next dev p (Some n) = Some s1" "node_next s1 cs = Some n" "node_prev s1 cs = Some p"
      "put_prev s1 n (Some p) = Some s2" "lru.is_ring s2 0 (as @ bs)"
      "node_next s2 = (node_next dev)(p := Some n)" "has_node s2 = has_node dev"
      "p = last (0 # as)"
    using lru.unlink_next_first [OF R] by metis
  have cs: "has_node s2 cs" "cs \<notin> set (0 # as @ bs)" "cs \<noteq> 0"
    using R u(9) by (auto simp: ring_def)
  obtain t s3 s4 s5 s6 where i: "node_prev s2 0 = Some t" "put_prev s2 cs (Some t) = Some s3"
      "node_prev s3 0 = Some t" "put_next s3 t (Some cs) = Some s4" "put_next s4 cs (Some 0) = Some s5"
      "put_prev s5 0 (Some cs) = Some s6" "lru.is_ring s6 0 ((as @ bs) @ [cs])"
      "node_next s6 = (node_next s2)(t := Some cs, cs := Some 0)" "has_node s6 = has_node s2"
      "t = last (0 # as @ bs)"
    using lru.append_tail [OF u(7) cs(1,2)] by metis
  have P: "same_payload dev s6"
    by (meson i(2,4,5,6) put_next_payload put_prev_payload same_payload_trans u(3,6))
  have "t \<in> set (0 # as @ bs)" "p \<in> set (0 # as)"
    unfolding i(10) u(10) by (rule last_in_set, simp)+
  then have "\<forall>i. 0 < i \<longrightarrow> i \<notin> set (as @ bs @ [cs]) \<longrightarrow> node_next s6 i = None"
    using C unfolding i(8) u(8) chain_ok_def by auto
  then have "chain_ok s6 (as @ bs @ [cs])"
    using C P i(7) by (simp add: chain_ok_def same_payload_def)
  moreover have "lru_touch dev 0 cs = Some s6"
    by (simp add: lru_touch_def u(1-6) i(1-6))
  ultimately show ?thesis using P that by blast
qed

lemma lru_touch_locked:
  "chain_ok dev xs \<Longrightarrow> 0 < cs \<Longrightarrow> cs \<notin> set xs \<Longrightarrow> lru_touch dev 0 cs = Some dev"
  by (simp add: chain_ok_def lru_touch_def)

section \<open>The cache invariant\<close>

text \<open>
  \<open>content b\<close> is what the cache must show for block \<open>b\<close>.  \<open>cache_shape\<close> fixes the layout: one
  descriptor per entry, each with its own slice of the buffer.  \<open>cache_tags\<close> says that a used
  descriptor (block number other than -1) holds its block and that no block is cached twice.
\<close>

definition bsize :: "'d device \<Rightarrow> nat" where
  "bsize dev = unat (cache_block_size dev)"

definition n_entries :: "'d device \<Rightarrow> nat" where
  "n_entries dev = unat (cache_entries dev)"

definition tag :: "'d device \<Rightarrow> nat \<Rightarrow> u64" where
  "tag dev i = c_block (cache_nodes dev ! i)"

definition slot :: "'d device \<Rightarrow> nat \<Rightarrow> bytes" where
  "slot dev i = take (bsize dev) (drop ((i - 1) * bsize dev) (cache_data dev))"

definition entry :: "'d device \<Rightarrow> nat \<Rightarrow> bool" where
  "entry dev i \<longleftrightarrow> 0 < i \<and> i \<le> n_entries dev"

definition cache_shape :: "'d device \<Rightarrow> nat list \<Rightarrow> bool" where
  "cache_shape dev xs \<longleftrightarrow> chain_ok dev xs \<and>
     length (cache_nodes dev) = Suc (n_entries dev) \<and> n_entries dev * bsize dev \<le> length (cache_data dev) \<and>
     (\<forall>i. entry dev i \<longrightarrow> c_data (cache_nodes dev ! i) = Some ((i - 1) * bsize dev))"

definition cache_tags :: "(u64 \<Rightarrow> bytes) \<Rightarrow> 'd device \<Rightarrow> bool" where
  "cache_tags content dev \<longleftrightarrow>
     (\<forall>i. entry dev i \<longrightarrow> tag dev i \<noteq> - 1 \<longrightarrow> slot dev i = content (tag dev i)) \<and>
     (\<forall>i j. entry dev i \<longrightarrow> entry dev j \<longrightarrow> tag dev i = tag dev j \<longrightarrow> tag dev i \<noteq> - 1 \<longrightarrow> i = j)"

lemma same_payload_shape:
  assumes "same_payload dev dev'" "chain_ok dev' ys" "cache_shape dev xs"
  shows "cache_shape dev' ys"
  using assms same_payload_length [OF assms(1)] same_payload_nth(2) [OF assms(1)]
  by (auto simp: cache_shape_def same_payload_def n_entries_def bsize_def entry_def)

lemma same_payload_simps:
  assumes "same_payload dev dev'"
  shows "bsize dev' = bsize dev" "n_entries dev' = n_entries dev" "slot dev' = slot dev"
    "entry dev' = entry dev" "dev_disk dev' = dev_disk dev" "cache_data dev' = cache_data dev"
    "cache_block_size dev' = cache_block_size dev"
  using assms by (simp_all add: same_payload_def bsize_def n_entries_def slot_def entry_def fun_eq_iff)

lemma same_payload_tag:
  "same_payload dev dev' \<Longrightarrow> i < length (cache_nodes dev) \<Longrightarrow> tag dev' i = tag dev i"
  by (simp add: tag_def same_payload_nth)

lemma same_payload_tags:
  assumes "same_payload dev dev'" "cache_shape dev xs"
  shows "cache_tags content dev' = cache_tags content dev"
proof -
  have "entry dev i \<Longrightarrow> tag dev' i = tag dev i" for i
    using assms(2) by (intro same_payload_tag [OF assms(1)]) (auto simp: entry_def cache_shape_def)
  then show ?thesis
    by (simp add: cache_tags_def same_payload_simps [OF assms(1)])
qed

text \<open>The search finds the first descriptor that carries the block.\<close>

lemma find_cached_Some:
  "find_cached cs b i = Some k \<Longrightarrow> i \<le> k \<and> k < i + length cs \<and> c_block (cs ! (k - i)) = b"
  by (induction cs b i rule: find_cached.induct) (fastforce simp: nth_Cons' split: if_splits)+

lemma find_cached_None: "find_cached cs b i = None \<longleftrightarrow> (\<forall>c \<in> set cs. c_block c \<noteq> b)"
  by (induction cs b i rule: find_cached.induct) auto

definition lookup :: "'d device \<Rightarrow> u64 \<Rightarrow> nat option" where
  "lookup dev b = find_cached (take (unat (cache_entries dev)) (drop 1 (cache_nodes dev))) b 1"

lemma lookup_Some:
  assumes "cache_shape dev xs" "lookup dev b = Some k"
  shows "entry dev k" "tag dev k = b"
  using find_cached_Some [OF assms(2) [unfolded lookup_def]] assms(1)
  by (auto simp: entry_def tag_def cache_shape_def n_entries_def min_def)

lemma lookup_None:
  assumes "cache_shape dev xs"
  shows "lookup dev b = None \<longleftrightarrow> (\<forall>i. entry dev i \<longrightarrow> tag dev i \<noteq> b)"
proof -
  have "set (take (n_entries dev) (drop 1 (cache_nodes dev))) = (\<lambda>i. cache_nodes dev ! i) ` {i. entry dev i}"
  proof -
    have "set (take (n_entries dev) (drop 1 (cache_nodes dev))) =
        (\<lambda>j. cache_nodes dev ! Suc j) ` {..<n_entries dev}"
      using assms by (auto simp: cache_shape_def set_conv_nth image_iff)
    also have "\<dots> = (\<lambda>i. cache_nodes dev ! i) ` {i. entry dev i}"
      by (auto simp: entry_def image_iff) (metis Suc_pred Suc_le_eq lessThan_iff)+
    finally show ?thesis .
  qed
  then show ?thesis
    by (auto simp: lookup_def find_cached_None tag_def n_entries_def)
qed

lemma chain_entries:
  "cache_shape dev xs \<Longrightarrow> i \<in> set xs \<Longrightarrow> entry dev i"
  by (auto simp: cache_shape_def chain_ok_def ring_def has_node_def entry_def less_Suc_eq_le
      intro!: gr0I)

text \<open>
  The LRU list of an unlocked cache: the descriptor found is moved to the end, a block that is
  not cached takes the descriptor at the front.
\<close>

definition victim :: "'d device \<Rightarrow> nat list \<Rightarrow> u64 \<Rightarrow> nat" where
  "victim dev xs b = (case lookup dev b of Some k \<Rightarrow> k | None \<Rightarrow> hd xs)"

definition lru_order :: "nat list \<Rightarrow> nat \<Rightarrow> nat list" where
  "lru_order xs k = (if k \<in> set xs then remove1 k xs @ [k] else xs)"

lemma lru_touch_order:
  assumes "chain_ok dev xs" "0 < k"
  obtains dev' where "lru_touch dev 0 k = Some dev'" "same_payload dev dev'"
    "chain_ok dev' (lru_order xs k)"
proof (cases "k \<in> set xs")
  case True
  obtain as bs where x: "xs = as @ k # bs" "k \<notin> set as" by (metis True split_list_first)
  moreover have "lru_order xs k = as @ bs @ [k]"
    using x by (simp add: lru_order_def remove1_append)
  ultimately show ?thesis using lru_touch_moves that assms(1) by metis
next
  case False
  then show ?thesis
    using that lru_touch_locked [OF assms False] assms by (simp add: lru_order_def)
qed

lemma victim_entry:
  "cache_shape dev xs \<Longrightarrow> xs \<noteq> [] \<Longrightarrow> entry dev (victim dev xs b)"
  using lookup_Some [of dev xs b] chain_entries [of dev xs]
  by (auto simp: victim_def split: option.splits)

lemma get_cache_block_spec:
  assumes S: "cache_shape dev xs" and ne: "xs \<noteq> []"
  obtains dev' where "get_cache_block dev b = Some (victim dev xs b, dev')"
    "cache_shape dev' (lru_order xs (victim dev xs b))" "same_payload dev dev'"
proof -
  define k where "k = victim dev xs b"
  have C: "chain_ok dev xs" and h: "cache_head dev = Some 0"
    using S by (simp_all add: cache_shape_def chain_ok_def)
  have sel: "(case find_cached (take (unat (cache_entries dev)) (drop (0 + 1) (cache_nodes dev))) b (0 + 1)
      of Some cs \<Rightarrow> Some cs | None \<Rightarrow> node_next dev 0) = Some k"
    using C ne ring_head_succ [of "node_next dev" "node_prev dev" 0 xs]
    by (auto simp: k_def victim_def lookup_def chain_ok_def split: option.splits)
  have "0 < k" using victim_entry [OF S ne] by (simp add: k_def entry_def)
  then obtain dev' where T: "lru_touch dev 0 k = Some dev'" "same_payload dev dev'"
      "chain_ok dev' (lru_order xs k)"
    using lru_touch_order [OF C] by blast
  have "get_cache_block dev b = Some (k, dev')"
    unfolding get_cache_block_def h bind.bind_lunit sel T(1) ..
  then show ?thesis
    using that same_payload_shape [OF T(2,3) S] T(2) by (simp add: k_def)
qed

section \<open>Reading through the cache\<close>

text \<open>The block that the disk holds: \<open>block_size / sector_size\<close> consecutive sectors.\<close>

definition dev_block :: "(u64 \<Rightarrow> bytes) \<Rightarrow> u32 \<Rightarrow> u16 \<Rightarrow> u64 \<Rightarrow> bytes" where
  "dev_block sector secsz bs b =
     (let spb = ucast bs div secsz :: u32
      in concat (map (\<lambda>i. sector (b * ucast spb + of_nat i)) [0..<unat spb]))"

text \<open>
  The interface of the disk that the cache relies on: in a good state a read inside the
  partition (\<open>nsec\<close> sectors) delivers the requested sectors and leaves the disk in a good state.
\<close>

locale block_device =
  fixes rdwr :: "'d \<Rightarrow> u64 \<Rightarrow> u32 \<Rightarrow> 'd \<times> bytes"
    and secsz :: u32
    and nsec :: nat
    and dinv :: "'d \<Rightarrow> bool"
    and sector :: "u64 \<Rightarrow> bytes"
  assumes secsz_pos: "0 < unat secsz"
    and sector_length: "length (sector sn) = unat secsz"
    and rdwr_reads: "dinv d \<Longrightarrow> unat lba + unat n \<le> nsec \<Longrightarrow>
          snd (rdwr d lba n) = concat (map (\<lambda>i. sector (lba + of_nat i)) [0..<unat n])"
    and rdwr_inv: "dinv d \<Longrightarrow> unat lba + unat n \<le> nsec \<Longrightarrow> dinv (fst (rdwr d lba n))"

definition valid_block :: "u32 \<Rightarrow> nat \<Rightarrow> u16 \<Rightarrow> u64 \<Rightarrow> bool" where
  "valid_block secsz nsec bs b \<longleftrightarrow> b \<noteq> - 1 \<and>
     unat (b * ucast (ucast bs div secsz :: u32)) + unat (ucast bs div secsz :: u32) \<le> nsec"

text \<open>
  A cache ready for use: the layout, the chain \<open>xs\<close> of unlocked descriptors is not empty, every
  cached block is right, and the contents are the disk's, but for blocks that are cached and
  locked.
\<close>

definition cache_ready ::
  "u32 \<Rightarrow> nat \<Rightarrow> ('d \<Rightarrow> bool) \<Rightarrow> (u64 \<Rightarrow> bytes) \<Rightarrow> (u64 \<Rightarrow> bytes) \<Rightarrow> 'd device \<Rightarrow> nat list \<Rightarrow> bool" where
  "cache_ready secsz nsec dinv sector content dev xs \<longleftrightarrow>
     cache_shape dev xs \<and> xs \<noteq> [] \<and> cache_tags content dev \<and>
     dinv (dev_disk dev) \<and> unat secsz dvd bsize dev \<and>
     (\<forall>b. valid_block secsz nsec (cache_block_size dev) b \<longrightarrow>
        content b = dev_block sector secsz (cache_block_size dev) b \<or>
        (\<exists>k. lookup dev b = Some k \<and> k \<notin> set xs))"

lemma slot_in_buffer:
  assumes "cache_shape dev xs" "entry dev k"
  shows "(k - 1) * bsize dev + bsize dev \<le> length (cache_data dev)"
proof -
  have "(k - 1) * bsize dev + bsize dev = k * bsize dev"
    using assms(2) by (cases k) (simp_all add: entry_def)
  also have "\<dots> \<le> n_entries dev * bsize dev" using assms(2) by (simp add: entry_def)
  finally show ?thesis using assms(1) by (simp add: cache_shape_def)
qed

lemma take_drop_other_range:
  assumes "p + b \<le> q \<or> q + b \<le> p" "length xs = b" "p + b \<le> length buf"
  shows "take b (drop q (take p buf @ xs @ drop (p + b) buf)) = take b (drop q buf)"
proof (cases "p + b \<le> q")
  case True
  then show ?thesis using assms by simp
next
  case False
  then show ?thesis using assms by (simp add: take_drop min_def)
qed

lemma take_drop_same_range:
  assumes "length xs = b" "p + b \<le> length buf"
  shows "take b (drop p (take p buf @ xs @ drop (p + b) buf)) = xs"
  using assms by simp

lemma lookup_iff:
  assumes "cache_shape dev xs" "cache_tags content dev" "b \<noteq> - 1"
  shows "lookup dev b = Some k \<longleftrightarrow> entry dev k \<and> tag dev k = b"
proof
  assume "lookup dev b = Some k"
  then show "entry dev k \<and> tag dev k = b" using lookup_Some [OF assms(1)] by simp
next
  assume k: "entry dev k \<and> tag dev k = b"
  then obtain k' where "lookup dev b = Some k'"
    using lookup_None [OF assms(1), of b] by (cases "lookup dev b") auto
  then show "lookup dev b = Some k"
    using k lookup_Some [OF assms(1)] assms(2,3) unfolding cache_tags_def by metis
qed

lemma find_cached_cong:
  "map c_block cs = map c_block ds \<Longrightarrow> find_cached cs b i = find_cached ds b i"
proof (induction cs arbitrary: ds i)
  case (Cons c cs)
  then show ?case by (cases ds) auto
qed simp

lemma same_payload_lookup: "same_payload dev dev' \<Longrightarrow> lookup dev' b = lookup dev b"
  unfolding lookup_def
  by (intro find_cached_cong) (simp add: same_payload_def take_map [symmetric] drop_map [symmetric])

lemma insert_set_remove1: "k \<in> set xs \<Longrightarrow> insert k (set (remove1 k xs)) = set xs"
  by (induction xs) auto

lemma set_lru_order [simp]: "set (lru_order xs k) = set xs"
  by (simp add: lru_order_def insert_set_remove1)

lemma lru_order_Nil [simp]: "lru_order xs k = [] \<longleftrightarrow> xs = []"
  by (auto simp: lru_order_def)

text \<open>A descriptor that is loaded with another block: only its tag and its slot change.\<close>

definition load_slot :: "'d device \<Rightarrow> nat \<Rightarrow> u64 \<Rightarrow> 'd \<Rightarrow> bytes \<Rightarrow> 'd device" where
  "load_slot dev k b d buf = dev\<lparr>cache_nodes := (cache_nodes dev)[k := (cache_nodes dev ! k)\<lparr>c_block := b\<rparr>],
     dev_disk := d, cache_data := buf\<rparr>"

lemma tag_update_links [simp]:
  "c_next (ns[k := (ns ! k)\<lparr>c_block := b\<rparr>] ! x) = c_next (ns ! x)"
  "c_prev (ns[k := (ns ! k)\<lparr>c_block := b\<rparr>] ! x) = c_prev (ns ! x)"
  "c_data (ns[k := (ns ! k)\<lparr>c_block := b\<rparr>] ! x) = c_data (ns ! x)"
proof -
  consider "k < length ns" "k = x" | "k \<noteq> x" | "length ns \<le> k" by linarith
  then have "\<exists>b'. ns[k := (ns ! k)\<lparr>c_block := b\<rparr>] ! x = (ns ! x)\<lparr>c_block := b'\<rparr>"
    by cases (auto simp: list_update_beyond intro: exI [of _ "c_block (ns ! x)"])
  then show "c_next (ns[k := (ns ! k)\<lparr>c_block := b\<rparr>] ! x) = c_next (ns ! x)"
    "c_prev (ns[k := (ns ! k)\<lparr>c_block := b\<rparr>] ! x) = c_prev (ns ! x)"
    "c_data (ns[k := (ns ! k)\<lparr>c_block := b\<rparr>] ! x) = c_data (ns ! x)"
    by auto
qed

lemma load_slot_links [simp]:
  "node_next (load_slot dev k b d buf) = node_next dev"
  "node_prev (load_slot dev k b d buf) = node_prev dev"
  "has_node (load_slot dev k b d buf) = has_node dev"
  "cache_head (load_slot dev k b d buf) = cache_head dev"
  "bsize (load_slot dev k b d buf) = bsize dev"
  "n_entries (load_slot dev k b d buf) = n_entries dev"
  "entry (load_slot dev k b d buf) = entry dev"
  "dev_disk (load_slot dev k b d buf) = d"
  "cache_block_size (load_slot dev k b d buf) = cache_block_size dev"
  by (auto simp: load_slot_def node_next_def node_prev_def has_node_def nth_list_update bsize_def
      n_entries_def entry_def fun_eq_iff)

lemma load_slot_tag:
  "k < length (cache_nodes dev) \<Longrightarrow> tag (load_slot dev k b d buf) i = (if i = k then b else tag dev i)"
  by (simp add: load_slot_def tag_def nth_list_update)

lemma load_slot_shape:
  "cache_shape dev xs \<Longrightarrow> length buf = length (cache_data dev) \<Longrightarrow>
   cache_shape (load_slot dev k b d buf) xs"
  by (auto simp: cache_shape_def chain_ok_def)
    (auto simp: load_slot_def nth_list_update entry_def n_entries_def)

lemma load_slot_slot:
  assumes "entry dev k" "entry dev i" "cache_shape dev xs" "length bs = bsize dev"
    "buf = take ((k - 1) * bsize dev) (cache_data dev) @ bs @
       drop ((k - 1) * bsize dev + bsize dev) (cache_data dev)"
  shows "slot (load_slot dev k b d buf) i = (if i = k then bs else slot dev i)"
proof -
  have data: "cache_data (load_slot dev k b d buf') = buf'" for buf' by (simp add: load_slot_def)
  note fits = slot_in_buffer [OF assms(3,1)]
  show ?thesis
  proof (cases "i = k")
    case False
    have "(k - 1) * bsize dev + bsize dev \<le> (i - 1) * bsize dev \<or>
        (i - 1) * bsize dev + bsize dev \<le> (k - 1) * bsize dev"
    proof (cases "k < i")
      case True
      then have "Suc (k - 1) * bsize dev \<le> (i - 1) * bsize dev"
        using assms(1) by (intro mult_le_mono1) (simp add: entry_def)
      then show ?thesis by simp
    next
      case ik: False
      then have "Suc (i - 1) * bsize dev \<le> (k - 1) * bsize dev"
        using assms(2) False by (intro mult_le_mono1) (simp add: entry_def)
      then show ?thesis by simp
    qed
    with fits assms(4,5) False show ?thesis
      by (simp only: slot_def data load_slot_links(5) if_False take_drop_other_range)
  qed (use fits assms(4,5) in \<open>simp add: slot_def data\<close>)
qed

context block_device begin

lemma dev_block_length:
  assumes "unat secsz dvd unat bs"
  shows "length (dev_block sector secsz bs b) = unat bs"
proof -
  have "unat (ucast bs div secsz :: u32) = unat bs div unat secsz"
    by (simp add: unat_div_distrib unat_ucast_up)
  then show ?thesis
    using assms by (simp add: dev_block_def Let_def length_concat comp_def sector_length sum_list_triv)
qed

lemma getoneblk_reads:
  assumes "dinv d" "valid_block secsz nsec bs b"
  shows "snd (getoneblk rdwr secsz d b bs) = dev_block sector secsz bs b"
    "dinv (fst (getoneblk rdwr secsz d b bs))"
  using assms rdwr_reads rdwr_inv by (simp_all add: getoneblk_def dev_block_def valid_block_def Let_def)

lemma get_cache_hit:
  assumes R: "cache_ready secsz nsec dinv sector content dev xs"
    and L: "lookup dev b = Some k" and b: "b \<noteq> - 1"
  obtains dev' where "get_cache rdwr secsz dev b = Some (dev', (k - 1) * bsize dev)"
    "cache_ready secsz nsec dinv sector content dev' (lru_order xs k)"
    "slot dev' k = content b" "same_payload dev dev'"
proof -
  have S: "cache_shape dev xs" "xs \<noteq> []" "cache_tags content dev"
    using R by (simp_all add: cache_ready_def)
  have v: "victim dev xs b = k" using L by (simp add: victim_def)
  obtain dev' where g: "get_cache_block dev b = Some (k, dev')" "cache_shape dev' (lru_order xs k)"
      "same_payload dev dev'"
    using get_cache_block_spec [OF S(1,2), of b] unfolding v by blast
  have k: "entry dev k" "tag dev k = b" using lookup_Some [OF S(1) L] by simp_all
  have kl: "k < length (cache_nodes dev')" "c_data (cache_nodes dev' ! k) = Some ((k - 1) * bsize dev)"
    using g(2) k(1) same_payload_simps [OF g(3)] by (auto simp: cache_shape_def entry_def)
  have "tag dev' k = b" using same_payload_tag [OF g(3)] k S(1) by (simp add: cache_shape_def entry_def)
  then have "get_cache rdwr secsz dev b = Some (dev', (k - 1) * bsize dev)"
    using kl by (simp add: get_cache_def g(1) tag_def)
  moreover have "slot dev' k = content b"
    using S(3) k b same_payload_simps [OF g(3)] by (auto simp: cache_tags_def)
  moreover have "cache_ready secsz nsec dinv sector content dev' (lru_order xs k)"
    using R g(2) same_payload_tags [OF g(3) S(1)] same_payload_lookup [OF g(3)]
    unfolding cache_ready_def same_payload_simps [OF g(3)] by simp
  ultimately show ?thesis using that g(3) by blast
qed

lemma get_cache_miss:
  assumes R: "cache_ready secsz nsec dinv sector content dev xs"
    and L: "lookup dev b = None" and V: "valid_block secsz nsec (cache_block_size dev) b"
  obtains dev1 d buf where
    "get_cache rdwr secsz dev b = Some (load_slot dev1 (hd xs) b d buf, (hd xs - 1) * bsize dev)"
    "cache_ready secsz nsec dinv sector content (load_slot dev1 (hd xs) b d buf) (lru_order xs (hd xs))"
    "slot (load_slot dev1 (hd xs) b d buf) (hd xs) = content b" "same_payload dev dev1"
proof -
  define k where "k = hd xs"
  define bs where "bs = dev_block sector secsz (cache_block_size dev) b"
  have S: "cache_shape dev xs" "xs \<noteq> []" "cache_tags content dev" "dinv (dev_disk dev)"
      "unat secsz dvd bsize dev"
    and C: "valid_block secsz nsec (cache_block_size dev) b' \<Longrightarrow>
        content b' = dev_block sector secsz (cache_block_size dev) b' \<or>
        (\<exists>k. lookup dev b' = Some k \<and> k \<notin> set xs)" for b'
    using R by (simp_all add: cache_ready_def)
  have b: "b \<noteq> - 1" using V by (simp add: valid_block_def)
  have cb: "content b = bs" using C [OF V] L by (simp add: bs_def)
  have v: "victim dev xs b = k" using L by (simp add: victim_def k_def)
  obtain dev1 where g: "get_cache_block dev b = Some (k, dev1)" "cache_shape dev1 (lru_order xs k)"
      "same_payload dev dev1"
    using get_cache_block_spec [OF S(1,2), of b] unfolding v by blast
  note P = same_payload_simps [OF g(3)]
  have k: "entry dev k" "k \<in> set xs" using victim_entry [OF S(1,2), of b] v S(2) by (simp_all add: k_def)
  have len: "length (cache_nodes dev1) = Suc (n_entries dev)" "k < length (cache_nodes dev1)"
    using g(2) k(1) P by (simp_all add: cache_shape_def entry_def)
  have cd: "c_data (cache_nodes dev1 ! k) = Some ((k - 1) * bsize dev)"
    using g(2) k(1) P by (simp add: cache_shape_def)
  have nocache: "tag dev1 i \<noteq> b" if "entry dev i" for i
    using that lookup_None [OF g(2), of b] same_payload_lookup [OF g(3), of b] L P by simp
  obtain d where o: "getoneblk rdwr secsz (dev_disk dev) b (cache_block_size dev) = (d, bs)" "dinv d"
    using getoneblk_reads [OF S(4) V] by (metis bs_def prod.collapse)
  have lbs: "length bs = bsize dev"
    using dev_block_length S(5) by (simp add: bs_def bsize_def)
  define buf where "buf = take ((k - 1) * bsize dev) (cache_data dev1) @ bs @
      drop ((k - 1) * bsize dev + bsize dev) (cache_data dev1)"
  have fits: "(k - 1) * bsize dev + bsize dev \<le> length (cache_data dev1)"
    using slot_in_buffer [OF S(1) k(1)] P by simp
  then have lbuf: "length buf = length (cache_data dev1)" by (simp add: buf_def lbs)
  let ?dev2 = "load_slot dev1 k b d buf"
  have "get_cache rdwr secsz dev b = Some (?dev2, (k - 1) * bsize dev)"
    using len nocache [OF k(1)] cd fits
    by (simp add: get_cache_def g(1) put_block_def has_node_def P o(1) wr_range_def lbs tag_def
        buf_def load_slot_def)
  moreover have slots: "slot ?dev2 i = (if i = k then bs else slot dev i)" if "entry dev i" for i
    using load_slot_slot [of dev1 k i "lru_order xs k" bs buf b d] k(1) g(2) lbs that
    by (simp add: P buf_def)
  moreover have tags: "tag ?dev2 i = (if i = k then b else tag dev i)" if "entry dev i" for i
    using load_slot_tag [OF len(2)] same_payload_tag [OF g(3), of i] that S(1)
    by (simp add: cache_shape_def entry_def)
  have nocache0: "tag dev i \<noteq> b" if "entry dev i" for i
    using nocache [OF that] same_payload_tag [OF g(3), of i] that S(1)
    by (simp add: cache_shape_def entry_def)
  have ent: "entry ?dev2 = entry dev" by (simp add: P)
  have shape: "cache_shape ?dev2 (lru_order xs k)"
    by (rule load_slot_shape [OF g(2) lbuf])
  have T: "cache_tags content ?dev2"
    using S(3) nocache0 unfolding cache_tags_def ent
    by (simp add: tags slots cb) metis
  have locked: "lookup ?dev2 b' = Some k'" if "lookup dev b' = Some k'" "k' \<notin> set xs" "b' \<noteq> - 1" for b' k'
  proof -
    have "entry dev k'" "tag dev k' = b'" using lookup_Some [OF S(1) that(1)] by simp_all
    moreover have "k' \<noteq> k" using that(2) k(2) by auto
    ultimately have "entry ?dev2 k' \<and> tag ?dev2 k' = b'" by (simp only: ent tags if_False)
    then show ?thesis by (rule lookup_iff [OF shape T that(3), THEN iffD2])
  qed
  have "cache_ready secsz nsec dinv sector content ?dev2 (lru_order xs k)"
    unfolding cache_ready_def set_lru_order
    using shape S(2,5) T o(2) C locked by (auto simp: P valid_block_def)
  ultimately show ?thesis
    using that g(3) slots [OF k(1)] cb by (simp add: k_def)
qed

text \<open>A block that is read through the cache is the block's content, hit or miss.\<close>

lemma read_block_ready:
  assumes R: "cache_ready secsz nsec dinv sector content dev xs"
    and V: "valid_block secsz nsec (cache_block_size dev) b"
  obtains dev' where "read_block rdwr secsz dev b = Some (dev', content b)"
    "cache_ready secsz nsec dinv sector content dev' (lru_order xs (victim dev xs b))"
    "cache_block_size dev' = cache_block_size dev" "entry dev' = entry dev"
    "\<And>i. entry dev i \<Longrightarrow> tag dev' i = (if i = victim dev xs b then b else tag dev i)"
    "lookup dev b \<noteq> None \<Longrightarrow> dev_disk dev' = dev_disk dev \<and> cache_data dev' = cache_data dev"
proof -
  have S: "cache_shape dev xs" "xs \<noteq> []" using R by (simp_all add: cache_ready_def)
  have rd: "read_block rdwr secsz dev b = Some (dev', content b)"
    if "get_cache rdwr secsz dev b = Some (dev', (k - 1) * bsize dev)" "entry dev' k"
      "cache_shape dev' ys" "slot dev' k = content b" "bsize dev' = bsize dev" for dev' k ys
    using that slot_in_buffer [OF that(3,2)]
    by (simp add: read_block_def rd_range_def bsize_def slot_def)
  have old: "tag dev1 i = tag dev i" if "same_payload dev dev1" "entry dev i" for dev1 i
    using same_payload_tag [OF that(1), of i] that(2) S(1) by (simp add: cache_shape_def entry_def)
  show ?thesis
  proof (cases "lookup dev b")
    case None
    then have v: "victim dev xs b = hd xs" by (simp add: victim_def)
    obtain dev1 d buf where m: "get_cache rdwr secsz dev b =
          Some (load_slot dev1 (hd xs) b d buf, (hd xs - 1) * bsize dev)"
        "cache_ready secsz nsec dinv sector content (load_slot dev1 (hd xs) b d buf) (lru_order xs (hd xs))"
        "slot (load_slot dev1 (hd xs) b d buf) (hd xs) = content b" "same_payload dev dev1"
      using get_cache_miss [OF R None V] by blast
    have e: "entry dev (hd xs)" using victim_entry [OF S, of b] v by simp
    then have "hd xs < length (cache_nodes dev1)"
      using S(1) same_payload_length [OF m(4)] by (simp add: cache_shape_def entry_def)
    then have "tag (load_slot dev1 (hd xs) b d buf) i = (if i = hd xs then b else tag dev i)"
      if "entry dev i" for i using that by (simp add: load_slot_tag old [OF m(4)])
    moreover have "read_block rdwr secsz dev b = Some (load_slot dev1 (hd xs) b d buf, content b)"
      by (rule rd [OF m(1) _ _ m(3)])
        (use m(2) e in \<open>auto simp: cache_ready_def same_payload_simps [OF m(4)]\<close>)
    ultimately show ?thesis
      using that [of "load_slot dev1 (hd xs) b d buf"] m(2) None
      by (simp add: v same_payload_simps [OF m(4)])
  next
    case (Some k)
    then have v: "victim dev xs b = k" by (simp add: victim_def)
    obtain dev1 where h: "get_cache rdwr secsz dev b = Some (dev1, (k - 1) * bsize dev)"
        "cache_ready secsz nsec dinv sector content dev1 (lru_order xs k)"
        "slot dev1 k = content b" "same_payload dev dev1"
      using get_cache_hit [OF R Some] V by (auto simp: valid_block_def)
    note P = same_payload_simps [OF h(4)]
    have k: "entry dev k" "tag dev k = b" using lookup_Some [OF S(1) Some] by simp_all
    have "read_block rdwr secsz dev b = Some (dev1, content b)"
      by (rule rd [OF h(1) _ _ h(3)]) (use h(2) k P in \<open>auto simp: cache_ready_def\<close>)
    then show ?thesis
      by (rule that) (use h k P v old [OF h(4)] in auto)
  qed
qed

end

section \<open>Initialisation\<close>

lemma cache_init_loop_length [simp]:
  "length (cache_init_loop k i p data bs nodes) = length nodes"
  by (induction k arbitrary: i p data nodes) (simp_all add: Let_def)

lemma cache_init_loop_nth:
  "i + k < length nodes \<Longrightarrow> j < length nodes \<Longrightarrow>
   cache_init_loop k i i data bs nodes ! j =
     (if i < j \<and> j \<le> i + k
      then \<lparr>c_block = - 1, c_prev = Some (j - 1),
            c_next = if j < i + k then Some (j + 1) else c_next (nodes ! j),
            c_data = Some (data + (j - i - 1) * bs)\<rparr>
      else if j = i \<and> 0 < k then (nodes ! j)\<lparr>c_next := Some (i + 1)\<rparr> else nodes ! j)"
proof (induction k arbitrary: i data nodes)
  case (Suc k)
  define ns where "ns = (nodes[i + 1 := (nodes ! (i + 1))\<lparr>c_data := Some data, c_block := - 1,
      c_prev := Some i\<rparr>])[i := (nodes ! i)\<lparr>c_next := Some (i + 1)\<rparr>]"
  have step: "cache_init_loop (Suc k) i i data bs nodes = cache_init_loop k (i + 1) (i + 1) (data + bs) bs ns"
    by (simp add: Let_def ns_def)
  have len: "length ns = length nodes" by (simp add: ns_def)
  have ns: "ns ! l = (if l = i then (nodes ! l)\<lparr>c_next := Some (i + 1)\<rparr>
      else if l = i + 1 then (nodes ! l)\<lparr>c_data := Some data, c_block := - 1, c_prev := Some i\<rparr>
      else nodes ! l)" if "l < length nodes" for l
    using Suc.prems that by (simp add: ns_def nth_list_update)
  have off: "bs + (l - Suc (Suc i)) * bs = (l - Suc i) * bs" if "Suc i < l" for l
  proof -
    have "l - Suc i = Suc (l - Suc (Suc i))" using that by simp
    then show ?thesis by simp
  qed
  have off0: "bs + (k - Suc 0) * bs = k * bs" if "0 < k"
    using that by (cases k) simp_all
  show ?case
    unfolding step using Suc.prems
    by (subst Suc.IH) (auto simp: len ns off off0)
qed auto

lemma init_head_length [simp]: "length (init_head n) = Suc n"
  unfolding init_head_def Let_def length_list_update length_replicate by simp

lemma init_head_nth:
  "0 < n \<Longrightarrow> j \<le> n \<Longrightarrow> init_head n ! j =
     (if j = 0 then \<lparr>c_block = - 1, c_prev = Some n, c_next = None, c_data = None\<rparr>
      else if j = n then zero_node\<lparr>c_next := Some 0\<rparr> else zero_node)"
  unfolding init_head_def Let_def
  by (simp add: nth_list_update zero_node_def del: replicate_Suc list_update.simps)

lemma cache_init_fields:
  assumes "\<not> cache_size dev < ucast (word_of_nat (2 ^ s) :: u16) + 2 * sizeof_cache"
  shows "n_entries (cache_init dev s) = unat (ucast ((cache_size dev - sizeof_cache) div
           (ucast (word_of_nat (2 ^ s) :: u16) + sizeof_cache)) :: u16)"
    "cache_head (cache_init dev s) = Some 0"
    "cache_block_size (cache_init dev s) = word_of_nat (2 ^ s)"
    "cache_data (cache_init dev s) = cache_data dev" "dev_disk (cache_init dev s) = dev_disk dev"
    "length (cache_nodes (cache_init dev s)) = Suc (n_entries (cache_init dev s))"
  using assms by (simp_all add: cache_init_def Let_def n_entries_def)

lemma cache_init_nodes:
  assumes "\<not> cache_size dev < ucast (word_of_nat (2 ^ s) :: u16) + 2 * sizeof_cache"
  defines "d \<equiv> cache_init dev s"
  assumes "j \<le> n_entries d" "0 < n_entries d"
  shows "cache_nodes d ! j =
    (if j = 0 then \<lparr>c_block = - 1, c_prev = Some (n_entries d), c_next = Some 1, c_data = None\<rparr>
     else \<lparr>c_block = - 1, c_prev = Some (j - 1),
           c_next = if j = n_entries d then Some 0 else Some (j + 1),
           c_data = Some ((j - 1) * bsize d)\<rparr>)"
  using assms cache_init_fields [OF assms(1)]
  by (simp add: cache_init_def Let_def cache_init_loop_nth init_head_nth zero_node_def n_entries_def
      bsize_def)

lemma unat_block_size:
  assumes "s \<le> 15"
  shows "unat (2 ^ s :: u16) = 2 ^ s"
proof -
  have "(2 :: nat) ^ s < 2 ^ 16" using assms by (intro power_strict_increasing) simp_all
  then have "unat (word_of_nat (2 ^ s) :: u16) = 2 ^ s"
    unfolding unat_of_nat by (simp only: mod_less len_bit0 len_num1) simp
  then show ?thesis by simp
qed

lemma cache_init_usable:
  assumes s: "s \<le> 15" and sz: "2 ^ s + 40 \<le> unat (cache_size dev)"
    and n: "(unat (cache_size dev) - 20) div (2 ^ s + 20) < 65536"
  shows "\<not> cache_size dev < ucast (word_of_nat (2 ^ s) :: u16) + 2 * sizeof_cache"
    "n_entries (cache_init dev s) = (unat (cache_size dev) - 20) div (2 ^ s + 20)"
    "0 < n_entries (cache_init dev s)" "bsize (cache_init dev s) = 2 ^ s"
proof -
  note bs = unat_block_size [OF s]
  have lt: "(2 :: nat) ^ s < 2 ^ 16" using s by (intro power_strict_increasing) simp_all
  have a: "unat (ucast (word_of_nat (2 ^ s) :: u16) + 2 * sizeof_cache :: u32) = 2 ^ s + 40"
    using lt by (subst unat_add_no_wrap) (simp_all add: unat_ucast_up bs sizeof_cache_def)
  have b: "unat (ucast (word_of_nat (2 ^ s) :: u16) + sizeof_cache :: u32) = 2 ^ s + 20"
    using lt by (subst unat_add_no_wrap) (simp_all add: unat_ucast_up bs sizeof_cache_def)
  show nl: "\<not> cache_size dev < ucast (word_of_nat (2 ^ s) :: u16) + 2 * sizeof_cache"
    using sz a by (simp only: word_less_nat_alt not_less)
  have c: "unat (cache_size dev - sizeof_cache) = unat (cache_size dev) - 20"
    using sz by (subst unat_sub_no_wrap) (simp_all add: sizeof_cache_def word_le_nat_alt)
  show e: "n_entries (cache_init dev s) = (unat (cache_size dev) - 20) div (2 ^ s + 20)"
    unfolding cache_init_fields(1) [OF nl] using n
    using b by (simp add: unat_ucast_mod unat_div_distrib c)
  show "0 < n_entries (cache_init dev s)"
    unfolding e using sz by (simp add: div_greater_zero_iff)
  show "bsize (cache_init dev s) = 2 ^ s"
    unfolding bsize_def cache_init_fields(3) [OF nl] by (simp add: bs)
qed

lemma cache_init_ring:
  assumes "\<not> cache_size dev < ucast (word_of_nat (2 ^ s) :: u16) + 2 * sizeof_cache"
  defines "d \<equiv> cache_init dev s"
  assumes n: "0 < n_entries d"
  shows "chain_ok d [1..<Suc (n_entries d)]"
proof -
  note F = cache_init_fields [OF assms(1), folded d_def]
  note N = cache_init_nodes [OF assms(1), folded d_def, OF _ n]
  have nx: "node_next d j = (if j < n_entries d then Some (j + 1) else if j = n_entries d then Some 0 else None)"
    for j
    using n by (auto simp: node_next_def has_node_def F(6) N)
  have pv: "node_prev d j = (if j = 0 then Some (n_entries d) else if j \<le> n_entries d then Some (j - 1) else None)"
    for j
    using n by (auto simp: node_prev_def has_node_def F(6) N)
  have r: "0 # [1..<Suc (n_entries d)] @ [0] = [0..<Suc (n_entries d)] @ [0]"
    by (simp add: upt_conv_Cons del: upt_Suc)
  have "links (node_next d) (node_prev d) (0 # [1..<Suc (n_entries d)] @ [0])"
    unfolding r by (auto simp: links_nth nth_append nx pv less_Suc_eq simp del: upt_Suc)
  then have "ring (node_next d) (node_prev d) 0 [1..<Suc (n_entries d)]"
    by (simp add: ring_def del: upt_Suc)
  then show ?thesis
    by (auto simp: chain_ok_def F(2,6) has_node_def nx not_le)
qed

context block_device begin

lemma cache_init_ready:
  assumes s: "s \<le> 15" and sz: "2 ^ s + 40 \<le> unat (cache_size dev)"
    and n: "(unat (cache_size dev) - 20) div (2 ^ s + 20) < 65536"
    and buf: "length (cache_data dev) = unat (cache_size dev)"
    and d: "dinv (dev_disk dev)" "unat secsz dvd 2 ^ s"
  shows "cache_ready secsz nsec dinv sector (dev_block sector secsz (word_of_nat (2 ^ s)))
    (cache_init dev s) [1..<Suc (n_entries (cache_init dev s))]"
proof -
  note U = cache_init_usable [OF s sz n]
  note F = cache_init_fields [OF U(1)] and N = cache_init_nodes [OF U(1) _ U(3)]
  have t: "tag (cache_init dev s) i = - 1" if "entry (cache_init dev s) i" for i
    using that by (simp add: tag_def entry_def N)
  have "n_entries (cache_init dev s) * bsize (cache_init dev s) \<le>
      n_entries (cache_init dev s) * (2 ^ s + 20)"
    by (simp add: U(4))
  also have "\<dots> \<le> unat (cache_size dev) - 20"
    unfolding U(2) by (rule div_times_less_eq_dividend)
  finally have "n_entries (cache_init dev s) * bsize (cache_init dev s) \<le> length (cache_data dev)"
    using buf by simp
  then have "cache_shape (cache_init dev s) [1..<Suc (n_entries (cache_init dev s))]"
    using cache_init_ring [OF U(1,3)] by (auto simp: cache_shape_def F(4,6) entry_def N simp del: upt_Suc)
  then show ?thesis
    using d U(3,4) t by (auto simp: cache_ready_def cache_tags_def F(3,5) simp del: upt_Suc)
qed

lemma cache_ready_nonempty: "cache_ready secsz nsec dinv sector content dev xs \<Longrightarrow> xs \<noteq> []"
  by (simp add: cache_ready_def)

end

section \<open>The replacement policy\<close>

text \<open>
  The abstract cache is the list of the block numbers of the unlocked descriptors, the next
  victim first.  An access moves the block to the end, or drops the first one for it.
\<close>

definition lru_access :: "u64 \<Rightarrow> u64 list \<Rightarrow> u64 list" where
  "lru_access b ts = (if b \<in> set ts then remove1 b ts @ [b] else tl ts @ [b])"

definition tags :: "'d device \<Rightarrow> nat list \<Rightarrow> u64 list" where
  "tags dev xs = map (tag dev) xs"

definition pinned :: "'d device \<Rightarrow> nat list \<Rightarrow> u64 \<Rightarrow> bool" where
  "pinned dev xs b \<longleftrightarrow> (\<exists>k. lookup dev b = Some k \<and> k \<notin> set xs)"

lemma lru_hit_tags:
  assumes S: "cache_shape dev xs" "cache_tags content dev" and b: "b \<noteq> - 1"
    and L: "lookup dev b = Some k" and k: "k \<in> set xs"
    and T: "\<And>i. entry dev i \<Longrightarrow> tag dev' i = tag dev i"
  shows "tags dev' (lru_order xs k) = lru_access b (tags dev xs)"
proof -
  note E = chain_entries [OF S(1)]
  have tk: "tag dev k = b" using lookup_Some [OF S(1) L] by simp
  obtain as bs where x: "xs = as @ k # bs" "k \<notin> set as" by (metis k split_list_first)
  have "b \<notin> tag dev ` set as"
    using lookup_iff [OF S b] L E x by fastforce
  then have "lru_access b (map (tag dev) xs) = map (tag dev) (as @ bs @ [k])"
    using tk by (simp add: lru_access_def x(1) remove1_append)
  also have "\<dots> = map (tag dev') (as @ bs @ [k])"
    using T E x(1) by auto
  also have "as @ bs @ [k] = lru_order xs k"
    using x by (simp add: lru_order_def remove1_append)
  finally show ?thesis by (simp add: tags_def)
qed

lemma lru_miss_tags:
  assumes S: "cache_shape dev xs" "xs \<noteq> []" and L: "lookup dev b = None"
    and T: "\<And>i. entry dev i \<Longrightarrow> tag dev' i = (if i = hd xs then b else tag dev i)"
  shows "tags dev' (lru_order xs (hd xs)) = lru_access b (tags dev xs)"
proof -
  obtain k ys where x: "xs = k # ys" using S(2) by (cases xs) auto
  note E = chain_entries [OF S(1)]
  have "b \<notin> set (map (tag dev) xs)"
    using lookup_None [OF S(1), of b] L E by auto
  moreover have "k \<notin> set ys" using S(1) x by (simp add: cache_shape_def chain_ok_def ring_def)
  ultimately show ?thesis
    using T E by (auto simp: x lru_order_def lru_access_def tags_def)
qed

lemma pinned_iff:
  assumes "cache_shape dev xs" "cache_tags content dev" "b \<noteq> - 1"
  shows "pinned dev xs b \<longleftrightarrow> (\<exists>i. entry dev i \<and> tag dev i = b \<and> i \<notin> set xs)"
  unfolding pinned_def using lookup_iff [OF assms] by blast

context block_device begin

text \<open>One read: the content, the policy, and the pinned blocks.\<close>

lemma read_block_step:
  assumes R: "cache_ready secsz nsec dinv sector content dev xs"
    and V: "valid_block secsz nsec (cache_block_size dev) b"
  obtains dev' ys where "read_block rdwr secsz dev b = Some (dev', content b)"
    "cache_ready secsz nsec dinv sector content dev' ys"
    "cache_block_size dev' = cache_block_size dev"
    "tags dev' ys = (if pinned dev xs b then tags dev xs else lru_access b (tags dev xs))"
    "\<forall>b'. b' \<noteq> - 1 \<longrightarrow> pinned dev' ys b' = pinned dev xs b'"
    "b \<in> set (tags dev xs) \<or> pinned dev xs b \<longrightarrow> dev_disk dev' = dev_disk dev"
proof -
  define k where "k = victim dev xs b"
  have S: "cache_shape dev xs" "cache_tags content dev" "xs \<noteq> []" and b: "b \<noteq> - 1"
    using R V by (simp_all add: cache_ready_def valid_block_def)
  obtain dev' where D: "read_block rdwr secsz dev b = Some (dev', content b)"
      "cache_ready secsz nsec dinv sector content dev' (lru_order xs k)"
      "cache_block_size dev' = cache_block_size dev" and e: "entry dev' = entry dev"
    and tg: "\<And>i. entry dev i \<Longrightarrow> tag dev' i = (if i = k then b else tag dev i)"
    and hit: "lookup dev b \<noteq> None \<Longrightarrow> dev_disk dev' = dev_disk dev \<and> cache_data dev' = cache_data dev"
    using read_block_ready [OF R V] unfolding k_def by metis
  have S': "cache_shape dev' (lru_order xs k)" "cache_tags content dev'"
    using D(2) by (simp_all add: cache_ready_def)
  have same: "tag dev' i = tag dev i" if "entry dev i" "lookup dev b = Some k" for i
    using tg [OF that(1)] lookup_Some [OF S(1) that(2)] by simp
  have T: "tags dev' (lru_order xs k) = (if pinned dev xs b then tags dev xs else lru_access b (tags dev xs))"
  proof (cases "lookup dev b")
    case None
    then have "k = hd xs" by (simp add: k_def victim_def)
    then show ?thesis
      using lru_miss_tags [OF S(1,3) None, of dev'] tg None by (simp add: pinned_def)
  next
    case (Some j)
    then have L: "lookup dev b = Some k" by (simp add: k_def victim_def)
    show ?thesis
    proof (cases "k \<in> set xs")
      case True
      then show ?thesis
        using lru_hit_tags [OF S(1,2) b L True, of dev'] same L by (simp add: pinned_def)
    next
      case False
      then show ?thesis
        using same L chain_entries [OF S(1)] by (auto simp: pinned_def lru_order_def tags_def)
    qed
  qed
  have kx: "tag dev k = b \<or> k \<in> set xs"
    using lookup_Some [OF S(1), of b] S(3) by (auto simp: k_def victim_def split: option.splits)
  have P: "pinned dev' (lru_order xs k) b' = pinned dev xs b'" if "b' \<noteq> - 1" for b'
    using kx tg unfolding pinned_iff [OF S(1,2) that] pinned_iff [OF S' that] e set_lru_order
    by metis
  have "lookup dev b \<noteq> None" if "b \<in> set (tags dev xs) \<or> pinned dev xs b"
    using that lookup_None [OF S(1), of b] chain_entries [OF S(1)]
    by (auto simp: tags_def pinned_def)
  with that D(1-3) T P hit show ?thesis by metis
qed

end

text \<open>A run of reads, as the file systems make them.\<close>

primrec read_blocks ::
  "('d \<Rightarrow> u64 \<Rightarrow> u32 \<Rightarrow> 'd \<times> bytes) \<Rightarrow> u32 \<Rightarrow> 'd device \<Rightarrow> u64 list \<Rightarrow> ('d device \<times> bytes list) option" where
  "read_blocks rdwr secsz dev [] = Some (dev, [])"
| "read_blocks rdwr secsz dev (b # bs) =
     do { (dev, x) \<leftarrow> read_block rdwr secsz dev b;
          (dev, xs) \<leftarrow> read_blocks rdwr secsz dev bs;
          Some (dev, x # xs) }"

context block_device begin

lemma read_blocks_ready:
  assumes "cache_ready secsz nsec dinv sector content dev xs"
    and "\<forall>b \<in> set bs. valid_block secsz nsec (cache_block_size dev) b"
  obtains dev' ys where "read_blocks rdwr secsz dev bs = Some (dev', map content bs)"
    "cache_ready secsz nsec dinv sector content dev' ys"
    "cache_block_size dev' = cache_block_size dev"
    "tags dev' ys = fold lru_access (filter (\<lambda>b. \<not> pinned dev xs b) bs) (tags dev xs)"
    "\<forall>b. b \<noteq> - 1 \<longrightarrow> pinned dev' ys b = pinned dev xs b"
    "(\<forall>b \<in> set bs. pinned dev xs b) \<longrightarrow> dev_disk dev' = dev_disk dev"
  using assms
proof (induction bs arbitrary: dev xs thesis)
  case Nil
  show ?case by (rule Nil(1) [of dev xs]) (simp_all add: Nil)
next
  case (Cons b bs)
  have V: "valid_block secsz nsec (cache_block_size dev) b" using Cons.prems(3) by simp
  obtain dev1 ys where s: "read_block rdwr secsz dev b = Some (dev1, content b)"
      "cache_ready secsz nsec dinv sector content dev1 ys"
      "cache_block_size dev1 = cache_block_size dev"
      "tags dev1 ys = (if pinned dev xs b then tags dev xs else lru_access b (tags dev xs))"
      "\<forall>b'. b' \<noteq> - 1 \<longrightarrow> pinned dev1 ys b' = pinned dev xs b'"
      "b \<in> set (tags dev xs) \<or> pinned dev xs b \<longrightarrow> dev_disk dev1 = dev_disk dev"
    by (rule read_block_step [OF Cons.prems(2) V])
  have P: "pinned dev1 ys b' = pinned dev xs b'" if "b' \<in> set bs" for b'
    using Cons.prems(3) that s(5) by (auto simp: valid_block_def)
  have V1: "\<forall>b \<in> set bs. valid_block secsz nsec (cache_block_size dev1) b"
    using Cons.prems(3) s(3) by simp
  obtain dev2 zs where r: "read_blocks rdwr secsz dev1 bs = Some (dev2, map content bs)"
      "cache_ready secsz nsec dinv sector content dev2 zs"
      "cache_block_size dev2 = cache_block_size dev1"
      "tags dev2 zs = fold lru_access (filter (\<lambda>b. \<not> pinned dev1 ys b) bs) (tags dev1 ys)"
      "\<forall>b. b \<noteq> - 1 \<longrightarrow> pinned dev2 zs b = pinned dev1 ys b"
      "(\<forall>b \<in> set bs. pinned dev1 ys b) \<longrightarrow> dev_disk dev2 = dev_disk dev1"
    by (rule Cons.IH [OF _ s(2) V1])
  have "filter (\<lambda>b. \<not> pinned dev1 ys b) bs = filter (\<lambda>b. \<not> pinned dev xs b) bs"
    using P by (intro filter_cong) simp_all
  then have "tags dev2 zs = fold lru_access (filter (\<lambda>b. \<not> pinned dev xs b) (b # bs)) (tags dev xs)"
    by (simp add: r(4) s(4))
  moreover have "read_blocks rdwr secsz dev (b # bs) = Some (dev2, map content (b # bs))"
    by (simp add: s(1) r(1))
  moreover have "(\<forall>b \<in> set (b # bs). pinned dev xs b) \<longrightarrow> dev_disk dev2 = dev_disk dev"
    using r(6) s(6) P by simp
  moreover have "cache_block_size dev2 = cache_block_size dev"
      "\<forall>b. b \<noteq> - 1 \<longrightarrow> pinned dev2 zs b = pinned dev xs b"
    using r(3,5) s(3,5) by simp_all
  ultimately show ?case by (intro Cons.prems(1) [of dev2 zs] r(2))
qed

lemma cache_lock_block_ready:
  assumes R: "cache_ready secsz nsec dinv sector content dev (as @ k # bs)" and ne: "as @ bs \<noteq> []"
  obtains dev' where "cache_lock_block dev k = Some dev'"
    "cache_ready secsz nsec dinv sector content dev' (as @ bs)"
    "same_payload dev dev'" "node_next dev' k = None" "node_prev dev' k = None"
proof -
  have S: "cache_shape dev (as @ k # bs)" and C: "chain_ok dev (as @ k # bs)"
    using R by (simp_all add: cache_ready_def cache_shape_def)
  have Rg: "lru.is_ring dev 0 (as @ k # bs)" using C by (simp add: chain_ok_def)
  obtain p n s1 s2 where u: "node_next dev k = Some n" "node_prev dev k = Some p"
      "put_next dev p (Some n) = Some s1" "node_next s1 k = Some n" "node_prev s1 k = Some p"
      "put_prev s1 n (Some p) = Some s2" "lru.is_ring s2 0 (as @ bs)"
      "node_next s2 = (node_next dev)(p := Some n)" "has_node s2 = has_node dev"
      "p = last (0 # as)"
    using lru.unlink_next_first [OF Rg] by metis
  have k: "has_node s2 k" "k \<notin> set (0 # as @ bs)" using Rg u(9) by (auto simp: ring_def)
  obtain s3 where s3: "put_prev s2 k None = Some s3" using lru.put_prv_ex k by blast
  note l3 = lru.put_prv_prv [OF s3] lru.put_prv_nxt [OF s3] lru.put_prv_has [OF s3]
  obtain s4 where s4: "put_next s3 k None = Some s4" using lru.put_nxt_ex k l3 by metis
  note l4 = lru.put_nxt_nxt [OF s4] lru.put_nxt_prv [OF s4] lru.put_nxt_has [OF s4]
  have P: "same_payload dev s4"
    by (meson u(3,6) s3 s4 put_next_payload put_prev_payload same_payload_trans)
  have "lru.is_ring s4 0 (as @ bs)"
    using u(7) by (simp add: l3 l4 ring_upd [OF k(2)])
  moreover have "p \<in> set (0 # as)" unfolding u(10) by (rule last_in_set) simp
  ultimately have "chain_ok s4 (as @ bs)"
    using C P by (auto simp: chain_ok_def same_payload_def l4 l3 u(8))
  note S4 = same_payload_shape [OF P this S]
  have "cache_ready secsz nsec dinv sector content s4 (as @ bs)"
    using R S4 ne same_payload_tags [OF P S] same_payload_lookup [OF P]
    unfolding cache_ready_def same_payload_simps [OF P] by auto
  moreover have "cache_lock_block dev k = Some s4"
    by (simp add: cache_lock_block_def u(1-6) s3 s4)
  ultimately show ?thesis using that P by (simp add: l4 l3)
qed

end

lemma cache_init_tags:
  assumes "s \<le> 15" "2 ^ s + 40 \<le> unat (cache_size dev)"
    "(unat (cache_size dev) - 20) div (2 ^ s + 20) < 65536"
  defines "d \<equiv> cache_init dev s"
  shows "tags d [1..<Suc (n_entries d)] = replicate (n_entries d) (- 1)"
    "\<not> pinned d [1..<Suc (n_entries d)] b"
proof -
  note U = cache_init_usable [OF assms(1-3), folded d_def]
  note F = cache_init_fields [OF U(1), folded d_def]
  note N = cache_init_nodes [OF U(1), folded d_def, OF _ U(3)]
  show "tags d [1..<Suc (n_entries d)] = replicate (n_entries d) (- 1)"
    by (rule nth_equalityI) (simp_all add: tags_def tag_def N del: upt_Suc)
  have "0 < k \<and> k \<le> n_entries d" if "lookup d b = Some k" for k
    using find_cached_Some [OF that [unfolded lookup_def]] F(6) by (simp add: n_entries_def)
  then show "\<not> pinned d [1..<Suc (n_entries d)] b"
    unfolding pinned_def set_upt by fastforce
qed

section \<open>Properties\<close>

text \<open>A disk to try the theorems on: the sector number in every byte, 512-byte sectors.\<close>

definition demo_sector :: "u64 \<Rightarrow> bytes" where
  "demo_sector sn = replicate 512 (ucast sn)"

definition demo_rdwr :: "unit \<Rightarrow> u64 \<Rightarrow> u32 \<Rightarrow> unit \<times> bytes" where
  "demo_rdwr d lba n = ((), concat (map (\<lambda>i. demo_sector (lba + of_nat i)) [0..<unat n]))"

definition demo_device :: "unit device" where
  "demo_device = \<lparr>dev_disk = (), cache_data = replicate 2048 0, cache_head = None, cache_nodes = [],
     cache_block_size = 0, cache_entries = 0, cache_size = 2048\<rparr>"

interpretation demo: block_device demo_rdwr 512 100 "\<lambda>_. True" demo_sector
  by unfold_locales (simp_all add: demo_rdwr_def demo_sector_def)

text \<open>
  C1.  The block cache is transparent and its replacement policy is LRU.  From \<open>cache_init\<close> on,
  for a block size of at most 32K that the sector size divides and a cache buffer for at least
  one and less than 65536 blocks, any run of \<open>get_cache\<close> calls for blocks inside the device
  succeeds without an access outside the descriptors and the buffer, and every returned block
  holds exactly the disk's sectors; the chain of descriptors, by block number, is what the
  abstract least-recently-used policy gives.
\<close>

theorem cache_reads_disk:
  assumes D: "block_device rdwr secsz nsec dinv sector"
    and s: "s \<le> 15" "2 ^ s + 40 \<le> unat (cache_size dev)"
      "(unat (cache_size dev) - 20) div (2 ^ s + 20) < 65536" "unat secsz dvd 2 ^ s"
    and d: "length (cache_data dev) = unat (cache_size dev)" "dinv (dev_disk dev)"
    and V: "\<forall>b \<in> set bs. valid_block secsz nsec (word_of_nat (2 ^ s)) b"
  shows "\<exists>dev' ys. read_blocks rdwr secsz (cache_init dev s) bs =
       Some (dev', map (dev_block sector secsz (word_of_nat (2 ^ s))) bs) \<and>
     chain_ok dev' ys \<and>
     map (tag dev') ys = fold lru_access bs
       (replicate ((unat (cache_size dev) - 20) div (2 ^ s + 20)) (- 1))"
proof -
  let ?d = "cache_init dev s"
  let ?xs = "[1..<Suc (n_entries ?d)]"
  note U = cache_init_usable [OF s(1-3)]
  note T = cache_init_tags [OF s(1-3)]
  have R: "cache_ready secsz nsec dinv sector (dev_block sector secsz (word_of_nat (2 ^ s))) ?d ?xs"
    by (rule block_device.cache_init_ready [OF D s(1-3) d s(4)])
  have V': "\<forall>b \<in> set bs. valid_block secsz nsec (cache_block_size ?d) b"
    using V unfolding cache_init_fields(3) [OF U(1)] .
  obtain dev' ys where r:
      "read_blocks rdwr secsz ?d bs = Some (dev', map (dev_block sector secsz (word_of_nat (2 ^ s))) bs)"
      "cache_ready secsz nsec dinv sector (dev_block sector secsz (word_of_nat (2 ^ s))) dev' ys"
      "tags dev' ys = fold lru_access (filter (\<lambda>b. \<not> pinned ?d ?xs b) bs) (tags ?d ?xs)"
    by (rule block_device.read_blocks_ready [OF D R V'])
  then show ?thesis
    using T U(2) by (auto simp: cache_ready_def cache_shape_def simp flip: tags_def simp del: upt_Suc)
qed

theorem cache_reads_disk_witness:
  "\<exists>dev'. read_blocks demo_rdwr 512 (cache_init demo_device 9) [5, 7, 5, 8, 9] =
     Some (dev', map (dev_block demo_sector 512 512) [5, 7, 5, 8, 9])"
proof -
  have "\<exists>dev' ys. read_blocks demo_rdwr 512 (cache_init demo_device 9) [5, 7, 5, 8, 9] =
       Some (dev', map (dev_block demo_sector 512 (word_of_nat (2 ^ 9))) [5, 7, 5, 8, 9]) \<and>
     chain_ok dev' ys \<and>
     map (tag dev') ys = fold lru_access [5, 7, 5, 8, 9]
       (replicate ((unat (cache_size demo_device) - 20) div (2 ^ 9 + 20)) (- 1))"
    by (rule cache_reads_disk [OF demo.block_device_axioms])
      (simp_all add: demo_device_def valid_block_def)
  then show ?thesis by auto
qed

text \<open>
  C8.  A locked block stays in the cache.  \<open>cache_lock_block\<close> takes a cached block off the
  chain; as long as one unlocked descriptor is left, any later run of reads keeps the block
  cached with its content, and reading it again never touches the disk.
\<close>

theorem locked_block_stays:
  assumes D: "block_device rdwr secsz nsec dinv sector"
    and R: "cache_ready secsz nsec dinv sector content dev (as @ k # bs)" "as @ bs \<noteq> []"
    and V: "\<forall>b \<in> set (tag dev k # rs). valid_block secsz nsec (cache_block_size dev) b"
  shows "\<exists>dev1 dev2 dev3. cache_lock_block dev k = Some dev1 \<and>
     read_blocks rdwr secsz dev1 rs = Some (dev2, map content rs) \<and>
     read_block rdwr secsz dev2 (tag dev k) = Some (dev3, content (tag dev k)) \<and>
     dev_disk dev3 = dev_disk dev2"
proof -
  let ?b = "tag dev k"
  obtain dev1 where l: "cache_lock_block dev k = Some dev1"
      "cache_ready secsz nsec dinv sector content dev1 (as @ bs)" "same_payload dev dev1"
    by (rule block_device.cache_lock_block_ready [OF D R])
  have S: "cache_shape dev (as @ k # bs)" "cache_tags content dev"
    using R(1) by (simp_all add: cache_ready_def)
  have b: "?b \<noteq> - 1" using V by (simp add: valid_block_def)
  have k: "k \<notin> set (as @ bs)" using S(1) by (auto simp: cache_shape_def chain_ok_def ring_def)
  have "lookup dev ?b = Some k"
    using lookup_iff [OF S b] chain_entries [OF S(1)] by simp
  then have P: "pinned dev1 (as @ bs) ?b"
    using k same_payload_lookup [OF l(3)] by (auto simp: pinned_def)
  have V1: "\<forall>b \<in> set rs. valid_block secsz nsec (cache_block_size dev1) b"
    using V same_payload_simps(7) [OF l(3)] by simp
  obtain dev2 ys where r: "read_blocks rdwr secsz dev1 rs = Some (dev2, map content rs)"
      "cache_ready secsz nsec dinv sector content dev2 ys" "cache_block_size dev2 = cache_block_size dev1"
      "\<forall>b. b \<noteq> - 1 \<longrightarrow> pinned dev2 ys b = pinned dev1 (as @ bs) b"
    by (rule block_device.read_blocks_ready [OF D l(2) V1])
  have V2: "valid_block secsz nsec (cache_block_size dev2) ?b"
    using V r(3) same_payload_simps(7) [OF l(3)] by simp
  have P2: "pinned dev2 ys ?b" using P b r(4) by simp
  obtain dev3 where "read_block rdwr secsz dev2 ?b = Some (dev3, content ?b)"
      "dev_disk dev3 = dev_disk dev2"
    using block_device.read_block_step [OF D r(2) V2] P2 by metis
  then show ?thesis using l(1) r(1) by blast
qed

text \<open>Block 3 is read, locked, and survives seven other reads in a cache of three blocks.\<close>

definition demo_cached :: "unit device" where
  "demo_cached = (case read_block demo_rdwr 512 (cache_init demo_device 9) 3 of
     Some (dev, _) \<Rightarrow> dev | None \<Rightarrow> demo_device)"

lemma demo_cached_ready:
  obtains as k bs where "as @ bs \<noteq> []" "tag demo_cached k = 3" "cache_block_size demo_cached = 512"
    "cache_ready 512 100 (\<lambda>_. True) demo_sector (dev_block demo_sector 512 512) demo_cached (as @ k # bs)"
proof -
  let ?c = "dev_block demo_sector 512 (word_of_nat (2 ^ 9)) :: u64 \<Rightarrow> bytes"
  have n: "n_entries (cache_init demo_device 9) = 3" and bs: "cache_block_size (cache_init demo_device 9) = 512"
    by (simp_all add: cache_init_def demo_device_def Let_def sizeof_cache_def n_entries_def word_less_nat_alt)
  have R: "cache_ready 512 100 (\<lambda>_. True) demo_sector ?c (cache_init demo_device 9)
      [1..<Suc (n_entries (cache_init demo_device 9))]"
    by (rule demo.cache_init_ready) (simp_all add: demo_device_def)
  have V: "valid_block 512 100 (cache_block_size (cache_init demo_device 9)) 3"
    by (simp add: bs valid_block_def)
  have P: "\<not> pinned (cache_init demo_device 9) [1..<Suc (n_entries (cache_init demo_device 9))] 3"
    and T: "tags (cache_init demo_device 9) [1..<Suc (n_entries (cache_init demo_device 9))] = replicate 3 (- 1)"
    using cache_init_tags [of 9 demo_device] n by (simp_all add: demo_device_def del: upt_Suc)
  obtain dev' ys where r: "read_block demo_rdwr 512 (cache_init demo_device 9) 3 = Some (dev', ?c 3)"
      "cache_ready 512 100 (\<lambda>_. True) demo_sector ?c dev' ys"
      "cache_block_size dev' = cache_block_size (cache_init demo_device 9)"
      "tags dev' ys = lru_access 3 (replicate 3 (- 1))"
    by (rule demo.read_block_step [OF R V, unfolded T if_not_P [OF P]])
  have "lru_access 3 (replicate 3 (- 1)) = [- 1, - 1, 3 :: u64]" by code_simp
  with r(4) obtain a b k where "ys = [a, b, k]" "tag dev' k = 3"
    by (auto simp: tags_def)
  moreover have "dev' = demo_cached" by (simp add: demo_cached_def r(1))
  ultimately show ?thesis using that [of "[a, b]" "[]" k] r(2,3) bs by simp
qed

theorem locked_block_stays_witness:
  "\<exists>k dev1 dev2 dev3. cache_lock_block demo_cached k = Some dev1 \<and>
     read_blocks demo_rdwr 512 dev1 [4, 5, 6, 7, 8] = Some (dev2, map (dev_block demo_sector 512 512) [4, 5, 6, 7, 8]) \<and>
     read_block demo_rdwr 512 dev2 3 = Some (dev3, dev_block demo_sector 512 512 3) \<and>
     dev_disk dev3 = dev_disk dev2"
proof -
  obtain as k bs where d: "as @ bs \<noteq> []" "tag demo_cached k = 3" "cache_block_size demo_cached = 512"
    "cache_ready 512 100 (\<lambda>_. True) demo_sector (dev_block demo_sector 512 512) demo_cached (as @ k # bs)"
    by (rule demo_cached_ready)
  have "\<forall>b \<in> set (tag demo_cached k # [4, 5, 6, 7, 8]). valid_block 512 100 (cache_block_size demo_cached) b"
    by (simp add: d valid_block_def)
  from locked_block_stays [OF demo.block_device_axioms d(4,1) this] show ?thesis
    unfolding d(2) by blast
qed

end
