(* ===== verification/Fstypes.thy ===== *)
theory Fstypes
  imports Cache
begin

text \<open>
  The data of \<open>libcore/include/fs.h\<close> that all file systems share: extents, inodes and the block
  geometry of a mounted file system.  The private data behind an inode (\<open>pvt\<close>) is a type
  parameter; a pointer to an inode is the number of its heap cell.
\<close>

record extent =
  pstart :: u64
  lstart :: u32
  xlen :: u32

definition EXTENT_ZERO :: u64 where
  "EXTENT_ZERO = - 1"

definition EXTENT_VOID :: u64 where
  "EXTENT_VOID = - 2"

definition extent_special :: "u64 \<Rightarrow> bool" where
  "extent_special x \<longleftrightarrow> EXTENT_VOID \<le> x"

record 'p inode =
  parent :: "nat option"
  iname :: "bytes option"
  refcnt :: s32
  imode :: u32
  isize :: u32
  iblocks :: u32
  inum :: u32
  atime :: u32
  mtime :: u32
  ctime :: u32
  dtime :: u32
  iflags :: u32
  file_acl :: u32
  this_extent :: extent
  next_extent :: extent
  pvt :: 'p

record fs_info =
  sector_shift :: nat
  sector_size :: u32
  block_shift :: nat
  block_size :: u32

text \<open>\<open>MAX_OPEN\<close> and \<open>FILENAME_MAX\<close>.\<close>

definition MAX_OPEN :: nat where
  "MAX_OPEN = 2 ^ 5"

definition FILENAME_MAX :: nat where
  "FILENAME_MAX = 2 ^ 8"

definition CURRENTDIR_MAX :: nat where
  "CURRENTDIR_MAX = FILENAME_MAX"

text \<open>\<open>not_whitespace\<close>: the character as unsigned is above a blank.\<close>

definition not_whitespace :: "u8 \<Rightarrow> bool" where
  "not_whitespace c \<longleftrightarrow> 32 < c"

text \<open>A zeroed inode, as \<open>alloc_inode\<close> leaves it but for the number and the count.\<close>

definition zero_extent :: extent where
  "zero_extent = \<lparr>pstart = 0, lstart = 0, xlen = 0\<rparr>"

definition zero_inode :: "'p \<Rightarrow> 'p inode" where
  "zero_inode p = \<lparr>parent = None, iname = None, refcnt = 0, imode = 0, isize = 0, iblocks = 0, inum = 0,
     atime = 0, mtime = 0, ctime = 0, dtime = 0, iflags = 0, file_acl = 0,
     this_extent = zero_extent, next_extent = zero_extent, pvt = p\<rparr>"

text \<open>The direct sector reads that a file system makes on the disk behind its device.\<close>

definition dev_rdwr ::
  "('d \<Rightarrow> u64 \<Rightarrow> u32 \<Rightarrow> 'd \<times> bytes) \<Rightarrow> 'd device \<Rightarrow> u64 \<Rightarrow> u32 \<Rightarrow> 'd device \<times> bytes" where
  "dev_rdwr rdwr dev lba n =
     (let (d, bs) = rdwr (dev_disk dev) lba n in (dev\<lparr>dev_disk := d\<rparr>, bs))"

section \<open>A cache of sectors\<close>

text \<open>
  FAT and NTFS run the cache with the sector size as its block size.  Then a cached read gives
  the sector of the disk, and direct reads on the same disk do not disturb the cache.
\<close>

definition sectors_cached ::
  "u32 \<Rightarrow> nat \<Rightarrow> ('d \<Rightarrow> bool) \<Rightarrow> (u64 \<Rightarrow> bytes) \<Rightarrow> 'd device \<Rightarrow> bool" where
  "sectors_cached secsz nsec dinv sector dev \<longleftrightarrow> cache_block_size dev = ucast secsz \<and>
     (\<exists>xs. cache_ready secsz nsec dinv sector (dev_block sector secsz (ucast secsz)) dev xs)"

lemma disk_update_links:
  "node_next (dev\<lparr>dev_disk := d\<rparr>) = node_next dev" "node_prev (dev\<lparr>dev_disk := d\<rparr>) = node_prev dev"
  "has_node (dev\<lparr>dev_disk := d\<rparr>) = has_node dev" "tag (dev\<lparr>dev_disk := d\<rparr>) = tag dev"
  "slot (dev\<lparr>dev_disk := d\<rparr>) = slot dev" "bsize (dev\<lparr>dev_disk := d\<rparr>) = bsize dev"
  "n_entries (dev\<lparr>dev_disk := d\<rparr>) = n_entries dev" "entry (dev\<lparr>dev_disk := d\<rparr>) = entry dev"
  "lookup (dev\<lparr>dev_disk := d\<rparr>) = lookup dev"
  by (simp_all add: fun_eq_iff node_next_def node_prev_def has_node_def tag_def slot_def bsize_def
      n_entries_def entry_def lookup_def)

lemma cache_ready_disk:
  "cache_ready secsz nsec dinv sector content dev xs \<Longrightarrow> dinv d \<Longrightarrow>
   cache_ready secsz nsec dinv sector content (dev\<lparr>dev_disk := d\<rparr>) xs"
  by (simp add: cache_ready_def cache_shape_def cache_tags_def chain_ok_def disk_update_links)

locale sector_cache = block_device +
  assumes secsz_small: "unat secsz < 65536" and nsec_small: "nsec < 2 ^ 64 - 2"
begin

abbreviation cached :: "'a device \<Rightarrow> bool" where
  "cached \<equiv> sectors_cached secsz nsec dinv sector"

lemma sector_per_block: "(ucast (ucast secsz :: u16) :: u32) div secsz = 1"
proof -
  have "(ucast (ucast secsz :: u16) :: u32) = secsz"
    using secsz_small by (simp add: word_unat_eq_iff unat_ucast_up unat_ucast_mod)
  then show ?thesis using secsz_pos by (simp add: word_unat_eq_iff unat_div_distrib)
qed

lemma dev_block_sector: "dev_block sector secsz (ucast secsz) b = sector b"
  by (simp add: dev_block_def Let_def sector_per_block)

lemma read_sector:
  assumes "cached dev" "unat b < nsec"
  obtains dev' where "read_block rdwr secsz dev b = Some (dev', sector b)" "cached dev'"
proof -
  have "b \<noteq> - 1" using assms(2) nsec_small by (auto simp: unat_minus_one)
  then have V: "valid_block secsz nsec (cache_block_size dev) b"
    using assms by (simp add: valid_block_def sectors_cached_def sector_per_block)
  obtain xs where R: "cache_ready secsz nsec dinv sector (dev_block sector secsz (ucast secsz)) dev xs"
    using assms(1) by (auto simp: sectors_cached_def)
  obtain dev' ys where "read_block rdwr secsz dev b = Some (dev', dev_block sector secsz (ucast secsz) b)"
      "cache_ready secsz nsec dinv sector (dev_block sector secsz (ucast secsz)) dev' ys"
      "cache_block_size dev' = cache_block_size dev"
    by (rule read_block_step [OF R V])
  then show ?thesis
    using that assms(1) by (auto simp: sectors_cached_def dev_block_sector)
qed

lemma cache_init_cached:
  assumes "unat secsz = 2 ^ s" "s \<le> 15" "2 ^ s + 40 \<le> unat (cache_size dev)"
    "(unat (cache_size dev) - 20) div (2 ^ s + 20) < 65536"
    "length (cache_data dev) = unat (cache_size dev)" "dinv (dev_disk dev)"
  shows "cached (cache_init dev s)"
proof -
  have e: "(word_of_nat (2 ^ s) :: u16) = ucast secsz"
    using assms(1) unat_block_size [OF assms(2)] secsz_small by (simp add: word_unat_eq_iff unat_ucast_mod)
  have d: "unat secsz dvd 2 ^ s" using assms(1) by simp
  have "cache_block_size (cache_init dev s) = ucast secsz"
    unfolding cache_init_fields(3) [OF cache_init_usable(1) [OF assms(2-4)]] by (rule e)
  then show ?thesis
    using cache_init_ready [OF assms(2-6) d] unfolding sectors_cached_def e by blast
qed

lemma cached_disk: "cached dev \<Longrightarrow> dinv (dev_disk dev)"
  by (auto simp: sectors_cached_def cache_ready_def)

end

sublocale sector_cache \<subseteq> direct: block_device "dev_rdwr rdwr" secsz nsec cached sector
proof unfold_locales
  fix d :: "'a device" and lba :: u64 and n :: u32
  assume d: "cached d" and r: "unat lba + unat n \<le> nsec"
  note D = cached_disk [OF d]
  show "snd (dev_rdwr rdwr d lba n) = concat (map (\<lambda>i. sector (lba + of_nat i)) [0..<unat n])"
    using rdwr_reads [OF D r] by (auto simp: dev_rdwr_def split: prod.splits)
  show "cached (fst (dev_rdwr rdwr d lba n))"
    using d rdwr_inv [OF D r] cache_ready_disk
    by (fastforce simp: sectors_cached_def dev_rdwr_def split: prod.splits)
qed (simp_all add: secsz_pos sector_length)

section \<open>A disk in memory\<close>

text \<open>For the examples: a disk whose sectors are given by a function.\<close>

definition ram_rdwr :: "(u64 \<Rightarrow> bytes) \<Rightarrow> unit \<Rightarrow> u64 \<Rightarrow> u32 \<Rightarrow> unit \<times> bytes" where
  "ram_rdwr sector d lba n = ((), concat (map (\<lambda>i. sector (lba + of_nat i)) [0..<unat n]))"

lemma ram_sector_cache:
  assumes "\<And>sn. length (sector sn) = 512" "nsec < 2 ^ 64 - 2"
  shows "sector_cache (ram_rdwr sector) 512 nsec (\<lambda>_. True) sector"
  by unfold_locales (use assms in \<open>simp_all add: ram_rdwr_def\<close>)

lemma ram_cached:
  assumes "\<And>sn. length (sector sn) = 512" "nsec < 2 ^ 64 - 2"
  shows "sectors_cached 512 nsec (\<lambda>_. True) sector (cache_init demo_device 9)"
  by (rule sector_cache.cache_init_cached [OF ram_sector_cache])
    (use assms in \<open>simp_all add: demo_device_def\<close>)

end
