(* ===== verification/Getfssec.thy ===== *)
theory Getfssec
  imports Fstypes
begin

text \<open>
  \<open>libcore/fs/getfssec.c\<close>: the generic sector reader over the \<open>next_extent\<close> method of a file
  system, with lookahead and coalescing of extents, and \<open>nonextextent.c\<close>.  The method is a
  parameter: it gets the device state, the inode and a logical sector, and returns the new
  state, the inode with \<open>next_extent.pstart\<close> and \<open>next_extent.len\<close> set, and whether it failed.
\<close>

section \<open>The code\<close>

definition next_psector :: "u64 \<Rightarrow> u32 \<Rightarrow> u64" where
  "next_psector psector skip = (if extent_special psector then psector else psector + ucast skip)"

definition next_pstart :: "extent \<Rightarrow> u64" where
  "next_pstart e = next_psector (pstart e) (xlen e)"

type_synonym ('s, 'p) next_extent_op = "'s \<Rightarrow> 'p inode \<Rightarrow> u32 \<Rightarrow> ('s \<times> 'p inode \<times> bool) option"

definition no_next_extent :: "('s, 'p) next_extent_op" where
  "no_next_extent s ino lst = Some (s, ino, True)"

definition get_next_extent :: "('s, 'p) next_extent_op \<Rightarrow> 's \<Rightarrow> 'p inode \<Rightarrow> ('s \<times> 'p inode) option" where
  "get_next_extent ne s ino =
     (let lst = lstart (this_extent ino) + xlen (this_extent ino) in
      do { (s, ino, err) \<leftarrow> ne s ino lst;
           let ino = (if err then ino\<lparr>next_extent := (next_extent ino)\<lparr>xlen := 0\<rparr>\<rparr> else ino);
           Some (s, ino\<lparr>next_extent := (next_extent ino)\<lparr>lstart := lst\<rparr>\<rparr>) })"

text \<open>The inner loop: grow \<open>this_extent\<close> until it covers the request or stops being contiguous.\<close>

partial_function (option) fill_extent ::
  "('s, 'p) next_extent_op \<Rightarrow> 's \<Rightarrow> 'p inode \<Rightarrow> u32 \<Rightarrow> ('s \<times> 'p inode \<times> u32) option" where
  "fill_extent ne s ino sectors =
     (if sectors > xlen (this_extent ino)
      then do { (s, ino) \<leftarrow>
                  (if xlen (next_extent ino) = 0 \<or>
                      lstart (next_extent ino) \<noteq> lstart (this_extent ino) + xlen (this_extent ino)
                   then get_next_extent ne s ino else Some (s, ino));
                if xlen (this_extent ino) = 0
                then let ino = ino\<lparr>this_extent := next_extent ino\<rparr> in
                     if xlen (next_extent ino) = 0 then Some (s, ino, 0)
                     else fill_extent ne s ino sectors
                else if xlen (next_extent ino) \<noteq> 0 \<and> pstart (next_extent ino) = next_pstart (this_extent ino)
                then fill_extent ne s
                       (ino\<lparr>this_extent := (this_extent ino)\<lparr>xlen := xlen (this_extent ino) + xlen (next_extent ino)\<rparr>\<rparr>)
                       sectors
                else Some (s, ino, sectors) }
      else Some (s, ino, sectors))"

text \<open>One transfer: a hole is cleared, other sectors are read and \<open>pstart\<close> moves on.\<close>

definition transfer ::
  "('s \<Rightarrow> u64 \<Rightarrow> u32 \<Rightarrow> 's \<times> bytes) \<Rightarrow> 's \<Rightarrow> 'p inode \<Rightarrow> bytes \<Rightarrow> nat \<Rightarrow> u32 \<Rightarrow> u32 \<Rightarrow>
   ('s \<times> 'p inode \<times> bytes) option" where
  "transfer rdwr s ino buf pos chunk len =
     (let e = this_extent ino in
      if pstart e = EXTENT_ZERO
      then do { buf \<leftarrow> wr_range buf pos (replicate (unat len) 0); Some (s, ino, buf) }
      else let (s, bs) = rdwr s (pstart e) chunk in
           do { buf \<leftarrow> wr_range buf pos bs;
                Some (s, ino\<lparr>this_extent := e\<lparr>pstart := pstart e + ucast chunk\<rparr>\<rparr>, buf) })"

definition advance :: "'p inode \<Rightarrow> u32 \<Rightarrow> 'p inode" where
  "advance ino chunk =
     (let e = this_extent ino in
      ino\<lparr>this_extent := e\<lparr>lstart := lstart e + chunk, xlen := xlen e - chunk\<rparr>\<rparr>)"

text \<open>The outer loop; \<open>pos\<close> is the offset of the moving \<open>buf\<close> pointer in the caller's buffer.\<close>

partial_function (option) read_loop ::
  "('s, 'p) next_extent_op \<Rightarrow> ('s \<Rightarrow> u64 \<Rightarrow> u32 \<Rightarrow> 's \<times> bytes) \<Rightarrow> fs_info \<Rightarrow> 's \<Rightarrow> 'p inode \<Rightarrow> bytes \<Rightarrow> nat \<Rightarrow>
   u32 \<Rightarrow> u32 \<Rightarrow> ('s \<times> 'p inode \<times> bytes \<times> u32) option" where
  "read_loop ne rdwr fs s ino buf pos sectors bytes_read =
     (if sectors = 0 then Some (s, ino, buf, bytes_read)
      else do { (s, ino, sectors) \<leftarrow> fill_extent ne s ino sectors;
                let chunk = min sectors (xlen (this_extent ino));
                let len = push_bit (sector_shift fs) chunk;
                (s, ino, buf) \<leftarrow> transfer rdwr s ino buf pos chunk len;
                read_loop ne rdwr fs s (advance ino chunk) buf (pos + unat len) (sectors - chunk)
                  (bytes_read + len) })"

definition in_extent :: "u32 \<Rightarrow> extent \<Rightarrow> bool" where
  "in_extent l e \<longleftrightarrow> \<not> (l < lstart e \<or> l \<ge> lstart e + xlen e)"

text \<open>Bring \<open>this_extent\<close> to the wanted sector, or make it empty there.\<close>

definition seek_extent :: "'p inode \<Rightarrow> u32 \<Rightarrow> 'p inode" where
  "seek_extent ino lsector =
     (let ino = (if in_extent lsector (this_extent ino) then ino
                 else ino\<lparr>this_extent := next_extent ino\<rparr>) in
      if \<not> in_extent lsector (this_extent ino)
      then ino\<lparr>this_extent := (this_extent ino)\<lparr>lstart := lsector, xlen := 0\<rparr>\<rparr>
      else let delta = lsector - lstart (this_extent ino) in
           ino\<lparr>this_extent := \<lparr>pstart = next_psector (pstart (this_extent ino)) delta,
                 lstart = lsector, xlen = xlen (this_extent ino) - delta\<rparr>\<rparr>)"

text \<open>
  \<open>generic_getfssec\<close>: the result is the new state and inode, the new file offset, the buffer,
  the number of bytes read and, unless no sector is left and it is not written, \<open>*have_more\<close>.
\<close>

definition generic_getfssec ::
  "('s, 'p) next_extent_op \<Rightarrow> ('s \<Rightarrow> u64 \<Rightarrow> u32 \<Rightarrow> 's \<times> bytes) \<Rightarrow> fs_info \<Rightarrow> 's \<Rightarrow> 'p inode \<Rightarrow> u32 \<Rightarrow> bytes \<Rightarrow> u32 \<Rightarrow>
   ('s \<times> 'p inode \<times> u32 \<times> bytes \<times> u32 \<times> bool option) option" where
  "generic_getfssec ne rdwr fs s ino offset buf sectors =
     (let bytes_left = isize ino - offset;
          sectors_left = drop_bit (sector_shift fs) (bytes_left + sector_size fs - 1);
          sectors = (if sectors > sectors_left then sectors_left else sectors)
      in if sectors = 0 then Some (s, ino, offset, buf, 0, None)
         else do { (s, ino, buf, bytes_read) \<leftarrow>
                     read_loop ne rdwr fs s (seek_extent ino (drop_bit (sector_shift fs) offset)) buf 0 sectors 0;
                   let bytes_read = min bytes_read bytes_left;
                   Some (s, ino, offset + bytes_read, buf, bytes_read, Some (bytes_read < bytes_left)) })"

section \<open>The contract of \<open>next_extent\<close>\<close>

text \<open>
  \<open>psec l\<close> is the physical sector of logical sector \<open>l\<close> of the file, or \<open>EXTENT_ZERO\<close> for a hole;
  \<open>mapped\<close> sectors are mapped.  \<open>bnd l\<close> says that sector \<open>l\<close> is at a boundary of the file system, such as the start of a
  cluster.  An extent is a run if it agrees with that map and ends at a boundary; \<open>next_extent\<close> has to be right for
  logical sectors at a boundary, which is all that the reader asks for.
\<close>

definition run_of_sectors :: "(nat \<Rightarrow> u64) \<Rightarrow> nat \<Rightarrow> (nat \<Rightarrow> bool) \<Rightarrow> extent \<Rightarrow> bool" where
  "run_of_sectors psec mapped bnd e \<longleftrightarrow> xlen e = 0 \<or>
     (unat (lstart e) + unat (xlen e) \<le> mapped \<and> bnd (unat (lstart e) + unat (xlen e)) \<and>
      (\<forall>i < unat (xlen e). psec (unat (lstart e) + i) = next_psector (pstart e) (of_nat i)))"

definition positioned :: "(nat \<Rightarrow> bool) \<Rightarrow> 'p inode \<Rightarrow> u32 \<Rightarrow> bool" where
  "positioned bnd ino l \<longleftrightarrow>
     in_extent l (this_extent ino) \<or> in_extent l (next_extent ino) \<or> bnd (unat l)"

locale extent_map = block_device rdwr secsz nsec sinv sector
  for rdwr :: "'s \<Rightarrow> u64 \<Rightarrow> u32 \<Rightarrow> 's \<times> bytes" and secsz nsec sinv sector +
  fixes ne :: "('s, 'p) next_extent_op"
    and pinv :: "u32 \<Rightarrow> u32 \<Rightarrow> 'p \<Rightarrow> bool"
    and psec :: "nat \<Rightarrow> u64"
    and mapped :: nat and bnd :: "nat \<Rightarrow> bool"
  assumes nsec_bound: "nsec < 2 ^ 64 - 2"
    and mapped_bound: "mapped < 2 ^ 32"
    and psec_valid: "i < mapped \<Longrightarrow> psec i = EXTENT_ZERO \<or> unat (psec i) < nsec"
    and ne_maps: "sinv s \<Longrightarrow> pinv (isize ino) (iflags ino) (pvt ino) \<Longrightarrow> unat l < mapped \<Longrightarrow> bnd (unat l) \<Longrightarrow>
          \<exists>s' e p. ne s ino l = Some (s', ino\<lparr>next_extent := e, pvt := p\<rparr>, False) \<and> sinv s' \<and> pinv (isize ino) (iflags ino) p \<and>
            xlen e \<noteq> 0 \<and> run_of_sectors psec mapped bnd (e\<lparr>lstart := l\<rparr>)"

text \<open>The sectors of the file.\<close>

definition file_sector :: "(u64 \<Rightarrow> bytes) \<Rightarrow> u32 \<Rightarrow> (nat \<Rightarrow> u64) \<Rightarrow> nat \<Rightarrow> bytes" where
  "file_sector sector secsz psec l =
     (if psec l = EXTENT_ZERO then replicate (unat secsz) 0 else sector (psec l))"

definition file_sectors :: "(u64 \<Rightarrow> bytes) \<Rightarrow> u32 \<Rightarrow> (nat \<Rightarrow> u64) \<Rightarrow> nat \<Rightarrow> nat \<Rightarrow> bytes" where
  "file_sectors sector secsz psec l n = concat (map (file_sector sector secsz psec) [l..<l + n])"

section \<open>Runs\<close>

lemma run_of_sectorsD:
  assumes "run_of_sectors psec mapped bnd e" "i < unat (xlen e)"
  shows "unat (lstart e) + unat (xlen e) \<le> mapped" "bnd (unat (lstart e) + unat (xlen e))"
    "psec (unat (lstart e) + i) = next_psector (pstart e) (of_nat i)"
  using assms by (auto simp: run_of_sectors_def)

lemma run_of_sectors_nil [simp]: "xlen e = 0 \<Longrightarrow> run_of_sectors psec mapped bnd e"
  by (simp add: run_of_sectors_def)

lemma next_psector_0 [simp]: "next_psector p 0 = p"
  by (simp add: next_psector_def)

context extent_map begin

lemma special_imp_zero: "i < mapped \<Longrightarrow> extent_special (psec i) \<Longrightarrow> psec i = EXTENT_ZERO"
  using psec_valid [of i] nsec_bound
  by (auto simp: extent_special_def EXTENT_VOID_def word_le_nat_alt)

text \<open>The physical sectors of a run: all zero, or consecutive and inside the partition.\<close>

lemma run_cases:
  assumes R: "run_of_sectors psec mapped bnd e" and n: "xlen e \<noteq> 0"
  obtains (zero) "pstart e = EXTENT_ZERO" "\<And>i. i < unat (xlen e) \<Longrightarrow> psec (unat (lstart e) + i) = EXTENT_ZERO"
  | (sectors) "\<not> extent_special (pstart e)" "unat (pstart e) + unat (xlen e) \<le> nsec"
      "\<And>i. i < unat (xlen e) \<Longrightarrow> psec (unat (lstart e) + i) = pstart e + of_nat i"
proof -
  have pos: "0 < unat (xlen e)" using n by (simp add: unat_gt_0)
  have m: "unat (lstart e) + unat (xlen e) \<le> mapped" by (rule run_of_sectorsD(1) [OF R pos])
  have p0: "psec (unat (lstart e)) = pstart e" using run_of_sectorsD(3) [OF R pos] by simp
  show thesis
  proof (cases "extent_special (pstart e)")
    case True
    then have "pstart e = EXTENT_ZERO" using special_imp_zero [of "unat (lstart e)"] p0 m pos by simp
    with True show thesis
      using run_of_sectorsD(3) [OF R] by (intro zero) (simp_all add: next_psector_def)
  next
    case False
    have e: "psec (unat (lstart e) + i) = pstart e + of_nat i" if "i < unat (xlen e)" for i
      using run_of_sectorsD(3) [OF R that] False that unat_u32_lt [of "xlen e"]
      by (simp add: next_psector_def ucast_of_nat_up)
    have "unat (pstart e) + i < nsec" if "i < unat (xlen e)" for i
      using that
    proof (induction i)
      case 0
      then have "psec (unat (lstart e)) \<noteq> EXTENT_ZERO"
        using False p0 by (auto simp: extent_special_def EXTENT_ZERO_def EXTENT_VOID_def
            word_le_nat_alt unat_minus_one)
      then show ?case using psec_valid [of "unat (lstart e)"] p0 m 0 by simp
    next
      case (Suc i)
      then have "unat (pstart e) + Suc i < 2 ^ 64 - 1" using nsec_bound by simp
      then have u: "unat (pstart e + of_nat (Suc i)) = unat (pstart e) + Suc i"
        by (intro unat_add_of_nat) simp
      have "psec (unat (lstart e) + Suc i) \<noteq> EXTENT_ZERO"
      proof
        assume "psec (unat (lstart e) + Suc i) = EXTENT_ZERO"
        then have "unat (pstart e + of_nat (Suc i)) = 2 ^ 64 - 1"
          unfolding e [OF Suc.prems] EXTENT_ZERO_def by (simp only: unat_minus_one) simp
        then show False using u Suc nsec_bound by simp
      qed
      then show ?case
        using psec_valid [of "unat (lstart e) + Suc i"] u e [OF Suc.prems] m Suc.prems by simp
    qed
    from this [of "unat (xlen e) - 1"] have "unat (pstart e) + unat (xlen e) \<le> nsec"
      using pos by simp
    with False e show thesis by (intro sectors)
  qed
qed

text \<open>Dropping the first sectors of a run, and joining two runs.\<close>

lemma run_drop:
  assumes R: "run_of_sectors psec mapped bnd e" and k: "unat k \<le> unat (xlen e)"
  shows "run_of_sectors psec mapped bnd
     \<lparr>pstart = next_psector (pstart e) k, lstart = lstart e + k, xlen = xlen e - k\<rparr>"
proof (cases "xlen e = 0 \<or> k = xlen e")
  case True
  then show ?thesis using k by (auto simp: unsigned_eq_0_iff)
next
  case False
  then have n: "xlen e \<noteq> 0" and "unat k \<noteq> unat (xlen e)" by (simp_all add: word_unat_eq_iff)
  then have kl: "unat k < unat (xlen e)" using k by simp
  have m: "unat (lstart e) + unat (xlen e) \<le> mapped" "bnd (unat (lstart e) + unat (xlen e))"
    by (rule run_of_sectorsD [OF R kl])+
  have u: "unat (xlen e - k) = unat (xlen e) - unat k" "unat (lstart e + k) = unat (lstart e) + unat k"
    using k m mapped_bound by (simp_all add: unat_sub_no_wrap word_le_nat_alt unat_add_no_wrap)
  show ?thesis
    using R n
  proof (cases rule: run_cases)
    case zero
    then show ?thesis using kl m
      by (auto simp: run_of_sectors_def u next_psector_def extent_special_def EXTENT_ZERO_def EXTENT_VOID_def
          word_le_nat_alt unat_minus_one add.assoc)
  next
    case sectors
    have s: "\<not> extent_special (pstart e + ucast k)"
    proof -
      have "unat (pstart e + of_nat (unat k)) = unat (pstart e) + unat k"
        using sectors(2) kl nsec_bound by (intro unat_add_of_nat) simp
      then show ?thesis using sectors(2) kl nsec_bound
        by (simp add: extent_special_def EXTENT_VOID_def word_le_nat_alt)
    qed
    have "psec (unat (lstart e) + unat k + i) = pstart e + ucast k + of_nat i"
      if "i < unat (xlen e) - unat k" for i
      using sectors(3) [of "unat k + i"] that by (simp add: add.assoc)
    moreover have "i < 2 ^ 32" if "i < unat (xlen e) - unat k" for i
    proof -
      have "unat (xlen e) < 2 ^ 32" by simp
      then show ?thesis using that by linarith
    qed
    ultimately show ?thesis
      using s m kl sectors(1) by (auto simp: run_of_sectors_def u next_psector_def ucast_of_nat_up)
  qed
qed

lemma run_join:
  assumes R: "run_of_sectors psec mapped bnd e" "run_of_sectors psec mapped bnd f"
    and n: "xlen e \<noteq> 0" "xlen f \<noteq> 0"
    and c: "lstart f = lstart e + xlen e" "pstart f = next_pstart e"
  shows "run_of_sectors psec mapped bnd (e\<lparr>xlen := xlen e + xlen f\<rparr>)"
    "unat (xlen e + xlen f) = unat (xlen e) + unat (xlen f)"
proof -
  have pos: "0 < unat (xlen e)" "0 < unat (xlen f)" using n by (simp_all add: unat_gt_0)
  have m: "unat (lstart e) + unat (xlen e) \<le> mapped" "unat (lstart f) + unat (xlen f) \<le> mapped"
    using run_of_sectorsD(1) [OF R(1) pos(1)] run_of_sectorsD(1) [OF R(2) pos(2)] by simp_all
  have l: "unat (lstart f) = unat (lstart e) + unat (xlen e)"
    unfolding c(1) using m(1) mapped_bound by (intro unat_add_no_wrap) simp
  then show u: "unat (xlen e + xlen f) = unat (xlen e) + unat (xlen f)"
    using m(2) mapped_bound by (intro unat_add_no_wrap) simp
  have "psec (unat (lstart e) + i) = next_psector (pstart e) (of_nat i)"
    if i: "i < unat (xlen e) + unat (xlen f)" for i
  proof (cases "i < unat (xlen e)")
    case True
    then show ?thesis using run_of_sectorsD(3) [OF R(1)] by simp
  next
    case False
    then have f: "psec (unat (lstart e) + i) = next_psector (pstart f) (of_nat (i - unat (xlen e)))"
      using run_of_sectorsD(3) [OF R(2), of "i - unat (xlen e)"] i l by simp
    have "next_psector (next_pstart e) (of_nat (i - unat (xlen e))) = next_psector (pstart e) (of_nat i)"
      using R(1) n(1)
    proof (cases rule: run_cases)
      case zero
      then show ?thesis
        by (simp add: next_pstart_def next_psector_def extent_special_def EXTENT_ZERO_def EXTENT_VOID_def
            word_le_nat_alt unat_minus_one)
    next
      case sectors
      have p: "unat (pstart e + ucast (xlen e)) = unat (pstart e) + unat (xlen e)"
        using sectors(2) nsec_bound by (subst unat_add_no_wrap) (simp_all add: unat_ucast_up)
      then have "\<not> extent_special (pstart e + ucast (xlen e))"
        using sectors(2) nsec_bound by (simp add: extent_special_def EXTENT_VOID_def word_le_nat_alt)
      moreover have "(of_nat i :: u64) = ucast (xlen e) + of_nat (i - unat (xlen e))"
        using False by (simp add: word_unat_eq_iff)
      ultimately show ?thesis
        using sectors(1) i u unat_u32_lt [of "xlen e + xlen f"]
        by (simp add: next_pstart_def next_psector_def ucast_of_nat_up add.assoc)
    qed
    then show ?thesis using f c(2) by simp
  qed
  then show "run_of_sectors psec mapped bnd (e\<lparr>xlen := xlen e + xlen f\<rparr>)"
    using m(2) l run_of_sectorsD(2) [OF R(2) pos(2)] by (simp add: run_of_sectors_def u add.assoc)
qed

section \<open>The inner loop\<close>

text \<open>The extents of an inode agree with the map; \<open>l\<close> is where \<open>this_extent\<close> starts.\<close>

definition extents_ok :: "nat \<Rightarrow> 'p inode \<Rightarrow> bool" where
  "extents_ok l ino \<longleftrightarrow> unat (lstart (this_extent ino)) = l \<and> pinv (isize ino) (iflags ino) (pvt ino) \<and>
     run_of_sectors psec mapped bnd (this_extent ino) \<and> run_of_sectors psec mapped bnd (next_extent ino) \<and>
     (xlen (this_extent ino) = 0 \<longrightarrow> bnd l)"

lemma extents_ok_end:
  "extents_ok l ino \<Longrightarrow> bnd (l + unat (xlen (this_extent ino)))"
  by (cases "xlen (this_extent ino) = 0") (auto simp: extents_ok_def run_of_sectors_def)

lemma get_next_extent_ok:
  assumes S: "sinv s" "extents_ok l ino" and m: "l + unat (xlen (this_extent ino)) < mapped"
  obtains s' e p where
    "get_next_extent ne s ino = Some (s', ino\<lparr>next_extent := e, pvt := p\<rparr>)" "sinv s'"
    "extents_ok l (ino\<lparr>next_extent := e, pvt := p\<rparr>)" "xlen e \<noteq> 0"
    "lstart e = lstart (this_extent ino) + xlen (this_extent ino)"
proof -
  let ?l = "lstart (this_extent ino) + xlen (this_extent ino)"
  have "unat ?l = l + unat (xlen (this_extent ino))"
    using S(2) m mapped_bound by (subst unat_add_no_wrap) (simp_all add: extents_ok_def)
  then have "unat ?l < mapped" "bnd (unat ?l)" using m extents_ok_end [OF S(2)] by simp_all
  then obtain s' e p where n: "ne s ino ?l = Some (s', ino\<lparr>next_extent := e, pvt := p\<rparr>, False)"
      "sinv s'" "pinv (isize ino) (iflags ino) p" "xlen e \<noteq> 0" "run_of_sectors psec mapped bnd (e\<lparr>lstart := ?l\<rparr>)"
    using ne_maps [OF S(1), of ino ?l] S(2) by (auto simp: extents_ok_def)
  show ?thesis
    by (rule that [where s' = s' and e = "e\<lparr>lstart := ?l\<rparr>" and p = p])
      (use n S(2) in \<open>simp_all add: get_next_extent_def extents_ok_def\<close>)
qed

text \<open>
  What one round has at hand behind \<open>this_extent\<close>: either the next extent that was already
  looked up, or a new one.
\<close>

lemma lookahead_ok:
  assumes S: "sinv s" "extents_ok l ino" and m: "l + unat (xlen (this_extent ino)) < mapped"
  obtains s' e p where
    "(if xlen (next_extent ino) = 0 \<or>
         lstart (next_extent ino) \<noteq> lstart (this_extent ino) + xlen (this_extent ino)
      then get_next_extent ne s ino else Some (s, ino)) = Some (s', ino\<lparr>next_extent := e, pvt := p\<rparr>)"
    "sinv s'" "extents_ok l (ino\<lparr>next_extent := e, pvt := p\<rparr>)" "xlen e \<noteq> 0"
    "lstart e = lstart (this_extent ino) + xlen (this_extent ino)"
proof (cases "xlen (next_extent ino) = 0 \<or>
    lstart (next_extent ino) \<noteq> lstart (this_extent ino) + xlen (this_extent ino)")
  case True
  then show ?thesis using get_next_extent_ok [OF assms] that by auto
next
  case False
  then show ?thesis using that [where s' = s and e = "next_extent ino" and p = "pvt ino"] S by simp
qed

lemma fill_extent_ok:
  assumes "sinv s" "extents_ok l ino" "l + unat sectors \<le> mapped" "sectors \<noteq> 0"
  shows "\<exists>s' t e p. fill_extent ne s ino sectors =
      Some (s', ino\<lparr>this_extent := t, next_extent := e, pvt := p\<rparr>, sectors) \<and> sinv s' \<and>
      extents_ok l (ino\<lparr>this_extent := t, next_extent := e, pvt := p\<rparr>) \<and> xlen t \<noteq> 0"
  using assms
proof (induction "unat sectors - unat (xlen (this_extent ino))" arbitrary: s ino rule: less_induct)
  case less
  show ?case
  proof (cases "sectors > xlen (this_extent ino)")
    case False
    then have "xlen (this_extent ino) \<noteq> 0" using less.prems(4) by (auto simp: word_gt_0)
    then show ?thesis
      using False less.prems
      by (intro exI [of _ s] exI [of _ "this_extent ino"] exI [of _ "next_extent ino"]
          exI [of _ "pvt ino"]) (simp add: fill_extent.simps)
  next
    case True
    then have lt: "unat (xlen (this_extent ino)) < unat sectors" by (simp add: word_less_nat_alt)
    obtain s' e p where n: "(if xlen (next_extent ino) = 0 \<or>
          lstart (next_extent ino) \<noteq> lstart (this_extent ino) + xlen (this_extent ino)
        then get_next_extent ne s ino else Some (s, ino)) = Some (s', ino\<lparr>next_extent := e, pvt := p\<rparr>)"
      "sinv s'" "extents_ok l (ino\<lparr>next_extent := e, pvt := p\<rparr>)" "xlen e \<noteq> 0"
      "lstart e = lstart (this_extent ino) + xlen (this_extent ino)"
      by (rule lookahead_ok [OF less.prems(1,2)]) (use lt less.prems(3) in simp)
    note step = fill_extent.simps [of ne s ino sectors, unfolded n(1) bind.bind_lunit prod.case if_P [OF True]]
    show ?thesis
    proof (cases "xlen (this_extent ino) = 0")
      case z: True
      let ?ino = "ino\<lparr>next_extent := e, pvt := p, this_extent := e\<rparr>"
      have "extents_ok l ?ino" using n(3,5) z by (auto simp: extents_ok_def)
      moreover have "unat sectors - unat (xlen (this_extent ?ino)) < unat sectors - unat (xlen (this_extent ino))"
        using n(4) z lt by (simp add: unat_gt_0)
      ultimately obtain s2 t2 e2 p2 where "fill_extent ne s' ?ino sectors =
          Some (s2, ?ino\<lparr>this_extent := t2, next_extent := e2, pvt := p2\<rparr>, sectors)" "sinv s2"
          "extents_ok l (?ino\<lparr>this_extent := t2, next_extent := e2, pvt := p2\<rparr>)" "xlen t2 \<noteq> 0"
        using less.hyps [OF _ n(2) _ less.prems(3,4)] by metis
      then show ?thesis using step z n(4) by auto
    next
      case nz: False
      show ?thesis
      proof (cases "pstart e = next_pstart (this_extent ino)")
        case True
        let ?t = "(this_extent ino)\<lparr>xlen := xlen (this_extent ino) + xlen e\<rparr>"
        let ?ino = "ino\<lparr>next_extent := e, pvt := p, this_extent := ?t\<rparr>"
        have j: "run_of_sectors psec mapped bnd ?t" "unat (xlen ?t) = unat (xlen (this_extent ino)) + unat (xlen e)"
          using run_join [OF _ _ nz n(4) n(5) True] n(3) by (simp_all add: extents_ok_def)
        have pos: "0 < unat (xlen e)" using n(4) by (simp add: unat_gt_0)
        then have "0 < unat (xlen ?t)" unfolding j(2) by simp
        then have "xlen ?t \<noteq> 0" by auto
        then have "extents_ok l ?ino" using n(3) j(1) by (simp add: extents_ok_def)
        moreover from pos have "unat sectors - unat (xlen ?t) < unat sectors - unat (xlen (this_extent ino))"
          unfolding j(2) using lt by linarith
        then have "unat sectors - unat (xlen (this_extent ?ino)) < unat sectors - unat (xlen (this_extent ino))"
          by simp
        ultimately obtain s2 t2 e2 p2 where "fill_extent ne s' ?ino sectors =
            Some (s2, ?ino\<lparr>this_extent := t2, next_extent := e2, pvt := p2\<rparr>, sectors)" "sinv s2"
            "extents_ok l (?ino\<lparr>this_extent := t2, next_extent := e2, pvt := p2\<rparr>)" "xlen t2 \<noteq> 0"
          using less.hyps [OF _ n(2) _ less.prems(3,4)] by metis
        then show ?thesis using step nz n(4) True by auto
      next
        case False
        then show ?thesis
          using step nz n(2,3)
          by (intro exI [of _ s'] exI [of _ "this_extent ino"] exI [of _ e] exI [of _ p]) simp
      qed
    qed
  qed
qed

section \<open>The outer loop\<close>

lemma file_sector_length [simp]: "length (file_sector sector secsz psec l) = unat secsz"
  by (simp add: file_sector_def sector_length)

lemma file_sectors_length [simp]: "length (file_sectors sector secsz psec l n) = n * unat secsz"
  by (simp add: file_sectors_def length_concat comp_def sum_list_triv)

lemma file_sectors_split:
  "file_sectors sector secsz psec l (m + n) =
   file_sectors sector secsz psec l m @ file_sectors sector secsz psec (l + m) n"
proof -
  have "[l..<l + (m + n)] = [l..<l + m] @ [l + m..<l + m + n]"
    by (metis add.assoc upt_add_eq_append le_add1)
  then show ?thesis by (simp add: file_sectors_def)
qed

lemma file_sectors_zero:
  "(\<And>i. i < n \<Longrightarrow> psec (l + i) = EXTENT_ZERO) \<Longrightarrow>
   file_sectors sector secsz psec l n = replicate (n * unat secsz) 0"
proof (induction n)
  case (Suc n)
  have "psec (l + n) = EXTENT_ZERO" using Suc.prems [of n] by simp
  moreover have "replicate (n * unat secsz) (0 :: u8) @ replicate (unat secsz) 0 =
      replicate (unat secsz) 0 @ replicate (n * unat secsz) 0"
    by (simp flip: replicate_add add: add.commute)
  ultimately show ?case
    using Suc.IH Suc.prems file_sectors_split [of l n 1]
    by (simp add: file_sectors_def file_sector_def replicate_add)
qed (simp add: file_sectors_def)

lemma file_sectors_run:
  assumes "\<And>i. i < n \<Longrightarrow> psec (l + i) = p + of_nat i" "\<not> extent_special p" "unat p + n \<le> nsec"
  shows "file_sectors sector secsz psec l n = concat (map (\<lambda>i. sector (p + of_nat i)) [0..<n])"
proof -
  have "file_sector sector secsz psec (l + i) = sector (p + of_nat i)" if "i < n" for i
  proof -
    have "unat (p + of_nat i) = unat p + i" using assms(3) nsec_bound that by (intro unat_add_of_nat) simp
    then have "p + of_nat i \<noteq> EXTENT_ZERO"
      using assms(3) nsec_bound that by (auto simp: EXTENT_ZERO_def word_unat_eq_iff unat_minus_one)
    then show ?thesis using assms(1) [OF that] by (simp add: file_sector_def)
  qed
  moreover have "[l..<l + n] = map (\<lambda>i. l + i) [0..<n]"
    by (simp add: map_add_upt add.commute)
  ultimately show ?thesis
    by (auto simp: file_sectors_def comp_def intro!: arg_cong [of _ _ concat] map_cong)
qed

lemma extent_upd:
  "e\<lparr>lstart := b, xlen := c\<rparr> = \<lparr>pstart = pstart e, lstart = b, xlen = c\<rparr>"
  "e\<lparr>pstart := a, lstart := b, xlen := c\<rparr> = \<lparr>pstart = a, lstart = b, xlen = c\<rparr>" for e :: extent
  by (cases e; simp)+

text \<open>One transfer of a chunk, and the advance of \<open>this_extent\<close> past it.\<close>

lemma transfer_ok:
  assumes S: "sinv s" "extents_ok l ino" and c: "unat chunk \<le> unat (xlen (this_extent ino))" "chunk \<noteq> 0"
    and z: "unat len = unat chunk * unat secsz" and b: "pos + unat len \<le> length buf"
  obtains s' ino' where "transfer rdwr s ino buf pos chunk len =
     Some (s', ino', take pos buf @ file_sectors sector secsz psec l (unat chunk) @ drop (pos + unat len) buf)"
    "sinv s'"
    "advance ino' chunk =
     ino\<lparr>this_extent := \<lparr>pstart = next_psector (pstart (this_extent ino)) chunk,
         lstart = lstart (this_extent ino) + chunk, xlen = xlen (this_extent ino) - chunk\<rparr>\<rparr>"
proof -
  let ?e = "this_extent ino"
  have R: "run_of_sectors psec mapped bnd ?e" and l: "l = unat (lstart ?e)"
    using S(2) by (simp_all add: extents_ok_def)
  have n: "xlen ?e \<noteq> 0"
  proof
    assume "xlen ?e = 0"
    then have "unat chunk = 0" using c(1) by simp
    then show False using c(2) by (simp add: unsigned_eq_0_iff)
  qed
  show thesis
    using R n
  proof (cases rule: run_cases)
    case zero
    have f: "file_sectors sector secsz psec l (unat chunk) = replicate (unat len) 0"
      unfolding z using zero(2) c(1) by (intro file_sectors_zero) (simp add: l)
    show thesis
      by (rule that [of s ino])
        (use zero(1) b f S(1) in \<open>simp_all add: transfer_def advance_def extent_upd Let_def wr_range_def next_psector_def extent_special_def EXTENT_ZERO_def
          EXTENT_VOID_def word_le_nat_alt unat_minus_one\<close>)
  next
    case sectors
    have nz: "pstart ?e \<noteq> EXTENT_ZERO"
      using sectors(1) by (auto simp: extent_special_def EXTENT_ZERO_def EXTENT_VOID_def word_le_nat_alt unat_minus_one)
    have in_part: "unat (pstart ?e) + unat chunk \<le> nsec" using sectors(2) c(1) by simp
    obtain s' bs where r: "rdwr s (pstart ?e) chunk = (s', bs)" by (cases "rdwr s (pstart ?e) chunk")
    have "bs = file_sectors sector secsz psec l (unat chunk)"
      using rdwr_reads [OF S(1) in_part] r
        file_sectors_run [of "unat chunk" l "pstart ?e", OF _ sectors(1) in_part] sectors(3) c(1)
      by (simp add: l)
    moreover have "sinv s'" using rdwr_inv [OF S(1) in_part] r by simp
    ultimately show thesis
      using that [of s' "ino\<lparr>this_extent := ?e\<lparr>pstart := pstart ?e + ucast chunk\<rparr>\<rparr>"] r nz b z sectors(1)
      by (simp add: transfer_def advance_def extent_upd Let_def wr_range_def next_psector_def)
  qed
qed

lemma extents_ok_advance:
  assumes "extents_ok l ino" "unat chunk \<le> unat (xlen (this_extent ino))" "l + unat chunk \<le> mapped"
  shows "extents_ok (l + unat chunk)
    (ino\<lparr>this_extent := \<lparr>pstart = next_psector (pstart (this_extent ino)) chunk,
         lstart = lstart (this_extent ino) + chunk, xlen = xlen (this_extent ino) - chunk\<rparr>\<rparr>)"
  using assms run_drop [of "this_extent ino" chunk] mapped_bound extents_ok_end [OF assms(1)]
  by (auto simp: extents_ok_def unat_add_no_wrap)

lemma splice_append:
  "length a = n \<Longrightarrow> pos + n + m \<le> length buf \<Longrightarrow>
   take (pos + n) (take pos buf @ a @ drop (pos + n) buf) @ b @ drop (pos + n + m) (take pos buf @ a @ drop (pos + n) buf) =
   take pos buf @ (a @ b) @ drop (pos + n + m) buf"
  by (simp add: ac_simps)

lemma read_loop_0: "read_loop ne rdwr fs s ino buf pos 0 bytes_read = Some (s, ino, buf, bytes_read)"
  by (subst read_loop.simps) (rule if_P [OF refl])

lemma read_loop_ok:
  assumes "sinv s" "extents_ok l ino" "l + unat sectors \<le> mapped"
    and sz: "unat secsz = 2 ^ sector_shift fs"
    and "pos + unat sectors * unat secsz \<le> length buf"
    and "unat bytes_read + unat sectors * unat secsz < 2 ^ 32"
  shows "\<exists>s' t e p r. read_loop ne rdwr fs s ino buf pos sectors bytes_read =
      Some (s', ino\<lparr>this_extent := t, next_extent := e, pvt := p\<rparr>,
        take pos buf @ file_sectors sector secsz psec l (unat sectors) @
          drop (pos + unat sectors * unat secsz) buf, r) \<and>
      unat r = unat bytes_read + unat sectors * unat secsz \<and> sinv s' \<and>
      extents_ok (l + unat sectors) (ino\<lparr>this_extent := t, next_extent := e, pvt := p\<rparr>)"
  using assms(1-3,5,6)
proof (induction "unat sectors" arbitrary: s ino buf pos sectors bytes_read l rule: less_induct)
  case less
  show ?case
  proof (cases "sectors = 0")
    case True
    have "read_loop ne rdwr fs s ino buf pos sectors bytes_read =
        Some (s, ino\<lparr>this_extent := this_extent ino, next_extent := next_extent ino, pvt := pvt ino\<rparr>,
          take pos buf @ file_sectors sector secsz psec l (unat sectors) @
            drop (pos + unat sectors * unat secsz) buf, bytes_read)"
      unfolding True read_loop_0 by (simp add: file_sectors_def)
    moreover have "unat bytes_read = unat bytes_read + unat sectors * unat secsz" by (simp add: True)
    moreover have "extents_ok (l + unat sectors)
        (ino\<lparr>this_extent := this_extent ino, next_extent := next_extent ino, pvt := pvt ino\<rparr>)"
      using less.prems(2) by (simp add: True)
    ultimately show ?thesis using less.prems(1) by blast
  next
    case False
    obtain s1 t e p where f: "fill_extent ne s ino sectors =
          Some (s1, ino\<lparr>this_extent := t, next_extent := e, pvt := p\<rparr>, sectors)" "sinv s1"
        "extents_ok l (ino\<lparr>this_extent := t, next_extent := e, pvt := p\<rparr>)" "xlen t \<noteq> 0"
      using fill_extent_ok [OF less.prems(1,2,3) False] by (elim exE conjE) (rule that)
    let ?ino = "ino\<lparr>this_extent := t, next_extent := e, pvt := p\<rparr>"
    define chunk where "chunk = min sectors (xlen t)"
    define len where "len = push_bit (sector_shift fs) chunk"
    have c: "unat chunk \<le> unat sectors" "unat chunk \<le> unat (xlen t)" "chunk \<noteq> 0"
      using False f(4) by (auto simp: chunk_def min_def word_le_nat_alt)
    have cpos: "0 < unat chunk" using c(3) by (simp add: unat_gt_0)
    have mono: "unat chunk * unat secsz \<le> unat sectors * unat secsz" using c(1) by (rule mult_le_mono1)
    have len: "unat len = unat chunk * unat secsz"
    proof -
      have "unat chunk * unat secsz < 2 ^ 32" using mono less.prems(5) by linarith
      then show ?thesis unfolding len_def unat_push_bit sz by (simp add: sz)
    qed
    have split: "unat sectors * unat secsz = unat len + unat (sectors - chunk) * unat secsz"
    proof -
      have "unat sectors = unat chunk + unat (sectors - chunk)"
        using c(1) by (simp add: unat_sub_no_wrap word_le_nat_alt)
      then show ?thesis by (metis len add_mult_distrib)
    qed
    have fits: "pos + unat len \<le> length buf" using split less.prems(4) by simp
    have c2: "unat chunk \<le> unat (xlen (this_extent ?ino))" using c(2) by simp
    obtain s2 ino2 where x: "transfer rdwr s1 ?ino buf pos chunk len =
         Some (s2, ino2, take pos buf @ file_sectors sector secsz psec l (unat chunk) @ drop (pos + unat len) buf)"
        "sinv s2"
        "advance ino2 chunk =
         ?ino\<lparr>this_extent := \<lparr>pstart = next_psector (pstart (this_extent ?ino)) chunk,
             lstart = lstart (this_extent ?ino) + chunk, xlen = xlen (this_extent ?ino) - chunk\<rparr>\<rparr>"
      by (rule transfer_ok [OF f(2,3) c2 c(3) len fits])
    let ?buf = "take pos buf @ file_sectors sector secsz psec l (unat chunk) @ drop (pos + unat len) buf"
    let ?ino2 = "?ino\<lparr>this_extent := \<lparr>pstart = next_psector (pstart t) chunk, lstart = lstart t + chunk,
             xlen = xlen t - chunk\<rparr>\<rparr>"
    have step: "read_loop ne rdwr fs s ino buf pos sectors bytes_read =
        read_loop ne rdwr fs s2 ?ino2 ?buf (pos + unat len) (sectors - chunk) (bytes_read + len)"
      using False by (subst read_loop.simps) (simp add: f(1) Let_def x flip: chunk_def len_def)
    have sub: "unat (sectors - chunk) = unat sectors - unat chunk"
      using c(1) by (simp add: unat_sub_no_wrap word_le_nat_alt)
    have b1: "unat (bytes_read + len) = unat bytes_read + unat len"
      using less.prems(5) split by (intro unat_add_no_wrap) simp
    have ext: "extents_ok (l + unat chunk) ?ino2"
      using extents_ok_advance [OF f(3) c2] c(1) less.prems(3) by simp
    have buf: "length (file_sectors sector secsz psec l (unat chunk)) = unat len"
        "pos + unat len + unat (sectors - chunk) * unat secsz \<le> length buf"
      using len split less.prems(4) by simp_all
    have total: "l + unat chunk + unat (sectors - chunk) = l + unat sectors"
        "unat bytes_read + unat len + unat (sectors - chunk) * unat secsz = unat bytes_read + unat sectors * unat secsz"
        "pos + unat len + unat (sectors - chunk) * unat secsz = pos + unat sectors * unat secsz"
        "file_sectors sector secsz psec l (unat chunk) @
         file_sectors sector secsz psec (l + unat chunk) (unat (sectors - chunk)) =
         file_sectors sector secsz psec l (unat sectors)"
      using file_sectors_split [of l "unat chunk" "unat (sectors - chunk)"] sub c(1) split by simp_all
    have "\<exists>s' t e p r. read_loop ne rdwr fs s2 ?ino2 ?buf (pos + unat len) (sectors - chunk) (bytes_read + len) =
      Some (s', ?ino2\<lparr>this_extent := t, next_extent := e, pvt := p\<rparr>,
        take (pos + unat len) ?buf @ file_sectors sector secsz psec (l + unat chunk) (unat (sectors - chunk)) @
          drop (pos + unat len + unat (sectors - chunk) * unat secsz) ?buf, r) \<and>
      unat r = unat (bytes_read + len) + unat (sectors - chunk) * unat secsz \<and> sinv s' \<and>
      extents_ok (l + unat chunk + unat (sectors - chunk)) (?ino2\<lparr>this_extent := t, next_extent := e, pvt := p\<rparr>)"
    proof (rule less.hyps [OF _ x(2) ext])
      show "unat (sectors - chunk) < unat sectors" using sub cpos c(1) by simp
      show "l + unat chunk + unat (sectors - chunk) \<le> mapped" using total(1) less.prems(3) by simp
      show "pos + unat len + unat (sectors - chunk) * unat secsz \<le> length ?buf" using buf by simp
      show "unat (bytes_read + len) + unat (sectors - chunk) * unat secsz < 2 ^ 32"
        using total(2) b1 less.prems(5) by simp
    qed
    moreover have "?ino2\<lparr>this_extent := t', next_extent := e', pvt := p'\<rparr> =
        ino\<lparr>this_extent := t', next_extent := e', pvt := p'\<rparr>" for t' e' p' by simp
    ultimately show ?thesis
      unfolding step splice_append [OF buf] total(1,4) b1 total(2) unfolding total(3)
      by (simp only:)
  qed
qed

text \<open>Where a read may start: inside a known extent, or at a boundary.\<close>

lemma in_extent_iff:
  assumes "run_of_sectors psec mapped bnd e"
  shows "in_extent l e \<longleftrightarrow> unat (lstart e) \<le> unat l \<and> unat l < unat (lstart e) + unat (xlen e)"
proof (cases "xlen e = 0")
  case False
  then have "unat (lstart e) + unat (xlen e) < 2 ^ 32"
    using assms mapped_bound by (simp add: run_of_sectors_def)
  then have "unat (lstart e + xlen e) = unat (lstart e) + unat (xlen e)"
    by (intro unat_add_no_wrap) simp
  then show ?thesis by (simp add: in_extent_def word_less_nat_alt word_le_nat_alt not_less not_le)
qed (auto simp: in_extent_def)

lemma extents_ok_positioned:
  assumes "extents_ok (unat l) ino"
  shows "positioned bnd ino l"
proof -
  have "in_extent l (this_extent ino)" if "xlen (this_extent ino) \<noteq> 0"
    using assms that in_extent_iff [of "this_extent ino" l] by (simp add: extents_ok_def unat_gt_0)
  then show ?thesis using assms by (auto simp: positioned_def extents_ok_def)
qed

lemma seek_extent_ok:
  assumes "positioned bnd ino lsector" "pinv (isize ino) (iflags ino) (pvt ino)" "run_of_sectors psec mapped bnd (this_extent ino)"
    "run_of_sectors psec mapped bnd (next_extent ino)"
  obtains t where "seek_extent ino lsector = ino\<lparr>this_extent := t\<rparr>"
    "extents_ok (unat lsector) (ino\<lparr>this_extent := t\<rparr>)"
proof -
  define e where "e = (if in_extent lsector (this_extent ino) then this_extent ino else next_extent ino)"
  have e: "run_of_sectors psec mapped bnd e" using assms by (simp add: e_def)
  have *: "seek_extent ino lsector = ino\<lparr>this_extent :=
      (if in_extent lsector e
       then \<lparr>pstart = next_psector (pstart e) (lsector - lstart e), lstart = lsector,
             xlen = xlen e - (lsector - lstart e)\<rparr>
       else e\<lparr>lstart := lsector, xlen := 0\<rparr>)\<rparr>"
    by (simp add: seek_extent_def Let_def e_def)
  have "extents_ok (unat lsector) (seek_extent ino lsector)"
  proof (cases "in_extent lsector e")
    case True
    then have "unat (lsector - lstart e) < unat (xlen e)"
      by (simp add: in_extent_iff [OF e] unat_sub_no_wrap word_le_nat_alt le_diff_conv less_diff_conv2)
    then have d: "unat (lsector - lstart e) \<le> unat (xlen e)" "xlen e - (lsector - lstart e) \<noteq> 0"
      by (simp, metis eq_iff_diff_eq_0 less_irrefl)
    from run_drop [OF e d(1)] d(2) show ?thesis
      using assms True by (simp add: * extents_ok_def)
  next
    case False
    then have "bnd (unat lsector)" using assms(1) by (auto simp: positioned_def e_def split: if_splits)
    then show ?thesis using assms False by (simp add: * extents_ok_def)
  qed
  then show ?thesis using that unfolding * by blast
qed

end

section \<open>\<open>generic_getfssec\<close> reads the file\<close>

definition file_bytes :: "(nat \<Rightarrow> u64) \<Rightarrow> nat \<Rightarrow> 'p inode \<Rightarrow> (u64 \<Rightarrow> bytes) \<Rightarrow> u32 \<Rightarrow> bytes" where
  "file_bytes psec mapped ino sector secsz = take (unat (isize ino)) (file_sectors sector secsz psec 0 mapped)"

definition extents_agree :: "(nat \<Rightarrow> u64) \<Rightarrow> nat \<Rightarrow> (nat \<Rightarrow> bool) \<Rightarrow> (u32 \<Rightarrow> u32 \<Rightarrow> 'p \<Rightarrow> bool) \<Rightarrow> 'p inode \<Rightarrow> bool" where
  "extents_agree psec mapped bnd pinv ino \<longleftrightarrow> pinv (isize ino) (iflags ino) (pvt ino) \<and>
     run_of_sectors psec mapped bnd (this_extent ino) \<and> run_of_sectors psec mapped bnd (next_extent ino)"

text \<open>Sectors that cover \<open>n\<close> bytes.\<close>

definition sectors_for :: "fs_info \<Rightarrow> nat \<Rightarrow> nat" where
  "sectors_for fs n = (n + 2 ^ sector_shift fs - 1) div 2 ^ sector_shift fs"

lemma sectors_for_cover: "n \<le> sectors_for fs n * 2 ^ sector_shift fs"
  unfolding sectors_for_def by (rule ceil_div_cover) simp

lemma sectors_for_le: "sectors_for fs n * 2 ^ sector_shift fs \<le> n + 2 ^ sector_shift fs - 1"
  unfolding sectors_for_def by (rule div_times_less_eq_dividend)

lemma sectors_for_add: "sectors_for fs (q * 2 ^ sector_shift fs + n) = q + sectors_for fs n"
proof -
  have "0 < (2 :: nat) ^ sector_shift fs" by simp
  then have "q * 2 ^ sector_shift fs + n + 2 ^ sector_shift fs - 1 = q * 2 ^ sector_shift fs + (n + 2 ^ sector_shift fs - 1)"
    by linarith
  then show ?thesis by (simp add: sectors_for_def)
qed

lemma take_slice:
  assumes "length a = p" "g \<le> length b" "p + g \<le> n"
  shows "take g b = take g (drop p (take n (a @ b @ c)))"
proof -
  have "drop p (take n (a @ b @ c)) = take (n - p) (b @ c)"
    unfolding drop_take using assms(1) by simp
  moreover have "min g (n - p) = g" using assms(3) by simp
  ultimately show ?thesis using assms(2) by (simp only: take_take) simp
qed

context extent_map begin

lemma file_bytes_slice:
  assumes "q + n \<le> mapped" "g \<le> n * unat secsz" "q * unat secsz + g \<le> unat (isize ino)"
  shows "take g (file_sectors sector secsz psec q n) =
    take g (drop (q * unat secsz) (file_bytes psec mapped ino sector secsz))"
proof -
  have "mapped = q + (n + (mapped - q - n))" using assms(1) by simp
  then have "file_sectors sector secsz psec 0 mapped = file_sectors sector secsz psec 0 q @
      file_sectors sector secsz psec q n @ file_sectors sector secsz psec (q + n) (mapped - q - n)"
    using file_sectors_split [of 0 q "n + (mapped - q - n)"] file_sectors_split [of q n "mapped - q - n"]
    by simp
  then show ?thesis
    unfolding file_bytes_def by (simp only:) (rule take_slice; use assms(2,3) in simp)
qed

lemma generic_getfssec_ok:
  assumes S: "sinv s" "extents_agree psec mapped bnd pinv ino"
    and F: "sector_size fs = secsz" "unat secsz = 2 ^ sector_shift fs"
    and O: "unat offset = q * unat secsz" "unat offset \<le> unat (isize ino)"
      "positioned bnd ino (drop_bit (sector_shift fs) offset)"
    and M: "sectors_for fs (unat (isize ino)) \<le> mapped" "unat (isize ino) + unat secsz \<le> 2 ^ 32"
    and B: "min (unat sectors) (sectors_for fs (unat (isize ino) - unat offset)) * unat secsz \<le> length buf"
  defines "left \<equiv> unat (isize ino) - unat offset"
  defines "n \<equiv> min (unat sectors) (sectors_for fs left)"
  obtains (none) "n = 0" "generic_getfssec ne rdwr fs s ino offset buf sectors = Some (s, ino, offset, buf, 0, None)"
  | (some) s' t e p r where "0 < n"
      "generic_getfssec ne rdwr fs s ino offset buf sectors =
       Some (s', ino\<lparr>this_extent := t, next_extent := e, pvt := p\<rparr>, offset + r,
         file_sectors sector secsz psec q n @ drop (n * unat secsz) buf, r, Some (unat r < left))"
      "unat r = min (n * unat secsz) left" "sinv s'"
      "extents_ok (q + n) (ino\<lparr>this_extent := t, next_extent := e, pvt := p\<rparr>)"
proof -
  let ?k = "2 ^ sector_shift fs :: nat"
  define bl where "bl = isize ino - offset"
  have bl: "unat bl = left"
    using O(2) by (simp add: bl_def left_def unat_sub_no_wrap word_le_nat_alt)
  have kpos: "0 < unat secsz" by (rule secsz_pos)
  have "unat (bl + secsz) = unat bl + unat secsz \<or> unat bl + unat secsz = 2 ^ 32"
  proof (cases "unat bl + unat secsz < 2 ^ 32")
    case False
    then have "unat bl + unat secsz = 2 ^ 32" using M(2) by (simp add: bl left_def)
    then show ?thesis ..
  qed (simp add: unat_add_no_wrap)
  then have sum: "unat (bl + secsz - 1) = unat bl + unat secsz - 1"
  proof
    assume "unat (bl + secsz) = unat bl + unat secsz"
    then show ?thesis
      using kpos by (subst unat_sub_no_wrap) (simp_all add: word_le_nat_alt)
  next
    assume w: "unat bl + unat secsz = 2 ^ 32"
    then have "bl + secsz = 0" by (simp add: word_unat_eq_iff unat_word_ariths)
    then show ?thesis using w by (simp add: unat_minus_one)
  qed
  define sl where "sl = drop_bit (sector_shift fs) (bl + sector_size fs - 1)"
  have sl: "unat sl = sectors_for fs left"
    unfolding sl_def unat_drop_bit F(1) sum by (simp add: bl F(2) sectors_for_def)
  define sc where "sc = (if sectors > sl then sl else sectors)"
  have sc: "unat sc = n" by (auto simp: sc_def n_def sl word_less_nat_alt)
  note G = generic_getfssec_def [of ne rdwr fs s ino offset buf sectors, unfolded Let_def,
      folded bl_def, folded sl_def, folded sc_def]
  have lsec: "unat (drop_bit (sector_shift fs) offset) = q"
    unfolding unat_drop_bit by (simp add: O(1) F(2))
  have isz: "unat (isize ino) = q * ?k + left" using O F(2) by (simp add: left_def)
  have qn: "q + n \<le> mapped" using M(1) by (simp add: isz sectors_for_add n_def)
  have nk: "n * unat secsz \<le> left + unat secsz - 1"
    using sectors_for_le [of fs left] F(2) by (auto simp: n_def min_def intro: order_trans [OF mult_le_mono1])
  have E: "positioned bnd ino (drop_bit (sector_shift fs) offset)" "pinv (isize ino) (iflags ino) (pvt ino)" "run_of_sectors psec mapped bnd (this_extent ino)"
      "run_of_sectors psec mapped bnd (next_extent ino)"
    using S(2) O(3) by (simp_all add: extents_agree_def)
  obtain t0 where t0: "seek_extent ino (drop_bit (sector_shift fs) offset) = ino\<lparr>this_extent := t0\<rparr>"
      "extents_ok (unat (drop_bit (sector_shift fs) offset)) (ino\<lparr>this_extent := t0\<rparr>)"
    by (rule seek_extent_ok [OF E])
  show thesis
  proof (cases "n = 0")
    case True
    then have "sc = 0" using sc by (simp add: unsigned_eq_0_iff)
    then show thesis
      using True by (intro none) (simp_all add: G)
  next
    case False
    then have sc0: "sc \<noteq> 0" using sc by auto
    have "left + unat secsz - 1 < 2 ^ 32" using M(2) kpos unfolding left_def by linarith
    then have "n * unat secsz < 2 ^ 32" using nk by (rule le_less_trans [rotated])
    then have b: "0 + unat sc * unat secsz \<le> length buf" "unat (0 :: u32) + unat sc * unat secsz < 2 ^ 32"
      "q + unat sc \<le> mapped"
      using B qn unfolding sc n_def left_def by simp_all
    obtain s' t e p r where r: "read_loop ne rdwr fs s (ino\<lparr>this_extent := t0\<rparr>) buf 0 sc 0 =
        Some (s', ino\<lparr>this_extent := t0\<rparr>\<lparr>this_extent := t, next_extent := e, pvt := p\<rparr>,
          take 0 buf @ file_sectors sector secsz psec q (unat sc) @ drop (0 + unat sc * unat secsz) buf, r)"
      "unat r = unat (0 :: u32) + unat sc * unat secsz" "sinv s'"
      "extents_ok (q + unat sc) (ino\<lparr>this_extent := t0\<rparr>\<lparr>this_extent := t, next_extent := e, pvt := p\<rparr>)"
      using read_loop_ok [OF S(1) t0(2) b(3) [folded lsec] F(2) b(1,2)] unfolding lsec
      by (elim exE conjE) (rule that)
    let ?r = "min r bl"
    have mr: "unat ?r = min (n * unat secsz) left"
      using r(2) sc bl by (auto simp: min_def word_le_nat_alt)
    have "generic_getfssec ne rdwr fs s ino offset buf sectors =
       Some (s', ino\<lparr>this_extent := t, next_extent := e, pvt := p\<rparr>, offset + ?r,
         file_sectors sector secsz psec q n @ drop (n * unat secsz) buf, ?r, Some (unat ?r < left))"
      using sc0 r(1) sc unfolding G t0(1) by (simp add: word_less_nat_alt bl)
    then show thesis
      using False mr r(3,4) sc by (intro some [where s' = s' and t = t and e = e and p = p and r = ?r]) (simp_all add: extents_agree_def extents_ok_def)
  qed
qed

end

lemma getfssec_slice:
  fixes ne :: "('s, 'p) next_extent_op"
  assumes D: "extent_map rdwr secsz nsec sinv sector ne pinv psec mapped bnd"
    and S: "sinv s" "extents_agree psec mapped bnd pinv ino"
    and F: "sector_size fs = secsz" "unat secsz = 2 ^ sector_shift fs"
    and O: "unat secsz dvd unat offset" "offset \<le> isize ino"
      "positioned bnd ino (drop_bit (sector_shift fs) offset)"
    and M: "sectors_for fs (unat (isize ino)) \<le> mapped" "unat (isize ino) + unat secsz \<le> 2 ^ 32"
    and B: "min (unat sectors) (sectors_for fs (unat (isize ino) - unat offset)) * unat secsz \<le> length buf"
  shows "\<exists>s' ino' buf' r more. generic_getfssec ne rdwr fs s ino offset buf sectors =
      Some (s', ino', offset + r, buf', r, more) \<and>
    unat r = min (unat sectors * unat secsz) (unat (isize ino) - unat offset) \<and>
    take (unat r) buf' = take (unat r) (drop (unat offset) (file_bytes psec mapped ino sector secsz)) \<and>
    length buf' = length buf \<and> isize ino' = isize ino \<and>
    (more = (if r = 0 then None else Some (offset + r < isize ino))) \<and>
    sinv s' \<and> extents_agree psec mapped bnd pinv ino' \<and>
    (unat secsz dvd unat (offset + r) \<longrightarrow> positioned bnd ino' (drop_bit (sector_shift fs) (offset + r)))"
proof -
  define q where "q = unat offset div unat secsz"
  define left where "left = unat (isize ino) - unat offset"
  define n where "n = min (unat sectors) (sectors_for fs left)"
  have q: "unat offset = q * unat secsz" using O(1) by (simp add: q_def)
  have O2: "unat offset \<le> unat (isize ino)" using O(2) by (simp add: word_le_nat_alt)
  have cover: "min (n * unat secsz) left = min (unat sectors * unat secsz) left"
  proof (cases "unat sectors \<le> sectors_for fs left")
    case False
    then have a: "sectors_for fs left * unat secsz \<le> unat sectors * unat secsz"
      by (intro mult_le_mono1) simp
    have b: "left \<le> sectors_for fs left * unat secsz"
      using sectors_for_cover [of left fs] F(2) by simp
    have "left \<le> n * unat secsz" using b False by (simp add: n_def)
    with order_trans [OF b a] show ?thesis by simp
  qed (simp add: n_def)
  have k: "0 < unat secsz" by (rule block_device.secsz_pos [OF extent_map.axioms(1) [OF D]])
  show ?thesis
  proof (rule extent_map.generic_getfssec_ok [OF D S F q O2 O(3) M B, folded left_def, folded n_def])
    assume n: "n = 0" and g: "generic_getfssec ne rdwr fs s ino offset buf sectors = Some (s, ino, offset, buf, 0, None)"
    have "min (unat sectors * unat secsz) left = 0" using cover n by simp
    then show ?thesis
      using g S O(3) by (intro exI [of _ s] exI [of _ ino] exI [of _ buf] exI [of _ 0] exI [of _ None])
        (simp add: left_def)
  next
    fix s' t e p r
    let ?ino = "ino\<lparr>this_extent := t, next_extent := e, pvt := p\<rparr>"
    assume n: "0 < n" and g: "generic_getfssec ne rdwr fs s ino offset buf sectors =
         Some (s', ?ino, offset + r, file_sectors sector secsz psec q n @ drop (n * unat secsz) buf, r,
           Some (unat r < left))"
      and r: "unat r = min (n * unat secsz) left" and S': "sinv s'"
      and X: "extent_map.extents_ok pinv psec mapped bnd (q + n) ?ino"
    have l0: "0 < left"
    proof (rule ccontr)
      assume "\<not> 0 < left"
      then have "sectors_for fs left = 0" by (simp add: sectors_for_def)
      then show False using n by (simp add: n_def)
    qed
    have "0 < unat r" unfolding r using n k l0 by simp
    then have "r \<noteq> 0" by auto
    have qn: "q + n \<le> mapped"
    proof -
      have "unat (isize ino) = q * 2 ^ sector_shift fs + left" using q O2 F(2) by (simp add: left_def)
      then show ?thesis using M(1) by (simp add: sectors_for_add n_def)
    qed
    let ?buf = "file_sectors sector secsz psec q n @ drop (n * unat secsz) buf"
    have len: "length (file_sectors sector secsz psec q n) = n * unat secsz"
      by (rule extent_map.file_sectors_length [OF D])
    have rn: "unat r \<le> n * unat secsz" and rl: "unat r \<le> left" unfolding r by simp_all
    have slice: "take (unat r) ?buf = take (unat r) (drop (unat offset) (file_bytes psec mapped ino sector secsz))"
      using extent_map.file_bytes_slice [OF D qn rn, of ino] rn rl O2 len unfolding q [symmetric]
      by (simp add: left_def)
    have "n * unat secsz \<le> length buf" using B unfolding n_def left_def .
    then have blen: "length ?buf = length buf" using len by simp
    have "unat (offset + r) = unat offset + unat r"
    proof (rule unat_add_no_wrap)
      have "unat (isize ino) < 2 ^ LENGTH(32)" by simp
      then show "unat offset + unat r < 2 ^ LENGTH(32)" using O2 rl unfolding left_def by linarith
    qed
    then have sum: "unat (offset + r) = unat offset + unat r" .
    then have more: "(unat r < left) = (offset + r < isize ino)"
      using O2 by (simp add: word_less_nat_alt left_def) linarith
    have "positioned bnd ?ino (drop_bit (sector_shift fs) (offset + r))"
      if "unat secsz dvd unat (offset + r)"
    proof (rule extent_map.extents_ok_positioned [OF D])
      have "unat secsz dvd unat r" using that sum O(1) by (simp add: dvd_add_right_iff)
      then have d: "unat r = unat r div unat secsz * unat secsz" by simp
      have "unat r = n * unat secsz"
      proof (rule ccontr)
        assume ne: "unat r \<noteq> n * unat secsz"
        then have "left = unat r" "\<not> n * unat secsz \<le> left" using r by (auto simp: min_def split: if_splits)
        moreover have "sectors_for fs left = left div unat secsz"
          using d \<open>left = unat r\<close> sectors_for_add [of fs "left div unat secsz" 0] F(2)
          by (simp add: sectors_for_def [of fs 0])
        then have "n * unat secsz \<le> left div unat secsz * unat secsz" by (simp add: n_def)
        ultimately show False using d by simp
      qed
      then have "unat (drop_bit (sector_shift fs) (offset + r)) = q + n"
        using k unfolding unat_drop_bit sum q F(2) [symmetric] by simp
      then show "extent_map.extents_ok pinv psec mapped bnd (unat (drop_bit (sector_shift fs) (offset + r))) ?ino"
        using X by simp
    qed
    moreover have "extents_agree psec mapped bnd pinv ?ino"
      using X by (simp add: extents_agree_def extent_map.extents_ok_def [OF D])
    ultimately show ?thesis
      using g S' r cover slice blen \<open>r \<noteq> 0\<close> more by (auto simp: left_def)
  qed
qed

section \<open>Property\<close>

text \<open>
  A file to try it on: three sectors, the first two stored apart on the disk and the third a
  hole; \<open>demo_ne\<close> maps one sector at a time, so the reader has to look ahead.
\<close>

definition demo_psec :: "nat \<Rightarrow> u64" where
  "demo_psec l = (if l = 0 then 40 else if l = 1 then 41 else if l = 2 then 7 else EXTENT_ZERO)"

definition demo_ne :: "(unit, unit) next_extent_op" where
  "demo_ne s ino l = Some (s, ino\<lparr>next_extent := \<lparr>pstart = demo_psec (unat l), lstart = 0, xlen = 1\<rparr>\<rparr>, False)"

definition demo_fs :: fs_info where
  "demo_fs = \<lparr>sector_shift = 9, sector_size = 512, block_shift = 9, block_size = 512\<rparr>"

definition demo_inode :: "unit inode" where
  "demo_inode = (zero_inode ())\<lparr>isize := 2000\<rparr>"

interpretation demo_file: extent_map demo_rdwr 512 100 "\<lambda>_. True" demo_sector demo_ne "\<lambda>_ _ _. True" demo_psec 4 "\<lambda>_. True"
proof unfold_locales
  fix s :: unit and ino :: "unit inode" and l :: u32
  let ?e = "\<lparr>pstart = demo_psec (unat l), lstart = 0, xlen = 1\<rparr>"
  assume "unat l < 4"
  then have "run_of_sectors demo_psec 4 (\<lambda>_. True) (?e\<lparr>lstart := l\<rparr>)"
    by (auto simp: run_of_sectors_def)
  moreover have "demo_ne s ino l = Some (s, ino\<lparr>next_extent := ?e, pvt := ()\<rparr>, False)"
    by (simp add: demo_ne_def)
  ultimately show "\<exists>s' e p. demo_ne s ino l = Some (s', ino\<lparr>next_extent := e, pvt := p\<rparr>, False) \<and> True \<and>
      True \<and> xlen e \<noteq> 0 \<and> run_of_sectors demo_psec 4 (\<lambda>_. True) (e\<lparr>lstart := l\<rparr>)"
    by (intro exI [of _ s] exI [of _ ?e] exI [of _ "()"] conjI) simp_all
qed (simp_all add: demo_psec_def)

text \<open>
  C4.  Reading a file sector by sector gives the file.  For a file system whose
  \<open>next_extent\<close> meets its contract, a file offset at a sector boundary, a size that is more than
  one sector below 4G, and a buffer for the sectors asked for, \<open>generic_getfssec\<close> returns; the
  bytes it reports are exactly that slice of the file (holes read as zeros), as many as were
  asked for or are left; the offset moves behind them, \<open>have_more\<close> says whether bytes are left,
  and the extents it leaves in the inode agree with the file again.
\<close>

theorem getfssec_reads_file:
  fixes ne :: "('s, 'p) next_extent_op"
  assumes D: "extent_map rdwr secsz nsec sinv sector ne pinv psec mapped bnd"
    and S: "sinv s" "extents_agree psec mapped bnd pinv ino"
    and F: "sector_size fs = secsz" "unat secsz = 2 ^ sector_shift fs"
    and O: "unat secsz dvd unat offset" "offset \<le> isize ino"
      "positioned bnd ino (drop_bit (sector_shift fs) offset)"
    and M: "sectors_for fs (unat (isize ino)) \<le> mapped" "unat (isize ino) + unat secsz \<le> 2 ^ 32"
    and B: "min (unat sectors) (sectors_for fs (unat (isize ino) - unat offset)) * unat secsz \<le> length buf"
  shows "\<exists>s' ino' buf' r more. generic_getfssec ne rdwr fs s ino offset buf sectors =
      Some (s', ino', offset + r, buf', r, more) \<and>
    unat r = min (unat sectors * unat secsz) (unat (isize ino) - unat offset) \<and>
    take (unat r) buf' = take (unat r) (drop (unat offset) (file_bytes psec mapped ino sector secsz)) \<and>
    length buf' = length buf \<and> isize ino' = isize ino \<and>
    (more = (if r = 0 then None else Some (offset + r < isize ino))) \<and>
    sinv s' \<and> extents_agree psec mapped bnd pinv ino' \<and>
    (unat secsz dvd unat (offset + r) \<longrightarrow> positioned bnd ino' (drop_bit (sector_shift fs) (offset + r)))"
  using assms by (rule getfssec_slice)

theorem getfssec_reads_file_witness:
  "\<exists>s' ino' buf' r more. generic_getfssec demo_ne demo_rdwr demo_fs () demo_inode 512 (replicate 4096 9) 8 =
      Some (s', ino', 512 + r, buf', r, more) \<and> unat r = 1488 \<and>
    take (unat r) buf' = take (unat r) (drop 512 (file_bytes demo_psec 4 demo_inode demo_sector 512))"
proof -
  have S: "extents_agree demo_psec 4 (\<lambda>_. True) (\<lambda>_ _ _. True) demo_inode"
    by (simp add: extents_agree_def demo_inode_def zero_inode_def zero_extent_def)
  have F: "sector_size demo_fs = 512" "unat (512 :: u32) = 2 ^ sector_shift demo_fs"
    by (simp_all add: demo_fs_def)
  have O: "unat (512 :: u32) dvd unat (512 :: u32)" "512 \<le> isize demo_inode"
      "positioned (\<lambda>_. True) demo_inode (drop_bit (sector_shift demo_fs) 512)"
    by (simp_all add: demo_inode_def word_le_nat_alt positioned_def)
  have M: "sectors_for demo_fs (unat (isize demo_inode)) \<le> 4"
      "unat (isize demo_inode) + unat (512 :: u32) \<le> 2 ^ 32"
    by (simp_all add: sectors_for_def demo_fs_def demo_inode_def)
  have B: "min (unat (8 :: u32)) (sectors_for demo_fs (unat (isize demo_inode) - unat (512 :: u32))) *
      unat (512 :: u32) \<le> length (replicate 4096 (9 :: u8))"
    by (simp add: sectors_for_def demo_fs_def demo_inode_def)
  have "unat (isize demo_inode) = 2000" by (simp add: demo_inode_def)
  then show ?thesis
    using getfssec_reads_file [OF demo_file.extent_map_axioms TrueI S F O M B, of "()"]
    by fastforce
qed

end
