(* ===== verification/Fat.thy ===== *)
theory Fat
  imports Getfssec
begin

text \<open>
  The FAT file system of \<open>libcore/fs/fat/fat.c\<close>, first part: the superblock data, the file
  allocation table, the extents of a file and the sector walk of a directory.  Every sector goes
  through the block cache (\<open>read_block\<close>), whose block size is the sector size; the disk's
  \<open>rdwr_sectors\<close> is a parameter.  \<open>fs\<close> and \<open>sbi\<close> are the mounted file system's constant data, the
  device is the state.
\<close>

section \<open>Data\<close>

datatype fat_type = FAT12 | FAT16 | FAT32

record fat_sb_info =
  fat :: u64
  root :: u64
  data :: u64
  clusters :: u32
  root_cluster :: u32
  root_size :: s32
  clust_shift :: nat
  clust_byte_shift :: nat
  clust_mask :: s32
  clust_size :: s32
  fat_kind :: fat_type

record fat_pvt_inode =
  start_cluster :: u32
  start :: u64
  poffset :: u64
  here :: u64

type_synonym 'd rdwr_op = "'d \<Rightarrow> u64 \<Rightarrow> u32 \<Rightarrow> 'd \<times> bytes"

section \<open>The file allocation table\<close>

definition get_fat_sector ::
  "'d rdwr_op \<Rightarrow> u32 \<Rightarrow> fat_sb_info \<Rightarrow> 'd device \<Rightarrow> u64 \<Rightarrow> ('d device \<times> bytes) option" where
  "get_fat_sector rdwr secsz sbi dev sector = read_block rdwr secsz dev (fat sbi + sector)"

definition get_next_cluster ::
  "'d rdwr_op \<Rightarrow> u32 \<Rightarrow> fs_info \<Rightarrow> fat_sb_info \<Rightarrow> 'd device \<Rightarrow> u32 \<Rightarrow> ('d device \<times> u32) option" where
  "get_next_cluster rdwr secsz fs sbi dev clust_num =
     (let sector_mask = sector_size fs - 1 in
      case fat_kind sbi of
        FAT12 \<Rightarrow>
          let offset = clust_num + drop_bit 1 clust_num;
              fat_sector = ucast (drop_bit (sector_shift fs) offset) :: u64;
              offset = offset AND sector_mask
          in do { (dev, bs) \<leftarrow> get_fat_sector rdwr secsz sbi dev fat_sector;
                  (dev, next_cluster) \<leftarrow>
                    (if offset = sector_mask
                     then do { lo \<leftarrow> rd bs (unat offset);
                               (dev, bs) \<leftarrow> get_fat_sector rdwr secsz sbi dev (fat_sector + 1);
                               hi \<leftarrow> rd bs 0;
                               Some (dev, ucast lo + push_bit 8 (ucast hi)) }
                     else do { v \<leftarrow> rd16 bs (unat offset); Some (dev, ucast v :: u32) });
                  Some (dev, if clust_num AND 1 \<noteq> 0 then drop_bit 4 next_cluster
                             else next_cluster AND 0x0fff) }
      | FAT16 \<Rightarrow>
          let offset = push_bit 1 clust_num;
              fat_sector = ucast (drop_bit (sector_shift fs) offset) :: u64;
              offset = offset AND sector_mask
          in do { (dev, bs) \<leftarrow> get_fat_sector rdwr secsz sbi dev fat_sector;
                  v \<leftarrow> rd16 bs (unat offset);
                  Some (dev, ucast v) }
      | FAT32 \<Rightarrow>
          let offset = push_bit 2 clust_num;
              fat_sector = ucast (drop_bit (sector_shift fs) offset) :: u64;
              offset = offset AND sector_mask
          in do { (dev, bs) \<leftarrow> get_fat_sector rdwr secsz sbi dev fat_sector;
                  v \<leftarrow> rd32 bs (unat offset);
                  Some (dev, v AND 0x0fffffff) })"

section \<open>Extents\<close>

text \<open>
  The first loop of \<open>fat_next_extent\<close>: follow the chain to logical cluster \<open>mcluster\<close>.
  The last component of the result says whether a cluster number out of range was met.
\<close>

partial_function (option) walk_chain ::
  "'d rdwr_op \<Rightarrow> u32 \<Rightarrow> fs_info \<Rightarrow> fat_sb_info \<Rightarrow> 'd device \<Rightarrow> u32 \<Rightarrow> u32 \<Rightarrow> u32 \<Rightarrow>
   ('d device \<times> u32 \<times> u32 \<times> bool) option" where
  "walk_chain rdwr secsz fs sbi dev mcluster lcluster pcluster =
     (if pcluster - 2 \<ge> clusters sbi then Some (dev, lcluster, pcluster, True)
      else if lcluster \<ge> mcluster then Some (dev, lcluster, pcluster, False)
      else do { (dev, pcluster') \<leftarrow> get_next_cluster rdwr secsz fs sbi dev pcluster;
                walk_chain rdwr secsz fs sbi dev mcluster (lcluster + 1) pcluster' })"

text \<open>The second loop: extend the extent while the chain is contiguous.\<close>

partial_function (option) extend_extent ::
  "'d rdwr_op \<Rightarrow> u32 \<Rightarrow> fs_info \<Rightarrow> fat_sb_info \<Rightarrow> 'd device \<Rightarrow> u32 \<Rightarrow> u32 \<Rightarrow> u32 \<Rightarrow> u32 \<Rightarrow> u32 \<Rightarrow>
   ('d device \<times> u32 \<times> u32 \<times> u32) option" where
  "extend_extent rdwr secsz fs sbi dev tcluster lcluster pcluster len xcluster =
     (let lcluster = lcluster + 1 in
      if lcluster < tcluster
      then do { (dev, xcluster) \<leftarrow> get_next_cluster rdwr secsz fs sbi dev pcluster;
                let pcluster = pcluster + 1;
                if xcluster \<noteq> pcluster then Some (dev, lcluster, len, xcluster)
                else extend_extent rdwr secsz fs sbi dev tcluster lcluster pcluster
                       (len + push_bit (clust_shift sbi) 1) xcluster }
      else Some (dev, lcluster, len, xcluster))"

definition fat_next_extent ::
  "'d rdwr_op \<Rightarrow> u32 \<Rightarrow> fs_info \<Rightarrow> fat_sb_info \<Rightarrow> ('d device, fat_pvt_inode) next_extent_op" where
  "fat_next_extent rdwr secsz fs sbi dev ino lst =
     (let mcluster = drop_bit (clust_shift sbi) lst;
          cluster_bytes = push_bit (clust_byte_shift sbi) 1 :: u32;
          cluster_secs = push_bit (clust_shift sbi) 1 :: u32;
          data_area = data sbi;
          tcluster = drop_bit (clust_byte_shift sbi) (isize ino + cluster_bytes - 1)
      in if mcluster \<ge> tcluster then Some (dev, ino, True)
         else let lcluster = ucast (drop_bit (clust_shift sbi) (poffset (pvt ino))) :: u32;
                  pcluster = ucast (drop_bit (clust_shift sbi) (here (pvt ino) - data_area) + 2) :: u32;
                  (lcluster, pcluster) = (if lcluster > mcluster \<or> here (pvt ino) < data_area
                                          then (0, start_cluster (pvt ino)) else (lcluster, pcluster))
              in do { (dev, lcluster, pcluster, bad) \<leftarrow>
                        walk_chain rdwr secsz fs sbi dev mcluster lcluster pcluster;
                      if bad then Some (dev, ino\<lparr>isize := push_bit (clust_shift sbi) lcluster\<rparr>, True)
                      else do { let ps = push_bit (clust_shift sbi) (ucast (pcluster - 2)) + data_area;
                                (dev, lcluster, len, xcluster) \<leftarrow>
                                  extend_extent rdwr secsz fs sbi dev tcluster lcluster pcluster cluster_secs 0;
                                Some (dev, ino\<lparr>next_extent := (next_extent ino)\<lparr>pstart := ps, xlen := len\<rparr>,
                                   pvt := (pvt ino)\<lparr>poffset := ucast (push_bit (clust_shift sbi) lcluster),
                                     here := ucast (push_bit (clust_shift sbi) (xcluster - 2)) + data_area\<rparr>\<rparr>, False) } })"

section \<open>Sectors of a directory\<close>

definition get_next_sector ::
  "'d rdwr_op \<Rightarrow> u32 \<Rightarrow> fs_info \<Rightarrow> fat_sb_info \<Rightarrow> 'd device \<Rightarrow> u32 \<Rightarrow> ('d device \<times> u64) option" where
  "get_next_sector rdwr secsz fs sbi dev sector =
     (let data_area = data sbi in
      if ucast sector < data_area
      then let sector = sector + 1 in
           Some (dev, ucast (if ucast sector \<ge> data_area then 0 else sector))
      else let data_sector = ucast sector - data_area in
           if (data_sector + 1) AND scast (clust_mask sbi) \<noteq> 0 then Some (dev, ucast (sector + 1))
           else let cluster = ucast (drop_bit (clust_shift sbi) data_sector) :: u32 in
                do { (dev, next) \<leftarrow> get_next_cluster rdwr secsz fs sbi dev (cluster + 2);
                     let cluster = next - 2;
                     if cluster \<ge> clusters sbi then Some (dev, 0)
                     else Some (dev, ucast (ucast (ucast (push_bit (clust_shift sbi) cluster) + data_area) :: u32)) })"

text \<open>The loop of \<open>get_the_right_sector\<close> from sector position \<open>whr\<close>.\<close>

partial_function (option) seek_sector ::
  "'d rdwr_op \<Rightarrow> u32 \<Rightarrow> fs_info \<Rightarrow> fat_sb_info \<Rightarrow> 'd device \<Rightarrow> u32 \<Rightarrow> u32 \<Rightarrow> u64 \<Rightarrow> ('d device \<times> u64) option" where
  "seek_sector rdwr secsz fs sbi dev sector_pos whr sector =
     (if whr < sector_pos
      then do { (dev, sector) \<leftarrow> get_next_sector rdwr secsz fs sbi dev (ucast sector);
                seek_sector rdwr secsz fs sbi dev sector_pos (whr + 1) sector }
      else Some (dev, sector))"

definition get_the_right_sector ::
  "'d rdwr_op \<Rightarrow> u32 \<Rightarrow> fs_info \<Rightarrow> fat_sb_info \<Rightarrow> 'd device \<Rightarrow> fat_pvt_inode \<Rightarrow> u32 \<Rightarrow>
   ('d device \<times> fat_pvt_inode \<times> u64) option" where
  "get_the_right_sector rdwr secsz fs sbi dev pv offset =
     (let sector_pos = drop_bit (sector_shift fs) offset;
          (whr, sector) = (if ucast sector_pos < poffset pv then (0, start pv)
                           else (ucast (poffset pv), here pv))
      in do { (dev, sector) \<leftarrow> seek_sector rdwr secsz fs sbi dev sector_pos whr sector;
              Some (dev, pv\<lparr>poffset := ucast sector_pos, here := sector\<rparr>, sector) })"

definition next_sector ::
  "'d rdwr_op \<Rightarrow> u32 \<Rightarrow> fs_info \<Rightarrow> fat_sb_info \<Rightarrow> 'd device \<Rightarrow> fat_pvt_inode \<Rightarrow>
   ('d device \<times> fat_pvt_inode \<times> u64) option" where
  "next_sector rdwr secsz fs sbi dev pv =
     do { (dev, sector) \<leftarrow> get_next_sector rdwr secsz fs sbi dev (ucast (here pv));
          Some (dev, pv\<lparr>poffset := poffset pv + 1, here := sector\<rparr>, sector) }"

section \<open>What the table means\<close>

text \<open>
  The FAT as the array of bytes that starts at sector \<open>fat\<close>, whatever the sector size, and the
  entry of a cluster as the FAT specification defines it on that array.
\<close>

definition fat_byte :: "(u64 \<Rightarrow> bytes) \<Rightarrow> u32 \<Rightarrow> fat_sb_info \<Rightarrow> nat \<Rightarrow> nat" where
  "fat_byte sector secsz sbi n = unat (sector (fat sbi + of_nat (n div unat secsz)) ! (n mod unat secsz))"

definition fat_entry :: "(u64 \<Rightarrow> bytes) \<Rightarrow> u32 \<Rightarrow> fat_sb_info \<Rightarrow> nat \<Rightarrow> nat" where
  "fat_entry sector secsz sbi c =
     (let b = fat_byte sector secsz sbi in
      case fat_kind sbi of
        FAT12 \<Rightarrow> let v = b (c + c div 2) + 256 * b (c + c div 2 + 1) in if odd c then v div 16 else v mod 4096
      | FAT16 \<Rightarrow> b (2 * c) + 256 * b (2 * c + 1)
      | FAT32 \<Rightarrow> (b (4 * c) + 256 * b (4 * c + 1) + 65536 * b (4 * c + 2) + 16777216 * b (4 * c + 3)) mod 2 ^ 28)"

text \<open>The offset of the last byte of an entry.\<close>

definition fat_last_byte :: "fat_sb_info \<Rightarrow> nat \<Rightarrow> nat" where
  "fat_last_byte sbi c =
     (case fat_kind sbi of FAT12 \<Rightarrow> c + c div 2 + 1 | FAT16 \<Rightarrow> 2 * c + 1 | FAT32 \<Rightarrow> 4 * c + 3)"

locale fat_volume = sector_cache +
  fixes fs :: fs_info and sbi :: fat_sb_info
  assumes geometry: "sector_size fs = secsz" "unat secsz = 2 ^ sector_shift fs" "2 \<le> sector_shift fs"
begin

lemma split_offset:
  "unat (drop_bit (sector_shift fs) offset) = unat offset div unat secsz"
  "unat (offset AND (sector_size fs - 1)) = unat offset mod unat secsz" for offset :: u32
proof -
  show "unat (drop_bit (sector_shift fs) offset) = unat offset div unat secsz"
    by (simp add: unat_drop_bit geometry)
  have "secsz - 1 = mask (sector_shift fs)"
    using word_eq_2_power [OF geometry(2)] by (simp add: mask_eq_exp_minus_1)
  then show "unat (offset AND (sector_size fs - 1)) = unat offset mod unat secsz"
    by (simp add: geometry unat_mask_mod)
qed

lemma get_fat_sector_ok:
  assumes "cached dev" "unat (fat sbi) + n < nsec"
  obtains dev' where "get_fat_sector rdwr secsz sbi dev (of_nat n) = Some (dev', sector (fat sbi + of_nat n))"
    "cached dev'"
proof -
  have "unat (fat sbi + of_nat n) = unat (fat sbi) + n"
    using assms(2) nsec_small by (intro unat_add_of_nat) simp
  then show ?thesis
    using read_sector [OF assms(1), of "fat sbi + of_nat n"] assms(2) that by (auto simp: get_fat_sector_def)
qed

text \<open>A cluster whose entry lies inside the partition and whose offset fits 32 bits.\<close>

definition entry_in_volume :: "nat \<Rightarrow> bool" where
  "entry_in_volume c \<longleftrightarrow> fat_last_byte sbi c < 2 ^ 32 \<and> unat (fat sbi) + fat_last_byte sbi c div unat secsz < nsec"

lemma fat_byte_at:
  assumes "n div unat secsz = q" "n mod unat secsz = r"
  shows "fat_byte sector secsz sbi n = unat (sector (fat sbi + of_nat q) ! r)"
  by (simp add: fat_byte_def assms)

lemma sector_even: "2 dvd unat secsz" "4 dvd unat secsz"
proof -
  obtain k where "sector_shift fs = k + 2" using geometry(3) by (metis add.commute le_Suc_ex)
  then show "2 dvd unat secsz" "4 dvd unat secsz" by (simp_all add: geometry(2))
qed

lemma fat_sector_at:
  assumes "cached dev" "unat offset = n" "unat (fat sbi) + n div unat secsz < nsec"
  obtains dev' where
    "get_fat_sector rdwr secsz sbi dev (ucast (drop_bit (sector_shift fs) offset)) =
       Some (dev', sector (fat sbi + of_nat (n div unat secsz)))" "cached dev'"
    "unat (offset AND (sector_size fs - 1)) = n mod unat secsz"
    "ucast (drop_bit (sector_shift fs) offset) = (of_nat (n div unat secsz) :: u64)"
proof -
  have d: "unat (drop_bit (sector_shift fs) offset) = n div unat secsz"
    using split_offset(1) [of offset] assms(2) by simp
  then have "n div unat secsz < 2 ^ LENGTH(64)"
    by (rule order.strict_trans1 [OF eq_refl [OF sym]]) (rule less_trans [OF unat_u32_lt], simp)
  then have q: "ucast (drop_bit (sector_shift fs) offset) = (of_nat (n div unat secsz) :: u64)"
    using d by (simp add: word_unat_eq_iff unat_ucast_up unat_of_nat_small)
  show ?thesis
    using get_fat_sector_ok [OF assms(1,3)] that q split_offset(2) [of offset] unfolding q assms(2) by blast
qed

lemma get_next_cluster_16:
  assumes "cached dev" "entry_in_volume (unat c)" "fat_kind sbi = FAT16"
  obtains dev' v where "get_next_cluster rdwr secsz fs sbi dev c = Some (dev', v)" "cached dev'"
    "unat v = fat_entry sector secsz sbi (unat c)"
proof -
  define n where "n = 2 * unat c"
  have l: "n + 1 < 2 ^ 32" "unat (fat sbi) + (n + 1) div unat secsz < nsec"
    using assms(2,3) by (simp_all add: entry_in_volume_def fat_last_byte_def n_def)
  have room: "n mod unat secsz + 1 < unat secsz"
    using mod_room [of 2 n "unat secsz"] sector_even(1) secsz_pos by (simp add: n_def)
  note n1 = div_mod_within [OF room]
  have u: "unat (push_bit 1 c) = n" unfolding unat_push_bit using l(1) by (simp add: n_def)
  have f: "unat (fat sbi) + n div unat secsz < nsec" using l(2) n1(1) by simp
  obtain dev' where g:
      "get_fat_sector rdwr secsz sbi dev (ucast (drop_bit (sector_shift fs) (push_bit 1 c))) =
         Some (dev', sector (fat sbi + of_nat (n div unat secsz)))" "cached dev'"
      "unat (push_bit 1 c AND (sector_size fs - 1)) = n mod unat secsz"
    by (rule fat_sector_at [OF assms(1) u f])
  let ?s = "sector (fat sbi + of_nat (n div unat secsz))" and ?r = "n mod unat secsz"
  have "get_next_cluster rdwr secsz fs sbi dev c = Some (dev', ucast (le16_of (?s ! ?r) (?s ! (?r + 1))))"
    using g room by (simp add: get_next_cluster_def Let_def assms(3) rd16_in sector_length)
  moreover have "unat (ucast (le16_of (?s ! ?r) (?s ! (?r + 1))) :: u32) = fat_entry sector secsz sbi (unat c)"
    using n1 by (simp add: unat_ucast_up unat_le16_of fat_entry_def assms(3) fat_byte_def flip: n_def)
  ultimately show ?thesis using that g(2) by blast
qed

lemma get_next_cluster_32:
  assumes "cached dev" "entry_in_volume (unat c)" "fat_kind sbi = FAT32"
  obtains dev' v where "get_next_cluster rdwr secsz fs sbi dev c = Some (dev', v)" "cached dev'"
    "unat v = fat_entry sector secsz sbi (unat c)"
proof -
  define n where "n = 4 * unat c"
  have l: "n + 3 < 2 ^ 32" "unat (fat sbi) + (n + 3) div unat secsz < nsec"
    using assms(2,3) by (simp_all add: entry_in_volume_def fat_last_byte_def n_def)
  have room: "n mod unat secsz + k < unat secsz" if "k < 4" for k
    using mod_room [of 4 n "unat secsz"] sector_even(2) secsz_pos that by (simp add: n_def)
  note n1 = div_mod_within(1) [OF room] div_mod_within(2) [OF room]
  have u: "unat (push_bit 2 c) = n" unfolding unat_push_bit using l(1) by (simp add: n_def)
  have f: "unat (fat sbi) + n div unat secsz < nsec" using l(2) n1(1) [of 3] by simp
  obtain dev' where g:
      "get_fat_sector rdwr secsz sbi dev (ucast (drop_bit (sector_shift fs) (push_bit 2 c))) =
         Some (dev', sector (fat sbi + of_nat (n div unat secsz)))" "cached dev'"
      "unat (push_bit 2 c AND (sector_size fs - 1)) = n mod unat secsz"
    by (rule fat_sector_at [OF assms(1) u f])
  let ?s = "sector (fat sbi + of_nat (n div unat secsz))" and ?r = "n mod unat secsz"
  let ?v = "le32_of (?s ! ?r) (?s ! (?r + 1)) (?s ! (?r + 2)) (?s ! (?r + 3))"
  have "get_next_cluster rdwr secsz fs sbi dev c = Some (dev', ?v AND 0x0fffffff)"
    using g room [of 3] by (simp add: get_next_cluster_def Let_def assms(3) rd32_in sector_length)
  moreover have "unat (?v AND 0x0fffffff) = fat_entry sector secsz sbi (unat c)"
  proof -
    have "(0x0fffffff :: u32) = mask 28" by (simp add: mask_eq_exp_minus_1)
    then have "unat (?v AND 0x0fffffff) = unat ?v mod 2 ^ 28" by (simp only: unat_mask_mod)
    then show ?thesis
      using n1 [of 1] n1 [of 2] n1 [of 3]
      by (simp add: unat_le32_of fat_entry_def assms(3) fat_byte_def flip: n_def)
  qed
  ultimately show ?thesis using that g(2) by blast
qed

lemma fat12_select:
  fixes v c :: u32
  shows "unat (if c AND 1 \<noteq> 0 then drop_bit 4 v else v AND 0x0fff) =
    (if odd (unat c) then unat v div 16 else unat v mod 4096)"
proof -
  have "unat (c AND 1) = unat c mod 2" using unat_mask_mod [of c 1] by simp
  then have "c AND 1 \<noteq> 0 \<longleftrightarrow> odd (unat c)"
    by (metis odd_iff_mod_2_eq_one unsigned_0 unsigned_1 word_unat_eq_iff even_iff_mod_2_eq_zero zero_neq_one)
  moreover have "(0x0fff :: u32) = mask 12" by (simp add: mask_eq_exp_minus_1)
  then have "unat (v AND 0x0fff) = unat v mod 2 ^ 12" by (simp only: unat_mask_mod)
  ultimately show ?thesis by (simp add: unat_drop_bit)
qed

lemma get_next_cluster_12:
  assumes "cached dev" "entry_in_volume (unat c)" "fat_kind sbi = FAT12"
  obtains dev' v where "get_next_cluster rdwr secsz fs sbi dev c = Some (dev', v)" "cached dev'"
    "unat v = fat_entry sector secsz sbi (unat c)"
proof -
  define n where "n = unat c + unat c div 2"
  have l: "n + 1 < 2 ^ 32" "unat (fat sbi) + (n + 1) div unat secsz < nsec"
    using assms(2,3) by (simp_all add: entry_in_volume_def fat_last_byte_def n_def)
  have "unat (drop_bit 1 c) = unat c div 2" by (simp only: unat_drop_bit power_one_right)
  then have u: "unat (c + drop_bit 1 c) = n"
    using l(1) by (subst unat_add_no_wrap) (simp_all add: n_def)
  have "n div unat secsz \<le> (n + 1) div unat secsz" by (intro div_le_mono) simp
  then have f: "unat (fat sbi) + n div unat secsz < nsec" using l(2) by linarith
  obtain dev1 where g:
      "get_fat_sector rdwr secsz sbi dev (ucast (drop_bit (sector_shift fs) (c + drop_bit 1 c))) =
         Some (dev1, sector (fat sbi + of_nat (n div unat secsz)))" "cached dev1"
      "unat ((c + drop_bit 1 c) AND (sector_size fs - 1)) = n mod unat secsz"
      "ucast (drop_bit (sector_shift fs) (c + drop_bit 1 c)) = (of_nat (n div unat secsz) :: u64)"
    by (rule fat_sector_at [OF assms(1) u f])
  let ?s = "sector (fat sbi + of_nat (n div unat secsz))" and ?r = "n mod unat secsz"
  have r: "?r < unat secsz" using secsz_pos by simp
  have mask: "unat (sector_size fs - 1) = unat secsz - 1"
    using secsz_pos by (simp add: geometry(1) unat_sub_no_wrap word_le_nat_alt)
  show thesis
  proof (cases "?r = unat secsz - 1")
    case True
    note n1 = div_mod_across [OF secsz_pos True]
    have e: "(c + drop_bit 1 c) AND (sector_size fs - 1) = sector_size fs - 1"
      using g(3) mask True by (simp add: word_unat_eq_iff)
    obtain dev2 where h: "get_fat_sector rdwr secsz sbi dev1 (of_nat (n div unat secsz + 1)) =
        Some (dev2, sector (fat sbi + of_nat (n div unat secsz + 1)))" "cached dev2"
      using get_fat_sector_ok [OF g(2)] l(2) n1(1) by metis
    have q: "(of_nat (n div unat secsz) + 1 :: u64) = of_nat (n div unat secsz + 1)" by simp
    let ?s2 = "sector (fat sbi + of_nat (n div unat secsz + 1))"
    let ?v = "ucast (?s ! ?r) + push_bit 8 (ucast (?s2 ! 0)) :: u32"
    have "get_next_cluster rdwr secsz fs sbi dev c =
        Some (dev2, if c AND 1 \<noteq> 0 then drop_bit 4 ?v else ?v AND 0x0fff)"
      unfolding get_next_cluster_def Let_def assms(3) fat_type.case e if_P [OF refl] g(1) bind.bind_lunit prod.case
      unfolding mask True [symmetric] g(4) q h(1) using r secsz_pos by (simp add: sector_length)
    moreover have "unat ?v = unat (?s ! ?r) + 256 * unat (?s2 ! 0)"
    proof -
      have "unat (push_bit 8 (ucast (?s2 ! 0)) :: u32) = 256 * unat (?s2 ! 0)"
        using unat_u8_lt [of "?s2 ! 0"] by (simp add: unat_push_bit unat_ucast_up del: unat_u8_lt)
      then show ?thesis
        using unat_u8_lt [of "?s2 ! 0"] unat_u8_lt [of "?s ! ?r"]
        by (subst unat_add_no_wrap) (simp_all add: unat_ucast_up del: unat_u8_lt)
    qed
    ultimately show thesis
      using n1 that h(2) fat12_select [of c ?v]
      by (simp add: fat_entry_def assms(3) fat_byte_def Let_def flip: n_def)
  next
    case False
    then have room: "?r + 1 < unat secsz" using r by linarith
    note n1 = div_mod_within [OF room]
    have e: "(c + drop_bit 1 c) AND (sector_size fs - 1) \<noteq> sector_size fs - 1"
      using g(3) mask False by (metis)
    let ?v = "ucast (le16_of (?s ! ?r) (?s ! (?r + 1))) :: u32"
    have "get_next_cluster rdwr secsz fs sbi dev c =
        Some (dev1, if c AND 1 \<noteq> 0 then drop_bit 4 ?v else ?v AND 0x0fff)"
      using g room e by (simp add: get_next_cluster_def Let_def assms(3) rd16_in sector_length)
    then show thesis
      using n1 that g(2) fat12_select [of c ?v]
      by (simp add: unat_ucast_up unat_le16_of fat_entry_def assms(3) fat_byte_def Let_def flip: n_def)
  qed
qed

lemma get_next_cluster_ok:
  assumes "cached dev" "entry_in_volume (unat c)"
  obtains dev' v where "get_next_cluster rdwr secsz fs sbi dev c = Some (dev', v)" "cached dev'"
    "unat v = fat_entry sector secsz sbi (unat c)"
  using assms get_next_cluster_12 get_next_cluster_16 get_next_cluster_32
  by (cases "fat_kind sbi") blast+

end

section \<open>A file\<close>

text \<open>
  A well-formed file: \<open>first\<close> is its first cluster, \<open>fsize\<close> its size, and the chain of the table
  gives a cluster in range for each of its \<open>nclust\<close> clusters of \<open>cs\<close> sectors.
\<close>

locale fat_file = fat_volume +
  fixes first :: u32 and fsize :: u32
  assumes clust: "clust_byte_shift sbi = clust_shift sbi + sector_shift fs" "clust_byte_shift sbi < 32"
    and area: "unat (data sbi) + unat (clusters sbi) * 2 ^ clust_shift sbi \<le> nsec"
      "(unat (clusters sbi) + 2) * 2 ^ clust_shift sbi < 2 ^ 32"
    and table: "c < unat (clusters sbi) + 2 \<Longrightarrow> entry_in_volume c"
    and file_size: "unat fsize + 2 ^ clust_byte_shift sbi \<le> 2 ^ 32"
    and chain: "i < (unat fsize + 2 ^ clust_byte_shift sbi - 1) div 2 ^ clust_byte_shift sbi \<Longrightarrow>
        2 \<le> (fat_entry sector secsz sbi ^^ i) (unat first) \<and>
        (fat_entry sector secsz sbi ^^ i) (unat first) < unat (clusters sbi) + 2"
begin

definition cs :: nat where
  "cs = 2 ^ clust_shift sbi"

definition nclust :: nat where
  "nclust = (unat fsize + 2 ^ clust_byte_shift sbi - 1) div 2 ^ clust_byte_shift sbi"

definition cluster :: "nat \<Rightarrow> nat" where
  "cluster i = (fat_entry sector secsz sbi ^^ i) (unat first)"

definition psec :: "nat \<Rightarrow> u64" where
  "psec l = data sbi + of_nat ((cluster (l div cs) - 2) * cs + l mod cs)"

definition pinv :: "u32 \<Rightarrow> u32 \<Rightarrow> fat_pvt_inode \<Rightarrow> bool" where
  "pinv sz fl p \<longleftrightarrow> sz = fsize \<and> start_cluster p = first \<and> unat (poffset p) < 2 ^ 32 \<and>
     (unat (poffset p) div cs < nclust \<longrightarrow> data sbi \<le> here p \<longrightarrow>
      (unat (here p) - unat (data sbi)) div cs + 2 = cluster (unat (poffset p) div cs))"

lemma cs_pos [simp]: "0 < cs"
  by (simp add: cs_def)

lemma cluster_range: "i < nclust \<Longrightarrow> 2 \<le> cluster i \<and> cluster i < unat (clusters sbi) + 2"
  using chain by (simp add: nclust_def cluster_def)

lemma cluster_Suc: "cluster (Suc i) = fat_entry sector secsz sbi (cluster i)"
  by (simp add: cluster_def)

lemma clusters_bound: "unat (clusters sbi) + 2 < 2 ^ 32"
proof -
  have "(unat (clusters sbi) + 2) * 1 \<le> (unat (clusters sbi) + 2) * 2 ^ clust_shift sbi"
    by (rule mult_le_mono2) simp
  then show ?thesis using area(2) by simp
qed

lemma nclust_bound: "nclust * cs < 2 ^ 32"
proof -
  have "nclust * cs \<le> nclust * 2 ^ clust_byte_shift sbi"
    by (simp add: cs_def clust(1) power_add)
  also have "\<dots> \<le> unat fsize + 2 ^ clust_byte_shift sbi - 1"
    unfolding nclust_def by (rule div_times_less_eq_dividend)
  also have "\<dots> < 2 ^ 32" using file_size by (metis Suc_diff_1 Suc_le_lessD add_gr_0 zero_less_numeral zero_less_power)
  finally show ?thesis .
qed

lemma nclust_u32: "nclust < 2 ^ 32"
proof -
  have "nclust * 1 \<le> nclust * cs" by (rule mult_le_mono2) (simp add: Suc_leI)
  from le_less_trans [OF this nclust_bound] show ?thesis by simp
qed

lemma next_cluster:
  assumes "cached dev" "Suc i \<le> nclust" "unat p = cluster i"
  obtains dev' v where "get_next_cluster rdwr secsz fs sbi dev p = Some (dev', v)" "cached dev'"
    "unat v = cluster (Suc i)"
  using get_next_cluster_ok [OF assms(1), of p] table cluster_range [of i] assms(2,3) that
  by (metis Suc_le_eq cluster_Suc)

lemma in_range:
  assumes "i < nclust" "unat p = cluster i"
  shows "\<not> clusters sbi \<le> p - 2" "unat (p - 2) = cluster i - 2"
proof -
  show u: "unat (p - 2) = cluster i - 2"
    using cluster_range [OF assms(1)] assms(2) by (subst unat_sub_no_wrap) (simp_all add: word_le_nat_alt)
  show "\<not> clusters sbi \<le> p - 2"
    using cluster_range [OF assms(1)] unfolding word_le_nat_alt u by linarith
qed

lemma walk_chain_ok:
  assumes "cached dev" "unat l \<le> unat m" "unat m < nclust" "unat p = cluster (unat l)"
  shows "\<exists>dev' p'. walk_chain rdwr secsz fs sbi dev m l p = Some (dev', m, p', False) \<and> cached dev' \<and>
    unat p' = cluster (unat m)"
  using assms
proof (induction "unat m - unat l" arbitrary: dev l p)
  case 0
  then have "l = m" by (simp add: word_unat_eq_iff)
  then show ?case
    using 0 in_range [of "unat l" p] by (subst walk_chain.simps) simp
next
  case (Suc k)
  then have lt: "unat l < unat m" by simp
  obtain dev1 p1 where n: "get_next_cluster rdwr secsz fs sbi dev p = Some (dev1, p1)" "cached dev1"
      "unat p1 = cluster (Suc (unat l))"
    using next_cluster [OF Suc.prems(1) _ Suc.prems(4)] lt Suc.prems(3) by auto
  have l1: "unat (l + 1) = Suc (unat l)"
    using lt unat_u32_lt [of m] by (subst unat_add_no_wrap) (simp_all del: unat_u32_lt)
  have "walk_chain rdwr secsz fs sbi dev m l p = walk_chain rdwr secsz fs sbi dev1 m (l + 1) p1"
    using lt in_range(1) [of "unat l" p] Suc.prems n(1)
    by (subst walk_chain.simps) (simp add: word_le_nat_alt)
  then show ?case
    using Suc.hyps(1) [of "l + 1" dev1 p1] Suc.hyps(2) Suc.prems(3) n(2,3) l1 lt by simp
qed

lemma cluster_secs: "unat (push_bit (clust_shift sbi) 1 :: u32) = cs"
proof -
  have "clust_shift sbi < 32" using clust by simp
  then have "(2 :: nat) ^ clust_shift sbi < 2 ^ 32" by (rule power_strict_increasing) simp
  then show ?thesis unfolding unat_push_bit by (simp add: cs_def)
qed

lemma extend_extent_ok:
  assumes "cached dev" "unat l < nclust" "unat p = cluster (unat l)"
    "unat len = (unat l + 1 - m) * cs" "m \<le> unat l" "unat (tc :: u32) = nclust"
  shows "\<exists>dev' l' len' x'. extend_extent rdwr secsz fs sbi dev tc l p len x = Some (dev', l', len', x') \<and>
    cached dev' \<and> unat l < unat l' \<and> unat l' \<le> nclust \<and> unat len' = (unat l' - m) * cs \<and>
    (\<forall>j. unat l + j < unat l' \<longrightarrow> cluster (unat l + j) = cluster (unat l) + j) \<and>
    (unat l' < nclust \<longrightarrow> unat x' = cluster (unat l'))"
  using assms
proof (induction "nclust - unat l" arbitrary: dev l p len x rule: less_induct)
  case less
  have l1: "unat (l + 1) = unat l + 1"
    using less.prems(2) nclust_u32 by (subst unat_add_no_wrap) simp_all
  show ?case
  proof (cases "l + 1 < tc")
    case False
    then have n: "unat l + 1 = nclust" using less.prems(2,6) l1 by (simp add: word_less_nat_alt)
    have "cluster (unat l + j) = cluster (unat l) + j" if "unat l + j < nclust" for j
      using that n by (cases j) simp_all
    then show ?thesis
      using False less.prems l1 n by (subst extend_extent.simps) (auto simp: Let_def)
  next
    case True
    then have lt: "unat l + 1 < nclust" using l1 less.prems(6) by (simp add: word_less_nat_alt)
    obtain dev1 y where n: "get_next_cluster rdwr secsz fs sbi dev p = Some (dev1, y)" "cached dev1"
        "unat y = cluster (Suc (unat l))"
      using next_cluster [OF less.prems(1) _ less.prems(3)] less.prems(2) by auto
    have p1: "unat (p + 1) = unat p + 1"
    proof -
      have "unat p + 1 < 2 ^ LENGTH(32)"
        using cluster_range [OF less.prems(2)] clusters_bound less.prems(3) by simp
      then show ?thesis by (subst unat_add_no_wrap) simp_all
    qed
    show ?thesis
    proof (cases "y = p + 1")
      case False
      then show ?thesis
        using True n less.prems lt l1
        by (subst extend_extent.simps) (auto simp: Let_def less_Suc_eq)
    next
      case y: True
      have c1: "cluster (unat (l + 1)) = cluster (unat l) + 1" "unat (p + 1) = cluster (unat (l + 1))"
        using n(3) y p1 less.prems(3) l1 by simp_all
      have len1: "unat (len + push_bit (clust_shift sbi) 1) = (unat (l + 1) + 1 - m) * cs"
      proof -
        have s: "unat len + unat (push_bit (clust_shift sbi) 1 :: u32) = (unat (l + 1) + 1 - m) * cs"
          unfolding less.prems(4) cluster_secs using less.prems(5) l1 by (simp add: Suc_diff_le algebra_simps)
        have "(unat (l + 1) + 1 - m) * cs \<le> nclust * cs"
          using lt l1 by (intro mult_le_mono1) simp
        from le_less_trans [OF this nclust_bound] show ?thesis
          unfolding s [symmetric] by (intro unat_add_no_wrap) simp
      qed
      have step: "extend_extent rdwr secsz fs sbi dev tc l p len x =
          extend_extent rdwr secsz fs sbi dev1 tc (l + 1) (p + 1) (len + push_bit (clust_shift sbi) 1) y"
        using True n(1) y by (subst extend_extent.simps) (simp add: Let_def)
      have "nclust - unat (l + 1) < nclust - unat l" using l1 lt by simp
      from less.hyps [OF this n(2) _ c1(2) len1 _ less.prems(6), of y]
      obtain dev' l' len' x' where r:
          "extend_extent rdwr secsz fs sbi dev1 tc (l + 1) (p + 1) (len + push_bit (clust_shift sbi) 1) y =
            Some (dev', l', len', x')" "cached dev'" "unat (l + 1) < unat l'" "unat l' \<le> nclust"
          "unat len' = (unat l' - m) * cs"
          "\<forall>j. unat (l + 1) + j < unat l' \<longrightarrow> cluster (unat (l + 1) + j) = cluster (unat (l + 1)) + j"
          "unat l' < nclust \<longrightarrow> unat x' = cluster (unat l')"
        using lt l1 less.prems(5) by auto
      have "cluster (unat l + j) = cluster (unat l) + j" if "unat l + j < unat l'" for j
      proof (cases j)
        case (Suc i)
        then show ?thesis using r(6) [rule_format, of i] that l1 c1(1) by simp
      qed simp
      then show ?thesis using step r l1 by auto
    qed
  qed
qed

lemma psec_cluster:
  assumes "i < nclust" "r < cs"
  shows "psec (i * cs + r) = data sbi + of_nat ((cluster i - 2) * cs + r)"
    "unat (psec (i * cs + r)) = unat (data sbi) + (cluster i - 2) * cs + r"
    "unat (psec (i * cs + r)) < nsec"
proof -
  have "(i * cs + r) div cs = i" "(i * cs + r) mod cs = r" using assms(2) by simp_all
  then show e: "psec (i * cs + r) = data sbi + of_nat ((cluster i - 2) * cs + r)" by (simp add: psec_def)
  have "(cluster i - 2) * cs + r < (cluster i - 2 + 1) * cs" using assms(2) by simp
  also have "\<dots> \<le> unat (clusters sbi) * cs"
    using cluster_range [OF assms(1)] by (intro mult_le_mono1) linarith
  finally have b: "unat (data sbi) + ((cluster i - 2) * cs + r) < nsec" using area(1) by (simp add: cs_def)
  then show u: "unat (psec (i * cs + r)) = unat (data sbi) + (cluster i - 2) * cs + r"
    unfolding e using nsec_small by (subst unat_add_of_nat) simp_all
  show "unat (psec (i * cs + r)) < nsec" using u b by simp
qed

text \<open>The physical start that \<open>fat_next_extent\<close> computes for a cluster.\<close>

lemma cluster_start:
  assumes "i < nclust" "unat (p :: u32) = cluster i"
  shows "push_bit (clust_shift sbi) (ucast (p - 2)) + data sbi = psec (i * cs)"
    "unat (ucast (push_bit (clust_shift sbi) (p - 2)) + data sbi :: u64) = unat (data sbi) + (cluster i - 2) * cs"
proof -
  have u: "unat (p - 2) = cluster i - 2" by (rule in_range(2) [OF assms])
  have k: "(cluster i - 2) * cs < 2 ^ 32"
  proof -
    have "(cluster i - 2) * cs < (unat (clusters sbi) + 2) * cs"
      using cluster_range [OF assms(1)] by (intro mult_strict_right_mono) (linarith, simp)
    also have "\<dots> < 2 ^ 32" using area(2) by (simp add: cs_def)
    finally show ?thesis .
  qed
  have a: "unat (push_bit (clust_shift sbi) (ucast (p - 2)) :: u64) = (cluster i - 2) * cs"
    unfolding unat_push_bit using k u by (simp add: unat_ucast_up cs_def)
  have b: "unat (ucast (push_bit (clust_shift sbi) (p - 2)) :: u64) = (cluster i - 2) * cs"
    using k u by (simp add: unat_ucast_up unat_push_bit cs_def)
  note ps = psec_cluster [OF assms(1) cs_pos, simplified]
  have s: "(cluster i - 2) * cs + unat (data sbi) < 2 ^ LENGTH(64)" using ps nsec_small by simp
  show "push_bit (clust_shift sbi) (ucast (p - 2)) + data sbi = psec (i * cs)"
    using s unfolding word_unat_eq_iff ps(2) by (subst unat_add_no_wrap) (simp_all add: a)
  show "unat (ucast (push_bit (clust_shift sbi) (p - 2)) + data sbi :: u64) = unat (data sbi) + (cluster i - 2) * cs"
    using s by (subst unat_add_no_wrap) (simp_all add: b)
qed

text \<open>\<open>fat_next_extent\<close> meets the contract of the sector reader, at cluster boundaries.\<close>

lemma drop_bit_cs: "unat (drop_bit (clust_shift sbi) (w :: 'b::len word)) = unat w div cs"
  by (simp add: unat_drop_bit cs_def)

lemma tcluster: "unat (drop_bit (clust_byte_shift sbi) (fsize + push_bit (clust_byte_shift sbi) 1 - 1)) = nclust"
proof -
  have "(2 :: nat) ^ clust_byte_shift sbi < 2 ^ 32" using clust(2) by (rule power_strict_increasing) simp
  then have b: "unat (push_bit (clust_byte_shift sbi) 1 :: u32) = 2 ^ clust_byte_shift sbi"
    unfolding unat_push_bit by simp
  show ?thesis
    unfolding unat_drop_bit nclust_def using file_size by (subst unat_round_up) (simp_all only: b, simp_all)
qed

lemma start_position:
  assumes P: "pinv sz fl p" and m: "unat (m :: u32) < nclust"
  defines "lc \<equiv> ucast (drop_bit (clust_shift sbi) (poffset p)) :: u32"
    and "pc \<equiv> ucast (drop_bit (clust_shift sbi) (here p - data sbi) + 2) :: u32"
  obtains l c where "(if lc > m \<or> here p < data sbi then (0, start_cluster p) else (lc, pc)) = (l, c)"
    "unat l \<le> unat m" "unat c = cluster (unat l)"
proof (cases "lc > m \<or> here p < data sbi")
  case True
  then show ?thesis using P that [of 0 first] by (auto simp: pinv_def cluster_def)
next
  case False
  then have f: "unat lc \<le> unat m" "unat (data sbi) \<le> unat (here p)"
    by (simp_all add: word_less_nat_alt not_less)
  have "unat (poffset p) < 2 ^ 32" using P by (simp add: pinv_def)
  from le_less_trans [OF div_le_dividend this] have "unat (poffset p) div cs < 2 ^ 32" .
  then have lc: "unat lc = unat (poffset p) div cs"
    by (simp add: lc_def unat_ucast_mod drop_bit_cs)
  have h: "(unat (here p) - unat (data sbi)) div cs + 2 = cluster (unat lc)"
    using P f m by (simp add: pinv_def lc word_le_nat_alt)
  have c: "cluster (unat lc) < 2 ^ 32"
    using cluster_range [of "unat lc"] f(1) m clusters_bound by linarith
  have "unat (drop_bit (clust_shift sbi) (here p - data sbi)) = (unat (here p) - unat (data sbi)) div cs"
    using f(2) by (simp add: drop_bit_cs unat_sub_no_wrap word_le_nat_alt)
  then have "unat (drop_bit (clust_shift sbi) (here p - data sbi) + 2) = cluster (unat lc)"
    using h c by (subst unat_add_no_wrap) simp_all
  then have "unat pc = cluster (unat lc)" using c by (simp add: pc_def unat_ucast_mod)
  then show ?thesis using that False f(1) by simp
qed

lemma run_of_clusters:
  assumes "i < nclust" "i < k" "k \<le> nclust" and x: "unat len = (k - i) * cs" and l: "unat lst = i * cs"
    and c: "\<forall>j. i + j < k \<longrightarrow> cluster (i + j) = cluster i + j"
  shows "run_of_sectors psec (nclust * cs) ((dvd) cs) \<lparr>pstart = psec (i * cs), lstart = lst, xlen = len\<rparr>"
proof -
  have e: "unat lst + unat len = k * cs" using assms(2) unfolding x l by (simp add: diff_mult_distrib)
  have "\<not> extent_special (psec (i * cs))"
    using psec_cluster(3) [OF assms(1) cs_pos] nsec_small
    by (simp add: extent_special_def EXTENT_VOID_def word_le_nat_alt)
  moreover have "psec (i * cs + n) = psec (i * cs) + of_nat n" if n: "n < unat len" for n
  proof -
    define j r where "j = n div cs" and "r = n mod cs"
    have r: "r < cs" "n = j * cs + r" by (simp_all add: r_def j_def)
    have "j < k - i" using n unfolding x j_def by (simp add: less_mult_imp_div_less)
    then have j: "i + j < k" "i + j < nclust" using assms(3) by simp_all
    have "cluster (i + j) - 2 = cluster i - 2 + j"
      using c j(1) cluster_range [OF assms(1)] by simp
    then have "(cluster (i + j) - 2) * cs + r = (cluster i - 2) * cs + n"
      by (simp add: r(2) add_mult_distrib)
    then show ?thesis
      using psec_cluster(1) [OF j(2) r(1)] psec_cluster(1) [OF assms(1) cs_pos] r(2)
      by (simp add: add_mult_distrib add.assoc)
  qed
  moreover have "n < 2 ^ 32" if "n < unat len" for n
    using less_trans [OF that unat_u32_lt] by simp
  moreover have "k * cs \<le> nclust * cs" using assms(3) by (rule mult_le_mono1)
  ultimately show ?thesis
    using e l by (simp add: run_of_sectors_def next_psector_def ucast_of_nat_up)
qed

lemma position_behind:
  assumes "unat l \<le> nclust" "unat l < nclust \<longrightarrow> unat x = cluster (unat l)" "start_cluster p = first"
  shows "pinv fsize fl (p\<lparr>poffset := ucast (push_bit (clust_shift sbi) (l :: u32)),
     here := ucast (push_bit (clust_shift sbi) ((x :: u32) - 2)) + data sbi\<rparr>)"
proof -
  have "unat l * cs \<le> nclust * cs" using assms(1) by (rule mult_le_mono1)
  from le_less_trans [OF this nclust_bound] have k: "unat l * cs < 2 ^ 32" .
  then have "unat (push_bit (clust_shift sbi) l) = unat l * cs"
    unfolding unat_push_bit by (simp add: cs_def)
  moreover have "Suc (Suc (cluster (unat l) - 2)) = cluster (unat l)" if "unat l < nclust"
    using cluster_range [OF that] by linarith
  ultimately show ?thesis
    using k assms(2,3) by (simp add: pinv_def unat_ucast_up cluster_start(2))
qed

lemma fat_next_extent_maps:
  assumes S: "cached dev" "pinv (isize ino) (iflags ino) (pvt ino)" and l: "unat lst < nclust * cs" "cs dvd unat lst"
  shows "\<exists>dev' e p. fat_next_extent rdwr secsz fs sbi dev ino lst =
      Some (dev', ino\<lparr>next_extent := e, pvt := p\<rparr>, False) \<and> cached dev' \<and> pinv (isize ino) (iflags ino) p \<and>
      xlen e \<noteq> 0 \<and> run_of_sectors psec (nclust * cs) ((dvd) cs) (e\<lparr>lstart := lst\<rparr>)"
proof -
  define m where "m = drop_bit (clust_shift sbi) lst"
  define tc where "tc = drop_bit (clust_byte_shift sbi) (isize ino + push_bit (clust_byte_shift sbi) 1 - 1)"
  have sz: "isize ino = fsize" "start_cluster (pvt ino) = first" using S(2) by (simp_all add: pinv_def)
  have tc: "unat tc = nclust" unfolding tc_def sz by (rule tcluster)
  have m: "unat m = unat lst div cs" by (simp add: m_def drop_bit_cs)
  then have ml: "unat m < nclust" "unat lst = unat m * cs" using l by (simp_all add: less_mult_imp_div_less)
  obtain l0 c0 :: u32 where p: "(if ucast (drop_bit (clust_shift sbi) (poffset (pvt ino))) > m \<or> here (pvt ino) < data sbi
        then (0, start_cluster (pvt ino))
        else (ucast (drop_bit (clust_shift sbi) (poffset (pvt ino))),
              ucast (drop_bit (clust_shift sbi) (here (pvt ino) - data sbi) + 2))) = (l0, c0)"
      "unat l0 \<le> unat m" "unat c0 = cluster (unat l0)"
    by (rule start_position [OF S(2) ml(1)])
  obtain dev1 c1 where w: "walk_chain rdwr secsz fs sbi dev m l0 c0 = Some (dev1, m, c1, False)" "cached dev1"
      "unat c1 = cluster (unat m)"
    using walk_chain_ok [OF S(1) p(2) ml(1) p(3)] by blast
  have one: "unat (push_bit (clust_shift sbi) 1 :: u32) = (unat m + 1 - unat m) * cs"
    unfolding cluster_secs by simp
  obtain dev2 l2 len x where x: "extend_extent rdwr secsz fs sbi dev1 tc m c1 (push_bit (clust_shift sbi) 1) 0 =
        Some (dev2, l2, len, x)" "cached dev2" "unat m < unat l2" "unat l2 \<le> nclust"
      "unat len = (unat l2 - unat m) * cs"
      "\<forall>j. unat m + j < unat l2 \<longrightarrow> cluster (unat m + j) = cluster (unat m) + j"
      "unat l2 < nclust \<longrightarrow> unat x = cluster (unat l2)"
    using extend_extent_ok [OF w(2) ml(1) w(3) one order_refl tc, of 0]
    by (elim exE conjE) (rule that)
  let ?e = "(next_extent ino)\<lparr>pstart := psec (unat m * cs), xlen := len\<rparr>"
  let ?p = "(pvt ino)\<lparr>poffset := ucast (push_bit (clust_shift sbi) l2),
      here := ucast (push_bit (clust_shift sbi) (x - 2)) + data sbi\<rparr>"
  have "m < tc" using ml(1) tc by (simp add: word_less_nat_alt)
  then have "fat_next_extent rdwr secsz fs sbi dev ino lst =
      Some (dev2, ino\<lparr>next_extent := ?e, pvt := ?p\<rparr>, False)"
    unfolding fat_next_extent_def Let_def m_def [symmetric] tc_def [symmetric] p(1)
    by (simp add: not_le w(1) x(1) cluster_start(1) [OF ml(1) w(3)] del: push_bit_of_1)
  moreover have "pinv (isize ino) (iflags ino) ?p" unfolding sz by (rule position_behind [OF x(4,7) sz(2)])
  moreover have "xlen ?e \<noteq> 0" using x(3,5) by (auto simp: word_unat_eq_iff)
  moreover have "?e\<lparr>lstart := lst\<rparr> = \<lparr>pstart = psec (unat m * cs), lstart = lst, xlen = len\<rparr>"
    by (cases "next_extent ino") simp
  then have "run_of_sectors psec (nclust * cs) ((dvd) cs) (?e\<lparr>lstart := lst\<rparr>)"
    using run_of_clusters [OF ml(1) x(3,4,5) ml(2) x(6)] by (simp only:)
  ultimately show ?thesis using x(2) by blast
qed

end

text \<open>So a well-formed FAT file is a file for \<open>generic_getfssec\<close>.\<close>

sublocale fat_file \<subseteq> extents: extent_map "dev_rdwr rdwr" secsz nsec cached sector
  "fat_next_extent rdwr secsz fs sbi" pinv psec "nclust * cs" "(dvd) cs"
proof unfold_locales
  show "nsec < 2 ^ 64 - 2" by (rule nsec_small)
  show "nclust * cs < 2 ^ 32" by (rule nclust_bound)
  fix i :: nat
  assume "i < nclust * cs"
  then have "unat (psec (i div cs * cs + i mod cs)) < nsec"
    by (intro psec_cluster(3)) (simp_all add: less_mult_imp_div_less)
  then show "psec i = EXTENT_ZERO \<or> unat (psec i) < nsec" by simp
qed (rule fat_next_extent_maps)

section \<open>Properties\<close>

text \<open>The bytes of a file: its clusters along the chain, cut at the size.\<close>

definition chain_cluster :: "(u64 \<Rightarrow> bytes) \<Rightarrow> u32 \<Rightarrow> fat_sb_info \<Rightarrow> nat \<Rightarrow> nat \<Rightarrow> bytes" where
  "chain_cluster sector secsz sbi first i =
     (let c = (fat_entry sector secsz sbi ^^ i) first in
      concat (map (\<lambda>j. sector (data sbi + of_nat ((c - 2) * 2 ^ clust_shift sbi + j))) [0..<2 ^ clust_shift sbi]))"

definition fat_file_content :: "(u64 \<Rightarrow> bytes) \<Rightarrow> u32 \<Rightarrow> fat_sb_info \<Rightarrow> nat \<Rightarrow> nat \<Rightarrow> bytes" where
  "fat_file_content sector secsz sbi first n =
     take n (concat (map (chain_cluster sector secsz sbi first)
       [0..<(n + 2 ^ clust_byte_shift sbi - 1) div 2 ^ clust_byte_shift sbi]))"

context fat_file begin

lemma cluster_sectors:
  assumes "i < nclust"
  shows "file_sectors sector secsz psec (i * cs) cs = chain_cluster sector secsz sbi (unat first) i"
proof -
  have "file_sector sector secsz psec (i * cs + r) = sector (data sbi + of_nat ((cluster i - 2) * cs + r))"
    if "r < cs" for r
  proof -
    have "psec (i * cs + r) \<noteq> EXTENT_ZERO"
      using psec_cluster(3) [OF assms that] nsec_small by (auto simp: EXTENT_ZERO_def unat_minus_one)
    then show ?thesis using psec_cluster(1) [OF assms that] by (simp add: file_sector_def)
  qed
  moreover have "[i * cs..<i * cs + cs] = map (\<lambda>r. i * cs + r) [0..<cs]"
    by (simp add: map_add_upt add.commute)
  ultimately show ?thesis
    by (auto simp: file_sectors_def chain_cluster_def Let_def comp_def cs_def cluster_def
        intro!: arg_cong [of _ _ concat] map_cong)
qed

lemma chain_sectors:
  "k \<le> nclust \<Longrightarrow> file_sectors sector secsz psec 0 (k * cs) =
   concat (map (chain_cluster sector secsz sbi (unat first)) [0..<k])"
proof (induction k)
  case (Suc k)
  then show ?case
    using cluster_sectors [of k] extents.file_sectors_split [of 0 "k * cs" cs]
    by (simp add: add.commute)
qed (simp add: file_sectors_def)

lemma content:
  "file_bytes psec (nclust * cs) ino sector secsz =
     take (unat (isize ino)) (concat (map (chain_cluster sector secsz sbi (unat first)) [0..<nclust]))"
  using chain_sectors [of nclust] by (simp add: file_bytes_def)

lemma sectors_fit: "sectors_for fs (unat fsize) \<le> nclust * cs"
proof -
  have "unat fsize \<le> nclust * 2 ^ clust_byte_shift sbi"
    unfolding nclust_def by (rule ceil_div_cover) simp
  then have "unat fsize \<le> nclust * cs * 2 ^ sector_shift fs" by (simp add: cs_def clust(1) power_add)
  then have "sectors_for fs (unat fsize) \<le> sectors_for fs (nclust * cs * 2 ^ sector_shift fs + 0)"
    unfolding sectors_for_def by (intro div_le_mono) simp
  also have "\<dots> = nclust * cs" unfolding sectors_for_add by (simp add: sectors_for_def)
  finally show ?thesis .
qed

lemma whole_file:
  assumes dev: "cached dev"
    and ino: "isize ino = fsize" "start_cluster (pvt ino) = first" "poffset (pvt ino) = 0"
      "here (pvt ino) = push_bit (clust_shift sbi) (ucast first - 2) + data sbi"
      "xlen (this_extent ino) = 0" "xlen (next_extent ino) = 0"
    and sz: "0 < unat fsize" "unat fsize + unat secsz \<le> 2 ^ 32"
    and buf: "sectors_for fs (unat fsize) \<le> unat sectors" "sectors_for fs (unat fsize) * unat secsz \<le> length buf"
  obtains dev' ino' buf' where "generic_getfssec (fat_next_extent rdwr secsz fs sbi) (dev_rdwr rdwr) fs dev ino 0 buf sectors =
      Some (dev', ino', fsize, buf', fsize, Some False)"
    "take (unat fsize) buf' = fat_file_content sector secsz sbi (unat first) (unat fsize)" "cached dev'"
proof -
  have n0: "0 < nclust"
    using sz(1) unfolding nclust_def by (simp add: div_greater_zero_iff)
  have f0: "unat first = cluster 0" by (simp add: cluster_def)
  have "2 \<le> unat first" using cluster_range [OF n0] f0 by simp
  then have "(ucast first - 2 :: u64) = ucast (first - 2)"
    by (simp add: word_unat_eq_iff unat_ucast_up unat_sub_no_wrap word_le_nat_alt)
  then have "unat (here (pvt ino)) = unat (data sbi) + (cluster 0 - 2) * cs"
    unfolding ino(4) using cluster_start(1) [OF n0 f0] psec_cluster(2) [OF n0 cs_pos] by simp
  then have "pinv (isize ino) (iflags ino) (pvt ino)"
    using cluster_range [OF n0] ino(1-3) by (simp add: pinv_def) linarith
  then have A: "extents_agree psec (nclust * cs) ((dvd) cs) pinv ino"
    using ino(5,6) by (simp add: extents_agree_def)
  have B: "min (unat sectors) (sectors_for fs (unat (isize ino) - unat (0 :: u32))) * unat secsz \<le> length buf"
    using buf by (simp add: ino(1))
  have M: "sectors_for fs (unat (isize ino)) \<le> nclust * cs" "unat (isize ino) + unat secsz \<le> 2 ^ 32"
    using sectors_fit sz(2) by (simp_all add: ino(1))
  obtain s' ino' buf' r more where g:
      "generic_getfssec (fat_next_extent rdwr secsz fs sbi) (dev_rdwr rdwr) fs dev ino 0 buf sectors =
        Some (s', ino', 0 + r, buf', r, more)"
      "unat r = min (unat sectors * unat secsz) (unat (isize ino) - unat (0 :: u32))"
      "take (unat r) buf' = take (unat r) (drop (unat (0 :: u32)) (file_bytes psec (nclust * cs) ino sector secsz))"
      "more = (if r = 0 then None else Some (0 + r < isize ino))" "cached s'"
    using getfssec_slice [OF extents.extent_map_axioms dev A geometry(1,2) _ _ _ M B]
    by (auto simp: positioned_def)
  have "unat fsize \<le> unat sectors * unat secsz"
    using order_trans [OF sectors_for_cover [of "unat fsize" fs] mult_le_mono1 [OF buf(1)]] geometry(2) by simp
  then have "unat r = unat fsize" using g(2) by (simp add: ino(1))
  then have r: "r = fsize" by (simp add: word_unat_eq_iff)
  then have "more = Some False" using g(4) sz(1) ino(1) by (auto simp: unat_gt_0)
  then show ?thesis
    using that g(1,3,5) content [of ino] r
    by (simp add: ino(1) fat_file_content_def nclust_def)
qed

end

text \<open>
  C25.  \<open>get_next_cluster\<close> decodes the file allocation table: for FAT12, FAT16 and FAT32, and for
  every sector size, the value it gets through the block cache is the entry that the FAT layout
  defines on the bytes of the table, also where a FAT12 entry straddles two sectors.
\<close>

theorem get_next_cluster_decodes:
  assumes "fat_volume rdwr secsz nsec dinv sector fs" "sectors_cached secsz nsec dinv sector dev"
    and "fat_last_byte sbi (unat c) < 2 ^ 32"
    and "unat (fat sbi) + fat_last_byte sbi (unat c) div unat secsz < nsec"
  shows "\<exists>dev' v. get_next_cluster rdwr secsz fs sbi dev c = Some (dev', v) \<and>
    unat v = fat_entry sector secsz sbi (unat c) \<and> sectors_cached secsz nsec dinv sector dev'"
proof -
  have "fat_volume.entry_in_volume secsz nsec sbi (unat c)"
    using assms(3,4) by (simp add: fat_volume.entry_in_volume_def [OF assms(1)])
  from fat_volume.get_next_cluster_ok [OF assms(1,2) this] show ?thesis by metis
qed

text \<open>
  A small FAT16 volume: the table is in sector 1, and a file of 1300 bytes occupies the clusters
  2, 3 and 6.
\<close>

definition small_sector :: "u64 \<Rightarrow> bytes" where
  "small_sector sn = (if sn = 1 then [248, 255, 255, 255, 3, 0, 6, 0, 0, 0, 0, 0, 255, 255] @ replicate 498 0
                      else replicate 512 (ucast sn))"

definition small_fat :: fat_sb_info where
  "small_fat = \<lparr>fat = 1, root = 2, data = 3, clusters = 8, root_cluster = 0, root_size = 1, clust_shift = 0,
     clust_byte_shift = 9, clust_mask = 0, clust_size = 512, fat_kind = FAT16\<rparr>"

definition small_dev :: "unit device" where
  "small_dev = cache_init demo_device 9"

lemma small_sector_length: "length (small_sector sn) = 512"
  by (simp add: small_sector_def)

interpretation small: fat_volume "ram_rdwr small_sector" 512 100 "\<lambda>_. True" small_sector demo_fs small_fat
  by (intro fat_volume.intro fat_volume_axioms.intro ram_sector_cache)
    (simp_all add: small_sector_length demo_fs_def)

lemma small_dev_cached: "sectors_cached 512 100 (\<lambda>_. True) small_sector small_dev"
  unfolding small_dev_def by (rule ram_cached) (simp_all add: small_sector_length)

theorem get_next_cluster_decodes_witness:
  "\<exists>dev' v. get_next_cluster (ram_rdwr small_sector) 512 demo_fs small_fat small_dev 3 = Some (dev', v) \<and>
    unat v = fat_entry small_sector 512 small_fat (unat (3 :: u32))"
  using get_next_cluster_decodes [OF small.fat_volume_axioms small_dev_cached, of small_fat 3]
  by (auto simp: fat_last_byte_def small_fat_def)

text \<open>
  C6.  Reading a FAT file gives the file.  For a well-formed file (its chain has a cluster in
  range for every cluster of its size, and table and clusters lie inside the partition) and the
  inode that a lookup leaves for it, one \<open>getfssec\<close> call for enough sectors, through
  \<open>fat_next_extent\<close>, the cached table and direct sector reads, returns exactly the contents of
  the clusters along the chain, cut at the file size, and reports that nothing is left.
\<close>

theorem fat_file_reads:
  fixes dev :: "'d device"
  assumes F: "fat_file rdwr secsz nsec dinv sector fs sbi first fsize"
    and dev: "sectors_cached secsz nsec dinv sector dev"
    and ino: "isize ino = fsize" "start_cluster (pvt ino) = first" "poffset (pvt ino) = 0"
      "here (pvt ino) = push_bit (clust_shift sbi) (ucast first - 2) + data sbi"
      "xlen (this_extent ino) = 0" "xlen (next_extent ino) = 0"
    and sz: "0 < unat fsize" "unat fsize + unat secsz \<le> 2 ^ 32"
    and buf: "sectors_for fs (unat fsize) \<le> unat sectors" "sectors_for fs (unat fsize) * unat secsz \<le> length buf"
  shows "\<exists>dev' ino' buf'. generic_getfssec (fat_next_extent rdwr secsz fs sbi) (dev_rdwr rdwr) fs dev ino 0 buf sectors =
      Some (dev', ino', fsize, buf', fsize, Some False) \<and>
    take (unat fsize) buf' = fat_file_content sector secsz sbi (unat first) (unat fsize) \<and>
    sectors_cached secsz nsec dinv sector dev'"
  using fat_file.whole_file [OF F dev ino sz buf] by blast

text \<open>The file of the small volume, read into a buffer of three sectors.\<close>

definition small_inode :: "fat_pvt_inode inode" where
  "small_inode = (zero_inode \<lparr>start_cluster = 2, start = 3, poffset = 0, here = 3\<rparr>)\<lparr>isize := 1300\<rparr>"

lemma small_fat_entry:
  "fat_entry small_sector 512 small_fat 2 = 3" "fat_entry small_sector 512 small_fat 3 = 6"
  by (simp_all add: fat_entry_def small_fat_def fat_byte_def small_sector_def)

interpretation small_file: fat_file "ram_rdwr small_sector" 512 100 "\<lambda>_. True" small_sector demo_fs small_fat 2 1300
proof (intro fat_file.intro fat_file_axioms.intro)
  show "fat_volume (ram_rdwr small_sector) 512 100 (\<lambda>_. True) small_sector demo_fs"
    by (rule small.fat_volume_axioms)
  show "small.entry_in_volume c" if "c < unat (clusters small_fat) + 2" for c
    using that unfolding small.entry_in_volume_def by (simp add: fat_last_byte_def small_fat_def)
  show "2 \<le> (fat_entry small_sector 512 small_fat ^^ i) (unat (2 :: u32)) \<and>
      (fat_entry small_sector 512 small_fat ^^ i) (unat (2 :: u32)) < unat (clusters small_fat) + 2"
    if "i < (unat (1300 :: u32) + 2 ^ clust_byte_shift small_fat - 1) div 2 ^ clust_byte_shift small_fat" for i
  proof -
    have "i < 3" using that by (simp add: small_fat_def)
    then consider "i = 0" | "i = Suc 0" | "i = Suc (Suc 0)" by linarith
    moreover have "unat (clusters small_fat) = 8" by (simp add: small_fat_def)
    ultimately show ?thesis by cases (simp_all add: small_fat_entry)
  qed
qed (simp_all add: small_fat_def demo_fs_def)

theorem fat_file_reads_witness:
  "\<exists>dev' ino' buf'. generic_getfssec (fat_next_extent (ram_rdwr small_sector) 512 demo_fs small_fat)
      (dev_rdwr (ram_rdwr small_sector)) demo_fs small_dev small_inode 0 (replicate 1536 0) 3 =
      Some (dev', ino', 1300, buf', 1300, Some False) \<and>
    take (unat (1300 :: u32)) buf' = fat_file_content small_sector 512 small_fat (unat (2 :: u32)) (unat (1300 :: u32))"
proof -
  have i: "isize small_inode = 1300" "start_cluster (pvt small_inode) = 2" "poffset (pvt small_inode) = 0"
      "here (pvt small_inode) = push_bit (clust_shift small_fat) (ucast (2 :: u32) - 2) + data small_fat"
      "xlen (this_extent small_inode) = 0" "xlen (next_extent small_inode) = 0"
    by (simp_all add: small_inode_def zero_inode_def zero_extent_def small_fat_def)
  have z: "0 < unat (1300 :: u32)" "unat (1300 :: u32) + unat (512 :: u32) \<le> 2 ^ 32"
      "sectors_for demo_fs (unat (1300 :: u32)) \<le> unat (3 :: u32)"
      "sectors_for demo_fs (unat (1300 :: u32)) * unat (512 :: u32) \<le> length (replicate 1536 (0 :: u8))"
    by (simp_all add: sectors_for_def demo_fs_def)
  show ?thesis
    using fat_file_reads [OF small_file.fat_file_axioms small_dev_cached i z] by blast
qed

end
