(* ===== verification/Fatdir.thy ===== *)
theory Fatdir
  imports Fat Cstring
begin

text \<open>
  The FAT file system of \<open>libcore/fs/fat/fat.c\<close>, second part: names and directories.  Short (8.3)
  names and VFAT long names, the search for a name in a directory (\<open>vfat_find_entry\<close>), the
  directory reader (\<open>vfat_readdir\<close>) and the mount (\<open>vfat_fs_init\<close>).  The codepage tables are a
  generated file, a parameter here.  Local arrays are lists of their declared length, and a
  store outside them gives \<open>None\<close>; where the code leaves an array uninitialised its first content is
  a parameter.
\<close>

section \<open>Data\<close>

record codepage =
  upper :: "u8 \<Rightarrow> u8"
  lower :: "u8 \<Rightarrow> u8"
  uni0 :: "u8 \<Rightarrow> u16"
  uni1 :: "u8 \<Rightarrow> u16"

record fat_dir_entry =
  de_name :: bytes
  de_attr :: u8
  de_lcase :: u8
  first_cluster_high :: u16
  first_cluster_low :: u16
  file_size :: u32

record fat_long_name_entry =
  le_id :: u8
  name1 :: "u16 list"
  le_attr :: u8
  le_checksum :: u8
  name2 :: "u16 list"
  name3 :: "u16 list"

text \<open>The two views of the 32 bytes of a directory entry at offset \<open>off\<close> of a sector.\<close>

definition dir_entry :: "bytes \<Rightarrow> nat \<Rightarrow> fat_dir_entry option" where
  "dir_entry bs off =
     do { nm \<leftarrow> rd_range bs off 11; a \<leftarrow> rd bs (off + 11); lc \<leftarrow> rd bs (off + 12);
          hi \<leftarrow> rd16 bs (off + 20); lo \<leftarrow> rd16 bs (off + 26); sz \<leftarrow> rd32 bs (off + 28);
          Some \<lparr>de_name = nm, de_attr = a, de_lcase = lc, first_cluster_high = hi,
                first_cluster_low = lo, file_size = sz\<rparr> }"

fun rd16s :: "bytes \<Rightarrow> nat \<Rightarrow> nat \<Rightarrow> u16 list option" where
  "rd16s bs off 0 = Some []"
| "rd16s bs off (Suc n) = do { x \<leftarrow> rd16 bs off; xs \<leftarrow> rd16s bs (off + 2) n; Some (x # xs) }"

definition long_name_entry :: "bytes \<Rightarrow> nat \<Rightarrow> fat_long_name_entry option" where
  "long_name_entry bs off =
     do { i \<leftarrow> rd bs off; n1 \<leftarrow> rd16s bs (off + 1) 5; a \<leftarrow> rd bs (off + 11); ck \<leftarrow> rd bs (off + 13);
          n2 \<leftarrow> rd16s bs (off + 14) 6; n3 \<leftarrow> rd16s bs (off + 28) 2;
          Some \<lparr>le_id = i, name1 = n1, le_attr = a, le_checksum = ck, name2 = n2, name3 = n3\<rparr> }"

datatype dirent_type = DT_UNKNOWN | DT_FIFO | DT_CHR | DT_DIR | DT_BLK | DT_REG | DT_LNK | DT_SOCK | DT_WHT

fun dt_code :: "dirent_type \<Rightarrow> u16" where
  "dt_code DT_UNKNOWN = 0" | "dt_code DT_FIFO = 1" | "dt_code DT_CHR = 2" | "dt_code DT_DIR = 4"
| "dt_code DT_BLK = 6" | "dt_code DT_REG = 8" | "dt_code DT_LNK = 10" | "dt_code DT_SOCK = 12"
| "dt_code DT_WHT = 14"

section \<open>Names\<close>

text \<open>
  \<open>vfat_mangle_name\<close>.  The first loop copies up to the first white space, and drops a slash or
  backslash that is followed by another; \<open>i\<close> is the room left.  Note that the stored character is
  \<open>*src\<close>, not the converted \<open>c\<close>.
\<close>

fun vmangle_copy :: "bytes \<Rightarrow> bytes \<Rightarrow> nat \<Rightarrow> int \<Rightarrow> (bytes \<times> nat \<times> int) option" where
  "vmangle_copy [] buf d i = None"
| "vmangle_copy (ch # src) buf d i =
     (if \<not> not_whitespace ch then Some (buf, d, i)
      else let c = (if ch = 92 then 47 else ch) in
           if c = 47 \<and> src \<noteq> [] \<and> (hd src = 47 \<or> hd src = 92) then vmangle_copy src buf d (i - 1)
           else if c = 47 \<and> src = [] then None
           else do { buf \<leftarrow> wr buf d ch; vmangle_copy src buf (d + 1) (i - 1) })"

text \<open>The second loop removes trailing slashes, but not a slash that is the whole name.\<close>

fun vmangle_trim :: "bytes \<Rightarrow> nat \<Rightarrow> int \<Rightarrow> nat \<times> int" where
  "vmangle_trim buf 0 i = (0, i)"
| "vmangle_trim buf (Suc d) i =
     (if buf ! d \<noteq> 47 then (Suc d, i) else if d = 0 then (Suc d, i) else vmangle_trim buf d (i + 1))"

text \<open>The third one pads with NULs while \<open>i\<close> is positive.\<close>

fun vmangle_pad :: "bytes \<Rightarrow> nat \<Rightarrow> nat \<Rightarrow> bytes option" where
  "vmangle_pad buf d 0 = Some buf"
| "vmangle_pad buf d (Suc n) = do { buf \<leftarrow> wr buf d 0; vmangle_pad buf (d + 1) n }"

definition vfat_mangle_name :: "bytes \<Rightarrow> bytes \<Rightarrow> bytes option" where
  "vfat_mangle_name dst src =
     do { (buf, d, i) \<leftarrow> vmangle_copy src dst 0 (int FILENAME_MAX - 1);
          let (d, i) = vmangle_trim buf d i;
          vmangle_pad buf d (nat (i + 1)) }"

text \<open>The loop of \<open>mangle_dos_name\<close>, over the source, with position \<open>i\<close> in the 12-byte buffer.\<close>

fun pad_blanks :: "bytes \<Rightarrow> nat \<Rightarrow> nat \<Rightarrow> bytes option" where
  "pad_blanks buf i 0 = Some buf"
| "pad_blanks buf i (Suc n) = do { buf \<leftarrow> wr buf i 32; pad_blanks buf (i + 1) n }"

fun mangle_loop :: "codepage \<Rightarrow> bytes \<Rightarrow> bytes \<Rightarrow> nat \<Rightarrow> (bytes \<times> nat) option" where
  "mangle_loop cp [] buf i = (if i < 11 then None else Some (buf, i))"
| "mangle_loop cp (c # src) buf i =
     (if i < 11
      then if c \<le> 32 \<or> c = 47 then Some (buf, i)
           else if c = 46 then do { buf \<leftarrow> pad_blanks buf i (8 - i); mangle_loop cp src buf 8 }
           else let u = upper cp c; u = (if i = 0 \<and> u = 0xe5 then 0x05 else u)
                in do { buf \<leftarrow> wr buf i u; mangle_loop cp src buf (i + 1) }
      else Some (buf, i))"

definition mangle_dos_name :: "codepage \<Rightarrow> bytes \<Rightarrow> bytes \<Rightarrow> bytes option" where
  "mangle_dos_name cp mangle_buf src =
     do { c0 \<leftarrow> rd src 0;
          dots \<leftarrow> (if c0 = 46
                   then do { c1 \<leftarrow> rd src 1;
                             if c1 = 0 then Some True
                             else if c1 = 46 then do { c2 \<leftarrow> rd src 2; Some (c2 = 0) } else Some False }
                   else Some False);
          (buf, i) \<leftarrow> (if dots then stpcpy mangle_buf src else mangle_loop cp src mangle_buf 0);
          buf \<leftarrow> pad_blanks buf i (11 - i);
          wr buf (max i 11) 0 }"

text \<open>\<open>vfat_match_longname\<close>; \<open>len\<close> counts the code points left.\<close>

fun all_ffff :: "u16 list \<Rightarrow> nat \<Rightarrow> bool option" where
  "all_ffff match 0 = Some True"
| "all_ffff [] (Suc n) = None"
| "all_ffff (x # match) (Suc n) = (if x \<noteq> 0xffff then Some False else all_ffff match n)"

fun vfat_match_longname :: "codepage \<Rightarrow> bytes \<Rightarrow> u16 list \<Rightarrow> nat \<Rightarrow> bool option" where
  "vfat_match_longname cp str match 0 =
     do { c \<leftarrow> rd str 0; Some (c = 0) }"
| "vfat_match_longname cp str [] (Suc len) = None"
| "vfat_match_longname cp str (x # match) (Suc len) =
     (if x = 0
      then do { c \<leftarrow> rd str 0; if c \<noteq> 0 then Some False else all_ffff match len }
      else do { c \<leftarrow> rd str 0;
                if x \<noteq> uni0 cp c \<and> x \<noteq> uni1 cp c then Some False
                else vfat_match_longname cp (drop 1 str) match len })"

text \<open>
  \<open>vfat_cvt_longname\<close> with its static cache of conversions, slot \<open>cp % 256\<close>.  The search runs over
  512 entries from \<open>uni[0]\<close> on, that is, over both tables.
\<close>

type_synonym unicache = "u8 \<Rightarrow> u16 \<times> u8"

definition uni512 :: "codepage \<Rightarrow> nat \<Rightarrow> u16" where
  "uni512 cp c = (if c < 256 then uni0 cp (of_nat c) else uni1 cp (of_nat (c - 256)))"

definition find_codepoint :: "codepage \<Rightarrow> u16 \<Rightarrow> nat option" where
  "find_codepoint cp x = find (\<lambda>c. uni512 cp c = x) [0..<512]"

fun cvt_loop :: "codepage \<Rightarrow> unicache \<Rightarrow> u16 list \<Rightarrow> bytes \<Rightarrow> nat \<Rightarrow> (unicache \<times> bytes \<times> int) option" where
  "cvt_loop cp uc [] buf p = None"
| "cvt_loop cp uc (x # long_name) buf p =
     (let slot = ucast x :: u8;
          hit = (if fst (uc slot) = x then Some (uc, snd (uc slot))
                 else case find_codepoint cp x of
                        None \<Rightarrow> None
                      | Some c \<Rightarrow> Some (uc(slot := (x, of_nat c)), of_nat c))
      in case hit of
           None \<Rightarrow> Some (uc, buf, - 1)
         | Some (uc, c) \<Rightarrow>
             do { buf \<leftarrow> wr buf p c;
                  if x \<noteq> 0 then cvt_loop cp uc long_name buf (p + 1) else Some (uc, buf, int p) })"

definition vfat_cvt_longname ::
  "codepage \<Rightarrow> unicache \<Rightarrow> bytes \<Rightarrow> u16 list \<Rightarrow> (unicache \<times> bytes \<times> int) option" where
  "vfat_cvt_longname cp uc entry_name long_name = cvt_loop cp uc long_name entry_name 0"

definition copy_long_chunk :: "u16 list \<Rightarrow> nat \<Rightarrow> fat_long_name_entry \<Rightarrow> u16 list option" where
  "copy_long_chunk buf off le =
     do { buf \<leftarrow> wr_range buf off (name1 le); buf \<leftarrow> wr_range buf (off + 5) (name2 le);
          wr_range buf (off + 11) (name3 le) }"

definition get_checksum :: "bytes \<Rightarrow> u8" where
  "get_checksum dir_name =
     foldl (\<lambda>sum c. push_bit 7 (sum AND 1) + drop_bit 1 sum + c) 0 (take 11 dir_name)"

section \<open>The search of a directory\<close>

definition first_cluster :: "fat_dir_entry \<Rightarrow> s32" where
  "first_cluster de = push_bit 16 (ucast (first_cluster_high de)) + ucast (first_cluster_low de)"

text \<open>\<open>first_sector\<close>: the \<open>int\<close> is converted to the 64-bit \<open>sector_t\<close>, sign included.\<close>

definition first_sector :: "fat_sb_info \<Rightarrow> fat_dir_entry \<Rightarrow> u64" where
  "first_sector sbi de =
     (let first_clust = scast (first_cluster de) :: u64 in
      if first_clust = 0 then root sbi
      else push_bit (clust_shift sbi) (first_clust - 2) + data sbi)"

definition get_inode_mode :: "u8 \<Rightarrow> dirent_type" where
  "get_inode_mode a = (if a AND 0x10 \<noteq> 0 then DT_DIR else DT_REG)"

text \<open>\<open>new_fat_inode\<close>; a failed allocation does not return (\<open>malloc_error\<close>).\<close>

definition new_fat_inode :: "fat_pvt_inode inode" where
  "new_fat_inode = (zero_inode \<lparr>start_cluster = 0, start = 0, poffset = 0, here = 0\<rparr>)\<lparr>refcnt := 1\<rparr>"

text \<open>
  The locals of \<open>vfat_find_entry\<close> that live across entries, and what looking at one entry
  leads to: the next entry, the end of the directory, or a match.
\<close>

record find_state =
  vfat_next :: u8
  vfat_csum :: u8
  long_len :: nat
  long_name :: "u16 list"
  long_match :: bool

datatype find_result = Next_entry find_state | Dir_end | Entry_found fat_dir_entry

definition find_not_match :: "u8 \<Rightarrow> find_state \<Rightarrow> find_result" where
  "find_not_match vfat_init st = Next_entry (st\<lparr>vfat_next := vfat_init, long_match := False\<rparr>)"

definition find_long :: "codepage \<Rightarrow> bytes \<Rightarrow> u8 \<Rightarrow> find_state \<Rightarrow> fat_long_name_entry \<Rightarrow> find_result option" where
  "find_long cp dname vfat_init st long_de =
     (let i = le_id long_de in
      if i \<noteq> vfat_next st then Some (find_not_match vfat_init st)
      else if i AND 0x40 = 0 \<and> le_checksum long_de \<noteq> vfat_csum st then Some (find_not_match vfat_init st)
      else let st = (if i AND 0x40 \<noteq> 0
                     then st\<lparr>vfat_csum := le_checksum long_de, long_len := unat (i AND 0x3f) * 13,
                             long_name := replicate (length (long_name st)) 0\<rparr>
                     else st);
               i = (if i AND 0x40 \<noteq> 0 then i AND 0x3f else i) - 1;
               st = st\<lparr>vfat_next := i\<rparr>
           in do { ln \<leftarrow> copy_long_chunk (long_name st) (unat i * 13) long_de;
                   let st = st\<lparr>long_name := ln\<rparr>;
                   if i = 0
                   then do { eq \<leftarrow> vfat_match_longname cp dname ln (long_len st);
                             if eq then Some (Next_entry (st\<lparr>long_match := True\<rparr>))
                             else Some (find_not_match vfat_init st) }
                   else Some (Next_entry st) })"

definition find_short :: "bytes \<Rightarrow> u8 \<Rightarrow> find_state \<Rightarrow> fat_dir_entry \<Rightarrow> find_result option" where
  "find_short mangled_name vfat_init st de =
     (if de_attr de AND 0x08 \<noteq> 0 then Some (find_not_match vfat_init st)
      else if long_match st
      then Some (if get_checksum (de_name de) = vfat_csum st then Entry_found de
                 else find_not_match vfat_init st)
      else do { c \<leftarrow> memcmp mangled_name (de_name de) 11;
                Some (if c = 0 then Entry_found de else find_not_match vfat_init st) })"

definition find_step :: "codepage \<Rightarrow> bytes \<Rightarrow> bytes \<Rightarrow> u8 \<Rightarrow> find_state \<Rightarrow> bytes \<Rightarrow> nat \<Rightarrow> find_result option" where
  "find_step cp dname mangled_name vfat_init st bs off =
     do { de \<leftarrow> dir_entry bs off;
          if de_name de ! 0 = 0 then Some Dir_end
          else if de_attr de = 0x0f
          then do { long_de \<leftarrow> long_name_entry bs off; find_long cp dname vfat_init st long_de }
          else find_short mangled_name vfat_init st de }"

primrec find_in_sector ::
  "codepage \<Rightarrow> bytes \<Rightarrow> bytes \<Rightarrow> u8 \<Rightarrow> bytes \<Rightarrow> nat \<Rightarrow> find_state \<Rightarrow> nat \<Rightarrow> find_result option" where
  "find_in_sector cp dname mangled_name vfat_init bs 0 st off = Some (Next_entry st)"
| "find_in_sector cp dname mangled_name vfat_init bs (Suc entries) st off =
     do { r \<leftarrow> find_step cp dname mangled_name vfat_init st bs off;
          case r of Next_entry st \<Rightarrow> find_in_sector cp dname mangled_name vfat_init bs entries st (off + 32)
          | _ \<Rightarrow> Some r }"

partial_function (option) find_loop ::
  "'d rdwr_op \<Rightarrow> u32 \<Rightarrow> fs_info \<Rightarrow> fat_sb_info \<Rightarrow> codepage \<Rightarrow> bytes \<Rightarrow> bytes \<Rightarrow> u8 \<Rightarrow>
   'd device \<Rightarrow> u64 \<Rightarrow> find_state \<Rightarrow> ('d device \<times> fat_dir_entry option) option" where
  "find_loop rdwr secsz fs sbi cp dname mangled_name vfat_init dev dir_sector st =
     (if dir_sector = 0 then Some (dev, None)
      else do { (dev, bs) \<leftarrow> read_block rdwr secsz dev dir_sector;
                r \<leftarrow> find_in_sector cp dname mangled_name vfat_init bs (2 ^ (sector_shift fs - 5)) st 0;
                case r of
                  Next_entry st \<Rightarrow>
                    do { (dev, dir_sector) \<leftarrow> get_next_sector rdwr secsz fs sbi dev (ucast dir_sector);
                         find_loop rdwr secsz fs sbi cp dname mangled_name vfat_init dev dir_sector st }
                | Dir_end \<Rightarrow> Some (dev, None)
                | Entry_found de \<Rightarrow> Some (dev, Some de) })"

text \<open>The inode for a directory entry, and for the root.\<close>

definition root_inode_size :: "fs_info \<Rightarrow> fat_sb_info \<Rightarrow> u32" where
  "root_inode_size fs sbi = (if root_size sbi \<noteq> 0 then push_bit (sector_shift fs) (root_size sbi) else - 1)"

definition entry_inode :: "fs_info \<Rightarrow> fat_sb_info \<Rightarrow> fat_dir_entry \<Rightarrow> fat_pvt_inode inode" where
  "entry_inode fs sbi de =
     (let inode = new_fat_inode;
          sc = first_cluster de;
          inode = (if sc = 0
                   then inode\<lparr>isize := root_inode_size fs sbi,
                              pvt := \<lparr>start_cluster = root_cluster sbi, start = root sbi, poffset = 0,
                                      here = root sbi\<rparr>\<rparr>
                   else inode\<lparr>isize := file_size de,
                              pvt := \<lparr>start_cluster = sc, start = first_sector sbi de, poffset = 0,
                                      here = first_sector sbi de\<rparr>\<rparr>)
      in inode\<lparr>imode := ucast (dt_code (get_inode_mode (de_attr de)))\<rparr>)"

text \<open>
  \<open>vfat_find_entry\<close>.  \<open>junk12\<close> and \<open>junk260\<close> are the first contents of \<open>mangled_name\<close> and of
  \<open>long_name\<close>; the result is the inode or NULL.
\<close>

definition vfat_find_entry ::
  "'d rdwr_op \<Rightarrow> u32 \<Rightarrow> fs_info \<Rightarrow> fat_sb_info \<Rightarrow> codepage \<Rightarrow> bytes \<Rightarrow> u16 list \<Rightarrow>
   'd device \<Rightarrow> bytes \<Rightarrow> fat_pvt_inode \<Rightarrow> ('d device \<times> fat_pvt_inode inode option) option" where
  "vfat_find_entry rdwr secsz fs sbi cp junk12 junk260 dev dname dir =
     do { n \<leftarrow> strlen dname;
          let slots = (n + 12) div 13;
          if slots > 20 then Some (dev, None)
          else do { let vfat_init = of_nat slots OR 0x40;
                    mangled_name \<leftarrow> mangle_dos_name cp junk12 dname;
                    (dev, r) \<leftarrow> find_loop rdwr secsz fs sbi cp dname mangled_name vfat_init dev (start dir)
                       \<lparr>vfat_next = vfat_init, vfat_csum = 0, long_len = unat vfat_init * 13,
                        long_name = junk260, long_match = False\<rparr>;
                    Some (dev, map_option (entry_inode fs sbi) r) } }"

definition vfat_iget_root :: "fs_info \<Rightarrow> fat_sb_info \<Rightarrow> fat_pvt_inode inode" where
  "vfat_iget_root fs sbi =
     new_fat_inode\<lparr>imode := ucast (dt_code DT_DIR), isize := root_inode_size fs sbi,
       pvt := \<lparr>start_cluster = root_cluster sbi, start = root sbi, poffset = 0, here = root sbi\<rparr>\<rparr>"

definition vfat_iget ::
  "'d rdwr_op \<Rightarrow> u32 \<Rightarrow> fs_info \<Rightarrow> fat_sb_info \<Rightarrow> codepage \<Rightarrow> bytes \<Rightarrow> u16 list \<Rightarrow>
   'd device \<Rightarrow> bytes \<Rightarrow> fat_pvt_inode \<Rightarrow> ('d device \<times> fat_pvt_inode inode option) option" where
  "vfat_iget rdwr secsz fs sbi cp junk12 junk260 dev dname dir =
     vfat_find_entry rdwr secsz fs sbi cp junk12 junk260 dev dname dir"

section \<open>Reading a directory\<close>

text \<open>\<open>struct dirent\<close>; \<open>d_name\<close> has 256 bytes, at offset 12.\<close>

record dirent =
  d_ino :: u32
  d_off :: u32
  d_reclen :: u16
  d_type :: u16
  d_name :: bytes

text \<open>The locals of \<open>vfat_readdir\<close> that live across entries, with the static cache of conversions.\<close>

record readdir_state =
  rd_next :: u8
  rd_csum :: u8
  rd_long_name :: "u16 list"
  rd_filename :: bytes
  rd_name_len :: int
  rd_long_entry :: bool
  rd_unicache :: unicache

datatype readdir_result = Invalid readdir_state | Next readdir_state | Last | Got readdir_state fat_dir_entry

definition readdir_long :: "codepage \<Rightarrow> readdir_state \<Rightarrow> fat_long_name_entry \<Rightarrow> readdir_result option" where
  "readdir_long cp st long_de =
     (let i = le_id long_de;
          st1 = (if i AND 0x40 \<noteq> 0 then st\<lparr>rd_csum := le_checksum long_de\<rparr> else st);
          id1 = (if i AND 0x40 \<noteq> 0 then i AND 0x3f else i)
      in if i AND 0x40 \<noteq> 0 \<and> id1 \<ge> 20 then Some (Invalid st1)
         else if i AND 0x40 = 0 \<and> (le_checksum long_de \<noteq> rd_csum st1 \<or> id1 \<noteq> rd_next st1)
         then Some (Invalid st1)
         else let st2 = (if i AND 0x40 \<noteq> 0
                         then st1\<lparr>rd_long_name := replicate (length (rd_long_name st1)) 0\<rparr> else st1);
                  id2 = id1 - 1;
                  st3 = st2\<lparr>rd_next := id2\<rparr>
              in do { ln \<leftarrow> copy_long_chunk (rd_long_name st3) (unat id2 * 13) long_de;
                      let st4 = st3\<lparr>rd_long_name := ln\<rparr>;
                      if id2 = 0
                      then do { (uc, fnm, n) \<leftarrow> vfat_cvt_longname cp (rd_unicache st4) (rd_filename st4) ln;
                                let st5 = st4\<lparr>rd_filename := fnm, rd_name_len := n, rd_unicache := uc\<rparr>;
                                Some (Next (if n > 0 \<and> n < 256 then st5\<lparr>rd_long_entry := True\<rparr> else st5)) }
                      else Some (Next st4) })"

text \<open>The copy of one part of a short name, up to a blank, in lower case on demand.\<close>

fun short_part :: "codepage \<Rightarrow> bool \<Rightarrow> bytes \<Rightarrow> bytes \<Rightarrow> nat \<Rightarrow> (bytes \<times> nat) option" where
  "short_part cp lc [] buf p = Some (buf, p)"
| "short_part cp lc (c # cs) buf p =
     (if c = 32 then Some (buf, p)
      else do { buf \<leftarrow> wr buf p (if lc then lower cp c else c); short_part cp lc cs buf (p + 1) })"

definition short_name :: "codepage \<Rightarrow> fat_dir_entry \<Rightarrow> bytes \<Rightarrow> (bytes \<times> nat) option" where
  "short_name cp de filename =
     do { (buf, p) \<leftarrow> short_part cp (de_lcase de AND 8 \<noteq> 0) (take 8 (de_name de)) filename 0;
          (buf, p) \<leftarrow> (if de_name de ! 8 \<noteq> 32
                      then do { buf \<leftarrow> wr buf p 46;
                                short_part cp (de_lcase de AND 16 \<noteq> 0) (take 3 (drop 8 (de_name de))) buf (p + 1) }
                      else Some (buf, p));
          buf \<leftarrow> wr buf p 0;
          Some (buf, p) }"

definition readdir_step :: "codepage \<Rightarrow> readdir_state \<Rightarrow> bytes \<Rightarrow> nat \<Rightarrow> readdir_result option" where
  "readdir_step cp st bs off =
     do { de \<leftarrow> dir_entry bs off;
          if de_name de ! 0 = 0 then Some Last
          else if de_name de ! 0 = 0xe5 then Some (Invalid st)
          else if de_attr de = 0x0f
          then do { long_de \<leftarrow> long_name_entry bs off; readdir_long cp st long_de }
          else if de_attr de AND 0x08 \<noteq> 0 then Some (Invalid st)
          else if rd_long_entry st \<and> get_checksum (de_name de) = rd_csum st then Some (Got st de)
          else do { (fnm, n) \<leftarrow> short_name cp de (rd_filename st);
                    Some (Got (st\<lparr>rd_filename := fnm, rd_name_len := int n\<rparr>) de) } }"

text \<open>
  The loops: over the entries left in a sector, then on to the next sector.  \<open>offset\<close> is
  \<open>file->offset\<close>; the result is the final offset, the static cache and the entry, if any.
\<close>

primrec readdir_in_sector ::
  "codepage \<Rightarrow> bytes \<Rightarrow> nat \<Rightarrow> readdir_state \<Rightarrow> nat \<Rightarrow> u32 \<Rightarrow> (readdir_result \<times> u32) option" where
  "readdir_in_sector cp bs 0 st off offset = Some (Next st, offset)"
| "readdir_in_sector cp bs (Suc entries_left) st off offset =
     do { r \<leftarrow> readdir_step cp st bs off;
          case r of
            Invalid st \<Rightarrow> readdir_in_sector cp bs entries_left (st\<lparr>rd_long_entry := False\<rparr>) (off + 32) (offset + 32)
          | Next st \<Rightarrow> readdir_in_sector cp bs entries_left st (off + 32) (offset + 32)
          | _ \<Rightarrow> Some (r, offset) }"

partial_function (option) readdir_loop ::
  "'d rdwr_op \<Rightarrow> u32 \<Rightarrow> fs_info \<Rightarrow> fat_sb_info \<Rightarrow> codepage \<Rightarrow>
   'd device \<Rightarrow> fat_pvt_inode \<Rightarrow> u64 \<Rightarrow> nat \<Rightarrow> nat \<Rightarrow> readdir_state \<Rightarrow> u32 \<Rightarrow>
   ('d device \<times> fat_pvt_inode \<times> u32 \<times> (readdir_state \<times> fat_dir_entry) option) option" where
  "readdir_loop rdwr secsz fs sbi cp dev pv sector off entries_left st offset =
     do { (dev, bs) \<leftarrow> read_block rdwr secsz dev sector;
          (r, offset) \<leftarrow> readdir_in_sector cp bs entries_left st off offset;
          case r of
            Last \<Rightarrow> Some (dev, pv, offset, None)
          | Got st de \<Rightarrow> Some (dev, pv, offset, Some (st, de))
          | Invalid st \<Rightarrow> None
          | Next st \<Rightarrow>
              do { (dev, pv, sector) \<leftarrow> next_sector rdwr secsz fs sbi dev pv;
                   if sector = 0 then Some (dev, pv, offset, None)
                   else readdir_loop rdwr secsz fs sbi cp dev pv sector 0 (2 ^ (sector_shift fs - 5)) st offset } }"

text \<open>
  \<open>vfat_readdir\<close>.  The state is the device, the private part of the directory's inode, the file
  offset, the static cache and the caller's \<open>dirent\<close>; \<open>junk_ln\<close> and \<open>junk_fn\<close> are the first contents of
  the locals \<open>long_name[261]\<close> and \<open>filename[261]\<close>.  The Boolean says that an entry was found (0 against -1).
\<close>

definition vfat_readdir ::
  "'d rdwr_op \<Rightarrow> u32 \<Rightarrow> fs_info \<Rightarrow> fat_sb_info \<Rightarrow> codepage \<Rightarrow> u16 list \<Rightarrow> bytes \<Rightarrow> unicache \<Rightarrow>
   'd device \<Rightarrow> fat_pvt_inode \<Rightarrow> u32 \<Rightarrow> dirent \<Rightarrow>
   ('d device \<times> fat_pvt_inode \<times> u32 \<times> dirent \<times> bool) option" where
  "vfat_readdir rdwr secsz fs sbi cp junk_ln junk_fn uc dev pv offset dirent =
     do { (dev, pv, sector) \<leftarrow> get_the_right_sector rdwr secsz fs sbi dev pv offset;
          let sec_off = unat offset mod 2 ^ sector_shift fs;
          (dev, pv, offset, r) \<leftarrow> readdir_loop rdwr secsz fs sbi cp dev pv sector sec_off
             ((2 ^ sector_shift fs - sec_off) div 32)
             \<lparr>rd_next = 0xff, rd_csum = 0xff, rd_long_name = junk_ln, rd_filename = junk_fn,
              rd_name_len = 0, rd_long_entry = False, rd_unicache = uc\<rparr> offset;
          case r of
            None \<Rightarrow> Some (dev, pv, offset, dirent, False)
          | Some (st, de) \<Rightarrow>
              do { let name_len = nat (rd_name_len st + 1);
                   nm \<leftarrow> rd_range (rd_filename st) 0 name_len;
                   dn \<leftarrow> wr_range (d_name dirent) 0 nm;
                   Some (dev, pv, offset + 32,
                     \<lparr>d_ino = first_cluster de, d_off = offset, d_reclen = of_nat (12 + name_len),
                      d_type = dt_code (get_inode_mode (de_attr de)), d_name = dn\<rparr>, True) } }"

section \<open>Mounting\<close>

text \<open>\<open>ilog2\<close>: the index of the highest bit, undefined for 0.\<close>

definition ilog2 :: "u32 \<Rightarrow> nat option" where
  "ilog2 v = find (\<lambda>i. bit v i) (rev [0..<32])"

lemma ilog2_power:
  assumes "k < 32" "unat v = 2 ^ k"
  shows "ilog2 v = Some k"
proof -
  have "v = 2 ^ k" by (rule word_eq_2_power [OF assms(2)])
  then have b: "bit v i \<longleftrightarrow> i = k" if "i < 32" for i
    using that assms(1) by (auto simp: bit_exp_iff)
  have "rev [0..<32] = rev [Suc k..<32] @ k # rev [0..<k]"
    using assms(1) upt_add_eq_append [of 0 k "32 - k"] by (simp add: upt_conv_Cons)
  moreover have "find (\<lambda>i. bit v i) (rev [Suc k..<32]) = None"
    using b by (auto simp: find_None_iff)
  moreover have "find p (xs @ k # ys) = Some k" if "find p xs = None" "p k" for p xs ys
    using that by (induction xs) (auto split: if_splits)
  ultimately show ?thesis using b [of k] assms(1) unfolding ilog2_def by metis
qed

text \<open>The fields of \<open>struct fat_bpb\<close> that the mount uses, at their offsets in the boot sector.\<close>

record fat_bpb =
  bxSecPerClust :: u8
  bxResSectors :: u16
  bxFATs :: u8
  bxRootDirEnts :: u16
  bxSectors :: u16
  bxFATsecs :: u16
  bsHugeSectors :: u32
  bxFATsecs_32 :: u32
  extended_flags :: u16
  fat32_root_cluster :: u32

definition fat_bpb_at :: "bytes \<Rightarrow> fat_bpb option" where
  "fat_bpb_at bs =
     do { spc \<leftarrow> rd bs 13; res \<leftarrow> rd16 bs 14; fats \<leftarrow> rd bs 16; ents \<leftarrow> rd16 bs 17; secs \<leftarrow> rd16 bs 19;
          fsecs \<leftarrow> rd16 bs 22; huge \<leftarrow> rd32 bs 32; fsecs32 \<leftarrow> rd32 bs 36; ext \<leftarrow> rd16 bs 40; rc \<leftarrow> rd32 bs 44;
          Some \<lparr>bxSecPerClust = spc, bxResSectors = res, bxFATs = fats, bxRootDirEnts = ents,
                bxSectors = secs, bxFATsecs = fsecs, bsHugeSectors = huge, bxFATsecs_32 = fsecs32,
                extended_flags = ext, fat32_root_cluster = rc\<rparr> }"

definition root_dir_size :: "fs_info \<Rightarrow> fat_bpb \<Rightarrow> s32" where
  "root_dir_size fs b =
     drop_bit (sector_shift fs - 5) (ucast (bxRootDirEnts b) + sector_size fs div 32 - 1)"

text \<open>
  \<open>vfat_fs_init\<close> up to the call of \<open>cache_init\<close>, given the BPB: the superblock data.  \<open>junk\<close> is the field
  \<open>root_cluster\<close> of the fresh allocation, which the code never stores to.
\<close>

definition vfat_sb_init :: "fs_info \<Rightarrow> u32 \<Rightarrow> fat_bpb \<Rightarrow> fat_sb_info option" where
  "vfat_sb_init fs junk b =
     do { let sectors_per_fat = ((if bxFATsecs b \<noteq> 0 then ucast (bxFATsecs b) else bxFATsecs_32 b) :: s32);
          let total_sectors = ((if bxSectors b \<noteq> 0 then ucast (bxSectors b) else ucast (bsHugeSectors b)) :: u64);
          let f = (ucast (bxResSectors b) :: u64);
          let r = f + scast (sectors_per_fat * ucast (bxFATs b));
          let rs = root_dir_size fs b;
          let d = r + scast rs;
          cs \<leftarrow> ilog2 (ucast (bxSecPerClust b));
          let n = (ucast (drop_bit cs (total_sectors - d)) :: u32);
          let n' = (if n > 0xfff4 \<and> n > 0x0ffffff4 then 0x0ffffff4 else n);
          let f' = (if n > 0xfff4 \<and> extended_flags b AND 0x80 \<noteq> 0
                    then f + scast ((ucast (extended_flags b AND 0x0f) :: s32) * sectors_per_fat) else f);
          let r' = (if n > 0xfff4 then d + ucast (push_bit cs (fat32_root_cluster b - 2)) else r);
          Some \<lparr>fat = f', root = r', data = d, clusters = n', root_cluster = junk, root_size = rs,
                clust_shift = cs, clust_byte_shift = cs + sector_shift fs,
                clust_mask = ucast (bxSecPerClust b) - 1,
                clust_size = push_bit (sector_shift fs) (ucast (bxSecPerClust b)),
                fat_kind = (if n \<le> 0xff4 then FAT12 else if n \<le> 0xfff4 then FAT16 else FAT32)\<rparr> }"

text \<open>
  The whole mount.  \<open>ss\<close> is the sector shift of the disk.  The boot sector is read into a local of 512
  bytes: a larger sector overruns it.  The result has the file system and superblock data,
  or \<open>None\<close> when the sanity check fails (-1).
\<close>

definition vfat_fs_init ::
  "'d rdwr_op \<Rightarrow> nat \<Rightarrow> u32 \<Rightarrow> 'd device \<Rightarrow> ('d device \<times> (fs_info \<times> fat_sb_info) option) option" where
  "vfat_fs_init rdwr ss junk dev =
     do { let fs = \<lparr>sector_shift = ss, sector_size = push_bit ss 1, block_shift = ss, block_size = push_bit ss 1\<rparr>;
          let (dev, bs) = dev_rdwr rdwr dev 0 1;
          fatbuf \<leftarrow> wr_range (replicate 512 0) 0 bs;
          b \<leftarrow> fat_bpb_at fatbuf;
          if bxResSectors b = 0 \<or> bxFATs b = 0 then Some (dev, None)
          else do { sbi \<leftarrow> vfat_sb_init fs junk b;
                    Some (cache_init dev (block_shift fs), Some (fs, sbi)) } }"


section \<open>Short names\<close>

lemma pad_blanks_value:
  "i + n \<le> length buf \<Longrightarrow> pad_blanks buf i n = Some (take i buf @ replicate n 32 @ drop (i + n) buf)"
proof (induction n arbitrary: i buf)
  case (Suc n)
  then show ?case
    by (simp add: take_Suc_conv_app_nth replicate_app_Cons_same upd_conv_take_nth_drop add.commute)
qed simp

text \<open>A character of a short name, and the upper-case form that the search compares.\<close>

definition plain_char :: "u8 \<Rightarrow> bool" where
  "plain_char c \<longleftrightarrow> 32 < c \<and> c \<noteq> 46 \<and> c \<noteq> 47"

lemma plain_charD: "plain_char c \<Longrightarrow> \<not> c \<le> 32 \<and> c \<noteq> 46 \<and> c \<noteq> 47"
  by (auto simp: plain_char_def)

lemma set_last_cell: "length buf = Suc n \<Longrightarrow> (drop n buf)[0 := x] = [x]"
  by (cases "drop n buf") (auto dest: arg_cong [where f = length])

lemma set_in_rest: "length xs = n \<Longrightarrow> n < length buf \<Longrightarrow> (xs @ drop n buf)[n := x] = xs @ x # drop (Suc n) buf"
  by (simp add: list_update_append flip: Cons_nth_drop_Suc)

definition sfn_upper :: "codepage \<Rightarrow> bytes \<Rightarrow> bytes" where
  "sfn_upper cp s = (case map (upper cp) s of [] \<Rightarrow> [] | c # cs \<Rightarrow> (if c = 0xe5 then 0x05 else c) # cs)"

definition padded :: "nat \<Rightarrow> bytes \<Rightarrow> bytes" where
  "padded n s = s @ replicate (n - length s) 32"

lemma length_padded [simp]: "length s \<le> n \<Longrightarrow> length (padded n s) = n"
  by (simp add: padded_def)

lemma length_sfn_upper [simp]: "length (sfn_upper cp s) = length s"
  by (cases s) (simp_all add: sfn_upper_def)

lemma mangle_loop_stop:
  "c \<le> 32 \<or> c = 47 \<Longrightarrow> mangle_loop cp (c # src) buf i = Some (buf, i)"
  by simp

lemma mangle_loop_run:
  assumes "\<forall>c\<in>set s. plain_char c" "0 < length pre" "length pre + length s \<le> 11" "length pre + length s \<le> length buf + length pre"
  shows "mangle_loop cp (s @ rest) (pre @ buf) (length pre) =
    mangle_loop cp rest (pre @ map (upper cp) s @ drop (length s) buf) (length pre + length s)"
  using assms
proof (induction s arbitrary: pre buf)
  case (Cons c s)
  obtain b buf' where b: "buf = b # buf'" using Cons.prems(4) by (cases buf) auto
  have "mangle_loop cp ((c # s) @ rest) (pre @ buf) (length pre) =
      mangle_loop cp (s @ rest) ((pre @ [upper cp c]) @ buf') (length (pre @ [upper cp c]))"
    using Cons.prems plain_charD [of c] by (simp add: b list_update_append)
  also have "\<dots> = mangle_loop cp rest ((pre @ [upper cp c]) @ map (upper cp) s @ drop (length s) buf')
      (length (pre @ [upper cp c]) + length s)"
    by (rule Cons.IH) (use Cons.prems b in auto)
  finally show ?case by (simp add: b)
qed simp

lemma mangle_loop_first:
  assumes "\<forall>c\<in>set s. plain_char c" "s \<noteq> []" "length s \<le> 11" "length s \<le> length buf"
  shows "mangle_loop cp (s @ rest) buf 0 = mangle_loop cp rest (sfn_upper cp s @ drop (length s) buf) (length s)"
proof -
  obtain c s' where s: "s = c # s'" using assms(2) by (cases s) auto
  obtain b buf' where b: "buf = b # buf'" using assms s by (cases buf) auto
  let ?u = "if upper cp c = 0xe5 then 0x05 else upper cp c"
  have "mangle_loop cp (s @ rest) buf 0 = mangle_loop cp (s' @ rest) ([?u] @ buf') (length [?u])"
    using assms(1) plain_charD [of c] by (simp add: s b Let_def)
  also have "\<dots> = mangle_loop cp rest ([?u] @ map (upper cp) s' @ drop (length s') buf') (length [?u] + length s')"
    by (rule mangle_loop_run) (use assms s b in auto)
  finally show ?thesis by (simp add: s b sfn_upper_def)
qed

lemma not_dots:
  "plain_char (hd s) \<Longrightarrow> s \<noteq> [] \<Longrightarrow> mangle_dos_name cp buf (s @ rest) =
     do { (buf, i) \<leftarrow> mangle_loop cp (s @ rest) buf 0; buf \<leftarrow> pad_blanks buf i (11 - i); wr buf (max i 11) 0 }"
  by (cases s) (simp_all add: mangle_dos_name_def plain_char_def)

lemma mangle_no_dot:
  assumes "\<forall>c\<in>set s. plain_char c" "s \<noteq> []" "length s \<le> 11" "length buf = 12"
  shows "mangle_dos_name cp buf (s @ 0 # t) = Some (padded 11 (sfn_upper cp s) @ [0])"
proof -
  have l: "length (drop (length s) buf) = Suc (11 - length s)" using assms by simp
  have "mangle_dos_name cp buf (s @ 0 # t) =
     do { buf \<leftarrow> pad_blanks (sfn_upper cp s @ drop (length s) buf) (length s) (11 - length s); wr buf 11 0 }"
    using assms by (subst not_dots) (simp_all add: mangle_loop_first max_def)
  then show ?thesis
    using assms by (simp add: pad_blanks_value padded_def list_update_append set_last_cell)
qed

lemma mangle_dot:
  assumes "\<forall>c\<in>set s. plain_char c" "\<forall>c\<in>set e. plain_char c" "s \<noteq> []" "length s \<le> 8" "length e \<le> 3" "length buf = 12"
  shows "mangle_dos_name cp buf (s @ 46 # e @ 0 # t) =
    Some (padded 8 (sfn_upper cp s) @ padded 3 (map (upper cp) e) @ [0])"
proof -
  let ?b = "padded 8 (sfn_upper cp s)"
  have "mangle_loop cp (s @ 46 # e @ 0 # t) buf 0 =
      mangle_loop cp (46 # e @ 0 # t) (sfn_upper cp s @ drop (length s) buf) (length s)"
    using assms by (subst mangle_loop_first) auto
  also have "\<dots> = mangle_loop cp (e @ 0 # t) (?b @ drop 8 buf) (length ?b)"
    using assms by (simp add: pad_blanks_value padded_def)
  also have "\<dots> = mangle_loop cp (0 # t) (?b @ map (upper cp) e @ drop (length e) (drop 8 buf)) (length ?b + length e)"
    using assms by (intro mangle_loop_run) auto
  finally have l: "mangle_loop cp (s @ 46 # e @ 0 # t) buf 0 =
      Some (?b @ map (upper cp) e @ drop (8 + length e) buf, 8 + length e)"
    using assms by (simp add: add.commute)
  show ?thesis
    using assms by (subst not_dots) (simp_all add: l pad_blanks_value padded_def list_update_append max_def set_last_cell)
qed

section \<open>Short names as the reader prints them\<close>

lemma short_part_copies:
  assumes "\<forall>c\<in>set s. c \<noteq> 32" "cs = s \<or> (\<exists>t. cs = s @ 32 # t)" "length s \<le> length buf"
  shows "short_part cp lc cs (pre @ buf) (length pre) =
    Some (pre @ map (\<lambda>c. if lc then lower cp c else c) s @ drop (length s) buf, length pre + length s)"
  using assms
proof (induction s arbitrary: cs pre buf)
  case Nil
  then show ?case by auto
next
  case (Cons c s)
  obtain b buf' where b: "buf = b # buf'" using Cons.prems(3) by (cases buf) auto
  obtain cs' where cs: "cs = c # cs'" "cs' = s \<or> (\<exists>t. cs' = s @ 32 # t)" using Cons.prems(2) by auto
  let ?f = "\<lambda>c. if lc then lower cp c else c"
  have "short_part cp lc cs (pre @ buf) (length pre) =
      short_part cp lc cs' ((pre @ [?f c]) @ buf') (length (pre @ [?f c]))"
    using Cons.prems(1) by (simp add: b cs(1) list_update_append)
  also have "\<dots> = Some ((pre @ [?f c]) @ map ?f s @ drop (length s) buf', length (pre @ [?f c]) + length s)"
    by (rule Cons.IH) (use Cons.prems b cs(2) in auto)
  finally show ?case by (simp add: b)
qed

lemma padded_split: "length s \<le> n \<Longrightarrow> padded n s = s \<or> (\<exists>t. padded n s = s @ 32 # t)"
  by (cases "n - length s") (auto simp: padded_def)

lemma padded_first_blank: "\<forall>c\<in>set s. c \<noteq> 32 \<Longrightarrow> 0 < n \<Longrightarrow> length s \<le> n \<Longrightarrow> padded n s ! 0 = 32 \<longleftrightarrow> s = []"
  by (cases s; cases n) (auto simp: padded_def)

definition listed_name :: "codepage \<Rightarrow> fat_dir_entry \<Rightarrow> bytes \<Rightarrow> bytes \<Rightarrow> bytes" where
  "listed_name cp de s e =
     map (\<lambda>c. if de_lcase de AND 8 \<noteq> 0 then lower cp c else c) s @
     (if e = [] then [] else 46 # map (\<lambda>c. if de_lcase de AND 16 \<noteq> 0 then lower cp c else c) e)"

lemma short_name_value:
  assumes "de_name de = padded 8 s @ padded 3 e" "\<forall>c\<in>set s. c \<noteq> 32" "\<forall>c\<in>set e. c \<noteq> 32"
    "length s \<le> 8" "length e \<le> 3" "13 \<le> length buf"
  shows "\<exists>t. short_name cp de buf = Some (listed_name cp de s e @ 0 # t, length (listed_name cp de s e))"
proof -
  let ?lb = "\<lambda>c. if de_lcase de AND 8 \<noteq> 0 then lower cp c else c"
  let ?le = "\<lambda>c. if de_lcase de AND 16 \<noteq> 0 then lower cp c else c"
  have t: "take 8 (de_name de) = padded 8 s" "take 3 (drop 8 (de_name de)) = padded 3 e"
    and n8: "de_name de ! 8 = padded 3 e ! 0"
    using assms by (simp_all add: nth_append)
  have b: "short_part cp (de_lcase de AND 8 \<noteq> 0) (take 8 (de_name de)) buf 0 =
      Some (map ?lb s @ drop (length s) buf, length s)"
    using short_part_copies [OF assms(2) padded_split [OF assms(4)], of buf cp "de_lcase de AND 8 \<noteq> 0" "[]"] assms
    by (simp add: t)
  show ?thesis
  proof (cases "e = []")
    case True
    then have "de_name de ! 8 = 32" unfolding n8 by (simp add: padded_def)
    then show ?thesis
      using True assms(4,6) by (simp add: short_name_def b listed_name_def list_update_append flip: Cons_nth_drop_Suc)
  next
    case False
    then have "de_name de ! 8 \<noteq> 32" unfolding n8 using assms(3,5) padded_first_blank [of e 3] by simp
    let ?p = "map ?lb s @ [46]" and ?n = "length s + 1 + length e"
    have p: "(map ?lb s @ drop (length s) buf)[length s := 46] = ?p @ drop (length ?p) buf"
      using set_in_rest [of "map ?lb s" "length s" buf 46] assms(4,6) by simp
    have "short_part cp (de_lcase de AND 16 \<noteq> 0) (padded 3 e) (?p @ drop (length ?p) buf) (length ?p) =
      Some (?p @ map ?le e @ drop (length e) (drop (length ?p) buf), length ?p + length e)"
      using assms by (intro short_part_copies padded_split) auto
    then have sp: "short_part cp (de_lcase de AND 16 \<noteq> 0) (padded 3 e)
        ((map ?lb s @ drop (length s) buf)[length s := 46]) (length s + 1) =
      Some ((?p @ map ?le e) @ drop ?n buf, ?n)"
      unfolding p by (simp add: add.commute)
    have l: "length (map ?lb s @ drop (length s) buf) = length buf" "length ((?p @ map ?le e) @ drop ?n buf) = length buf"
      using assms(4-6) by simp_all
    have "short_name cp de buf = Some (((?p @ map ?le e) @ drop ?n buf)[?n := 0], ?n)"
      using sp assms(4-6) \<open>de_name de ! 8 \<noteq> 32\<close> l by (simp add: short_name_def b t(2))
    also have "((?p @ map ?le e) @ drop ?n buf)[?n := 0] = (?p @ map ?le e) @ 0 # drop (Suc ?n) buf"
      using assms(4-6) by (intro set_in_rest) auto
    finally show ?thesis using False by (simp add: listed_name_def)
  qed
qed


lemma nul_not_plain: "\<forall>c\<in>set s. plain_char c \<Longrightarrow> 0 \<notin> set s"
  by (auto simp: plain_char_def)

definition listable :: "codepage \<Rightarrow> fat_dir_entry \<Rightarrow> bytes \<Rightarrow> bytes \<Rightarrow> bool" where
  "listable cp de s e \<longleftrightarrow> de_name de = padded 8 s @ padded 3 e \<and> s \<noteq> [] \<and> length s \<le> 8 \<and> length e \<le> 3 \<and> hd s \<noteq> 0xe5 \<and>
     (\<forall>c\<in>set s \<union> set e. \<forall>b\<in>{c, lower cp c}. plain_char b \<and> upper cp b = c)"

definition ascii_codepage :: codepage where
  "ascii_codepage =
     \<lparr>upper = (\<lambda>c. if 97 \<le> c \<and> c \<le> 122 then c - 32 else c),
      lower = (\<lambda>c. if 65 \<le> c \<and> c \<le> 90 then c + 32 else c),
      uni0 = ucast,
      uni1 = (\<lambda>c. ucast (if 97 \<le> c \<and> c \<le> 122 then c - 32 else if 65 \<le> c \<and> c \<le> 90 then c + 32 else c))\<rparr>"

definition sfn_example :: fat_dir_entry where
  "sfn_example = \<lparr>de_name = [76, 68, 76, 73, 78, 85, 88, 32, 83, 89, 83], de_attr = 0, de_lcase = 8,
     first_cluster_high = 0, first_cluster_low = 3, file_size = 1000\<rparr>"

text \<open>C31.  A short name that the directory reader prints is found again: mangling the listed name, in
  whatever case the entry asks for, gives the eleven bytes of the entry, provided the name is
  made of characters other than blank, dot and slash whose case conversion is reversible.\<close>

theorem short_name_roundtrip:
  assumes "listable cp de s e" "13 \<le> length buf" "length mbuf = 12"
  shows "\<exists>nm t. short_name cp de buf = Some (nm @ 0 # t, length nm) \<and>
    mangle_dos_name cp mbuf (nm @ 0 # t) = Some (de_name de @ [0])"
proof -
  let ?s = "map (\<lambda>c. if de_lcase de AND 8 \<noteq> 0 then lower cp c else c) s"
  let ?e = "map (\<lambda>c. if de_lcase de AND 16 \<noteq> 0 then lower cp c else c) e"
  note L = assms(1) [unfolded listable_def]
  have p: "\<forall>c\<in>set ?s. plain_char c" "\<forall>c\<in>set ?e. plain_char c" using L by auto
  have b: "\<forall>c\<in>set s. c \<noteq> 32" "\<forall>c\<in>set e. c \<noteq> 32" using L by (auto simp: plain_char_def)
  have "map (upper cp) ?s = s" "map (upper cp) ?e = e" using L by (auto intro!: map_idI)
  moreover have "sfn_upper cp ?s = s"
    using L calculation(1) by (cases s) (auto simp: sfn_upper_def)
  ultimately have u: "sfn_upper cp ?s = s" "map (upper cp) ?e = e" by auto
  obtain t where s: "short_name cp de buf = Some (listed_name cp de s e @ 0 # t, length (listed_name cp de s e))"
    using short_name_value [OF _ b _ _ assms(2)] L by blast
  have "mangle_dos_name cp mbuf (listed_name cp de s e @ 0 # t) = Some (de_name de @ [0])"
  proof (cases "e = []")
    case True
    have "padded 11 s = padded 8 s @ padded 3 []"
      using L by (simp add: padded_def flip: replicate_add)
    then show ?thesis
      using mangle_no_dot [OF p(1), of mbuf cp t] u(1) True L assms(3) by (simp add: listed_name_def)
  next
    case False
    then show ?thesis
      using mangle_dot [OF p, of mbuf cp t] u L assms(3) by (simp add: listed_name_def)
  qed
  then show ?thesis using s by blast
qed

theorem short_name_roundtrip_witness:
  "\<exists>nm t. short_name ascii_codepage sfn_example (replicate 13 0) = Some (nm @ 0 # t, length nm) \<and>
     mangle_dos_name ascii_codepage (replicate 12 1) (nm @ 0 # t) = Some (de_name sfn_example @ [0])"
proof (rule short_name_roundtrip [where s = "[76, 68, 76, 73, 78, 85, 88]" and e = "[83, 89, 83]"])
  show "listable ascii_codepage sfn_example [76, 68, 76, 73, 78, 85, 88] [83, 89, 83]"
    by code_simp
qed simp_all

section \<open>The checksum of a short name\<close>

definition checksum_step :: "u8 \<Rightarrow> u8 \<Rightarrow> u8" where
  "checksum_step a c = push_bit 7 (a AND 1) + drop_bit 1 a + c"

lemma get_checksum_foldl: "get_checksum s = foldl checksum_step 0 (take 11 s)"
  by (simp add: get_checksum_def checksum_step_def [abs_def])

lemma split_128: "x * 128 + y = x' * 128 + y' \<Longrightarrow> y < 128 \<Longrightarrow> y' < 128 \<Longrightarrow> x = x' \<and> y = y'" for x y :: nat
proof -
  assume e: "x * 128 + y = x' * 128 + y'" and l: "y < 128" "y' < 128"
  have "(x * 128 + y) div 128 = x" "(x' * 128 + y') div 128 = x'" using l by simp_all
  then have "x = x'" using e by metis
  then show ?thesis using e by simp
qed

lemma rotate_value: "unat (push_bit 7 (x AND 1) + drop_bit 1 x) = unat x mod 2 * 128 + unat x div 2" for x :: u8
proof -
  have m: "unat (x AND 1) = unat x mod 2" using unat_mask_mod [of x 1] by simp
  have "unat x div 2 < 128" using unat_u8_lt [of x] by linarith
  moreover have "unat x mod 2 \<le> 1" by simp
  ultimately have l: "unat x mod 2 * 128 + unat x div 2 < 256" by linarith
  have p: "unat (push_bit 7 (x AND 1)) = unat x mod 2 * 128"
    unfolding unat_push_bit m using l by (simp del: mod_mod_trivial)
  have d: "unat (drop_bit 1 x) = unat x div 2" by (simp add: unat_drop_bit)
  show ?thesis
    using unat_add_no_wrap [of "push_bit 7 (x AND 1)" "drop_bit 1 x"] l unfolding p d by simp
qed

lemma rotate_inj: "push_bit 7 (a AND 1) + drop_bit 1 a = push_bit 7 (b AND 1) + drop_bit 1 b \<Longrightarrow> a = b" for a b :: u8
proof -
  assume "push_bit 7 (a AND 1) + drop_bit 1 a = push_bit 7 (b AND 1) + drop_bit 1 b"
  then have "unat a mod 2 * 128 + unat a div 2 = unat b mod 2 * 128 + unat b div 2"
    using rotate_value by metis
  moreover have "unat a div 2 < 128" "unat b div 2 < 128" using unat_u8_lt [of a] unat_u8_lt [of b] by linarith+
  ultimately have "unat a mod 2 = unat b mod 2 \<and> unat a div 2 = unat b div 2" by (rule split_128)
  then have "unat a = unat b" by (metis mod_mult_div_eq)
  then show ?thesis by (rule word_unat_eq_iff [THEN iffD2])
qed

lemma checksum_step_inj: "checksum_step a c = checksum_step b c \<longleftrightarrow> a = b"
  unfolding checksum_step_def add_right_cancel by (metis rotate_inj)

lemma checksum_tail_inj: "foldl checksum_step a s = foldl checksum_step b s \<longleftrightarrow> a = b"
  by (induction s arbitrary: a b) (simp_all add: checksum_step_inj)

text \<open>The rule of the FAT specification, in whole numbers: for each byte of the name, the sum so far is rotated to the right by
  one bit (its lowest bit goes to the top, worth 128), the byte is added, and the carry out of eight bits is lost.\<close>

definition fat_checksum :: "bytes \<Rightarrow> nat" where
  "fat_checksum s = foldl (\<lambda>a c. (a div 2 + 128 * (a mod 2) + unat c) mod 256) 0 s"

lemma checksum_step_value: "unat (checksum_step a c) = (unat a div 2 + 128 * (unat a mod 2) + unat c) mod 256"
  unfolding checksum_step_def unat_word_ariths(1) [of "push_bit 7 (a AND 1) + drop_bit 1 a" c] rotate_value
  by (simp add: ac_simps)

lemma checksum_value: "unat (foldl checksum_step a s) = foldl (\<lambda>a c. (a div 2 + 128 * (a mod 2) + unat c) mod 256) (unat a) s"
  by (induction s arbitrary: a) (simp_all add: checksum_step_value)

text \<open>C38.  The checksum that ties long-name entries to a short entry is that of the FAT specification, and it detects every
  change of a single byte of the short name.\<close>

theorem checksum_detects_change:
  assumes "length s = 11" "i < 11"
  shows "unat (get_checksum s) = fat_checksum s \<and> (get_checksum (s[i := b]) = get_checksum s \<longleftrightarrow> b = s ! i)"
proof
  show "unat (get_checksum s) = fat_checksum s"
    using assms(1) checksum_value [of 0 s] by (simp add: get_checksum_foldl fat_checksum_def)
  have s: "s = take i s @ s ! i # drop (Suc i) s" "s[i := b] = take i s @ b # drop (Suc i) s"
    using assms by (simp_all add: id_take_nth_drop upd_conv_take_nth_drop)
  let ?p = "foldl checksum_step 0 (take i s)"
  have "get_checksum (s[i := b]) = foldl checksum_step (checksum_step ?p b) (drop (Suc i) s)"
    using assms by (simp add: get_checksum_foldl) (simp add: s(2))
  moreover have "get_checksum s = foldl checksum_step (checksum_step ?p (s ! i)) (drop (Suc i) s)"
    using assms by (simp add: get_checksum_foldl) (metis foldl_append foldl_Cons s(1))
  ultimately show "get_checksum (s[i := b]) = get_checksum s \<longleftrightarrow> b = s ! i" by (simp add: checksum_tail_inj checksum_step_def)
qed
theorem checksum_detects_change_witness:
  "unat (get_checksum (de_name sfn_example)) = 19 \<and> get_checksum ((de_name sfn_example)[3 := 66]) \<noteq> get_checksum (de_name sfn_example)"
  using checksum_detects_change [of "de_name sfn_example" 3 66] by (simp add: sfn_example_def fat_checksum_def)

section \<open>Matching long names\<close>

text \<open>What a match is: the code points up to a NUL, or all of them, correspond to the string one by one
  in either case, and behind the NUL there is only padding.\<close>

definition long_name_matches :: "codepage \<Rightarrow> bytes \<Rightarrow> u16 list \<Rightarrow> bool" where
  "long_name_matches cp s pts \<longleftrightarrow>
     (let name = takeWhile (\<lambda>x. x \<noteq> 0) pts; rest = dropWhile (\<lambda>x. x \<noteq> 0) pts in
      list_all2 (\<lambda>c x. x = uni0 cp c \<or> x = uni1 cp c) s name \<and> (\<forall>x\<in>set (tl rest). x = 0xffff))"

text \<open>The NUL of the string has no other code point: a property of the codepage tables that the code
  relies on (``also handles c == 0'').\<close>

definition nul_faithful :: "codepage \<Rightarrow> bool" where
  "nul_faithful cp \<longleftrightarrow> uni0 cp 0 = 0 \<and> uni1 cp 0 = 0"

lemma all_ffff_value:
  "all_ffff (xs @ ys) (length xs) = Some (\<forall>x\<in>set xs. x = 0xffff)"
  by (induction xs) auto

lemma match_longname_value:
  assumes "nul_faithful cp" "0 \<notin> set s"
  shows "vfat_match_longname cp (s @ 0 # t) (pts @ rest) (length pts) = Some (long_name_matches cp s pts)"
  using assms(2)
proof (induction pts arbitrary: s)
  case Nil
  then show ?case
    by (cases s) (auto simp: long_name_matches_def)
next
  case (Cons x pts)
  show ?case
  proof (cases "x = 0")
    case True
    then show ?thesis
      using Cons.prems by (cases s) (auto simp: long_name_matches_def all_ffff_value)
  next
    case False
    show ?thesis
    proof (cases s)
      case Nil
      then show ?thesis using False assms(1) by (simp add: long_name_matches_def nul_faithful_def)
    next
      case (Cons c s')
      then show ?thesis
        using False Cons.IH [of s'] Cons.prems by (auto simp: long_name_matches_def)
    qed
  qed
qed

end
