(* ===== verification/Fatfind.thy ===== *)
theory Fatfind
  imports Fatdir
begin

text \<open>
  Correctness of \<open>vfat_find_entry\<close> (\<open>libcore/fs/fat/fat.c\<close>).  The loops over sectors and entries
  are one scan over the directory's entries; an invariant ties the locals of the scan to the group of
  long-name entries just behind it; the sectors of the directory come from the cached allocation table.
\<close>

section \<open>The search as a scan of the directory's entries\<close>

text \<open>An entry in its two views, the entries of a sector, and the search as one scan over them.\<close>

type_synonym dir_view = "fat_dir_entry \<times> fat_long_name_entry"

definition entry_at :: "bytes \<Rightarrow> nat \<Rightarrow> dir_view" where
  "entry_at bs off = (the (dir_entry bs off), the (long_name_entry bs off))"

definition sector_entries :: "nat \<Rightarrow> bytes \<Rightarrow> dir_view list" where
  "sector_entries n bs = map (\<lambda>i. entry_at bs (32 * i)) [0..<n]"

definition end_mark :: "dir_view \<Rightarrow> bool" where
  "end_mark v \<longleftrightarrow> de_name (fst v) ! 0 = 0"

definition is_long :: "dir_view \<Rightarrow> bool" where
  "is_long v \<longleftrightarrow> de_attr (fst v) = 0x0f"

definition well_formed :: "dir_view \<Rightarrow> bool" where
  "well_formed v \<longleftrightarrow> length (de_name (fst v)) = 11 \<and> le_id (snd v) = de_name (fst v) ! 0 \<and>
     length (name1 (snd v)) = 5 \<and> length (name2 (snd v)) = 6 \<and> length (name3 (snd v)) = 2"

definition scan_step :: "codepage \<Rightarrow> bytes \<Rightarrow> bytes \<Rightarrow> u8 \<Rightarrow> find_state \<Rightarrow> dir_view \<Rightarrow> find_result option" where
  "scan_step cp dname mangled_name vfat_init st v =
     (if end_mark v then Some Dir_end
      else if is_long v then find_long cp dname vfat_init st (snd v)
      else find_short mangled_name vfat_init st (fst v))"

primrec scan :: "codepage \<Rightarrow> bytes \<Rightarrow> bytes \<Rightarrow> u8 \<Rightarrow> dir_view list \<Rightarrow> find_state \<Rightarrow> find_result option" where
  "scan cp dname mangled_name vfat_init [] st = Some (Next_entry st)"
| "scan cp dname mangled_name vfat_init (v # vs) st =
     do { r \<leftarrow> scan_step cp dname mangled_name vfat_init st v;
          case r of Next_entry st \<Rightarrow> scan cp dname mangled_name vfat_init vs st | _ \<Rightarrow> Some r }"

lemma rd16s_in: "off + 2 * n \<le> length bs \<Longrightarrow> \<exists>xs. rd16s bs off n = Some xs \<and> length xs = n"
proof (induction n arbitrary: off)
  case (Suc n)
  obtain xs where "rd16s bs (off + 2) n = Some xs" "length xs = n"
    using Suc.IH [of "off + 2"] Suc.prems by auto
  then show ?case using Suc.prems by (simp add: rd16_in)
qed simp

lemma entry_at_views:
  assumes "off + 32 \<le> length bs"
  shows "dir_entry bs off = Some (fst (entry_at bs off))" "long_name_entry bs off = Some (snd (entry_at bs off))"
    "well_formed (entry_at bs off)"
proof -
  obtain n1 where n1: "rd16s bs (off + 1) 5 = Some n1" "length n1 = 5"
    using rd16s_in [of "off + 1" 5 bs] assms by auto
  obtain n2 where n2: "rd16s bs (off + 14) 6 = Some n2" "length n2 = 6"
    using rd16s_in [of "off + 14" 6 bs] assms by auto
  obtain n3 where n3: "rd16s bs (off + 28) 2 = Some n3" "length n3 = 2"
    using rd16s_in [of "off + 28" 2 bs] assms by auto
  obtain de where de: "dir_entry bs off = Some de" "length (de_name de) = 11" "de_name de ! 0 = bs ! off"
    using assms by (simp add: dir_entry_def rd16_in rd32_in)
  obtain le where le: "long_name_entry bs off = Some le" "le_id le = bs ! off" "name1 le = n1" "name2 le = n2" "name3 le = n3"
    using assms n1 n2 n3 by (simp add: long_name_entry_def)
  show "dir_entry bs off = Some (fst (entry_at bs off))" "long_name_entry bs off = Some (snd (entry_at bs off))"
    "well_formed (entry_at bs off)"
    using de le n1 n2 n3 by (simp_all add: entry_at_def well_formed_def)
qed

lemma find_step_scan:
  "off + 32 \<le> length bs \<Longrightarrow>
   find_step cp dname mangled_name vfat_init st bs off = scan_step cp dname mangled_name vfat_init st (entry_at bs off)"
  by (simp add: find_step_def scan_step_def entry_at_views end_mark_def is_long_def)

lemma find_in_sector_scan:
  "off + 32 * n \<le> length bs \<Longrightarrow> find_in_sector cp dname mangled_name vfat_init bs n st off =
     scan cp dname mangled_name vfat_init (map (\<lambda>i. entry_at bs (off + 32 * i)) [0..<n]) st"
proof (induction n arbitrary: st off)
  case (Suc n)
  have u: "map (\<lambda>i. entry_at bs (off + 32 * i)) [0..<Suc n] =
      entry_at bs off # map (\<lambda>i. entry_at bs ((off + 32) + 32 * i)) [0..<n]"
    by (simp add: upt_conv_Cons map_Suc_upt [symmetric] del: upt_Suc) (simp add: algebra_simps)
  have IH: "find_in_sector cp dname mangled_name vfat_init bs n s (off + 32) =
      scan cp dname mangled_name vfat_init (map (\<lambda>i. entry_at bs ((off + 32) + 32 * i)) [0..<n]) s" for s
    by (rule Suc.IH) (use Suc.prems in simp)
  have "find_step cp dname mangled_name vfat_init st bs off = scan_step cp dname mangled_name vfat_init st (entry_at bs off)"
    by (rule find_step_scan) (use Suc.prems in simp)
  then show ?case
    unfolding u by (simp only: find_in_sector.simps scan.simps IH)
qed simp

lemma scan_append:
  "scan cp dname mangled_name vfat_init (vs @ ws) st =
     do { r \<leftarrow> scan cp dname mangled_name vfat_init vs st;
          case r of Next_entry st \<Rightarrow> scan cp dname mangled_name vfat_init ws st | _ \<Rightarrow> Some r }"
proof (induction vs arbitrary: st)
  case (Cons v vs)
  then show ?case
    by (cases "scan_step cp dname mangled_name vfat_init st v") (auto split: find_result.splits)
qed simp

section \<open>Groups of long-name entries\<close>

text \<open>
  The \<open>n\<close> entries that start a group for a name of \<open>slots\<close> parts: ordinals downwards from \<open>slots\<close>, the
  first one marked, all with the checksum \<open>ck\<close>.  A whole group has \<open>slots\<close> entries; the name it spells is
  read from the last entry to the first.
\<close>

definition group_part :: "nat \<Rightarrow> u8 \<Rightarrow> dir_view list \<Rightarrow> bool" where
  "group_part slots ck g \<longleftrightarrow> length g \<le> slots \<and>
     (\<forall>j<length g. is_long (g ! j) \<and> \<not> end_mark (g ! j) \<and> le_checksum (snd (g ! j)) = ck \<and>
        le_id (snd (g ! j)) = (if j = 0 then of_nat slots OR 0x40 else of_nat (slots - j)))"

definition chunk :: "dir_view \<Rightarrow> u16 list" where
  "chunk v = name1 (snd v) @ name2 (snd v) @ name3 (snd v)"

definition group_name :: "dir_view list \<Rightarrow> u16 list" where
  "group_name g = concat (map chunk (rev g))"

text \<open>What \<open>long_name\<close> holds when the entries \<open>g\<close> have been copied.\<close>

definition group_buf :: "nat \<Rightarrow> dir_view list \<Rightarrow> u16 list" where
  "group_buf slots g = replicate (13 * (slots - length g)) 0 @ group_name g @ replicate (260 - 13 * slots) 0"

lemma length_chunk: "well_formed v \<Longrightarrow> length (chunk v) = 13"
  by (simp add: well_formed_def chunk_def)

lemma length_group_name: "\<forall>v\<in>set g. well_formed v \<Longrightarrow> length (group_name g) = 13 * length g"
  by (induction g) (simp_all add: group_name_def length_chunk)

lemma length_group_buf:
  "\<forall>v\<in>set g. well_formed v \<Longrightarrow> length g \<le> slots \<Longrightarrow> slots \<le> 20 \<Longrightarrow> length (group_buf slots g) = 260"
  by (simp add: group_buf_def length_group_name)

lemma copy_long_chunk_value:
  assumes "well_formed v" "off + 13 \<le> length buf"
  shows "copy_long_chunk buf off (snd v) = Some (take off buf @ chunk v @ drop (off + 13) buf)"
proof -
  let ?n1 = "name1 (snd v)" and ?n2 = "name2 (snd v)" and ?n3 = "name3 (snd v)"
  have l: "length ?n1 = 5" "length ?n2 = 6" "length ?n3 = 2" using assms(1) by (simp_all add: well_formed_def)
  have 1: "wr_range buf off ?n1 = Some (take off buf @ ?n1 @ drop (off + 5) buf)"
    using assms(2) l by (simp add: wr_range_def)
  have 2: "wr_range (take off buf @ ?n1 @ drop (off + 5) buf) (off + 5) ?n2 =
      Some ((take off buf @ ?n1) @ ?n2 @ drop (off + 11) buf)"
    using assms(2) l by (simp add: wr_range_def add.commute)
  have 3: "wr_range ((take off buf @ ?n1) @ ?n2 @ drop (off + 11) buf) (off + 11) ?n3 =
      Some (take off buf @ ?n1 @ ?n2 @ ?n3 @ drop (off + 13) buf)"
    using assms(2) l by (simp add: wr_range_def add.commute)
  show ?thesis unfolding copy_long_chunk_def 1 by (simp add: 2 3 [simplified] chunk_def)
qed

lemma group_buf_add:
  assumes "\<forall>v\<in>set (g @ [v]). well_formed v" "length g < slots" "slots \<le> 20"
  shows "copy_long_chunk (group_buf slots g) (13 * (slots - Suc (length g))) (snd v) = Some (group_buf slots (g @ [v]))"
proof -
  let ?o = "13 * (slots - Suc (length g))"
  have s: "13 * (slots - length g) = ?o + 13" using assms(2) by simp
  have "group_buf slots g = replicate ?o 0 @ replicate 13 0 @ group_name g @ replicate (260 - 13 * slots) 0"
    by (simp only: group_buf_def s replicate_add append_assoc)
  moreover have "?o + 13 \<le> length (group_buf slots g)"
    using length_group_buf [of g slots] assms by simp
  ultimately show ?thesis
    using assms(1) by (subst copy_long_chunk_value) (simp_all add: group_buf_def group_name_def)
qed


section \<open>The invariant of the search\<close>

text \<open>The search for the string \<open>s\<close> of \<open>slots\<close> parts, with its first expected ordinal.\<close>

definition search_setup :: "codepage \<Rightarrow> bytes \<Rightarrow> bytes \<Rightarrow> bytes \<Rightarrow> nat \<Rightarrow> bool" where
  "search_setup cp dname s mangled_name slots \<longleftrightarrow> nul_faithful cp \<and> (\<exists>t. dname = s @ 0 # t) \<and> 0 \<notin> set s \<and>
     slots \<in> {1..20} \<and> 11 \<le> length mangled_name"

abbreviation first_ordinal :: "nat \<Rightarrow> u8" where
  "first_ordinal slots \<equiv> of_nat slots OR 0x40"

definition in_group :: "codepage \<Rightarrow> bytes \<Rightarrow> nat \<Rightarrow> dir_view list \<Rightarrow> find_state \<Rightarrow> bool" where
  "in_group cp s slots g st \<longleftrightarrow> g \<noteq> [] \<and> group_part slots (vfat_csum st) g \<and>
     vfat_next st = of_nat (slots - length g) \<and> long_name st = group_buf slots g \<and>
     long_len st = slots * 13 \<and> (long_match st \<longleftrightarrow> length g = slots) \<and>
     (length g = slots \<longrightarrow> long_name_matches cp s (group_name g))"

definition out_of_group :: "nat \<Rightarrow> find_state \<Rightarrow> bool" where
  "out_of_group slots st \<longleftrightarrow> vfat_next st = first_ordinal slots \<and> \<not> long_match st"

text \<open>A run of entries at the end of \<open>pre\<close> that is cut off from earlier groups.\<close>

definition delimited :: "dir_view list \<Rightarrow> dir_view list \<Rightarrow> bool" where
  "delimited pre g \<longleftrightarrow> (\<exists>p. pre = p @ g \<and> (p = [] \<or> \<not> is_long (last p)))"

definition find_inv :: "codepage \<Rightarrow> bytes \<Rightarrow> nat \<Rightarrow> dir_view list \<Rightarrow> find_state \<Rightarrow> bool" where
  "find_inv cp s slots pre st \<longleftrightarrow> length (long_name st) = 260 \<and>
     (out_of_group slots st \<or> (\<exists>p g. pre = p @ g \<and> in_group cp s slots g st)) \<and>
     (\<forall>g ck. delimited pre g \<and> group_part slots ck g \<longrightarrow>
        (if g = [] then out_of_group slots st
         else if length g < slots then in_group cp s slots g st \<and> vfat_csum st = ck
         else long_name_matches cp s (group_name g) \<longrightarrow> in_group cp s slots g st \<and> vfat_csum st = ck))"

lemma ordinal_bits:
  assumes "slots \<in> {1..20}"
  shows "first_ordinal slots AND 0x40 \<noteq> 0" "first_ordinal slots AND 0x3f = of_nat slots"
    "k < 20 \<Longrightarrow> (of_nat k :: u8) AND 0x40 = 0"
proof -
  have "\<forall>n\<in>set [1..<21]. first_ordinal n AND 0x40 \<noteq> 0 \<and> first_ordinal n AND 0x3f = of_nat n"
    by code_simp
  then show "first_ordinal slots AND 0x40 \<noteq> 0" "first_ordinal slots AND 0x3f = of_nat slots"
    using assms by auto
  have "\<forall>n\<in>set [0..<20]. (of_nat n :: u8) AND 0x40 = 0" by code_simp
  then show "k < 20 \<Longrightarrow> (of_nat k :: u8) AND 0x40 = 0" by simp
qed

lemma unat_ordinal: "k \<le> 20 \<Longrightarrow> unat (of_nat k :: u8) = k"
  by (rule unat_of_nat_small) simp

lemma group_part_butlast: "group_part slots ck (g @ [v]) \<Longrightarrow> group_part slots ck g"
  by (auto simp: group_part_def nth_append split: if_splits)

lemma group_part_last:
  "group_part slots ck (g @ [v]) \<Longrightarrow> is_long v \<and> le_checksum (snd v) = ck \<and> length g < slots \<and>
     le_id (snd v) = (if g = [] then first_ordinal slots else of_nat (slots - length g))"
  by (auto simp: group_part_def dest!: spec [where x = "length g"])

lemma group_part_add:
  "group_part slots ck g \<Longrightarrow> length g < slots \<Longrightarrow> is_long v \<Longrightarrow> \<not> end_mark v \<Longrightarrow> le_checksum (snd v) = ck \<Longrightarrow>
   le_id (snd v) = (if g = [] then first_ordinal slots else of_nat (slots - length g)) \<Longrightarrow> group_part slots ck (g @ [v])"
  by (auto simp: group_part_def nth_append less_Suc_eq)

lemma group_part_nil [simp]: "group_part slots ck []"
  by (simp add: group_part_def)

lemma group_part_same_length:
  assumes "group_part slots ck (g @ [v])" "group_part slots ck' (h @ [v])" "slots \<in> {1..20}"
  shows "length g = length h"
proof -
  note g = group_part_last [OF assms(1)] and h = group_part_last [OF assms(2)]
  have ne: "first_ordinal slots \<noteq> of_nat k" if "k < 20" for k
    using ordinal_bits(1) [OF assms(3)] ordinal_bits(3) [OF assms(3) that] by metis
  have small: "slots - length xs < 20" if "xs \<noteq> []" for xs :: "dir_view list"
    using that assms(3) by (cases xs) auto
  have "g = [] \<longleftrightarrow> h = []"
    using g h ne small by metis
  moreover have "length g = length h" if "g \<noteq> []" "h \<noteq> []"
  proof -
    have "(of_nat (slots - length g) :: u8) = of_nat (slots - length h)" using g h that by metis
    moreover have "slots - n \<le> 20" for n using assms(3) by (simp add: le_diff_conv)
    ultimately have "slots - length g = slots - length h" by (metis unat_ordinal)
    then show ?thesis using g h by linarith
  qed
  ultimately show ?thesis by (cases "g = []") auto
qed

lemma delimited_snoc: "delimited (pre @ [v]) g \<Longrightarrow> (g = [] \<and> \<not> is_long v) \<or> (\<exists>g'. g = g' @ [v] \<and> delimited pre g')"
  by (cases g rule: rev_cases) (auto simp: delimited_def)

lemma find_inv_length: "find_inv cp s slots pre st \<Longrightarrow> length (long_name st) = 260"
  by (simp add: find_inv_def)

lemma find_inv_cases:
  assumes "find_inv cp s slots pre st"
  obtains "out_of_group slots st" | p g where "pre = p @ g" "in_group cp s slots g st"
  using assms by (auto simp: find_inv_def)

text \<open>Which value the ordinal expected next has when a delimited run can still grow.\<close>

lemma find_inv_expects:
  assumes "find_inv cp s slots pre st" "delimited pre g" "group_part slots ck (g @ [v])"
  shows "vfat_next st = le_id (snd v)" "g \<noteq> [] \<Longrightarrow> vfat_csum st = le_checksum (snd v) \<and> in_group cp s slots g st"
proof -
  note l = group_part_last [OF assms(3)]
  have "if g = [] then out_of_group slots st else in_group cp s slots g st \<and> vfat_csum st = ck"
    using assms(1,2) group_part_butlast [OF assms(3)] l by (auto simp: find_inv_def split: if_splits)
  then show "vfat_next st = le_id (snd v)" "g \<noteq> [] \<Longrightarrow> vfat_csum st = le_checksum (snd v) \<and> in_group cp s slots g st"
    using l by (auto simp: out_of_group_def in_group_def split: if_splits)
qed

text \<open>After an entry that does not belong to the group the search is out of groups again.\<close>

lemma find_inv_reset:
  assumes "length (long_name st') = 260" "out_of_group slots st'"
    "\<And>g ck. delimited pre g \<Longrightarrow> group_part slots ck (g @ [v]) \<Longrightarrow>
       length g + 1 = slots \<and> \<not> long_name_matches cp s (group_name (g @ [v]))"
  shows "find_inv cp s slots (pre @ [v]) st'"
proof -
  have "if g = [] then out_of_group slots st'
         else if length g < slots then in_group cp s slots g st' \<and> vfat_csum st' = ck
         else long_name_matches cp s (group_name g) \<longrightarrow> in_group cp s slots g st' \<and> vfat_csum st' = ck"
    if g: "delimited (pre @ [v]) g" "group_part slots ck g" for g ck
    using delimited_snoc [OF g(1)]
  proof
    assume "\<exists>g'. g = g' @ [v] \<and> delimited pre g'"
    then obtain g' where g': "g = g' @ [v]" "delimited pre g'" by auto
    show ?thesis using assms(3) [OF g'(2), of ck] g(2) by (auto simp: g'(1))
  qed (use assms(2) in simp)
  then show ?thesis using assms(1,2) unfolding find_inv_def by blast
qed

lemma find_inv_not_match:
  assumes "length (long_name st) = 260"
    "\<And>g ck. delimited pre g \<Longrightarrow> group_part slots ck (g @ [v]) \<Longrightarrow>
       length g + 1 = slots \<and> \<not> long_name_matches cp s (group_name (g @ [v]))"
  shows "\<exists>st'. find_not_match (first_ordinal slots) st = Next_entry st' \<and> find_inv cp s slots (pre @ [v]) st'"
proof -
  have "find_inv cp s slots (pre @ [v]) (st\<lparr>vfat_next := first_ordinal slots, long_match := False\<rparr>)"
    by (rule find_inv_reset) (use assms in \<open>simp_all add: out_of_group_def\<close>)
  then show ?thesis by (simp add: find_not_match_def)
qed

lemma find_inv_enter:
  assumes "pre = p @ g" "in_group cp s slots (g @ [v]) st'" "\<forall>v\<in>set (g @ [v]). well_formed v" "slots \<in> {1..20}"
  shows "find_inv cp s slots (pre @ [v]) st'"
proof -
  let ?g = "g @ [v]"
  have ig: "group_part slots (vfat_csum st') ?g" "long_name st' = group_buf slots ?g"
    using assms(2) by (simp_all add: in_group_def)
  have l: "length (long_name st') = 260"
    unfolding ig(2) using ig(1) assms(3,4) by (intro length_group_buf) (simp_all add: group_part_def)
  have "if h = [] then out_of_group slots st'
         else if length h < slots then in_group cp s slots h st' \<and> vfat_csum st' = ck
         else long_name_matches cp s (group_name h) \<longrightarrow> in_group cp s slots h st' \<and> vfat_csum st' = ck"
    if h: "delimited (pre @ [v]) h" "group_part slots ck h" for h ck
  proof -
    have v: "is_long v" "le_checksum (snd v) = vfat_csum st'" using group_part_last [OF ig(1)] by auto
    obtain h' where h': "h = h' @ [v]" "delimited pre h'" using delimited_snoc [OF h(1)] v by auto
    have "length h' = length g"
      by (rule group_part_same_length [OF h(2) [unfolded h'(1)] ig(1) assms(4)])
    then have "h = ?g" using h' assms(1) by (auto simp: delimited_def)
    moreover have "vfat_csum st' = ck" using group_part_last [of slots ck h' v] h(2) v by (simp add: h'(1))
    ultimately show ?thesis using assms(2) by auto
  qed
  then show ?thesis using l assms(1,2) unfolding find_inv_def by (metis append.assoc)
qed


lemma first_ordinal_fresh:
  assumes "in_group cp s slots g st" "slots \<in> {1..20}"
  shows "vfat_next st AND 0x40 = 0"
proof -
  have "slots - length g < 20" using assms by (cases g) (auto simp: in_group_def)
  then show ?thesis using ordinal_bits(3) [OF assms(2)] assms(1) by (simp add: in_group_def)
qed

text \<open>The end of the handling of a long entry that continues the group \<open>g\<close>.\<close>

definition group_step :: "codepage \<Rightarrow> bytes \<Rightarrow> u8 \<Rightarrow> find_state \<Rightarrow> u8 \<Rightarrow> fat_long_name_entry \<Rightarrow> find_result option" where
  "group_step cp dname vfat_init st i le =
     do { ln \<leftarrow> copy_long_chunk (long_name st) (unat i * 13) le;
          let st = st\<lparr>long_name := ln\<rparr>;
          if i = 0
          then do { eq \<leftarrow> vfat_match_longname cp dname ln (long_len st);
                    if eq then Some (Next_entry (st\<lparr>long_match := True\<rparr>))
                    else Some (find_not_match vfat_init st) }
          else Some (Next_entry st) }"

lemma find_long_skip:
  "le_id le \<noteq> vfat_next st \<or> (le_id le AND 0x40 = 0 \<and> le_checksum le \<noteq> vfat_csum st) \<Longrightarrow>
   find_long cp dname vfat_init st le = Some (find_not_match vfat_init st)"
  by (auto simp: find_long_def Let_def)

lemma find_long_first:
  "le_id le = vfat_next st \<Longrightarrow> le_id le AND 0x40 \<noteq> 0 \<Longrightarrow> find_long cp dname vfat_init st le =
     group_step cp dname vfat_init (st\<lparr>vfat_csum := le_checksum le, long_len := unat (le_id le AND 0x3f) * 13,
       long_name := replicate (length (long_name st)) 0, vfat_next := (le_id le AND 0x3f) - 1\<rparr>)
       ((le_id le AND 0x3f) - 1) le"
  by (simp only: find_long_def group_step_def Let_def simp_thms if_True if_False)

lemma find_long_next:
  "le_id le = vfat_next st \<Longrightarrow> le_id le AND 0x40 = 0 \<Longrightarrow> le_checksum le = vfat_csum st \<Longrightarrow>
   find_long cp dname vfat_init st le =
     group_step cp dname vfat_init (st\<lparr>vfat_next := le_id le - 1\<rparr>) (le_id le - 1) le"
  by (simp only: find_long_def group_step_def Let_def simp_thms if_True if_False)

lemma find_long_enters:
  assumes S: "search_setup cp dname s mangled_name slots" and g: "pre = p @ g" "group_part slots ck (g @ [v])"
    and wf: "\<forall>v\<in>set (g @ [v]). well_formed v"
    and st: "vfat_csum st = ck" "long_name st = group_buf slots g" "long_len st = slots * 13"
      "i = of_nat (slots - Suc (length g))" "vfat_next st = i" "\<not> long_match st" 
  shows "\<exists>st'. group_step cp dname (first_ordinal slots) st i (snd v) = Some (Next_entry st') \<and> find_inv cp s slots (pre @ [v]) st'"
proof -
  note l = group_part_last [OF g(2)]
  have sl: "slots \<in> {1..20}" "nul_faithful cp" "0 \<notin> set s" using S by (simp_all add: search_setup_def)
  obtain t where t: "dname = s @ 0 # t" using S by (auto simp: search_setup_def)
  let ?k = "slots - Suc (length g)" and ?b = "group_buf slots (g @ [v])"
  have i: "unat i = ?k" unfolding st(4) by (rule unat_ordinal) (use sl(1) in simp, linarith)
  have c: "copy_long_chunk (long_name st) (unat i * 13) (snd v) = Some ?b"
    using group_buf_add [OF wf, of slots] l sl by (simp add: st(2) i mult.commute)
  have lb: "length ?b = 260" by (rule length_group_buf) (use wf l sl in auto)
  show ?thesis
  proof (cases "i = 0")
    case False
    then have k: "?k \<noteq> 0" using i by (metis unsigned_eq_0_iff)
    have "in_group cp s slots (g @ [v]) (st\<lparr>long_name := ?b\<rparr>)"
      using st g(2) k l by (simp add: in_group_def)
    then have "find_inv cp s slots (pre @ [v]) (st\<lparr>long_name := ?b\<rparr>)"
      by (rule find_inv_enter [OF g(1) _ wf sl(1)])
    then show ?thesis using False by (simp add: group_step_def c)
  next
    case True
    then have k: "length (g @ [v]) = slots" using i l by simp
    have c0: "copy_long_chunk (long_name st) 0 (snd v) = Some ?b" using c True by simp
    have n: "length (group_name (g @ [v])) = slots * 13"
      using length_group_name [OF wf] by (simp add: k [simplified] mult.commute)
    have m: "vfat_match_longname cp dname ?b (slots * 13) = Some (long_name_matches cp s (group_name (g @ [v])))"
      using match_longname_value [OF sl(2,3), of t "group_name (g @ [v])"] n by (simp add: t group_buf_def k [simplified])
    show ?thesis
    proof (cases "long_name_matches cp s (group_name (g @ [v]))")
      case M: True
      have "in_group cp s slots (g @ [v]) (st\<lparr>long_name := ?b, long_match := True\<rparr>)"
        using st g(2) k l M True by (simp add: in_group_def)
      then have "find_inv cp s slots (pre @ [v]) (st\<lparr>long_name := ?b, long_match := True\<rparr>)"
        by (rule find_inv_enter [OF g(1) _ wf sl(1)])
      then show ?thesis using True M by (simp add: group_step_def c0 m st(3))
    next
      case M: False
      have "\<exists>st'. find_not_match (first_ordinal slots) (st\<lparr>long_name := ?b\<rparr>) = Next_entry st' \<and> find_inv cp s slots (pre @ [v]) st'"
      proof (rule find_inv_not_match)
        fix h ck' assume h: "delimited pre h" "group_part slots ck' (h @ [v])"
        have "length h = length g" by (rule group_part_same_length [OF h(2) g(2) sl(1)])
        then have "h = g" using h(1) g(1) by (auto simp: delimited_def)
        then show "length h + 1 = slots \<and> \<not> long_name_matches cp s (group_name (h @ [v]))" using k M by simp
      qed (simp add: lb)
      then show ?thesis using True M by (auto simp: group_step_def c0 m st(3))
    qed
  qed
qed

lemma find_long_inv:
  assumes S: "search_setup cp dname s mangled_name slots" and I: "find_inv cp s slots pre st"
    and v: "is_long v" "\<not> end_mark v" and wf: "\<forall>v\<in>set (pre @ [v]). well_formed v"
  shows "\<exists>st'. find_long cp dname (first_ordinal slots) st (snd v) = Some (Next_entry st') \<and> find_inv cp s slots (pre @ [v]) st'"
proof -
  have sl: "slots \<in> {1..20}" using S by (simp add: search_setup_def)
  let ?i = "le_id (snd v)" and ?ck = "le_checksum (snd v)"
  have skip: "\<exists>st'. find_not_match (first_ordinal slots) st = Next_entry st' \<and> find_inv cp s slots (pre @ [v]) st'"
    if "?i \<noteq> vfat_next st \<or> (?i AND 0x40 = 0 \<and> ?ck \<noteq> vfat_csum st)"
  proof (rule find_inv_not_match [OF find_inv_length [OF I]])
    fix h ck assume h: "delimited pre h" "group_part slots ck (h @ [v])"
    have "vfat_next st = ?i" by (rule find_inv_expects(1) [OF I h])
    then have "h \<noteq> []" "?ck \<noteq> vfat_csum st"
      using that group_part_last [OF h(2)] ordinal_bits(1) [OF sl] by auto
    then show "length h + 1 = slots \<and> \<not> long_name_matches cp s (group_name (h @ [v]))"
      using find_inv_expects(2) [OF I h] by simp
  qed
  consider "?i \<noteq> vfat_next st \<or> (?i AND 0x40 = 0 \<and> ?ck \<noteq> vfat_csum st)"
    | "?i = vfat_next st" "?i AND 0x40 \<noteq> 0" | "?i = vfat_next st" "?i AND 0x40 = 0" "?ck = vfat_csum st" by auto
  then show ?thesis
  proof cases
    case 1
    then show ?thesis using skip by (auto simp: find_long_skip)
  next
    case 2
    from I have o: "out_of_group slots st"
    proof (cases rule: find_inv_cases)
      case (2 p g)
      then show ?thesis using first_ordinal_fresh [OF 2(2) sl] \<open>?i = vfat_next st\<close> \<open>?i AND 0x40 \<noteq> 0\<close> by simp
    qed
    then have i: "?i = first_ordinal slots" using 2 by (simp add: out_of_group_def)
    let ?j = "of_nat (slots - Suc 0) :: u8"
    let ?st = "st\<lparr>vfat_csum := ?ck, long_len := slots * 13, long_name := group_buf slots [], vfat_next := ?j\<rparr>"
    have gv: "group_part slots ?ck ([] @ [v])"
      using v i sl by (intro group_part_add) auto
    have e: "\<exists>st'. group_step cp dname (first_ordinal slots) ?st ?j (snd v) = Some (Next_entry st') \<and> find_inv cp s slots (pre @ [v]) st'"
      by (rule find_long_enters [OF S _ gv, of pre pre]) (use wf o in \<open>simp_all add: out_of_group_def\<close>)
    have a: "?i AND 0x3f = of_nat slots" using ordinal_bits(2) [OF sl] by (simp add: i)
    have b: "unat (?i AND 0x3f) = slots" using sl unat_ordinal [of slots] a by simp
    have c: "(?i AND 0x3f) - 1 = ?j" using a sl by (simp add: of_nat_diff)
    have d: "group_buf slots [] = replicate (length (long_name st)) 0"
      using sl find_inv_length [OF I] by (simp add: group_buf_def group_name_def flip: replicate_add)
    have "find_long cp dname (first_ordinal slots) st (snd v) = group_step cp dname (first_ordinal slots) ?st ?j (snd v)"
      by (simp only: find_long_first [OF 2] b c d)
    then show ?thesis using e by (simp only:)
  next
    case 3
    from I obtain p g where g: "pre = p @ g" "in_group cp s slots g st"
    proof (cases rule: find_inv_cases)
      case 1
      then show ?thesis using ordinal_bits(1) [OF sl] 3 by (simp add: out_of_group_def)
    qed blast
    have G: "group_part slots ?ck g" "?i = of_nat (slots - length g)" "long_name st = group_buf slots g"
      "long_len st = slots * 13" "long_match st \<longleftrightarrow> length g = slots" "g \<noteq> []"
      using g(2) 3 by (simp_all add: in_group_def del: of_nat_diff)
    have n0: "?i \<noteq> 0" using v(2) wf by (simp add: end_mark_def well_formed_def)
    have "slots - length g \<noteq> 0"
    proof
      assume z: "slots - length g = 0"
      have "?i = of_nat 0" using G(2) unfolding z .
      then show False using n0 by simp
    qed
    then have lt: "length g < slots" by simp
    let ?j = "of_nat (slots - Suc (length g)) :: u8"
    have j: "?i - 1 = ?j" unfolding G(2) using lt by (simp add: of_nat_diff)
    have gv: "group_part slots ?ck (g @ [v])"
      by (rule group_part_add [OF G(1) lt v refl]) (use G in simp)
    have "\<exists>st'. group_step cp dname (first_ordinal slots) (st\<lparr>vfat_next := ?j\<rparr>) ?j (snd v) = Some (Next_entry st')
        \<and> find_inv cp s slots (pre @ [v]) st'"
      by (rule find_long_enters [OF S g(1) gv]) (use wf g(1) G(3-5) lt 3(3) in simp_all)
    then show ?thesis
      by (simp only: find_long_next [OF 3] j)
  qed
qed


section \<open>What the search finds\<close>

text \<open>
  An entry that can be a file or directory, and the two ways it is hit: by a complete group of long-name entries
  right before it that spells the name and carries its checksum, or by its short name.
\<close>

definition plain_entry :: "dir_view \<Rightarrow> bool" where
  "plain_entry v \<longleftrightarrow> \<not> end_mark v \<and> \<not> is_long v \<and> de_attr (fst v) AND 0x08 = 0"

definition long_hit :: "codepage \<Rightarrow> bytes \<Rightarrow> nat \<Rightarrow> dir_view list \<Rightarrow> dir_view \<Rightarrow> bool" where
  "long_hit cp s slots g v \<longleftrightarrow> length g = slots \<and> group_part slots (get_checksum (de_name (fst v))) g \<and>
     long_name_matches cp s (group_name g)"

definition short_hit :: "bytes \<Rightarrow> dir_view \<Rightarrow> bool" where
  "short_hit mangled_name v \<longleftrightarrow> take 11 mangled_name = de_name (fst v)"

text \<open>\<open>v\<close> behind the entries \<open>pre\<close> is an answer, and one that the search must not pass over.\<close>

definition hit :: "codepage \<Rightarrow> bytes \<Rightarrow> bytes \<Rightarrow> nat \<Rightarrow> dir_view list \<Rightarrow> dir_view \<Rightarrow> bool" where
  "hit cp s mangled_name slots pre v \<longleftrightarrow> plain_entry v \<and>
     (short_hit mangled_name v \<or> (\<exists>p g. pre = p @ g \<and> long_hit cp s slots g v))"

definition must_hit :: "codepage \<Rightarrow> bytes \<Rightarrow> bytes \<Rightarrow> nat \<Rightarrow> dir_view list \<Rightarrow> dir_view \<Rightarrow> bool" where
  "must_hit cp s mangled_name slots pre v \<longleftrightarrow> plain_entry v \<and>
     ((delimited pre [] \<and> short_hit mangled_name v) \<or> (\<exists>g. delimited pre g \<and> long_hit cp s slots g v))"

lemma find_short_inv:
  assumes S: "search_setup cp dname s mangled_name slots" and I: "find_inv cp s slots pre st"
    and v: "\<not> is_long v" "\<not> end_mark v" "well_formed v"
  shows "(\<exists>st'. find_short mangled_name (first_ordinal slots) st (fst v) = Some (Next_entry st') \<and>
      find_inv cp s slots (pre @ [v]) st' \<and> \<not> must_hit cp s mangled_name slots pre v) \<or>
    (find_short mangled_name (first_ordinal slots) st (fst v) = Some (Entry_found (fst v)) \<and> hit cp s mangled_name slots pre v)"
proof -
  have sl: "slots \<in> {1..20}" "11 \<le> length mangled_name" using S by (simp_all add: search_setup_def)
  have skip: "\<exists>st'. find_not_match (first_ordinal slots) st = Next_entry st' \<and> find_inv cp s slots (pre @ [v]) st'"
    by (rule find_inv_not_match [OF find_inv_length [OF I]]) (use v group_part_last in blast)
  have match: "long_match st \<and> vfat_csum st = ck"
    if "delimited pre g" "length g = slots" "group_part slots ck g" "long_name_matches cp s (group_name g)" for g ck
  proof -
    have "g \<noteq> []" using that(2) sl by auto
    then show ?thesis using I that unfolding find_inv_def in_group_def by (metis less_irrefl)
  qed
  have out: "\<not> long_match st" if "delimited pre []"
    using I that unfolding find_inv_def out_of_group_def by (metis group_part_nil)
  obtain c where c: "memcmp mangled_name (de_name (fst v)) 11 = Some c"
    using memcmp_defined [of 11 mangled_name "de_name (fst v)"] v(3) sl by (auto simp: well_formed_def)
  have c0: "c = 0 \<longleftrightarrow> short_hit mangled_name v"
    using memcmp_equal_iff [of 11 mangled_name "de_name (fst v)"] c v(3) sl by (auto simp: well_formed_def short_hit_def)
  consider "de_attr (fst v) AND 0x08 \<noteq> 0"
    | "plain_entry v" "long_match st" "get_checksum (de_name (fst v)) = vfat_csum st"
    | "plain_entry v" "long_match st" "get_checksum (de_name (fst v)) \<noteq> vfat_csum st"
    | "plain_entry v" "\<not> long_match st" "c = 0"
    | "plain_entry v" "\<not> long_match st" "c \<noteq> 0"
    using v by (auto simp: plain_entry_def)
  then show ?thesis
  proof cases
    case 1
    then show ?thesis using skip by (auto simp: find_short_def must_hit_def plain_entry_def)
  next
    case 2
    then obtain p g where "pre = p @ g" "in_group cp s slots g st"
      using find_inv_cases [OF I] out_of_group_def by metis
    then have "hit cp s mangled_name slots pre v" using 2 by (auto simp: hit_def long_hit_def in_group_def)
    then show ?thesis using 2 by (simp add: find_short_def plain_entry_def)
  next
    case 3
    then have "\<not> must_hit cp s mangled_name slots pre v" using match out by (auto simp: must_hit_def long_hit_def)
    then show ?thesis using 3 skip by (auto simp: find_short_def plain_entry_def)
  next
    case 4
    then show ?thesis using c c0 by (simp add: find_short_def hit_def plain_entry_def)
  next
    case 5
    then have "\<not> must_hit cp s mangled_name slots pre v" using match c0 by (auto simp: must_hit_def long_hit_def)
    then show ?thesis using 5 c skip by (auto simp: find_short_def plain_entry_def)
  qed
qed

text \<open>The entries before the end mark, and the scan of a whole directory.\<close>

definition live :: "dir_view list \<Rightarrow> dir_view list" where
  "live vs = takeWhile (\<lambda>v. \<not> end_mark v) vs"

fun found :: "find_result \<Rightarrow> fat_dir_entry option" where
  "found (Entry_found de) = Some de"
| "found _ = None"

lemma scan_correct:
  assumes S: "search_setup cp dname s mangled_name slots" and I: "find_inv cp s slots pre st"
    and wf: "\<forall>v\<in>set (pre @ vs). well_formed v"
  shows "\<exists>r. scan cp dname mangled_name (first_ordinal slots) vs st = Some r \<and>
    (case found r of
       None \<Rightarrow> \<forall>a v b. live vs = a @ v # b \<longrightarrow> \<not> must_hit cp s mangled_name slots (pre @ a) v
     | Some de \<Rightarrow> \<exists>a v b. live vs = a @ v # b \<and> de = fst v \<and> hit cp s mangled_name slots (pre @ a) v)"
  using I wf
proof (induction vs arbitrary: pre st)
  case Nil
  then show ?case by (simp add: live_def)
next
  case (Cons v vs)
  show ?case
  proof (cases "end_mark v")
    case True
    then show ?thesis by (simp add: scan_step_def live_def)
  next
    case False
    have l: "live (v # vs) = v # live vs" using False by (simp add: live_def)
    have go: ?thesis
      if st': "scan_step cp dname mangled_name (first_ordinal slots) st v = Some (Next_entry st')"
        "find_inv cp s slots (pre @ [v]) st'" "\<not> must_hit cp s mangled_name slots pre v" for st'
    proof -
      obtain r where r: "scan cp dname mangled_name (first_ordinal slots) vs st' = Some r"
        "case found r of
           None \<Rightarrow> \<forall>a w b. live vs = a @ w # b \<longrightarrow> \<not> must_hit cp s mangled_name slots ((pre @ [v]) @ a) w
         | Some de \<Rightarrow> \<exists>a w b. live vs = a @ w # b \<and> de = fst w \<and> hit cp s mangled_name slots ((pre @ [v]) @ a) w"
        using Cons.IH [OF st'(2)] Cons.prems(2) by auto
      have "case found r of
           None \<Rightarrow> \<forall>a w b. live (v # vs) = a @ w # b \<longrightarrow> \<not> must_hit cp s mangled_name slots (pre @ a) w
         | Some de \<Rightarrow> \<exists>a w b. live (v # vs) = a @ w # b \<and> de = fst w \<and> hit cp s mangled_name slots (pre @ a) w"
      proof (cases "found r")
        case None
        then have no: "\<And>a w b. live vs = a @ w # b \<Longrightarrow> \<not> must_hit cp s mangled_name slots (pre @ v # a) w"
          using r(2) by (simp add: split_paired_all)
        have "\<not> must_hit cp s mangled_name slots (pre @ a) w" if "v # live vs = a @ w # b" for a w b
          using that no st'(3) by (cases a) auto
        then show ?thesis by (simp add: None l)
      next
        case (Some de)
        then obtain a w b where "live vs = a @ w # b" "de = fst w" "hit cp s mangled_name slots ((pre @ [v]) @ a) w"
          using r(2) by auto
        then have "live (v # vs) = (v # a) @ w # b \<and> de = fst w \<and> hit cp s mangled_name slots (pre @ v # a) w"
          by (simp add: l)
        then show ?thesis unfolding Some option.case by blast
      qed
      then show ?thesis using st'(1) r(1) by simp
    qed
    show ?thesis
    proof (cases "is_long v")
      case True
      obtain st' where "find_long cp dname (first_ordinal slots) st (snd v) = Some (Next_entry st')"
          "find_inv cp s slots (pre @ [v]) st'"
        using find_long_inv [OF S Cons.prems(1) True False] Cons.prems(2) by auto
      then show ?thesis using go [of st'] True False by (simp add: scan_step_def must_hit_def plain_entry_def)
    next
      case short: False
      have "well_formed v" using Cons.prems(2) by simp
      from find_short_inv [OF S Cons.prems(1) short False this] show ?thesis
      proof (elim disjE exE conjE)
        fix st' assume "find_short mangled_name (first_ordinal slots) st (fst v) = Some (Next_entry st')"
          "find_inv cp s slots (pre @ [v]) st'" "\<not> must_hit cp s mangled_name slots pre v"
        then show ?thesis using go [of st'] short False by (simp add: scan_step_def)
      next
        assume "find_short mangled_name (first_ordinal slots) st (fst v) = Some (Entry_found (fst v))"
          "hit cp s mangled_name slots pre v"
        then have "live (v # vs) = [] @ v # live vs \<and> fst v = fst v \<and> hit cp s mangled_name slots (pre @ []) v"
          "scan cp dname mangled_name (first_ordinal slots) (v # vs) st = Some (Entry_found (fst v))"
          using short False l by (simp_all add: scan_step_def)
        then show ?thesis by (intro exI [where x = "Entry_found (fst v)"]) (simp only: found.simps option.case, blast)
      qed
    qed
  qed
qed

lemma find_inv_start:
  assumes "slots \<in> {1..20}" "length (long_name st) = 260" "out_of_group slots st"
  shows "find_inv cp s slots [] st"
  using assms by (auto simp: find_inv_def delimited_def)


section \<open>The sectors of a directory\<close>

text \<open>
  The sector behind sector \<open>n\<close> of a directory, 0 at its end: sequential in the fixed root directory
  before the data area and inside a cluster, along the allocation table otherwise.
\<close>

definition sector_after :: "(u64 \<Rightarrow> bytes) \<Rightarrow> u32 \<Rightarrow> fat_sb_info \<Rightarrow> nat \<Rightarrow> nat" where
  "sector_after sector secsz sbi n =
     (let d = unat (data sbi); k = 2 ^ clust_shift sbi in
      if n < d then (if n + 1 < d then n + 1 else 0)
      else if (n - d + 1) mod k \<noteq> 0 then n + 1
      else let c = fat_entry sector secsz sbi ((n - d) div k + 2) in
           if 2 \<le> c \<and> c < unat (clusters sbi) + 2 then d + (c - 2) * k else 0)"

fun sector_chain :: "(nat \<Rightarrow> nat) \<Rightarrow> nat \<Rightarrow> nat list \<Rightarrow> bool" where
  "sector_chain nx s [] \<longleftrightarrow> s = 0"
| "sector_chain nx s (n # ns) \<longleftrightarrow> s = n \<and> n \<noteq> 0 \<and> sector_chain nx (nx n) ns"

definition dir_entries :: "(u64 \<Rightarrow> bytes) \<Rightarrow> fs_info \<Rightarrow> nat list \<Rightarrow> dir_view list" where
  "dir_entries sector fs ns = concat (map (\<lambda>n. sector_entries (2 ^ (sector_shift fs - 5)) (sector (of_nat n))) ns)"

text \<open>A volume whose sectors can be numbered with 32 bits.\<close>

locale fat_tree = fat_volume +
  assumes entry_fits: "5 \<le> sector_shift fs"
    and mask: "clust_mask sbi = 2 ^ clust_shift sbi - 1" "clust_shift sbi < 8"
    and area: "unat (data sbi) + unat (clusters sbi) * 2 ^ clust_shift sbi \<le> nsec"
      "unat (data sbi) + (unat (clusters sbi) + 2) * 2 ^ clust_shift sbi < 2 ^ 32" "0 < unat (data sbi)"
    and table: "c < unat (clusters sbi) + 2 \<Longrightarrow> entry_in_volume c"
begin

definition valid_sector :: "nat \<Rightarrow> bool" where
  "valid_sector n \<longleftrightarrow> n < unat (data sbi) + unat (clusters sbi) * 2 ^ clust_shift sbi"

definition csize :: nat where
  "csize = 2 ^ clust_shift sbi"

lemma csize_pos [simp]: "0 < csize"
  by (simp add: csize_def)

lemma valid_bound: "valid_sector n \<Longrightarrow> n < 2 ^ 32 - 1 \<and> n < nsec"
  using area by (simp add: valid_sector_def)

lemma sector_word: "valid_sector n \<Longrightarrow> unat (of_nat n :: u64) = n \<and> unat (ucast (of_nat n :: u64) :: u32) = n"
  using valid_bound [of n] by (simp add: unat_of_nat_small unat_ucast_mod)

lemma next_in_cluster:
  assumes "valid_sector n" "unat (data sbi) \<le> n" "(n - unat (data sbi) + 1) mod csize \<noteq> 0"
  shows "valid_sector (n + 1)"
proof -
  let ?q = "n - unat (data sbi)"
  have "?q < unat (clusters sbi) * csize" using assms(1,2) by (simp add: valid_sector_def csize_def)
  moreover have "?q + 1 \<noteq> unat (clusters sbi) * csize" using assms(3) by auto
  ultimately show ?thesis using assms(2) by (simp add: valid_sector_def csize_def)
qed

lemma next_cluster_start:
  assumes "2 \<le> c" "c < unat (clusters sbi) + 2"
  shows "valid_sector (unat (data sbi) + (c - 2) * csize)"
  using assms by (simp add: valid_sector_def csize_def)

lemma sector_after_valid:
  assumes "valid_sector n"
  shows "sector_after sector secsz sbi n = 0 \<or> valid_sector (sector_after sector secsz sbi n)"
  using next_in_cluster [OF assms] next_cluster_start assms
  by (auto simp: sector_after_def Let_def csize_def [symmetric] valid_sector_def [of "Suc n"] not_less)

end


lemma mask_scast: "k < 8 \<Longrightarrow> (scast (2 ^ k - 1 :: 32 word) :: 64 word) = mask k"
proof -
  have "\<forall>k\<in>set [0..<8]. (scast (2 ^ k - 1 :: 32 word) :: 64 word) = mask k" by code_simp
  then show "k < 8 \<Longrightarrow> (scast (2 ^ k - 1 :: 32 word) :: 64 word) = mask k" by simp
qed

lemma word_eq_of_nat: "unat w = n \<Longrightarrow> w = of_nat n"
  by (auto simp: word_unat_eq_iff)

lemma cluster_start_word:
  assumes "unat (p :: u32) = e" "unat (d :: u64) + e * 2 ^ k < 2 ^ 32"
  shows "ucast (ucast (ucast (push_bit k p) + d :: u64) :: u32) = (of_nat (unat d + e * 2 ^ k) :: u64)"
proof -
  have "unat (push_bit k p) = e * 2 ^ k" unfolding unat_push_bit assms(1) using assms(2) by simp
  then have "unat (ucast (push_bit k p) :: u64) = e * 2 ^ k" by (simp add: unat_ucast_up)
  then have s: "unat (ucast (push_bit k p) + d :: u64) = unat d + e * 2 ^ k"
    using assms(2) by (subst unat_add_no_wrap) simp_all
  then have "unat (ucast (ucast (push_bit k p) + d :: u64) :: u32) = unat d + e * 2 ^ k"
    using assms(2) by (simp only: unat_ucast_mod) simp
  then show ?thesis by (intro word_eq_of_nat) (simp only: unat_ucast_mod, simp)
qed

context fat_tree begin

lemma get_next_sector_root:
  assumes "valid_sector n" "n < unat (data sbi)"
  shows "get_next_sector rdwr secsz fs sbi dev (of_nat n) = Some (dev, of_nat (sector_after sector secsz sbi n))"
proof -
  have n: "n + 1 < 2 ^ 32" using valid_bound [OF assms(1)] by simp
  have u: "unat (of_nat n :: u32) = n" "unat (of_nat n + 1 :: u32) = n + 1"
    using n by (simp_all add: unat_of_nat_small unat_add_no_wrap)
  then have c: "unat (ucast (of_nat n :: u32) :: u64) = n" "unat (ucast (of_nat n + 1 :: u32) :: u64) = n + 1"
    by (simp_all add: unat_ucast_up)
  show ?thesis
  proof (cases "n + 1 < unat (data sbi)")
    case True
    have "ucast (of_nat n + 1 :: u32) = (of_nat (n + 1) :: u64)" by (rule word_eq_of_nat [OF c(2)])
    then show ?thesis
      using True c assms(2) by (simp add: get_next_sector_def Let_def word_less_nat_alt word_le_nat_alt sector_after_def)
  next
    case False
    then show ?thesis
      using c assms(2) by (simp add: get_next_sector_def Let_def word_less_nat_alt word_le_nat_alt sector_after_def)
  qed
qed

lemma data_sector:
  assumes "valid_sector n" "unat (data sbi) \<le> n"
  shows "\<not> ucast (of_nat n :: u32) < data sbi" "unat (ucast (of_nat n :: u32) - data sbi :: u64) = n - unat (data sbi)"
proof -
  have n: "n + 1 < 2 ^ 32" using valid_bound [OF assms(1)] by simp
  have u: "unat (ucast (of_nat n :: u32) :: u64) = n"
    using n by (simp add: unat_of_nat_small unat_ucast_up)
  show "\<not> ucast (of_nat n :: u32) < data sbi" using u assms(2) by (simp add: word_less_nat_alt)
  show "unat (ucast (of_nat n :: u32) - data sbi :: u64) = n - unat (data sbi)"
    using u assms(2) by (subst unat_sub_no_wrap) (simp_all add: word_le_nat_alt)
qed

lemma in_cluster_test:
  assumes "unat (ds :: u64) = q" "q < 2 ^ 32"
  shows "(ds + 1) AND scast (clust_mask sbi) = 0 \<longleftrightarrow> (q + 1) mod csize = 0"
proof -
  have "unat (ds + 1) = q + 1" using assms by (simp add: unat_add_no_wrap)
  then have "unat ((ds + 1) AND mask (clust_shift sbi)) = (q + 1) mod csize"
    by (simp add: unat_mask_mod csize_def)
  moreover have "scast (clust_mask sbi) = (mask (clust_shift sbi) :: u64)"
    unfolding mask(1) by (rule mask_scast [OF mask(2)])
  ultimately show ?thesis by (metis unsigned_eq_0_iff)
qed

lemma get_next_sector_ok:
  assumes "cached dev" "valid_sector n"
  obtains dev' where
    "get_next_sector rdwr secsz fs sbi dev (of_nat n) = Some (dev', of_nat (sector_after sector secsz sbi n))" "cached dev'"
proof (cases "n < unat (data sbi)")
  case True
  then show ?thesis using get_next_sector_root [OF assms(2)] assms(1) that by blast
next
  case False
  then have d: "unat (data sbi) \<le> n" by simp
  let ?q = "n - unat (data sbi)" and ?ds = "ucast (of_nat n :: u32) - data sbi :: u64"
  note ds = data_sector [OF assms(2) d]
  have n: "n + 1 < 2 ^ 32" using valid_bound [OF assms(2)] by simp
  have t: "(?ds + 1) AND scast (clust_mask sbi) = 0 \<longleftrightarrow> (?q + 1) mod csize = 0"
    by (rule in_cluster_test [OF ds(2)]) (use n in simp)
  show ?thesis
  proof (cases "(?q + 1) mod csize = 0")
    case False
    have "unat (of_nat n + 1 :: u32) = n + 1" using n by (simp add: unat_of_nat_small unat_add_no_wrap)
    then have "ucast (of_nat n + 1 :: u32) = (of_nat (n + 1) :: u64)" by (intro word_eq_of_nat) (simp add: unat_ucast_up)
    moreover have "sector_after sector secsz sbi n = n + 1"
      using d False by (simp add: sector_after_def csize_def not_less)
    ultimately show ?thesis
      using that [of dev] assms(1) ds(1) t False by (simp add: get_next_sector_def Let_def)
  next
    case True
    let ?c = "ucast (drop_bit (clust_shift sbi) ?ds) :: u32"
    have qc: "?q div csize < unat (clusters sbi)"
      using assms(2) d by (simp add: valid_sector_def csize_def [symmetric] less_mult_imp_div_less)
    have cl: "unat (clusters sbi) + 2 < 2 ^ 32"
      using area(2) csize_pos mult_le_mono2 [of 1 csize "unat (clusters sbi) + 2"] by (simp add: csize_def)
    have "unat ?c = ?q div csize"
      using qc cl by (simp add: unat_ucast_mod unat_drop_bit ds(2) csize_def)
    then have c2: "unat (?c + 2) = ?q div csize + 2" using qc cl by (simp add: unat_add_no_wrap)
    obtain dev' v where v: "get_next_cluster rdwr secsz fs sbi dev (?c + 2) = Some (dev', v)" "cached dev'"
        "unat v = fat_entry sector secsz sbi (?q div csize + 2)"
      using get_next_cluster_ok [OF assms(1), of "?c + 2"] table qc by (auto simp: c2)
    let ?e = "fat_entry sector secsz sbi (?q div csize + 2)"
    have sa: "sector_after sector secsz sbi n =
        (if 2 \<le> ?e \<and> ?e < unat (clusters sbi) + 2 then unat (data sbi) + (?e - 2) * csize else 0)"
      using d True by (simp add: sector_after_def csize_def not_less Let_def)
    have g: "get_next_sector rdwr secsz fs sbi dev (of_nat n) =
        (if v - 2 \<ge> clusters sbi then Some (dev', 0)
         else Some (dev', ucast (ucast (ucast (push_bit (clust_shift sbi) (v - 2)) + data sbi) :: u32)))"
      using ds(1) t True v(1) by (simp add: get_next_sector_def Let_def)
    show ?thesis
    proof (cases "2 \<le> ?e \<and> ?e < unat (clusters sbi) + 2")
      case in_range: True
      have w: "unat (v - 2) = ?e - 2"
        using in_range v(3) by (subst unat_sub_no_wrap) (simp_all add: word_le_nat_alt)
      have b: "unat (data sbi) + (?e - 2) * csize < 2 ^ 32"
        using valid_bound [OF next_cluster_start [of ?e]] in_range by simp
      have "ucast (ucast (ucast (push_bit (clust_shift sbi) (v - 2)) + data sbi :: u64) :: u32) =
          (of_nat (unat (data sbi) + (?e - 2) * csize) :: u64)"
        using cluster_start_word [OF w, of "data sbi" "clust_shift sbi"] b by (simp only: csize_def)
      also have "unat (data sbi) + (?e - 2) * csize = sector_after sector secsz sbi n"
        unfolding sa if_P [OF in_range] ..
      finally have e: "ucast (ucast (ucast (push_bit (clust_shift sbi) (v - 2)) + data sbi :: u64) :: u32) =
          (of_nat (sector_after sector secsz sbi n) :: u64)" .
      have "\<not> v - 2 \<ge> clusters sbi" using in_range unfolding word_le_nat_alt w by linarith
      then have "get_next_sector rdwr secsz fs sbi dev (of_nat n) = Some (dev', of_nat (sector_after sector secsz sbi n))"
        unfolding g e by (simp only: if_False)
      then show ?thesis using that v(2) by blast
    next
      case False
      have "v - 2 \<ge> clusters sbi"
      proof (cases "2 \<le> ?e")
        case True
        then have "unat (v - 2) = ?e - 2"
          using v(3) by (subst unat_sub_no_wrap) (simp_all add: word_le_nat_alt)
        then show ?thesis using False True by (simp add: word_le_nat_alt)
      next
        case small: False
        then have "v = 0 \<or> v = 1" using v(3) by (auto simp: word_unat_eq_iff)
        then show ?thesis using cl by (auto simp: word_le_nat_alt unat_minus_one)
      qed
      then have "get_next_sector rdwr secsz fs sbi dev (of_nat n) = Some (dev', of_nat (sector_after sector secsz sbi n))"
        unfolding g sa if_not_P [OF False] by (simp only: if_True) simp
      then show ?thesis using that v(2) by blast
    qed
  qed
qed

lemma sector_view:
  assumes "valid_sector n"
  shows "unat (of_nat n :: u64) < nsec" "ucast (of_nat n :: u64) = (of_nat n :: u32)" "n \<noteq> 0 \<Longrightarrow> (of_nat n :: u64) \<noteq> 0"
  using sector_word [OF assms] valid_bound [OF assms] by (auto simp: word_unat_eq_iff unat_of_nat_small)

lemma entries_fill: "2 ^ (sector_shift fs - 5) * 32 = (2 :: nat) ^ sector_shift fs"
  using entry_fits power_add [of "2 :: nat" "sector_shift fs - 5" 5] by simp

lemma dir_entries_wf: "\<forall>v\<in>set (dir_entries sector fs ns). well_formed v"
proof -
  have "32 * i + 32 \<le> (2 :: nat) ^ sector_shift fs" if "i < 2 ^ (sector_shift fs - 5)" for i
    using that unfolding entries_fill [symmetric] by simp
  then show ?thesis
    by (auto simp: dir_entries_def sector_entries_def sector_length geometry(2) intro!: entry_at_views(3))
qed

text \<open>The loop over the sectors is the scan of all their entries.\<close>

lemma find_loop_ok:
  assumes "cached dev" "valid_sector n" "sector_chain (sector_after sector secsz sbi) n ns"
    "scan cp dname mangled_name vfat_init (dir_entries sector fs ns) st = Some r"
  obtains dev' where "find_loop rdwr secsz fs sbi cp dname mangled_name vfat_init dev (of_nat n) st = Some (dev', found r)"
    "cached dev'"
proof -
  have "\<exists>dev'. find_loop rdwr secsz fs sbi cp dname mangled_name vfat_init dev (of_nat n) st = Some (dev', found r) \<and> cached dev'"
    using assms
  proof (induction ns arbitrary: dev n st)
    case Nil
    then have "n = 0" "r = Next_entry st" by (simp_all add: dir_entries_def)
    then show ?case using Nil.prems(1) by (subst find_loop.simps) simp
  next
    case (Cons m ns)
    then have n: "m = n" "n \<noteq> 0" "sector_chain (sector_after sector secsz sbi) (sector_after sector secsz sbi n) ns" by auto
    note w = sector_view [OF Cons.prems(2)]
    obtain dev1 where r1: "read_block rdwr secsz dev (of_nat n) = Some (dev1, sector (of_nat n))" "cached dev1"
      by (rule read_sector [OF Cons.prems(1) w(1)])
    let ?es = "sector_entries (2 ^ (sector_shift fs - 5)) (sector (of_nat n))"
    have "0 + 32 * 2 ^ (sector_shift fs - 5) \<le> length (sector (of_nat n))"
      using entries_fill by (simp add: sector_length geometry(2))
    from find_in_sector_scan [OF this, of cp dname mangled_name vfat_init st]
    have fs: "find_in_sector cp dname mangled_name vfat_init (sector (of_nat n)) (2 ^ (sector_shift fs - 5)) st 0 =
        scan cp dname mangled_name vfat_init ?es st" by (simp add: sector_entries_def)
    have de: "dir_entries sector fs (m # ns) = ?es @ dir_entries sector fs ns" by (simp add: dir_entries_def n(1))
    obtain r1' where r1': "scan cp dname mangled_name vfat_init ?es st = Some r1'"
      "(case r1' of Next_entry st \<Rightarrow> scan cp dname mangled_name vfat_init (dir_entries sector fs ns) st | _ \<Rightarrow> Some r1') = Some r"
      using Cons.prems(4) unfolding de scan_append by (auto simp: bind_eq_Some_conv)
    show ?case
    proof (cases r1')
      case (Next_entry st')
      obtain dev2 where g: "get_next_sector rdwr secsz fs sbi dev1 (of_nat n) =
          Some (dev2, of_nat (sector_after sector secsz sbi n))" "cached dev2"
        by (rule get_next_sector_ok [OF r1(2) Cons.prems(2)])
      have "\<exists>dev'. find_loop rdwr secsz fs sbi cp dname mangled_name vfat_init dev2 (of_nat (sector_after sector secsz sbi n)) st' =
          Some (dev', found r) \<and> cached dev'"
      proof (rule Cons.IH [OF g(2) _ n(3)])
        show "valid_sector (sector_after sector secsz sbi n)"
          using sector_after_valid [OF Cons.prems(2)] area(3) by (auto simp: valid_sector_def)
        show "scan cp dname mangled_name vfat_init (dir_entries sector fs ns) st' = Some r"
          using r1'(2) by (simp add: Next_entry)
      qed
      then show ?thesis
        using n(2) w r1(1) r1'(1) g(1) by (subst find_loop.simps) (simp add: fs Next_entry)
    next
      case Dir_end
      then show ?thesis
        using n(2) w r1 r1' by (subst find_loop.simps) (auto simp: fs)
    next
      case (Entry_found de)
      then show ?thesis
        using n(2) w r1 r1' by (subst find_loop.simps) (auto simp: fs)
    qed
  qed
  then show ?thesis using that by blast
qed

end

section \<open>The mangled name is always defined\<close>

lemma mangle_loop_defined:
  assumes "is_cstr src" "length buf = 12" "i \<le> 11"
  obtains buf' i' where "mangle_loop cp src buf i = Some (buf', i')" "length buf' = 12" "i' \<le> 11"
proof -
  have "\<exists>buf' i'. mangle_loop cp src buf i = Some (buf', i') \<and> length buf' = 12 \<and> i' \<le> 11"
    using assms
  proof (induction src arbitrary: buf i)
    case (Cons c src)
    consider "11 \<le> i" | "i < 11" "c \<le> 32 \<or> c = 47" | "i < 11" "\<not> (c \<le> 32 \<or> c = 47)" by linarith
    then show ?case
    proof cases
      case 3
      then have "is_cstr src" using Cons.prems(1) by (auto simp: is_cstr_def)
      note IH = Cons.IH [OF this]
      show ?thesis
      proof (cases "c = 46")
        case True
        let ?b = "take i buf @ replicate (8 - i) 32 @ drop (i + (8 - i)) buf"
        have "pad_blanks buf i (8 - i) = Some ?b" "length ?b = 12"
          using Cons.prems 3 by (simp_all add: pad_blanks_value)
        then show ?thesis using IH [of ?b 8] 3 True by simp
      next
        case False
        then show ?thesis using 3 Cons.prems(2) IH by (simp add: Let_def)
      qed
    qed (use Cons.prems in auto)
  qed simp
  then show ?thesis using that by blast
qed

lemma mangle_dos_name_defined:
  assumes "is_cstr src" "length buf = 12"
  obtains m where "mangle_dos_name cp buf src = Some m" "length m = 12"
proof -
  have fin: "\<exists>m. (do { b \<leftarrow> pad_blanks buf' i (11 - i); wr b (max i 11) 0 }) = Some m \<and> length m = 12"
    if "length buf' = 12" "i \<le> 11" for buf' i
    using that by (simp add: pad_blanks_value max_def)
  obtain bl il where l: "mangle_loop cp src buf 0 = Some (bl, il)" "length bl = 12" "il \<le> 11"
    by (rule mangle_loop_defined [OF assms]) auto
  let ?dots = "\<exists>t. src = 46 # 0 # t \<or> src = 46 # 46 # 0 # t"
  have "\<exists>m. mangle_dos_name cp buf src = Some m \<and> length m = 12"
  proof (cases ?dots)
    case True
    then have "length (cstr src) \<le> 2" by auto
    then obtain bs i where s: "stpcpy buf src = Some (bs, i)" "length bs = 12" "i \<le> 11"
      using stpcpy_value [OF assms(1), of buf] assms(2) by simp
    show ?thesis using fin [OF s(2,3)] True s(1) by (auto simp: mangle_dos_name_def)
  next
    case False
    obtain c0 src' where src: "src = c0 # src'" using assms(1) by (cases src) auto
    have nd: "mangle_dos_name cp buf src =
        do { (buf, i) \<leftarrow> mangle_loop cp src buf 0; b \<leftarrow> pad_blanks buf i (11 - i); wr b (max i 11) 0 }"
    proof (cases "c0 = 46")
      case dot: True
      then obtain c1 src'' where src': "src' = c1 # src''" using assms(1) src by (cases src') auto
      have "c1 \<noteq> 0" using False src dot src' by auto
      moreover have "\<exists>c2 r. src'' = c2 # r \<and> c2 \<noteq> 0" if "c1 = 46"
        using that assms(1) False src dot src' by (cases src'') auto
      ultimately show ?thesis by (auto simp: mangle_dos_name_def src dot src')
    qed (simp add: mangle_dos_name_def src)
    show ?thesis using fin [OF l(2,3)] unfolding nd l(1) by simp
  qed
  then show ?thesis using that by blast
qed

section \<open>The directory search\<close>

text \<open>C3.  Looking up a name of 1 to 260 characters in a directory whose sectors form a finite chain never
  leaves a buffer and always returns.  What it returns is right: the inode of an entry before the end mark
  that matches by its short name or by a complete group of long-name entries right before it, with the
  entry's checksum, that spells the name; and when it returns NULL, no entry matches by a group that is
  cut off from earlier long-name entries, or by its short name with no long-name entry before it.\<close>

theorem find_entry_correct:
  fixes dev :: "'d device"
  assumes T: "fat_tree rdwr secsz nsec dinv sector fs sbi" and dev: "sectors_cached secsz nsec dinv sector dev"
    and name: "dname = s @ 0 # t" "0 \<notin> set s" "s \<noteq> []" "length s \<le> 260" and cp: "nul_faithful cp"
    and junk: "length junk12 = 12" "length junk260 = 260"
    and dir: "start dir = of_nat n" "n < unat (data sbi) + unat (clusters sbi) * 2 ^ clust_shift sbi"
      "sector_chain (sector_after sector secsz sbi) n ns"
  shows "\<exists>m dev' r. mangle_dos_name cp junk12 dname = Some m \<and>
    vfat_find_entry rdwr secsz fs sbi cp junk12 junk260 dev dname dir = Some (dev', r) \<and>
    sectors_cached secsz nsec dinv sector dev' \<and>
    (let es = live (dir_entries sector fs ns); slots = (length s + 12) div 13 in
     case r of
       None \<Rightarrow> \<forall>a v b. es = a @ v # b \<longrightarrow> \<not> must_hit cp s m slots a v
     | Some ino \<Rightarrow> \<exists>a v b. es = a @ v # b \<and> ino = entry_inode fs sbi (fst v) \<and> hit cp s m slots a v)"
proof -
  let ?slots = "(length s + 12) div 13" and ?es = "dir_entries sector fs ns"
  have sl: "?slots \<in> {1..20}" using name(3,4) by (cases s) auto
  obtain m where m: "mangle_dos_name cp junk12 dname = Some m" "length m = 12"
    by (rule mangle_dos_name_defined [of dname]) (use name(1) junk(1) in auto)
  have S: "search_setup cp dname s m ?slots"
    using name sl cp m(2) by (auto simp: search_setup_def)
  let ?st = "\<lparr>vfat_next = first_ordinal ?slots, vfat_csum = 0, long_len = unat (first_ordinal ?slots) * 13,
      long_name = junk260, long_match = False\<rparr>"
  have I: "find_inv cp s ?slots [] ?st"
    by (rule find_inv_start [OF sl]) (simp_all add: junk out_of_group_def)
  obtain r where r: "scan cp dname m (first_ordinal ?slots) ?es ?st = Some r"
      "case found r of None \<Rightarrow> \<forall>a v b. live ?es = a @ v # b \<longrightarrow> \<not> must_hit cp s m ?slots ([] @ a) v
       | Some de \<Rightarrow> \<exists>a v b. live ?es = a @ v # b \<and> de = fst v \<and> hit cp s m ?slots ([] @ a) v"
    using scan_correct [OF S I] fat_tree.dir_entries_wf [OF T, of ns] by auto
  obtain dev' where l: "find_loop rdwr secsz fs sbi cp dname m (first_ordinal ?slots) dev (of_nat n) ?st = Some (dev', found r)"
      "sectors_cached secsz nsec dinv sector dev'"
    by (rule fat_tree.find_loop_ok [OF T dev _ dir(3) r(1)]) (use dir(2) in \<open>simp add: fat_tree.valid_sector_def [OF T]\<close>)
  have "vfat_find_entry rdwr secsz fs sbi cp junk12 junk260 dev dname dir = Some (dev', map_option (entry_inode fs sbi) (found r))"
    using sl l(1) m(1) name by (simp add: vfat_find_entry_def Let_def dir(1))
  moreover have "case map_option (entry_inode fs sbi) (found r) of
       None \<Rightarrow> \<forall>a v b. live ?es = a @ v # b \<longrightarrow> \<not> must_hit cp s m ?slots a v
     | Some ino \<Rightarrow> \<exists>a v b. live ?es = a @ v # b \<and> ino = entry_inode fs sbi (fst v) \<and> hit cp s m ?slots a v"
    using r(2) by (cases "found r") auto
  ultimately show ?thesis using m(1) l(2) unfolding Let_def by blast
qed


text \<open>A root directory with the one file \<open>FOO.TXT\<close> on the small volume.\<close>

definition foo_entry :: bytes where
  "foo_entry = [70, 79, 79, 32, 32, 32, 32, 32, 84, 88, 84, 0x20, 0, 0, 0, 0, 0, 0, 0, 0, 0, 0, 0, 0, 0, 0,
     2, 0, 0x14, 5, 0, 0]"

definition tree_sector :: "u64 \<Rightarrow> bytes" where
  "tree_sector lba = (if lba = 2 then foo_entry @ replicate 480 0 else small_sector lba)"

lemma tree_sector_length: "length (tree_sector lba) = 512"
  by (simp add: tree_sector_def foo_entry_def small_sector_def)

interpretation tree: fat_volume "ram_rdwr tree_sector" 512 100 "\<lambda>_. True" tree_sector demo_fs small_fat
  by (intro fat_volume.intro ram_sector_cache fat_volume_axioms.intro) (simp_all add: tree_sector_length demo_fs_def)

interpretation small_tree: fat_tree "ram_rdwr tree_sector" 512 100 "\<lambda>_. True" tree_sector demo_fs small_fat
proof (intro fat_tree.intro fat_tree_axioms.intro)
  show "fat_volume (ram_rdwr tree_sector) 512 100 (\<lambda>_. True) tree_sector demo_fs"
    by (rule tree.fat_volume_axioms)
  show "tree.entry_in_volume c" if "c < unat (clusters small_fat) + 2" for c
    using that unfolding tree.entry_in_volume_def by (simp add: fat_last_byte_def small_fat_def)
qed (simp_all add: small_fat_def demo_fs_def)

lemma end_mark_entry:
  assumes "off + 32 \<le> length bs"
  shows "end_mark (entry_at bs off) \<longleftrightarrow> bs ! off = 0"
proof -
  obtain de where "dir_entry bs off = Some de" "de_name de ! 0 = bs ! off"
    using assms by (simp add: dir_entry_def rd16_in rd32_in)
  then show ?thesis by (simp add: end_mark_def entry_at_def)
qed

definition foo_view :: dir_view where
  "foo_view = entry_at (foo_entry @ replicate 480 0) 0"

lemma foo_live: "live (dir_entries tree_sector demo_fs [2]) = [foo_view]"
proof -
  let ?bs = "foo_entry @ replicate 480 0 :: bytes"
  have s: "dir_entries tree_sector demo_fs [2] = sector_entries 16 ?bs"
    by (simp add: dir_entries_def demo_fs_def tree_sector_def)
  have l: "length ?bs = 512" by (simp add: foo_entry_def)
  have "sector_entries 16 ?bs = foo_view # entry_at ?bs 32 # map (\<lambda>i. entry_at ?bs (32 * i)) [2..<16]"
    by (simp add: sector_entries_def upt_conv_Cons foo_view_def)
  moreover have "\<not> end_mark foo_view" "end_mark (entry_at ?bs 32)"
    unfolding foo_view_def by (simp_all add: end_mark_entry l) (simp_all add: foo_entry_def)
  ultimately show ?thesis by (simp add: s live_def)
qed

lemma foo_fields: "fst foo_view = \<lparr>de_name = [70, 79, 79, 32, 32, 32, 32, 32, 84, 88, 84], de_attr = 0x20, de_lcase = 0,
    first_cluster_high = 0, first_cluster_low = 2, file_size = 1300\<rparr>"
  unfolding foo_view_def foo_entry_def by code_simp

theorem find_entry_correct_witness:
  "\<exists>dev' ino. vfat_find_entry (ram_rdwr tree_sector) 512 demo_fs small_fat ascii_codepage (replicate 12 0) (replicate 260 0)
     (cache_init demo_device 9) [102, 111, 111, 46, 116, 120, 116, 0] (pvt (vfat_iget_root demo_fs small_fat)) = Some (dev', Some ino)
     \<and> isize ino = 1300"
proof -
  let ?name = "[102, 111, 111, 46, 116, 120, 116] :: bytes" and ?m = "[70, 79, 79, 32, 32, 32, 32, 32, 84, 88, 84, 0] :: bytes"
  have c: "sectors_cached 512 100 (\<lambda>_. True) tree_sector (cache_init demo_device 9)"
    by (rule ram_cached) (simp_all add: tree_sector_length)
  have m: "mangle_dos_name ascii_codepage (replicate 12 0) (?name @ 0 # []) = Some ?m" by code_simp
  have ch: "sector_chain (sector_after tree_sector 512 small_fat) 2 [2]"
    by (simp add: sector_after_def small_fat_def)
  have nf: "nul_faithful ascii_codepage" by code_simp
  have pl: "plain_entry foo_view" "short_hit ?m foo_view"
    using foo_live by (auto simp: plain_entry_def is_long_def short_hit_def foo_fields live_def end_mark_def)
  have mh: "must_hit ascii_codepage ?name ?m ((length ?name + 12) div 13) [] foo_view"
    using pl by (simp add: must_hit_def delimited_def)
  obtain m dev' r where R: "mangle_dos_name ascii_codepage (replicate 12 0) (?name @ 0 # []) = Some m"
    "vfat_find_entry (ram_rdwr tree_sector) 512 demo_fs small_fat ascii_codepage (replicate 12 0) (replicate 260 0)
      (cache_init demo_device 9) (?name @ 0 # []) (pvt (vfat_iget_root demo_fs small_fat)) = Some (dev', r)"
    "let es = live (dir_entries tree_sector demo_fs [2]); slots = (length ?name + 12) div 13 in
     case r of
       None \<Rightarrow> \<forall>a v b. es = a @ v # b \<longrightarrow> \<not> must_hit ascii_codepage ?name m slots a v
     | Some ino \<Rightarrow> \<exists>a v b. es = a @ v # b \<and> ino = entry_inode demo_fs small_fat (fst v) \<and> hit ascii_codepage ?name m slots a v"
    using find_entry_correct [OF small_tree.fat_tree_axioms c refl _ _ _ nf _ _ _ _ ch, of ?name "replicate 12 0" "replicate 260 0"
        "pvt (vfat_iget_root demo_fs small_fat)" "[]"]
    by (auto simp: vfat_iget_root_def small_fat_def)
  have "m = ?m" using R(1) m by simp
  show ?thesis
  proof (cases r)
    case None
    then have "\<forall>a v b. [foo_view] = a @ v # b \<longrightarrow> \<not> must_hit ascii_codepage ?name ?m ((length ?name + 12) div 13) a v"
      using R(3) by (simp only: \<open>m = ?m\<close> foo_live Let_def option.case)
    then have "\<not> must_hit ascii_codepage ?name ?m ((length ?name + 12) div 13) [] foo_view"
      by (elim allE [where x = "[]"] allE [where x = foo_view]) simp
    then show ?thesis using mh by simp
  next
    case (Some ino)
    then obtain a v b where "[foo_view] = a @ v # b" "ino = entry_inode demo_fs small_fat (fst v)"
      using R(3) by (auto simp: foo_live Let_def)
    then have "ino = entry_inode demo_fs small_fat (fst foo_view)" by (cases a) auto
    then have "isize ino = 1300" by (simp add: entry_inode_def Let_def foo_fields first_cluster_def new_fat_inode_def)
    then show ?thesis using R(2) Some by simp
  qed
qed

end
