(* ===== verification/Fatmount.thy ===== *)
theory Fatmount
  imports Fatfind
begin

text \<open>
  \<open>vfat_readdir\<close> on a corrupt ordinal, and the geometry that \<open>vfat_fs_init\<close> computes from the BPB
  (\<open>libcore/fs/fat/fat.c\<close>).
\<close>

section \<open>The directory reader on a bad ordinal\<close>

lemma u32_mod: "unat (x :: u32) mod 18446744073709551616 = unat x" "unat (x :: u32) mod 4294967296 = unat x"
  by (rule mod_less, rule less_trans [OF unat_u32_lt], simp) (rule mod_less, rule unat_u32_lt)

lemma readdir_long_overflow:
  assumes "le_id le = 0x40" "length (rd_long_name st) = 261" "length (name1 le) = 5"
  shows "readdir_long cp st le = None"
proof -
  have "copy_long_chunk buf 3315 le = None" if "length buf = 261" for buf
    using that assms(3) by (simp add: copy_long_chunk_def wr_range_def)
  then show ?thesis using assms by (simp add: readdir_long_def Let_def unat_minus_one)
qed

lemma entry_fields:
  assumes "off + 32 \<le> length bs"
  shows "de_name (fst (entry_at bs off)) ! 0 = bs ! off" "de_attr (fst (entry_at bs off)) = bs ! (off + 11)"
proof -
  obtain de where "dir_entry bs off = Some de" "de_name de ! 0 = bs ! off" "de_attr de = bs ! (off + 11)"
    using assms by (simp add: dir_entry_def rd16_in rd32_in)
  then show "de_name (fst (entry_at bs off)) ! 0 = bs ! off" "de_attr (fst (entry_at bs off)) = bs ! (off + 11)"
    by (simp_all add: entry_at_def)
qed

lemma readdir_step_overflow:
  assumes "off + 32 \<le> length bs" "bs ! off = 0x40" "bs ! (off + 11) = 0x0f" "length (rd_long_name st) = 261"
  shows "readdir_step cp st bs off = None"
proof -
  note v = entry_at_views [OF assms(1)]
  have a: "de_name (fst (entry_at bs off)) ! 0 = 0x40" "de_attr (fst (entry_at bs off)) = 0x0f"
    using assms entry_fields [OF assms(1)] by simp_all
  have "readdir_long cp st (snd (entry_at bs off)) = None"
    by (rule readdir_long_overflow) (use v(3) a assms(4) in \<open>simp_all add: well_formed_def\<close>)
  then show ?thesis using a by (simp add: readdir_step_def v)
qed

text \<open>C19.  An entry with the long-name attribute and ordinal byte 0x40 makes \<open>vfat_readdir\<close> store outside its
  \<open>long_name[261]\<close>: the ordinal without the flag is 0, the decrement wraps to 255, and the test \<open>id >= 20\<close>
  comes before the decrement.  This holds for every volume, codepage and first content of the locals.\<close>

theorem readdir_ordinal_wraps:
  fixes dev :: "'d device"
  assumes C: "sector_cache rdwr secsz nsec dinv sector" and dev: "sectors_cached secsz nsec dinv sector dev"
    and geometry: "unat secsz = 2 ^ sector_shift fs"
    and pos: "unat (here pv) < nsec" "poffset pv = ucast (drop_bit (sector_shift fs) offset)"
    and off: "off = unat offset mod 2 ^ sector_shift fs" "off + 32 \<le> 2 ^ sector_shift fs"
    and entry: "sector (here pv) ! off = 0x40" "sector (here pv) ! (off + 11) = 0x0f"
    and junk: "length junk_ln = 261"
  shows "vfat_readdir rdwr secsz fs sbi cp junk_ln junk_fn uc dev pv offset dirent = None"
proof -
  have len: "length (sector (here pv)) = 2 ^ sector_shift fs"
    using block_device.sector_length [of rdwr secsz nsec dinv sector] C geometry by (simp add: sector_cache_def)
  have w: "(ucast (poffset pv) :: u32) = drop_bit (sector_shift fs) offset"
    unfolding pos(2) word_unat_eq_iff unat_ucast_mod by (simp add: u32_mod del: mod_mod_trivial)
  have right: "get_the_right_sector rdwr secsz fs sbi dev pv offset =
      Some (dev, pv\<lparr>poffset := ucast (drop_bit (sector_shift fs) offset), here := here pv\<rparr>, here pv)"
    by (simp add: get_the_right_sector_def Let_def pos(2)) (simp add: w [unfolded pos(2)] seek_sector.simps)
  obtain dev' where rb: "read_block rdwr secsz dev (here pv) = Some (dev', sector (here pv))"
    by (rule sector_cache.read_sector [OF C dev pos(1)])
  have "32 \<le> 2 ^ sector_shift fs - off" using off(2) by simp
  then obtain k where k: "(2 ^ sector_shift fs - off) div 32 = Suc k"
    by (cases "(2 ^ sector_shift fs - off) div 32") auto
  have "readdir_step cp st (sector (here pv)) off = None" if "rd_long_name st = junk_ln" for st
    by (rule readdir_step_overflow) (use off(2) len entry junk that in auto)
  then show ?thesis
    using k by (simp add: vfat_readdir_def right rb off(1) [symmetric] Let_def readdir_loop.simps)
qed

section \<open>Mounting\<close>

lemma unat_scast_pos: "unat (x :: u32) < 2 ^ 31 \<Longrightarrow> unat (scast x :: u64) = unat x"
proof -
  assume "unat x < 2 ^ 31"
  then have "int (unat x) < int (2 ^ 31)" by (simp only: of_nat_less_iff)
  then have u: "uint x < 2 ^ 31" by (simp only: uint_nat of_nat_power of_nat_numeral)
  have n: "LENGTH(32) - Suc 0 = 31" by simp
  have "- (2 ^ 31) \<le> (0 :: int)" by simp
  then have l: "- (2 ^ 31) \<le> uint x" by (rule order_trans) (rule unsigned_greater_eq)
  have "sint x = uint x"
    unfolding sint_uint n by (rule signed_take_bit_int_eq_self [OF l u])
  then have "scast x = (ucast x :: u64)" by (metis of_int_sint of_int_uint)
  then show ?thesis by (simp add: unat_ucast_up)
qed

theorem readdir_ordinal_wraps_witness:
  "vfat_readdir (ram_rdwr (\<lambda>_. replicate 11 0x40 @ replicate 501 0x0f)) 512 demo_fs small_fat ascii_codepage
     (replicate 261 0) (replicate 261 0) (\<lambda>_. (0, 0)) (cache_init demo_device 9)
     \<lparr>start_cluster = 0, start = 2, poffset = 0, here = 2\<rparr> 0
     \<lparr>d_ino = 0, d_off = 0, d_reclen = 0, d_type = 0, d_name = replicate 256 0\<rparr> = None"
  by (rule readdir_ordinal_wraps [OF ram_sector_cache ram_cached, where nsec = 100 and off = 0])
    (simp_all add: demo_fs_def nth_append)

text \<open>The geometry that the specification of the file system gives a volume with BPB \<open>b\<close>.\<close>

definition bpb_fat_secs :: "fat_bpb \<Rightarrow> nat" where
  "bpb_fat_secs b = (if bxFATsecs b \<noteq> 0 then unat (bxFATsecs b) else unat (bxFATsecs_32 b))"

definition bpb_total :: "fat_bpb \<Rightarrow> nat" where
  "bpb_total b = (if bxSectors b \<noteq> 0 then unat (bxSectors b) else unat (bsHugeSectors b))"

definition bpb_root_start :: "fat_bpb \<Rightarrow> nat" where
  "bpb_root_start b = unat (bxResSectors b) + unat (bxFATs b) * bpb_fat_secs b"

definition bpb_data_start :: "nat \<Rightarrow> fat_bpb \<Rightarrow> nat" where
  "bpb_data_start bytes_per_sector b =
     bpb_root_start b + (unat (bxRootDirEnts b) * 32 + (bytes_per_sector - 1)) div bytes_per_sector"

definition bpb_clusters :: "nat \<Rightarrow> fat_bpb \<Rightarrow> nat" where
  "bpb_clusters bytes_per_sector b = (bpb_total b - bpb_data_start bytes_per_sector b) div unat (bxSecPerClust b)"

text \<open>A plausible BPB: powers of two, regions inside the volume, and no mirroring switched off.\<close>

definition bpb_ok :: "nat \<Rightarrow> fat_bpb \<Rightarrow> bool" where
  "bpb_ok k b \<longleftrightarrow> bxResSectors b \<noteq> 0 \<and> bxFATs b \<noteq> 0 \<and> unat (bxSecPerClust b) = 2 ^ k \<and> k < 8 \<and>
     unat (bxFATs b) * bpb_fat_secs b < 2 ^ 31 \<and> bpb_data_start 512 b \<le> bpb_total b \<and> extended_flags b AND 0x80 = 0"

definition fat_geometry :: "nat \<Rightarrow> fat_bpb \<Rightarrow> fat_sb_info \<Rightarrow> bool" where
  "fat_geometry k b sbi \<longleftrightarrow>
     unat (fat sbi) = unat (bxResSectors b) \<and> unat (data sbi) = bpb_data_start 512 b \<and>
     clust_shift sbi = k \<and> clust_byte_shift sbi = k + 9 \<and> clust_mask sbi = 2 ^ k - 1 \<and>
     unat (clusters sbi) = min (bpb_clusters 512 b) 0x0ffffff4 \<and>
     fat_kind sbi = (if bpb_clusters 512 b < 4085 then FAT12 else if bpb_clusters 512 b < 65525 then FAT16 else FAT32) \<and>
     (bpb_clusters 512 b < 65525 \<longrightarrow> unat (root sbi) = bpb_root_start b) \<and>
     (65525 \<le> bpb_clusters 512 b \<longrightarrow> 2 \<le> fat32_root_cluster b \<longrightarrow>
        (unat (fat32_root_cluster b) - 2) * 2 ^ k < 2 ^ 32 \<longrightarrow>
        unat (root sbi) = bpb_data_start 512 b + (unat (fat32_root_cluster b) - 2) * 2 ^ k)"

lemma div_512: "(e * 32 + (512 - 1)) div 512 = (e + 15) div 16" for e :: nat
proof -
  have "(e * 32 + (512 - 1)) div 512 = ((e * 32 + 511) div 32) div 16" by (simp add: div_mult2_eq [symmetric])
  also have "(e * 32 + 511) div 32 = e + 15" by simp
  finally show ?thesis .
qed

lemma mount_numbers:
  assumes "bpb_ok k b" "sector_shift fs = 9" "sector_size fs = 512"
  shows "\<exists>sbi. vfat_sb_init fs junk b = Some sbi \<and> fat_geometry k b sbi"
proof -
  note B = assms(1) [unfolded bpb_ok_def]
  define spf :: s32 where "spf = (if bxFATsecs b \<noteq> 0 then ucast (bxFATsecs b) else bxFATsecs_32 b)"
  define tot :: u64 where "tot = (if bxSectors b \<noteq> 0 then ucast (bxSectors b) else ucast (bsHugeSectors b))"
  define f :: u64 where "f = ucast (bxResSectors b)"
  define r where "r = f + scast (spf * ucast (bxFATs b))"
  define d where "d = r + scast (root_dir_size fs b)"
  have spf: "unat spf = bpb_fat_secs b" by (simp add: spf_def bpb_fat_secs_def unat_ucast_up)
  have tot: "unat tot = bpb_total b" "bpb_total b < 2 ^ 32"
    by (simp_all add: tot_def bpb_total_def unat_ucast_up less_trans [OF unat_u16_lt])
  have f: "unat f = unat (bxResSectors b)" by (simp add: f_def unat_ucast_up)
  have m: "unat (spf * ucast (bxFATs b)) = unat (bxFATs b) * bpb_fat_secs b"
    using B by (simp add: unat_word_ariths spf unat_ucast_up mult.commute)
  define p where "p = unat (bxFATs b) * bpb_fat_secs b"
  define e where "e = unat (bxRootDirEnts b)"
  define x where "x = unat (bxResSectors b)"
  have bounds: "p < 2 ^ 31" "e < 65536" "x < 65536" using B unfolding p_def e_def x_def by simp_all
  have "unat (scast (spf * ucast (bxFATs b)) :: u64) = p"
    using unat_scast_pos [of "spf * ucast (bxFATs b)"] bounds(1) unfolding m p_def [symmetric] by blast
  then have r: "unat r = x + p"
    unfolding r_def using f [folded x_def] bounds by (subst unat_add_no_wrap) simp_all
  have "unat (ucast (bxRootDirEnts b) + 15 :: u32) = e + 15"
    using bounds(2) unat_add_no_wrap [of "ucast (bxRootDirEnts b) :: u32" 15] by (simp add: unat_ucast_up e_def [symmetric])
  moreover have "root_dir_size fs b = drop_bit 4 (ucast (bxRootDirEnts b) + 15)"
  proof -
    have "(512 :: u32) div 32 = 16" "9 - 5 = (4 :: nat)" by simp_all
    moreover have "ucast (bxRootDirEnts b) + 16 - 1 = (ucast (bxRootDirEnts b) + 15 :: u32)" by (simp add: add.commute)
    ultimately show ?thesis by (simp only: root_dir_size_def assms(2,3))
  qed
  ultimately have rs: "unat (root_dir_size fs b) = (e + 15) div 16" by (simp add: unat_drop_bit)
  have rsl: "(e + 15) div 16 < 5000" using bounds(2) by linarith
  have "unat (scast (root_dir_size fs b) :: u64) = (e + 15) div 16"
    using unat_scast_pos [of "root_dir_size fs b"] rsl unfolding rs by simp
  then have d': "unat d = x + p + (e + 15) div 16"
    unfolding d_def using r rsl bounds by (subst unat_add_no_wrap) simp_all
  have r: "unat r = bpb_root_start b" using r by (simp add: bpb_root_start_def x_def p_def)
  have d: "unat d = bpb_data_start 512 b"
    using d' unfolding bpb_data_start_def div_512 by (simp add: bpb_root_start_def x_def p_def e_def)
  have cs: "ilog2 (ucast (bxSecPerClust b)) = Some k"
    by (rule ilog2_power) (use B in \<open>simp_all add: unat_ucast_up\<close>)
  have "unat (tot - d) = bpb_total b - bpb_data_start 512 b"
    using B tot d by (subst unat_sub_no_wrap) (simp_all add: word_le_nat_alt)
  then have "unat (drop_bit k (tot - d)) = bpb_clusters 512 b" using B by (simp add: unat_drop_bit bpb_clusters_def)
  moreover have "bpb_clusters 512 b < 2 ^ 32"
    using tot(2) unfolding bpb_clusters_def by (meson diff_le_self div_le_dividend le_less_trans)
  ultimately have n: "unat (ucast (drop_bit k (tot - d)) :: u32) = bpb_clusters 512 b" by (simp add: unat_ucast_mod)
  let ?n = "ucast (drop_bit k (tot - d)) :: u32"
  have I: "vfat_sb_init fs junk b = Some \<lparr>fat = f,
      root = (if ?n > 0xfff4 then d + ucast (push_bit k (fat32_root_cluster b - 2)) else r), data = d,
      clusters = (if ?n > 0xfff4 \<and> ?n > 0x0ffffff4 then 0x0ffffff4 else ?n), root_cluster = junk,
      root_size = root_dir_size fs b, clust_shift = k, clust_byte_shift = k + 9, clust_mask = ucast (bxSecPerClust b) - 1,
      clust_size = push_bit 9 (ucast (bxSecPerClust b)),
      fat_kind = (if ?n \<le> 0xff4 then FAT12 else if ?n \<le> 0xfff4 then FAT16 else FAT32)\<rparr>"
    using B by (simp only: vfat_sb_init_def Let_def cs bind.bind_lunit assms(2) flip: spf_def tot_def f_def)
      (simp only: simp_thms if_False flip: r_def d_def f_def)
  let ?N = "bpb_clusters 512 b" and ?rc = "fat32_root_cluster b"
  have c: "?n > 0xfff4 \<longleftrightarrow> 65525 \<le> ?N" "?n > 0x0ffffff4 \<longleftrightarrow> 0x0ffffff4 < ?N" "?n \<le> 0xff4 \<longleftrightarrow> ?N < 4085" "?n \<le> 0xfff4 \<longleftrightarrow> ?N < 65525"
    by (auto simp: word_less_nat_alt word_le_nat_alt n)
  have cl: "unat (if ?n > 0xfff4 \<and> ?n > 0x0ffffff4 then 0x0ffffff4 else ?n) = min ?N 0x0ffffff4"
    unfolding c by (auto simp: n min_def)
  have root32: "unat (d + ucast (push_bit k (?rc - 2))) = bpb_data_start 512 b + (unat ?rc - 2) * 2 ^ k"
    if "2 \<le> ?rc" "(unat ?rc - 2) * 2 ^ k < 2 ^ 32"
  proof -
    have "unat (?rc - 2) = unat ?rc - 2" using that(1) by (subst unat_sub_no_wrap) simp_all
    then have p: "unat (push_bit k (?rc - 2)) = (unat ?rc - 2) * 2 ^ k"
      unfolding unat_push_bit using that(2) by simp
    have "bpb_data_start 512 b < 2 ^ 32" using B tot by simp
    then show ?thesis
      using that(2) p d by (subst unat_add_no_wrap) (simp_all add: unat_ucast_up)
  qed
  have mk: "ucast (bxSecPerClust b) - 1 = (2 ^ k - 1 :: s32)"
  proof -
    have "ucast (bxSecPerClust b) = (2 ^ k :: s32)" by (rule word_eq_2_power) (use B in \<open>simp add: unat_ucast_up\<close>)
    then show ?thesis by simp
  qed
  have rt: "unat (if ?n > 0xfff4 then d + ucast (push_bit k (?rc - 2)) else r) =
      (if 65525 \<le> ?N then unat (d + ucast (push_bit k (?rc - 2))) else bpb_root_start b)"
    unfolding c r [symmetric] by simp
  show ?thesis
    unfolding I
    by (intro exI conjI, rule refl, simp only: fat_geometry_def fat_sb_info.simps f d mk cl rt c) (auto simp: root32 n r)
qed


text \<open>C16.  Mounting a volume with a plausible BPB in a 512-byte boot sector computes the geometry that the
  FAT specification gives it, the FAT type by the count of clusters included, with 64-bit sector numbers
  that do not wrap, and leaves an empty cache that reads the sectors of the disk.\<close>

theorem mount_computes_geometry:
  fixes dev :: "'d device"
  assumes C: "sector_cache rdwr 512 nsec dinv sector" and b: "fat_bpb_at (sector 0) = Some b" "bpb_ok k b" and n: "0 < nsec"
    and dev: "552 \<le> unat (cache_size dev)" "(unat (cache_size dev) - 20) div 532 < 65536"
      "length (cache_data dev) = unat (cache_size dev)" "dinv (dev_disk dev)"
  shows "\<exists>dev' fs sbi. vfat_fs_init rdwr 9 junk dev = Some (dev', Some (fs, sbi)) \<and>
    sectors_cached 512 nsec dinv sector dev' \<and> sector_size fs = 512 \<and> sector_shift fs = 9 \<and>
    fat_geometry k b sbi"
proof -
  let ?fs = "\<lparr>sector_shift = 9, sector_size = push_bit 9 1, block_shift = 9, block_size = push_bit 9 1\<rparr> :: fs_info"
  have bd: "block_device rdwr 512 nsec dinv sector" using C by (simp add: sector_cache_def)
  obtain d bs where r: "rdwr (dev_disk dev) 0 1 = (d, bs)" by (cases "rdwr (dev_disk dev) 0 1")
  have bs: "bs = sector 0" "dinv d"
    using block_device.rdwr_reads [OF bd dev(4), of 0 1] block_device.rdwr_inv [OF bd dev(4), of 0 1] n by (simp_all add: r)
  have l: "length (sector 0) = 512" using block_device.sector_length [OF bd, of 0] by simp
  obtain sbi where s: "vfat_sb_init ?fs junk b = Some sbi" "fat_geometry k b sbi"
    using mount_numbers [OF b(2), of ?fs junk] by (auto simp: push_bit_eq_mult)
  let ?dev = "dev\<lparr>dev_disk := d\<rparr>"
  have "vfat_fs_init rdwr 9 junk dev = Some (cache_init ?dev 9, Some (?fs, sbi))"
    using b s(1) l unfolding bpb_ok_def
    by (simp add: vfat_fs_init_def Let_def dev_rdwr_def r bs(1) wr_range_def)
  moreover have "sectors_cached 512 nsec dinv sector (cache_init ?dev 9)"
    by (rule sector_cache.cache_init_cached [OF C]) (use dev bs(2) in simp_all)
  moreover have "sector_size ?fs = 512" "sector_shift ?fs = 9" by (simp_all add: push_bit_eq_mult)
  ultimately show ?thesis using s(2) by metis
qed

text \<open>A FAT16 boot sector of 8192 sectors, one reserved, two tables of 16 sectors, 512 root entries.\<close>

definition boot_sector :: bytes where
  "boot_sector = replicate 13 0 @ [1, 1, 0, 2, 0, 2, 0, 32, 0xf8, 16, 0] @ replicate 488 0"

theorem mount_computes_geometry_witness:
  "\<exists>dev' fs sbi. vfat_fs_init (ram_rdwr (\<lambda>_. boot_sector)) 9 0 demo_device = Some (dev', Some (fs, sbi)) \<and>
    sectors_cached 512 8192 (\<lambda>_. True) (\<lambda>_. boot_sector) dev' \<and> fat_kind sbi = FAT16 \<and> unat (data sbi) = 65"
proof -
  let ?b = "\<lparr>bxSecPerClust = 1, bxResSectors = 1, bxFATs = 2, bxRootDirEnts = 512, bxSectors = 8192, bxFATsecs = 16,
     bsHugeSectors = 0, bxFATsecs_32 = 0, extended_flags = 0, fat32_root_cluster = 0\<rparr>"
  have f: "fat_bpb_at boot_sector = Some ?b"
    by (simp add: fat_bpb_at_def boot_sector_def rd16_def rd32_def rd_def nth_append le16_of_def le32_of_def)
  have v: "bpb_clusters 512 ?b = 8127" "bpb_data_start 512 ?b = 65"
    by (simp_all add: bpb_clusters_def bpb_total_def bpb_data_start_def bpb_root_start_def bpb_fat_secs_def)
  have k: "bpb_ok 0 ?b"
    using v(2) by (simp add: bpb_ok_def bpb_total_def bpb_fat_secs_def)
  have C: "sector_cache (ram_rdwr (\<lambda>_. boot_sector)) 512 8192 (\<lambda>_. True) (\<lambda>_. boot_sector)"
    by (rule ram_sector_cache) (simp_all add: boot_sector_def)
  show ?thesis
    using mount_computes_geometry [OF C f k, of demo_device 0] v
    by (auto simp: demo_device_def fat_geometry_def)
qed

end
