(* ===== verification/Malloc.thy ===== *)
theory Malloc
  imports Dll
begin

text \<open>
  The memory allocator \<open>libcore/mem/{malloc,free,init}.c\<close> and \<open>malloc.h\<close>: two heaps, each with a
  chain of all its blocks in address order and a chain of the free ones, both circular through the
  heap's head.  The memory is flat: \<open>h a\<close> is the header that starts at address \<open>a\<close>.  Headers of different
  blocks do not overlap, since every block has at least 32 bytes (\<open>heap_ok\<close> below); the user's bytes and
  the free links of a used block, which share memory, are not looked at.
\<close>

section \<open>Data\<close>

datatype malloc_owner = MALLOC_FREE | MALLOC_HEAD | MALLOC_CORE | MALLOC_MODULE

fun owner_code :: "malloc_owner \<Rightarrow> u32" where
  "owner_code MALLOC_FREE = 0" | "owner_code MALLOC_HEAD = 1"
| "owner_code MALLOC_CORE = 2" | "owner_code MALLOC_MODULE = 3"

datatype arena_type = ARENA_TYPE_USED | ARENA_TYPE_FREE | ARENA_TYPE_HEAD | ARENA_TYPE_DEAD

fun type_code :: "arena_type \<Rightarrow> u32" where
  "type_code ARENA_TYPE_USED = 0" | "type_code ARENA_TYPE_FREE = 1"
| "type_code ARENA_TYPE_HEAD = 2" | "type_code ARENA_TYPE_DEAD = 3"

datatype heap_kind = HEAP_MAIN | HEAP_LOWMEM

fun heap_code :: "heap_kind \<Rightarrow> u32" where
  "heap_code HEAP_MAIN = 0" | "heap_code HEAP_LOWMEM = 1"

record arena_header =
  atag :: u32
  attrs :: u32
  anext :: u32
  aprev :: u32

record free_arena_header = arena_header +
  next_free :: u32
  prev_free :: u32

type_synonym heap = "u32 \<Rightarrow> free_arena_header"

definition ARENA_SIZE_MASK :: u32 where
  "ARENA_SIZE_MASK = NOT (16 - 1)"

definition ARENA_HEAP_MASK :: u32 where
  "ARENA_HEAP_MASK = 0xc"

definition ARENA_TYPE_MASK :: u32 where
  "ARENA_TYPE_MASK = 0x3"

definition ARENA_SIZE_GET :: "u32 \<Rightarrow> u32" where
  "ARENA_SIZE_GET a = a AND ARENA_SIZE_MASK"

definition ARENA_HEAP_GET :: "u32 \<Rightarrow> u32" where
  "ARENA_HEAP_GET a = drop_bit 2 (a AND ARENA_HEAP_MASK)"

definition ARENA_TYPE_GET :: "u32 \<Rightarrow> u32" where
  "ARENA_TYPE_GET a = a AND ARENA_TYPE_MASK"

definition ARENA_SIZE_SET :: "u32 \<Rightarrow> u32 \<Rightarrow> u32" where
  "ARENA_SIZE_SET a sz = (sz AND ARENA_SIZE_MASK) OR (a AND NOT ARENA_SIZE_MASK)"

definition ARENA_HEAP_SET :: "u32 \<Rightarrow> u32 \<Rightarrow> u32" where
  "ARENA_HEAP_SET a hp = (push_bit 2 hp AND ARENA_HEAP_MASK) OR (a AND NOT ARENA_HEAP_MASK)"

definition ARENA_TYPE_SET :: "u32 \<Rightarrow> u32 \<Rightarrow> u32" where
  "ARENA_TYPE_SET a ty = (a AND NOT ARENA_TYPE_MASK) OR (ty AND ARENA_TYPE_MASK)"

text \<open>Stores to a field of the header at \<open>p\<close>.\<close>

definition set_tag :: "heap \<Rightarrow> u32 \<Rightarrow> u32 \<Rightarrow> heap" where
  "set_tag h p v = h(p := (h p)\<lparr>atag := v\<rparr>)"

definition set_attrs :: "heap \<Rightarrow> u32 \<Rightarrow> u32 \<Rightarrow> heap" where
  "set_attrs h p v = h(p := (h p)\<lparr>attrs := v\<rparr>)"

definition set_next :: "heap \<Rightarrow> u32 \<Rightarrow> u32 \<Rightarrow> heap" where
  "set_next h p v = h(p := (h p)\<lparr>anext := v\<rparr>)"

definition set_prev :: "heap \<Rightarrow> u32 \<Rightarrow> u32 \<Rightarrow> heap" where
  "set_prev h p v = h(p := (h p)\<lparr>aprev := v\<rparr>)"

definition set_next_free :: "heap \<Rightarrow> u32 \<Rightarrow> u32 \<Rightarrow> heap" where
  "set_next_free h p v = h(p := (h p)\<lparr>next_free := v\<rparr>)"

definition set_prev_free :: "heap \<Rightarrow> u32 \<Rightarrow> u32 \<Rightarrow> heap" where
  "set_prev_free h p v = h(p := (h p)\<lparr>prev_free := v\<rparr>)"

definition set_size :: "heap \<Rightarrow> u32 \<Rightarrow> u32 \<Rightarrow> heap" where
  "set_size h p v = set_attrs h p (ARENA_SIZE_SET (attrs (h p)) v)"

definition set_type :: "heap \<Rightarrow> u32 \<Rightarrow> arena_type \<Rightarrow> heap" where
  "set_type h p ty = set_attrs h p (ARENA_TYPE_SET (attrs (h p)) (type_code ty))"

definition set_heap :: "heap \<Rightarrow> u32 \<Rightarrow> u32 \<Rightarrow> heap" where
  "set_heap h p v = set_attrs h p (ARENA_HEAP_SET (attrs (h p)) v)"

section \<open>Allocation\<close>

text \<open>
  \<open>__malloc_from_block\<close>, write by write: the headers of a split, the insertion into the chain of all
  blocks, the replacement on the free chain, and the removal from it.
\<close>

definition split_headers :: "heap \<Rightarrow> u32 \<Rightarrow> u32 \<Rightarrow> u32 \<Rightarrow> u32 \<Rightarrow> u32 \<Rightarrow> u32 \<Rightarrow> heap" where
  "split_headers h fp nfp hp fsize sz tag =
     (let h = set_type h nfp ARENA_TYPE_FREE;
          h = set_heap h nfp hp;
          h = set_size h nfp (fsize - sz);
          h = set_tag h nfp (owner_code MALLOC_FREE);
          h = set_type h fp ARENA_TYPE_USED;
          h = set_size h fp sz
      in set_tag h fp tag)"

definition chain_insert :: "heap \<Rightarrow> u32 \<Rightarrow> u32 \<Rightarrow> u32 \<Rightarrow> heap" where
  "chain_insert h fp nfp na =
     (let h = set_prev h nfp fp;
          h = set_next h nfp na;
          h = set_prev h na nfp
      in set_next h fp nfp)"

definition free_replace :: "heap \<Rightarrow> u32 \<Rightarrow> u32 \<Rightarrow> heap" where
  "free_replace h fp nfp =
     (let h = set_next_free h nfp (next_free (h fp));
          h = set_prev_free h nfp (prev_free (h fp));
          h = set_prev_free h (next_free (h fp)) nfp
      in set_next_free h (prev_free (h fp)) nfp)"

definition free_remove :: "heap \<Rightarrow> u32 \<Rightarrow> heap" where
  "free_remove h fp =
     (let h = set_prev_free h (next_free (h fp)) (prev_free (h fp))
      in set_next_free h (prev_free (h fp)) (next_free (h fp)))"

text \<open>The result is the pointer behind the header.\<close>

definition malloc_from_block :: "heap \<Rightarrow> u32 \<Rightarrow> u32 \<Rightarrow> u32 \<Rightarrow> heap \<times> u32" where
  "malloc_from_block h fp sz tag =
     (let hp = ARENA_HEAP_GET (attrs (h fp));
          fsize = ARENA_SIZE_GET (attrs (h fp))
      in if fsize \<ge> sz + 2 * 16
         then let nfp = fp + sz;
                  na = anext (h fp);
                  h = split_headers h fp nfp hp fsize sz tag;
                  h = chain_insert h fp nfp na
              in (free_replace h fp nfp, fp + 16)
         else let h = set_type h fp ARENA_TYPE_USED;
                  h = set_tag h fp tag
              in (free_remove h fp, fp + 16))"

text \<open>The search for the first fit in the free chain; \<open>None\<close> inside: the head was reached.\<close>

partial_function (option) find_fit :: "heap \<Rightarrow> u32 \<Rightarrow> u32 \<Rightarrow> u32 \<Rightarrow> u32 option option" where
  "find_fit h head sz fp =
     (if fp = head then Some None
      else if ARENA_SIZE_GET (attrs (h fp)) \<ge> sz then Some (Some fp)
      else find_fit h head sz (next_free (h fp)))"

text \<open>\<open>mh\<close> is the address of the array \<open>__malloc_head\<close>, whose elements have 32 bytes.\<close>

definition heap_head :: "u32 \<Rightarrow> u32 \<Rightarrow> u32" where
  "heap_head mh hp = mh + 32 * hp"

definition malloc_from :: "u32 \<Rightarrow> heap \<Rightarrow> u32 \<Rightarrow> heap_kind \<Rightarrow> malloc_owner \<Rightarrow> (heap \<times> u32) option" where
  "malloc_from mh h sz hp tag =
     (let head = heap_head mh (heap_code hp) in
      if sz \<noteq> 0
      then let sz = (sz + 2 * 16 - 1) AND ARENA_SIZE_MASK in
           do { r \<leftarrow> find_fit h head sz (next_free (h head));
                Some (case r of None \<Rightarrow> (h, 0) | Some fp \<Rightarrow> malloc_from_block h fp sz (owner_code tag)) }
      else Some (h, 0))"

definition malloc :: "u32 \<Rightarrow> heap \<Rightarrow> u32 \<Rightarrow> (heap \<times> u32) option" where
  "malloc mh h sz = malloc_from mh h sz HEAP_MAIN MALLOC_CORE"

definition lmalloc :: "u32 \<Rightarrow> heap \<Rightarrow> u32 \<Rightarrow> (heap \<times> u32) option" where
  "lmalloc mh h sz = malloc_from mh h sz HEAP_LOWMEM MALLOC_CORE"

definition pmapi_lmalloc :: "u32 \<Rightarrow> heap \<Rightarrow> u32 \<Rightarrow> (heap \<times> u32) option" where
  "pmapi_lmalloc mh h sz = malloc_from mh h sz HEAP_LOWMEM MALLOC_MODULE"

section \<open>Freeing\<close>

text \<open>\<open>__free_block\<close>: coalesce with the block before or push on the free chain, then coalesce with the block behind.\<close>

definition free_into_prev :: "heap \<Rightarrow> u32 \<Rightarrow> u32 \<Rightarrow> u32 \<Rightarrow> heap" where
  "free_into_prev h ah pah nah =
     (let h = set_size h pah (ARENA_SIZE_GET (attrs (h pah)) + ARENA_SIZE_GET (attrs (h ah)));
          h = set_next h pah nah
      in set_prev h nah pah)"

definition free_push :: "heap \<Rightarrow> u32 \<Rightarrow> u32 \<Rightarrow> heap" where
  "free_push h head ah =
     (let h = set_type h ah ARENA_TYPE_FREE;
          h = set_tag h ah (owner_code MALLOC_FREE);
          h = set_next_free h ah (next_free (h head));
          h = set_prev_free h ah head;
          h = set_next_free h head ah
      in set_prev_free h (next_free (h ah)) ah)"

definition free_merge_next :: "heap \<Rightarrow> u32 \<Rightarrow> u32 \<Rightarrow> heap" where
  "free_merge_next h ah nah =
     (if ARENA_TYPE_GET (attrs (h nah)) = type_code ARENA_TYPE_FREE \<and> ah + ARENA_SIZE_GET (attrs (h ah)) = nah
      then let h = set_size h ah (ARENA_SIZE_GET (attrs (h ah)) + ARENA_SIZE_GET (attrs (h nah)));
               h = free_remove h nah;
               h = set_next h ah (anext (h nah))
           in set_prev h (anext (h nah)) ah
      else h)"

definition free_block :: "u32 \<Rightarrow> heap \<Rightarrow> u32 \<Rightarrow> heap \<times> u32" where
  "free_block mh h ah =
     (let head = heap_head mh (ARENA_HEAP_GET (attrs (h ah)));
          pah = aprev (h ah);
          nah = anext (h ah);
          (h, ah) = (if ARENA_TYPE_GET (attrs (h pah)) = type_code ARENA_TYPE_FREE \<and>
                        pah + ARENA_SIZE_GET (attrs (h pah)) = ah
                     then (free_into_prev h ah pah nah, pah) else (free_push h head ah, ah))
      in (free_merge_next h ah nah, ah))"

definition free_mem :: "u32 \<Rightarrow> heap \<Rightarrow> u32 \<Rightarrow> heap" where
  "free_mem mh h ptr = (if ptr = 0 then h else fst (free_block mh h (ptr - 16)))"

text \<open>\<open>__inject_free_block\<close>: find the place in the chain; \<open>None\<close> inside: an overlap, the block is rejected.\<close>

partial_function (option) inject_place :: "heap \<Rightarrow> u32 \<Rightarrow> u32 \<Rightarrow> u32 \<Rightarrow> u32 \<Rightarrow> u32 option option" where
  "inject_place h head ah a_end nah =
     (if nah = head then Some (Some nah)
      else let n_end = nah + ARENA_SIZE_GET (attrs (h nah)) in
           if nah \<ge> a_end then Some (Some nah)
           else if ah \<ge> n_end then inject_place h head ah a_end (anext (h nah))
           else Some None)"

definition inject_free_block :: "u32 \<Rightarrow> heap \<Rightarrow> u32 \<Rightarrow> heap option" where
  "inject_free_block mh h ah =
     (let head = heap_head mh (ARENA_HEAP_GET (attrs (h ah)));
          a_end = ah + ARENA_SIZE_GET (attrs (h ah))
      in do { r \<leftarrow> inject_place h head ah a_end (anext (h head));
              case r of
                None \<Rightarrow> Some h
              | Some nah \<Rightarrow>
                  let h = set_next h ah nah;
                      h = set_prev h ah (aprev (h nah));
                      h = set_prev h nah ah;
                      h = set_next h (aprev (h ah)) ah
                  in Some (fst (free_block mh h ah)) })"

text \<open>\<open>__free_tagged\<close>: the walk goes on behind the block that contains the freed one.\<close>

partial_function (option) free_tagged_loop :: "u32 \<Rightarrow> heap \<Rightarrow> u32 \<Rightarrow> u32 \<Rightarrow> u32 \<Rightarrow> heap option" where
  "free_tagged_loop mh h head tag fp =
     (if fp = head then Some h
      else let (h, fp) = (if ARENA_TYPE_GET (attrs (h fp)) = type_code ARENA_TYPE_USED \<and> atag (h fp) = tag
                          then free_block mh h fp else (h, fp))
           in free_tagged_loop mh h head tag (anext (h fp)))"

definition free_tagged :: "u32 \<Rightarrow> heap \<Rightarrow> malloc_owner \<Rightarrow> heap option" where
  "free_tagged mh h tag =
     do { let head = heap_head mh (heap_code HEAP_MAIN);
          h \<leftarrow> free_tagged_loop mh h head (owner_code tag) (anext (h head));
          let head = heap_head mh (heap_code HEAP_LOWMEM);
          free_tagged_loop mh h head (owner_code tag) (anext (h head)) }"

definition comboot_cleanup_lowmem :: "u32 \<Rightarrow> heap \<Rightarrow> heap option" where
  "comboot_cleanup_lowmem mh h = free_tagged mh h MALLOC_MODULE"

section \<open>Start\<close>

definition init_heap_head :: "u32 \<Rightarrow> u32 \<Rightarrow> heap \<Rightarrow> heap" where
  "init_heap_head mh i h =
     (let fp = heap_head mh i;
          h = set_prev_free h fp fp; h = set_next_free h fp fp; h = set_prev h fp fp; h = set_next h fp fp;
          h = set_attrs h fp (type_code ARENA_TYPE_HEAD OR push_bit 2 i)
      in set_tag h fp (owner_code MALLOC_HEAD))"

text \<open>\<open>main_heap\<close> and \<open>lowmem_heap\<close> are the addresses of the two arrays, \<open>bios_free_mem\<close> the word at 0x413.\<close>

definition mem_init :: "u32 \<Rightarrow> u32 \<Rightarrow> u32 \<Rightarrow> u16 \<Rightarrow> heap \<Rightarrow> heap option" where
  "mem_init mh main_heap lowmem_heap bios_free_mem h =
     do { let h = init_heap_head mh 1 (init_heap_head mh 0 h);
          let h = set_attrs h main_heap (type_code ARENA_TYPE_USED OR push_bit 2 (heap_code HEAP_MAIN));
          let h = set_size h main_heap (push_bit 10 128);
          h \<leftarrow> inject_free_block mh h main_heap;
          let h = set_attrs h lowmem_heap (type_code ARENA_TYPE_USED OR push_bit 2 (heap_code HEAP_LOWMEM));
          let h = set_size h lowmem_heap (push_bit 10 (ucast bios_free_mem) - lowmem_heap);
          inject_free_block mh h lowmem_heap }"


section \<open>The attribute word\<close>

lemma arena_masks: "ARENA_SIZE_MASK = NOT (mask 4)" "ARENA_HEAP_MASK = push_bit 2 (mask 2)" "ARENA_TYPE_MASK = mask 2"
  by (simp_all add: ARENA_SIZE_MASK_def ARENA_HEAP_MASK_def ARENA_TYPE_MASK_def mask_eq_exp_minus_1 push_bit_eq_mult)

lemmas arena_defs = ARENA_SIZE_GET_def ARENA_HEAP_GET_def ARENA_TYPE_GET_def ARENA_SIZE_SET_def ARENA_HEAP_SET_def
  ARENA_TYPE_SET_def arena_masks

lemma arena_get_set [simp]:
  "ARENA_SIZE_GET (ARENA_SIZE_SET a s) = ARENA_SIZE_GET s" "ARENA_HEAP_GET (ARENA_SIZE_SET a s) = ARENA_HEAP_GET a"
  "ARENA_TYPE_GET (ARENA_SIZE_SET a s) = ARENA_TYPE_GET a" "ARENA_SIZE_GET (ARENA_HEAP_SET a s) = ARENA_SIZE_GET a"
  "ARENA_HEAP_GET (ARENA_HEAP_SET a s) = s AND mask 2" "ARENA_TYPE_GET (ARENA_HEAP_SET a s) = ARENA_TYPE_GET a"
  "ARENA_SIZE_GET (ARENA_TYPE_SET a s) = ARENA_SIZE_GET a" "ARENA_HEAP_GET (ARENA_TYPE_SET a s) = ARENA_HEAP_GET a"
  "ARENA_TYPE_GET (ARENA_TYPE_SET a s) = s AND mask 2"
  by (rule bit_word_eqI; auto simp: arena_defs bit_simps)+

lemma heap_get_small: "ARENA_HEAP_GET a AND mask 2 = ARENA_HEAP_GET a"
  by (rule bit_word_eqI; auto simp: arena_defs bit_simps)

lemma size_get_idem [simp]: "ARENA_SIZE_GET (ARENA_SIZE_GET a) = ARENA_SIZE_GET a"
  by (rule bit_word_eqI; auto simp: arena_defs bit_simps)

lemma type_code_mask [simp]: "type_code t AND mask 2 = type_code t"
  by (cases t) (simp_all add: mask_eq_exp_minus_1)

lemma type_code_inj [simp]: "type_code t = type_code t' \<longleftrightarrow> t = t'"
  by (cases t; cases t') simp_all

lemma unat_size_get: "unat (ARENA_SIZE_GET a) = unat a div 16 * 16"
proof -
  have "ARENA_SIZE_GET a = push_bit 4 (drop_bit 4 a)"
    by (rule bit_word_eqI) (auto simp: arena_defs bit_simps)
  moreover have "unat a div 16 * 16 < 2 ^ 32"
    by (rule le_less_trans [of _ "unat a"]) (simp_all add: less_trans [OF unat_u32_lt])
  ultimately show ?thesis by (simp add: unat_push_bit unat_drop_bit)
qed

section \<open>Fields and links\<close>

lemmas setter_defs = set_tag_def set_attrs_def set_next_def set_prev_def set_next_free_def set_prev_free_def

definition nx :: "heap \<Rightarrow> u32 \<Rightarrow> u32 option" where "nx h a = Some (anext (h a))"
definition pv :: "heap \<Rightarrow> u32 \<Rightarrow> u32 option" where "pv h a = Some (aprev (h a))"
definition nxf :: "heap \<Rightarrow> u32 \<Rightarrow> u32 option" where "nxf h a = Some (next_free (h a))"
definition pvf :: "heap \<Rightarrow> u32 \<Rightarrow> u32 option" where "pvf h a = Some (prev_free (h a))"

lemma link_views [simp]:
  "nx (set_tag h p v) = nx h" "pv (set_tag h p v) = pv h" "nxf (set_tag h p v) = nxf h" "pvf (set_tag h p v) = pvf h"
  "nx (set_attrs h p v) = nx h" "pv (set_attrs h p v) = pv h" "nxf (set_attrs h p v) = nxf h" "pvf (set_attrs h p v) = pvf h"
  "nx (set_next h p v) = (nx h)(p := Some v)" "pv (set_next h p v) = pv h" "nxf (set_next h p v) = nxf h" "pvf (set_next h p v) = pvf h"
  "nx (set_prev h p v) = nx h" "pv (set_prev h p v) = (pv h)(p := Some v)" "nxf (set_prev h p v) = nxf h" "pvf (set_prev h p v) = pvf h"
  "nx (set_next_free h p v) = nx h" "pv (set_next_free h p v) = pv h" "nxf (set_next_free h p v) = (nxf h)(p := Some v)" "pvf (set_next_free h p v) = pvf h"
  "nx (set_prev_free h p v) = nx h" "pv (set_prev_free h p v) = pv h" "nxf (set_prev_free h p v) = nxf h" "pvf (set_prev_free h p v) = (pvf h)(p := Some v)"
  by (auto simp: fun_eq_iff setter_defs nx_def pv_def nxf_def pvf_def)

lemma field_views [simp]:
  "attrs (set_tag h p v q) = attrs (h q)" "attrs (set_next h p v q) = attrs (h q)" "attrs (set_prev h p v q) = attrs (h q)"
  "attrs (set_next_free h p v q) = attrs (h q)" "attrs (set_prev_free h p v q) = attrs (h q)"
  "attrs (set_attrs h p v q) = (if q = p then v else attrs (h q))"
  "atag (set_attrs h p v q) = atag (h q)" "atag (set_next h p v q) = atag (h q)" "atag (set_prev h p v q) = atag (h q)"
  "atag (set_next_free h p v q) = atag (h q)" "atag (set_prev_free h p v q) = atag (h q)"
  "atag (set_tag h p v q) = (if q = p then v else atag (h q))"
  "anext (set_tag h p v q) = anext (h q)" "anext (set_attrs h p v q) = anext (h q)" "anext (set_prev h p v q) = anext (h q)"
  "anext (set_next_free h p v q) = anext (h q)" "anext (set_prev_free h p v q) = anext (h q)"
  "anext (set_next h p v q) = (if q = p then v else anext (h q))"
  "aprev (set_tag h p v q) = aprev (h q)" "aprev (set_attrs h p v q) = aprev (h q)" "aprev (set_next h p v q) = aprev (h q)"
  "aprev (set_next_free h p v q) = aprev (h q)" "aprev (set_prev_free h p v q) = aprev (h q)"
  "aprev (set_prev h p v q) = (if q = p then v else aprev (h q))"
  "next_free (set_tag h p v q) = next_free (h q)" "next_free (set_attrs h p v q) = next_free (h q)" "next_free (set_next h p v q) = next_free (h q)"
  "next_free (set_prev h p v q) = next_free (h q)" "next_free (set_prev_free h p v q) = next_free (h q)"
  "next_free (set_next_free h p v q) = (if q = p then v else next_free (h q))"
  "prev_free (set_tag h p v q) = prev_free (h q)" "prev_free (set_attrs h p v q) = prev_free (h q)" "prev_free (set_next h p v q) = prev_free (h q)"
  "prev_free (set_prev h p v q) = prev_free (h q)" "prev_free (set_next_free h p v q) = prev_free (h q)"
  "prev_free (set_prev_free h p v q) = (if q = p then v else prev_free (h q))"
  by (auto simp: setter_defs)


section \<open>The heap invariant\<close>

definition bsize :: "heap \<Rightarrow> u32 \<Rightarrow> nat" where
  "bsize h a = unat (ARENA_SIZE_GET (attrs (h a)))"

definition btype :: "heap \<Rightarrow> u32 \<Rightarrow> u32" where
  "btype h a = ARENA_TYPE_GET (attrs (h a))"

definition is_free :: "heap \<Rightarrow> u32 \<Rightarrow> bool" where
  "is_free h a \<longleftrightarrow> btype h a = type_code ARENA_TYPE_FREE"

definition is_used :: "heap \<Rightarrow> u32 \<Rightarrow> bool" where
  "is_used h a \<longleftrightarrow> btype h a = type_code ARENA_TYPE_USED"

definition block_ok :: "heap \<Rightarrow> u32 \<Rightarrow> u32 \<Rightarrow> u32 \<Rightarrow> bool" where
  "block_ok h hp head a \<longleftrightarrow> 32 \<le> unat a \<and> 32 \<le> bsize h a \<and> unat a + bsize h a < 2 ^ 32 \<and> (is_free h a \<or> is_used h a) \<and>
     ARENA_HEAP_GET (attrs (h a)) = hp \<and> (unat head < unat a \<or> unat a + bsize h a \<le> unat head)"

text \<open>The blocks in address order, each behind the end of the one before.\<close>

fun apart :: "heap \<Rightarrow> u32 list \<Rightarrow> bool" where
  "apart h (a # b # r) \<longleftrightarrow> unat a + bsize h a \<le> unat b \<and> apart h (b # r)"
| "apart h _ \<longleftrightarrow> True"

definition mergeable :: "heap \<Rightarrow> u32 \<Rightarrow> u32 \<Rightarrow> bool" where
  "mergeable h a b \<longleftrightarrow> is_free h a \<and> is_free h b \<and> unat a + bsize h a = unat b"

fun coalesced :: "heap \<Rightarrow> u32 list \<Rightarrow> bool" where
  "coalesced h (a # b # r) \<longleftrightarrow> \<not> mergeable h a b \<and> coalesced h (b # r)"
| "coalesced h _ \<longleftrightarrow> True"

definition heap_ok :: "heap \<Rightarrow> u32 \<Rightarrow> u32 \<Rightarrow> u32 list \<Rightarrow> u32 list \<Rightarrow> bool" where
  "heap_ok h hp head chain frees \<longleftrightarrow> ring (nx h) (pv h) head chain \<and> ring (nxf h) (pvf h) head frees \<and>
     set frees = {a \<in> set chain. is_free h a} \<and> (\<forall>a\<in>set chain. block_ok h hp head a) \<and> apart h chain \<and>
     btype h head = type_code ARENA_TYPE_HEAD"

text \<open>What the client sees of a chain: address, size and, for a used block, its tag.\<close>

definition view :: "heap \<Rightarrow> u32 list \<Rightarrow> (nat \<times> nat \<times> u32 option) list" where
  "view h chain = map (\<lambda>a. (unat a, bsize h a, if is_free h a then None else Some (atag (h a)))) chain"

lemma view_append [simp]: "view h (as @ bs) = view h as @ view h bs"
  by (simp add: view_def)

lemma view_cong: "(\<And>a. a \<in> set as \<Longrightarrow> attrs (h' a) = attrs (h a) \<and> atag (h' a) = atag (h a)) \<Longrightarrow> view h' as = view h as"
  by (auto simp: view_def bsize_def is_free_def btype_def)

lemma apart_append:
  "apart h (as @ b # bs) \<longleftrightarrow> apart h (as @ [b]) \<and> apart h (b # bs)"
proof (induction as)
  case (Cons a as)
  then show ?case by (cases as) auto
qed simp

lemma apart_cong: "(\<And>a. a \<in> set as \<Longrightarrow> attrs (h' a) = attrs (h a)) \<Longrightarrow> apart h' as = apart h as"
  by (induction h as rule: apart.induct) (auto simp: bsize_def)

text \<open>The last block's own size does not matter.\<close>

lemma apart_cong': "(\<And>a. a \<in> set (butlast as) \<Longrightarrow> attrs (h' a) = attrs (h a)) \<Longrightarrow> apart h' as = apart h as"
proof (induction h as rule: apart.induct)
  case (1 h a b r)
  then have "attrs (h' a) = attrs (h a)" "apart h' (b # r) = apart h (b # r)" by auto
  then show ?case by (simp add: bsize_def)
qed simp_all

lemma size_get_fix: "ARENA_SIZE_GET w = w \<longleftrightarrow> 16 dvd unat w"
  by (simp add: word_unat_eq_iff unat_size_get dvd_eq_mod_eq_0) (metis div_mult_mod_eq add_cancel_left_right mod_mult_self2_is_0)

lemma type0: "(0 :: u32) AND mask 2 = type_code ARENA_TYPE_USED" and type1: "(1 :: u32) AND mask 2 = type_code ARENA_TYPE_FREE"
  by (simp_all add: mask_eq_exp_minus_1)

lemma apart_sorted:
  "apart h (a # as) \<Longrightarrow> \<forall>x\<in>set (a # as). block_ok h hp head x \<Longrightarrow> b \<in> set as \<Longrightarrow> unat a + bsize h a \<le> unat b"
proof (induction as arbitrary: a)
  case (Cons c as)
  then show ?case by (cases "b = c") fastforce+
qed simp

lemma apart_disjoint:
  assumes "apart h (as @ a # bs)" "\<forall>x\<in>set (as @ a # bs). block_ok h hp head x" "b \<in> set as \<union> set bs"
  shows "unat b + bsize h b \<le> unat a \<or> unat a + bsize h a \<le> unat b"
proof (cases "b \<in> set bs")
  case True
  then show ?thesis using assms apart_sorted [of h a bs] by (auto simp: apart_append [of h as a bs])
next
  case False
  then obtain us vs where as: "as = us @ b # vs" using assms(3) split_list by fastforce
  have "apart h (us @ b # vs @ a # bs)" using assms(1) by (simp add: as)
  then have "apart h (b # vs @ a # bs)" by (rule apart_append [THEN iffD1, THEN conjunct2])
  then have "unat b + bsize h b \<le> unat a"
    by (rule apart_sorted) (use assms(2) as in auto)
  then show ?thesis by simp
qed

text \<open>An address strictly inside a block is no other block's header and not the head.\<close>

lemma inside_fresh:
  assumes "heap_ok h hp head (as @ a # bs) frees" "unat a < x" "x < unat a + bsize h a" "unat q = x"
  shows "q \<notin> set (head # as @ a # bs)"
proof -
  have ok: "apart h (as @ a # bs)" "\<forall>x\<in>set (as @ a # bs). block_ok h hp head x" using assms(1) by (auto simp: heap_ok_def)
  have "q \<noteq> b" if "b \<in> set as \<union> set bs" for b
    using apart_disjoint [OF ok that] ok(2) that assms(2-4) by (auto simp: block_ok_def)
  moreover have "q \<noteq> head" using ok(2) assms(2-4) by (auto simp: block_ok_def)
  ultimately show ?thesis using assms(2,4) by auto
qed

lemma unat_add_small: "unat a + n < 2 ^ 32 \<Longrightarrow> unat (s :: u32) = n \<Longrightarrow> unat (a + s) = unat a + n"
  by (subst unat_add_no_wrap) simp_all

lemma type_facts: "is_free h a \<Longrightarrow> \<not> is_used h a"
  by (simp add: is_free_def is_used_def)

lemma split_headers_fields:
  assumes "nfp \<noteq> fp"
  shows "attrs (split_headers h fp nfp hp fsize sz tag q) =
      (if q = nfp then ARENA_SIZE_SET (ARENA_HEAP_SET (ARENA_TYPE_SET (attrs (h nfp)) 1) hp) (fsize - sz)
       else if q = fp then ARENA_SIZE_SET (ARENA_TYPE_SET (attrs (h fp)) 0) sz else attrs (h q))"
    "atag (split_headers h fp nfp hp fsize sz tag q) = (if q = nfp then 0 else if q = fp then tag else atag (h q))"
    "nx (split_headers h fp nfp hp fsize sz tag) = nx h" "pv (split_headers h fp nfp hp fsize sz tag) = pv h"
    "nxf (split_headers h fp nfp hp fsize sz tag) = nxf h" "pvf (split_headers h fp nfp hp fsize sz tag) = pvf h"
  using assms by (simp_all add: split_headers_def Let_def set_type_def set_heap_def set_size_def)

lemma chain_insert_fields:
  "attrs (chain_insert h fp nfp na q) = attrs (h q)" "atag (chain_insert h fp nfp na q) = atag (h q)"
  "nx (chain_insert h fp nfp na) = (nx h)(nfp := Some na, fp := Some nfp)"
  "pv (chain_insert h fp nfp na) = (pv h)(nfp := Some fp, na := Some nfp)"
  "nxf (chain_insert h fp nfp na) = nxf h" "pvf (chain_insert h fp nfp na) = pvf h"
  by (simp_all add: chain_insert_def Let_def)

lemma free_replace_fields:
  assumes "nfp \<noteq> fp" "nxf h fp = Some n" "pvf h fp = Some p" "n \<noteq> fp"
  shows "attrs (free_replace h fp nfp q) = attrs (h q)" "atag (free_replace h fp nfp q) = atag (h q)"
  "nx (free_replace h fp nfp) = nx h" "pv (free_replace h fp nfp) = pv h"
  "nxf (free_replace h fp nfp) = (nxf h)(nfp := Some n, p := Some nfp)"
  "pvf (free_replace h fp nfp) = (pvf h)(nfp := Some p, n := Some nfp)"
  using assms by (simp_all add: free_replace_def Let_def nxf_def [of h fp] pvf_def [of h fp])

lemma free_remove_fields:
  assumes "nxf h fp = Some n" "pvf h fp = Some p" "n \<noteq> fp"
  shows "attrs (free_remove h fp q) = attrs (h q)" "atag (free_remove h fp q) = atag (h q)"
  "nx (free_remove h fp) = nx h" "pv (free_remove h fp) = pv h"
  "nxf (free_remove h fp) = (nxf h)(p := Some n)" "pvf (free_remove h fp) = (pvf h)(n := Some p)"
  using assms by (simp_all add: free_remove_def Let_def nxf_def [of h fp] pvf_def [of h fp])


text \<open>What the two chains look like around a block.\<close>

lemma heap_okD:
  assumes "heap_ok h hp head chain frees"
  shows "ring (nx h) (pv h) head chain" "ring (nxf h) (pvf h) head frees"
    "set frees = {a \<in> set chain. is_free h a}" "\<forall>a\<in>set chain. block_ok h hp head a"
    "apart h chain" "btype h head = type_code ARENA_TYPE_HEAD"
  using assms by (simp_all add: heap_ok_def)

lemma free_links:
  assumes "ring (nxf h) (pvf h) head (fs @ fp # gs)"
  shows "nxf h fp = Some (hd (gs @ [head]))" "pvf h fp = Some (last (head # fs))" "hd (gs @ [head]) \<noteq> fp"
proof -
  show "nxf h fp = Some (hd (gs @ [head]))" "pvf h fp = Some (last (head # fs))"
    using ring_succ [OF assms] ring_pred [OF assms] by simp_all
  show "hd (gs @ [head]) \<noteq> fp" using ring_distinct [OF assms] by (cases gs) auto
qed

lemma block_ok_cong:
  "attrs (h' a) = attrs (h a) \<Longrightarrow> block_ok h' hp head a = block_ok h hp head a"
  by (simp add: block_ok_def bsize_def is_free_def is_used_def btype_def)

lemma attr_cong:
  assumes "attrs (h' a) = attrs (h a)"
  shows "bsize h' a = bsize h a" "is_free h' a = is_free h a" "is_used h' a = is_used h a" "btype h' a = btype h a"
  using assms by (simp_all add: bsize_def is_free_def is_used_def btype_def)

lemma free_rest:
  assumes "heap_ok h hp head (as @ fp # bs) (fs @ fp # gs)"
  shows "set fs \<union> set gs = {a \<in> set as \<union> set bs. is_free h a}"
proof -
  note ok = heap_okD [OF assms]
  have m: "x \<in> set (fs @ fp # gs) \<longleftrightarrow> x \<in> set (as @ fp # bs) \<and> is_free h x" for x using ok(3) by blast
  have "fp \<notin> set as \<union> set bs" "fp \<notin> set fs \<union> set gs" using ring_distinct [OF ok(1)] ring_distinct [OF ok(2)] by auto
  then have "x \<in> set fs \<union> set gs \<longleftrightarrow> x \<in> set as \<union> set bs \<and> is_free h x" for x
    using m [of x] by (cases "x = fp") auto
  then show ?thesis by blast
qed

lemma is_free_set_cong:
  "(\<And>a. a \<in> A \<Longrightarrow> attrs (h' a) = attrs (h a)) \<Longrightarrow> {a \<in> A. is_free h' a} = {a \<in> A. is_free h a}"
  by (auto simp: is_free_def btype_def)

text \<open>Splitting a free block.\<close>

lemma split_ok:
  assumes H: "heap_ok h hp head (as @ fp # bs) (fs @ fp # gs)" and s: "ARENA_SIZE_GET s = s" "32 \<le> unat s"
    and fit: "unat s + 32 \<le> bsize h fp"
  obtains h' where "malloc_from_block h fp s tag = (h', fp + 16)" "unat (fp + s) = unat fp + unat s"
    "heap_ok h' hp head (as @ fp # (fp + s) # bs) (fs @ (fp + s) # gs)"
    "view h' (as @ fp # (fp + s) # bs) =
       view h as @ (unat fp, unat s, Some tag) # (unat fp + unat s, bsize h fp - unat s, None) # view h bs"
proof -
  define nf where "nf = fp + s"
  let ?n = nf and ?na = "hd (bs @ [head])" and ?fs = "ARENA_SIZE_GET (attrs (h fp))"
  note ok = heap_okD [OF H]
  have b: "unat fp + bsize h fp < 2 ^ 32" "ARENA_HEAP_GET (attrs (h fp)) = hp" using ok(4) by (simp_all add: block_ok_def)
  have n: "unat ?n = unat fp + unat s" unfolding nf_def by (rule unat_add_small) (use b fit in simp_all)
  have fresh: "?n \<notin> set (head # as @ fp # bs)" by (rule inside_fresh [OF H _ _ n]) (use s fit in auto)
  have "set (fs @ fp # gs) \<subseteq> set (as @ fp # bs)" using ok(3) by auto
  then have freshf: "?n \<notin> set (head # fs @ fp # gs)" using fresh by auto
  have d: "?n \<noteq> fp" "?na \<noteq> ?n" using fresh by auto (cases bs; auto)
  have c: "s + 2 * 16 \<le> ?fs"
  proof -
    have "unat (s + 32) = unat s + 32" by (rule unat_add_small) (use b fit in simp_all)
    then show ?thesis using fit by (simp add: word_le_nat_alt bsize_def)
  qed
  note fl = free_links [OF ok(2)]
  have na: "anext (h fp) = ?na" using ring_succ [OF ok(1)] by (simp add: nx_def)
  define h1 where "h1 = split_headers h fp ?n hp ?fs s tag"
  define h2 where "h2 = chain_insert h1 fp ?n ?na"
  define h' where "h' = free_replace h2 fp ?n"
  note f1 = split_headers_fields [OF d(1), of h hp ?fs s tag, folded h1_def]
  note f2 = chain_insert_fields [of h1 fp ?n ?na, folded h2_def]
  have fl2: "nxf h2 fp = Some (hd (gs @ [head]))" "pvf h2 fp = Some (last (head # fs))" using fl f1 f2 by simp_all
  note f3 = free_replace_fields [OF d(1) fl2 fl(3), folded h'_def]
  have at: "attrs (h' q) = (if q = ?n then ARENA_SIZE_SET (ARENA_HEAP_SET (ARENA_TYPE_SET (attrs (h ?n)) 1) hp) (?fs - s)
       else if q = fp then ARENA_SIZE_SET (ARENA_TYPE_SET (attrs (h fp)) 0) s else attrs (h q))" for q
    by (simp only: f1 f2 f3)
  have tg: "atag (h' q) = (if q = ?n then 0 else if q = fp then tag else atag (h q))" for q
    by (simp only: f1 f2 f3)
  have r: "malloc_from_block h fp s tag = (h', fp + 16)"
    by (simp only: malloc_from_block_def Let_def c b(2) na if_True h'_def h2_def h1_def nf_def)
  have rings: "ring (nx h') (pv h') head (as @ fp # ?n # bs)" "ring (nxf h') (pvf h') head (fs @ ?n # gs)"
  proof -
    have "ring ((nx h)(fp := Some ?n, ?n := Some ?na)) ((pv h)(?na := Some ?n, ?n := Some fp)) head ((as @ [fp]) @ ?n # bs)"
      using ring_insert [of "nx h" "pv h" head "as @ [fp]" bs ?n] ok(1) fresh by simp
    then show "ring (nx h') (pv h') head (as @ fp # ?n # bs)"
      using d by (simp add: f1 f2 f3 fun_upd_twist)
    have "ring ((nxf h)(last (head # fs) := Some ?n, ?n := Some (hd (gs @ [head]))))
        ((pvf h)(hd (gs @ [head]) := Some ?n, ?n := Some (last (head # fs)))) head (fs @ ?n # gs)"
      by (rule ring_replace [OF ok(2) freshf])
    moreover have "last (head # fs) \<noteq> ?n" "hd (gs @ [head]) \<noteq> ?n"
      using freshf last_in_set [of "head # fs"] list.set_sel(1) [of "gs @ [head]"] by auto
    ultimately show "ring (nxf h') (pvf h') head (fs @ ?n # gs)"
      by (simp add: f1 f2 f3 fun_upd_twist)
  qed
  have fpa: "is_free h fp" using ok(3) by auto
  have sz: "ARENA_SIZE_GET (?fs - s) = ?fs - s" "unat (?fs - s) = bsize h fp - unat s"
  proof -
    show u: "unat (?fs - s) = bsize h fp - unat s"
      unfolding bsize_def by (rule unat_sub_no_wrap) (use fit in \<open>simp add: word_le_nat_alt bsize_def\<close>)
    have "16 dvd bsize h fp" "16 dvd unat s" using s(1) size_get_fix [of s] by (simp_all add: bsize_def unat_size_get)
    then show "ARENA_SIZE_GET (?fs - s) = ?fs - s" by (simp add: size_get_fix u)
  qed
  have new: "bsize h' ?n = bsize h fp - unat s" "is_free h' ?n" "ARENA_HEAP_GET (attrs (h' ?n)) = hp"
    "bsize h' fp = unat s" "is_used h' fp" "ARENA_HEAP_GET (attrs (h' fp)) = hp"
    using d s(1) sz b(2) heap_get_small [of "attrs (h fp)"]
    by (simp_all add: bsize_def is_free_def is_used_def btype_def at type1 type0)
  have old: "attrs (h' q) = attrs (h q)" "atag (h' q) = atag (h q)" if "q \<in> insert head (set as \<union> set bs)" for q
  proof -
    have "q \<noteq> ?n" "q \<noteq> fp" using that fresh ring_distinct [OF ok(1)] by auto
    then show "attrs (h' q) = attrs (h q)" "atag (h' q) = atag (h q)" by (simp_all add: at tg)
  qed
  have "heap_ok h' hp head (as @ fp # ?n # bs) (fs @ ?n # gs)"
    unfolding heap_ok_def
  proof (intro conjI rings)
    show "set (fs @ ?n # gs) = {a \<in> set (as @ fp # ?n # bs). is_free h' a}"
    proof -
      have "{a \<in> set as \<union> set bs. is_free h' a} = set fs \<union> set gs"
        unfolding free_rest [OF H] by (rule is_free_set_cong) (use old in blast)
      moreover have "\<not> is_free h' fp" using new(5) type_facts by blast
      ultimately show ?thesis using new(2) by auto
    qed
    show "\<forall>a\<in>set (as @ fp # ?n # bs). block_ok h' hp head a"
    proof -
      have "block_ok h' hp head a" if "a \<in> set as \<union> set bs" for a
      proof -
        have "attrs (h' a) = attrs (h a)" by (rule old) (use that in blast)
        then show ?thesis using block_ok_cong [of h' a h hp head] that ok(4) by auto
      qed
      moreover have "block_ok h' hp head ?n" "block_ok h' hp head fp"
        using ok(4) n s fit b by (auto simp: block_ok_def new)
      ultimately show ?thesis by auto
    qed
    show "apart h' (as @ fp # ?n # bs)"
    proof -
      have "apart h (as @ [fp])" "apart h (fp # bs)" using ok(5) apart_append [of h as fp bs] by auto
      moreover have "apart h' (as @ [fp]) = apart h (as @ [fp])" by (rule apart_cong') (use old in simp)
      moreover have "apart h' bs = apart h bs" by (rule apart_cong) (use old in blast)
      ultimately show ?thesis
        unfolding apart_append [of h' as fp "?n # bs"] using n s fit by (cases bs) (auto simp: new)
    qed
    show "btype h' head = type_code ARENA_TYPE_HEAD"
      using attr_cong(4) [of h' head h] old ok(6) by simp
  qed
  moreover have "view h' (as @ fp # ?n # bs) =
       view h as @ (unat fp, unat s, Some tag) # (unat fp + unat s, bsize h fp - unat s, None) # view h bs"
  proof -
    have "view h' as = view h as" "view h' bs = view h bs" by (rule view_cong; use old in simp)+
    moreover have "\<not> is_free h' fp" using new(5) type_facts by blast
    moreover have "atag (h' fp) = tag" using d by (simp add: tg)
    ultimately show ?thesis using new n by (simp add: view_def)
  qed
  ultimately show thesis using that r n unfolding nf_def by blast
qed


lemma apart_bsize: "(\<And>a. bsize h' a = bsize h a) \<Longrightarrow> apart h' as = apart h as"
  by (induction h as rule: apart.induct) auto

text \<open>Taking a whole free block.\<close>

lemma whole_ok:
  assumes H: "heap_ok h hp head (as @ fp # bs) (fs @ fp # gs)" and fit: "\<not> s + 2 * 16 \<le> ARENA_SIZE_GET (attrs (h fp))"
  obtains h' where "malloc_from_block h fp s tag = (h', fp + 16)"
    "heap_ok h' hp head (as @ fp # bs) (fs @ gs)"
    "view h' (as @ fp # bs) = view h as @ (unat fp, bsize h fp, Some tag) # view h bs"
proof -
  note ok = heap_okD [OF H] and fl = free_links [OF heap_okD(2) [OF H]]
  define h1 where "h1 = set_tag (set_type h fp ARENA_TYPE_USED) fp tag"
  define h' where "h' = free_remove h1 fp"
  have f1: "attrs (h1 q) = (if q = fp then ARENA_TYPE_SET (attrs (h fp)) 0 else attrs (h q))"
    "atag (h1 q) = (if q = fp then tag else atag (h q))" "nx h1 = nx h" "pv h1 = pv h" "nxf h1 = nxf h" "pvf h1 = pvf h" for q
    by (simp_all add: h1_def set_type_def)
  note f2 = free_remove_fields [of h1 fp, folded h'_def, OF fl [folded f1(5,6)]]
  have r: "malloc_from_block h fp s tag = (h', fp + 16)"
    by (simp only: malloc_from_block_def Let_def fit if_False h'_def h1_def)
  have at: "attrs (h' q) = (if q = fp then ARENA_TYPE_SET (attrs (h fp)) 0 else attrs (h q))"
    and tg: "atag (h' q) = (if q = fp then tag else atag (h q))" for q
    by (simp_all only: f1 f2)
  have new: "bsize h' fp = bsize h fp" "is_used h' fp" "ARENA_HEAP_GET (attrs (h' fp)) = ARENA_HEAP_GET (attrs (h fp))"
    by (simp_all add: bsize_def is_used_def btype_def at type0)
  have nf: "\<not> is_free h' fp" using new(2) type_facts by blast
  have old: "attrs (h' q) = attrs (h q)" "atag (h' q) = atag (h q)" if "q \<in> insert head (set as \<union> set bs)" for q
  proof -
    have "q \<noteq> fp" using that ring_distinct [OF ok(1)] by auto
    then show "attrs (h' q) = attrs (h q)" "atag (h' q) = atag (h q)" by (simp_all add: at tg)
  qed
  have bs: "bsize h' a = bsize h a" for a by (simp add: bsize_def at)
  have "heap_ok h' hp head (as @ fp # bs) (fs @ gs)"
    unfolding heap_ok_def
  proof (intro conjI)
    show "ring (nx h') (pv h') head (as @ fp # bs)" using ok(1) by (simp only: f1 f2)
    show "ring (nxf h') (pvf h') head (fs @ gs)" using ring_unlink [OF ok(2)] by (simp only: f1 f2)
    have "{a \<in> set as \<union> set bs. is_free h' a} = set fs \<union> set gs"
      unfolding free_rest [OF H] by (rule is_free_set_cong) (use old in blast)
    then show "set (fs @ gs) = {a \<in> set (as @ fp # bs). is_free h' a}" using nf by auto
    show "\<forall>a\<in>set (as @ fp # bs). block_ok h' hp head a"
    proof
      fix a assume a: "a \<in> set (as @ fp # bs)"
      show "block_ok h' hp head a"
      proof (cases "a = fp")
        case True
        then show ?thesis using ok(4) new by (auto simp: block_ok_def)
      next
        case False
        then have "attrs (h' a) = attrs (h a)" by (simp add: at)
        then show ?thesis using block_ok_cong [of h' a h hp head] a ok(4) by auto
      qed
    qed
    show "apart h' (as @ fp # bs)" using ok(5) bs apart_bsize [of h' h] by metis
    show "btype h' head = type_code ARENA_TYPE_HEAD"
      using attr_cong(4) [of h' head h] old ok(6) by simp
  qed
  moreover have "view h' (as @ fp # bs) = view h as @ (unat fp, bsize h fp, Some tag) # view h bs"
  proof -
    have "view h' as = view h as" "view h' bs = view h bs" by (rule view_cong; use old in simp)+
    moreover have "atag (h' fp) = tag" by (simp add: tg)
    ultimately show ?thesis using new nf by (simp add: view_def)
  qed
  ultimately show thesis using that r by blast
qed

section \<open>The search on the free chain\<close>

lemma find_fit_chain:
  assumes "links (nxf h) (pvf h) (x # xs @ [head])" "head \<notin> set xs" 
  shows "find_fit h head n (next_free (h x)) = Some (find (\<lambda>a. n \<le> ARENA_SIZE_GET (attrs (h a))) xs)"
  using assms
proof (induction xs arbitrary: x)
  case Nil
  then show ?case by (subst find_fit.simps) (simp add: nxf_def)
next
  case (Cons y ys)
  then have "next_free (h x) = y" "y \<noteq> head" by (auto simp: nxf_def)
  then show ?case
    using Cons.IH [of y] Cons.prems by (subst find_fit.simps) simp
qed

lemma find_split: "find P xs = Some x \<Longrightarrow> \<exists>ys zs. xs = ys @ x # zs \<and> P x \<and> (\<forall>y\<in>set ys. \<not> P y)"
proof (induction xs)
  case (Cons y xs)
  show ?case
  proof (cases "P y")
    case True
    then have "y # xs = [] @ x # xs \<and> P x \<and> (\<forall>y\<in>set []. \<not> P y)" using Cons.prems by simp
    then show ?thesis by blast
  next
    case False
    then obtain ys zs where "xs = ys @ x # zs" "P x" "\<forall>y\<in>set ys. \<not> P y" using Cons by auto
    then have "y # xs = (y # ys) @ x # zs \<and> P x \<and> (\<forall>y\<in>set (y # ys). \<not> P y)" using False by simp
    then show ?thesis by blast
  qed
qed simp

section \<open>Allocation\<close>

text \<open>The rounded size of a request.\<close>

definition rounded :: "nat \<Rightarrow> nat" where
  "rounded n = (n + 31) div 16 * 16"

lemma rounded_word:
  assumes "sz \<noteq> 0" "unat sz + 31 < 2 ^ 32"
  shows "unat ((sz + 2 * 16 - 1) AND ARENA_SIZE_MASK) = rounded (unat sz)" "32 \<le> rounded (unat sz)" "unat sz + 16 \<le> rounded (unat sz)"
    "ARENA_SIZE_GET ((sz + 2 * 16 - 1) AND ARENA_SIZE_MASK) = (sz + 2 * 16 - 1) AND ARENA_SIZE_MASK"
proof -
  have e: "sz + 2 * 16 - 1 = sz + 31" by simp
  have u: "unat (sz + 31) = unat sz + 31" using assms(2) by (subst unat_add_no_wrap) simp_all
  show "unat ((sz + 2 * 16 - 1) AND ARENA_SIZE_MASK) = rounded (unat sz)"
    unfolding e rounded_def using unat_size_get [of "sz + 31"] by (simp only: ARENA_SIZE_GET_def u)
  have "0 < unat sz" using assms(1) by (simp add: unat_gt_0)
  then show "32 \<le> rounded (unat sz)" "unat sz + 16 \<le> rounded (unat sz)" unfolding rounded_def by presburger+
  show "ARENA_SIZE_GET ((sz + 2 * 16 - 1) AND ARENA_SIZE_MASK) = (sz + 2 * 16 - 1) AND ARENA_SIZE_MASK"
    using size_get_idem [of "sz + 2 * 16 - 1"] by (simp only: ARENA_SIZE_GET_def)
qed


text \<open>Allocation on the client's view: first fit, split when a header and more is left.\<close>

definition alloc_view :: "nat \<Rightarrow> u32 \<Rightarrow> nat \<times> nat \<Rightarrow> (nat \<times> nat \<times> u32 option) list" where
  "alloc_view n tag b =
     (let (a, s) = b in if n + 32 \<le> s then [(a, n, Some tag), (a + n, s - n, None)] else [(a, s, Some tag)])"

lemma malloc_from_ok:
  assumes H: "heap_ok h (heap_code hp) (heap_head mh (heap_code hp)) chain frees"
    and sz: "sz \<noteq> 0" "unat sz + 31 < 2 ^ 32"
  shows "(\<forall>a\<in>set chain. is_free h a \<longrightarrow> bsize h a < rounded (unat sz)) \<and> malloc_from mh h sz hp tag = Some (h, 0) \<or>
    (\<exists>h' as fp bs fs gs chain' frees'. chain = as @ fp # bs \<and> frees = fs @ fp # gs \<and> is_free h fp \<and> rounded (unat sz) \<le> bsize h fp \<and>
       (\<forall>a\<in>set fs. bsize h a < rounded (unat sz)) \<and>
       malloc_from mh h sz hp tag = Some (h', fp + 16) \<and>
       frees' = fs @ (if rounded (unat sz) + 32 \<le> bsize h fp then [fp + of_nat (rounded (unat sz))] else []) @ gs \<and>
       heap_ok h' (heap_code hp) (heap_head mh (heap_code hp)) chain' frees' \<and>
       view h' chain' = view h as @ alloc_view (rounded (unat sz)) (owner_code tag) (unat fp, bsize h fp) @ view h bs)"
proof -
  let ?head = "heap_head mh (heap_code hp)"
  define s where "s = (sz + 2 * 16 - 1) AND ARENA_SIZE_MASK"
  note s = rounded_word [OF sz, folded s_def]
  note ok = heap_okD [OF H]
  have le: "s \<le> ARENA_SIZE_GET (attrs (h a)) \<longleftrightarrow> rounded (unat sz) \<le> bsize h a" for a
    by (simp add: word_le_nat_alt bsize_def s(1))
  have "links (nxf h) (pvf h) (?head # frees @ [?head])" "?head \<notin> set frees" using ok(2) by (auto simp: ring_def)
  then have ff: "find_fit h ?head s (next_free (h ?head)) = Some (find (\<lambda>a. s \<le> ARENA_SIZE_GET (attrs (h a))) frees)"
    by (rule find_fit_chain)
  have m: "malloc_from mh h sz hp tag = Some (case find (\<lambda>a. s \<le> ARENA_SIZE_GET (attrs (h a))) frees of
       None \<Rightarrow> (h, 0) | Some fp \<Rightarrow> malloc_from_block h fp s (owner_code tag))"
    using sz(1) by (simp only: malloc_from_def Let_def ff bind.bind_lunit if_True simp_thms flip: s_def)
  show ?thesis
  proof (cases "find (\<lambda>a. s \<le> ARENA_SIZE_GET (attrs (h a))) frees")
    case None
    then have "\<forall>a\<in>set frees. bsize h a < rounded (unat sz)" by (auto simp: find_None_iff le not_le)
    then show ?thesis using m ok(3) by (simp add: None)
  next
    case (Some fp)
    have sn: "s = of_nat (rounded (unat sz))" unfolding s(1) [symmetric] by simp
    from Some obtain fs gs where f: "frees = fs @ fp # gs" "rounded (unat sz) \<le> bsize h fp" "\<forall>a\<in>set fs. bsize h a < rounded (unat sz)"
      using find_split [OF Some] by (auto simp: le not_le)
    then have "fp \<in> set chain" "is_free h fp" using ok(3) by auto
    then obtain as bs where c: "chain = as @ fp # bs" by (meson split_list)
    note H' = H [unfolded c f(1)]
    have r: "malloc_from mh h sz hp tag = Some (malloc_from_block h fp s (owner_code tag))" by (simp add: m Some)
    show ?thesis
    proof (cases "rounded (unat sz) + 32 \<le> bsize h fp")
      case True
      obtain h' where S: "malloc_from_block h fp s (owner_code tag) = (h', fp + 16)"
          "heap_ok h' (heap_code hp) ?head (as @ fp # (fp + s) # bs) (fs @ (fp + s) # gs)"
          "view h' (as @ fp # (fp + s) # bs) =
             view h as @ (unat fp, unat s, Some (owner_code tag)) # (unat fp + unat s, bsize h fp - unat s, None) # view h bs"
        by (rule split_ok [OF H' s(4)]) (use s True in simp_all)
      have "view h' (as @ fp # (fp + s) # bs) = view h as @ alloc_view (rounded (unat sz)) (owner_code tag) (unat fp, bsize h fp) @ view h bs"
        unfolding S(3) s(1) using True by (simp add: alloc_view_def)
      moreover have "fs @ (fp + s) # gs = fs @ (if rounded (unat sz) + 32 \<le> bsize h fp then [fp + of_nat (rounded (unat sz))] else []) @ gs"
        unfolding if_P [OF True] sn by (simp only: append_Cons append_Nil)
      ultimately show ?thesis using r S(1,2) c f \<open>is_free h fp\<close> unfolding r S(1) by blast
    next
      case False
      have b: "unat fp + bsize h fp < 2 ^ 32" "32 \<le> unat fp" using ok(4) c by (simp_all add: block_ok_def)
      have nf: "\<not> s + 2 * 16 \<le> ARENA_SIZE_GET (attrs (h fp))"
      proof -
        have "unat s + 32 < 2 ^ 32" using b f(2) s(1) by linarith
        then have "unat (s + 2 * 16) = unat s + 32" by (subst unat_add_no_wrap) simp_all
        then show ?thesis using False unfolding word_le_nat_alt s(1) bsize_def by simp
      qed
      obtain h' where S: "malloc_from_block h fp s (owner_code tag) = (h', fp + 16)"
          "heap_ok h' (heap_code hp) ?head (as @ fp # bs) (fs @ gs)"
          "view h' (as @ fp # bs) = view h as @ (unat fp, bsize h fp, Some (owner_code tag)) # view h bs"
        by (rule whole_ok [OF H' nf])
      have "view h' (as @ fp # bs) = view h as @ alloc_view (rounded (unat sz)) (owner_code tag) (unat fp, bsize h fp) @ view h bs"
        unfolding S(3) using False by (simp add: alloc_view_def)
      moreover have "fs @ gs = fs @ (if rounded (unat sz) + 32 \<le> bsize h fp then [fp + of_nat (rounded (unat sz))] else []) @ gs"
        unfolding if_not_P [OF False] by (simp only: append_Nil)
      ultimately show ?thesis using r S(1,2) c f \<open>is_free h fp\<close> unfolding r S(1) by blast
    qed
  qed
qed


section \<open>Freeing\<close>

definition used_view :: "heap \<Rightarrow> u32 list \<Rightarrow> (nat \<times> nat \<times> u32 option) list" where
  "used_view h chain = filter (\<lambda>(a, s, t). t \<noteq> None) (view h chain)"

definition total :: "heap \<Rightarrow> u32 list \<Rightarrow> nat" where
  "total h chain = (\<Sum>a\<leftarrow>chain. bsize h a)"

lemma used_view_append [simp]: "used_view h (as @ bs) = used_view h as @ used_view h bs"
  by (simp add: used_view_def)

lemma used_view_Cons: "used_view h (a # bs) = (if is_free h a then [] else [(unat a, bsize h a, Some (atag (h a)))]) @ used_view h bs"
  by (simp add: used_view_def view_def)

lemma used_view_cong: "(\<And>a. a \<in> set as \<Longrightarrow> attrs (h' a) = attrs (h a) \<and> atag (h' a) = atag (h a)) \<Longrightarrow> used_view h' as = used_view h as"
  using view_cong [of as h' h] by (simp add: used_view_def)

lemma total_cong: "(\<And>a. a \<in> set as \<Longrightarrow> attrs (h' a) = attrs (h a)) \<Longrightarrow> total h' as = total h as"
  by (simp add: total_def bsize_def cong: map_cong)

lemma total_append [simp]: "total h (as @ bs) = total h as + total h bs" "total h (a # bs) = bsize h a + total h bs" "total h [] = 0"
  by (simp_all add: total_def)

lemma coalesced_append: "coalesced h (as @ b # bs) \<longleftrightarrow> coalesced h (as @ [b]) \<and> coalesced h (b # bs)"
proof (induction as)
  case (Cons a as)
  then show ?case by (cases as) auto
qed simp

lemma mergeable_cong: "attrs (h' a) = attrs (h a) \<Longrightarrow> attrs (h' b) = attrs (h b) \<Longrightarrow> mergeable h' a b = mergeable h a b"
  by (simp add: mergeable_def is_free_def btype_def bsize_def)

lemma coalesced_cong: "(\<And>a. a \<in> set as \<Longrightarrow> attrs (h' a) = attrs (h a)) \<Longrightarrow> coalesced h' as = coalesced h as"
proof (induction h as rule: coalesced.induct)
  case (1 h a b r)
  then have "mergeable h' a b = mergeable h a b" "coalesced h' (b # r) = coalesced h (b # r)"
    by (auto intro!: mergeable_cong)
  then show ?case by simp
qed simp_all

text \<open>The last block of a coalesced list may change its size.\<close>

lemma coalesced_snoc_cong:
  assumes "\<And>x. x \<in> set as \<Longrightarrow> attrs (h' x) = attrs (h x)" "is_free h' a = is_free h a"
  shows "coalesced h' (as @ [a]) = coalesced h (as @ [a])"
  using assms
proof (induction as)
  case (Cons x as)
  have x: "attrs (h' x) = attrs (h x)" using Cons.prems by simp
  show ?case
  proof (cases as)
    case Nil
    then show ?thesis using x Cons.prems(2) by (simp add: mergeable_def bsize_def is_free_def btype_def)
  next
    case (Cons y ys)
    then have "mergeable h' x y = mergeable h x y" using Cons.prems(1) by (intro mergeable_cong) auto
    then show ?thesis using Cons.IH Cons.prems \<open>as = y # ys\<close> by simp
  qed
qed simp

text \<open>Two adjacent blocks become one; \<open>b\<close> leaves the chain, and the free chain if it was on it.\<close>

lemma merge_ok:
  assumes H: "heap_ok h hp head (as @ a # b # bs) frees" and m: "is_free h a" "unat a + bsize h a = unat b"
    and at: "\<And>q. attrs (h' q) = (if q = a then ARENA_SIZE_SET (attrs (h a)) (ARENA_SIZE_GET (attrs (h a)) + ARENA_SIZE_GET (attrs (h b))) else attrs (h q))"
    and rings: "ring (nx h') (pv h') head (as @ a # bs)" "ring (nxf h') (pvf h') head frees'" "set frees' = set frees - {b}"
  shows "heap_ok h' hp head (as @ a # bs) frees'" "bsize h' a = bsize h a + bsize h b" "is_free h' a"
    "\<And>q. q \<noteq> a \<Longrightarrow> attrs (h' q) = attrs (h q)"
proof -
  note ok = heap_okD [OF H]
  have bb: "block_ok h hp head a" "block_ok h hp head b" using ok(4) by auto
  have d: "b \<noteq> a" "a \<notin> set as \<union> set bs" "b \<notin> set as \<union> set bs" "head \<noteq> a" using ring_distinct [OF ok(1)] by auto
  have al: "16 dvd bsize h a" "16 dvd bsize h b" by (simp_all add: bsize_def unat_size_get)
  have u: "unat (ARENA_SIZE_GET (attrs (h a)) + ARENA_SIZE_GET (attrs (h b))) = bsize h a + bsize h b"
    using bb m unfolding block_ok_def bsize_def by (intro unat_add_small) auto
  then have "ARENA_SIZE_GET (ARENA_SIZE_GET (attrs (h a)) + ARENA_SIZE_GET (attrs (h b))) =
      ARENA_SIZE_GET (attrs (h a)) + ARENA_SIZE_GET (attrs (h b))"
    using al by (simp add: size_get_fix)
  then show sz: "bsize h' a = bsize h a + bsize h b" by (simp add: bsize_def at) (simp add: u [unfolded bsize_def])
  show f: "is_free h' a" using m(1) by (simp add: is_free_def btype_def at)
  show old: "attrs (h' q) = attrs (h q)" if "q \<noteq> a" for q using that by (simp add: at)
  have ty: "is_free h' q = is_free h q" "ARENA_HEAP_GET (attrs (h' q)) = ARENA_HEAP_GET (attrs (h q))" for q
    by (simp_all add: is_free_def btype_def at)
  have apart: "apart h (as @ [a])" "apart h (b # bs)" using ok(5) apart_append [of h as a "b # bs"] by auto
  show "heap_ok h' hp head (as @ a # bs) frees'"
    unfolding heap_ok_def
  proof (intro conjI rings(1,2))
    have "set frees' = {x \<in> set (as @ a # b # bs). is_free h x} - {b}" unfolding rings(3) ok(3) ..
    also have "\<dots> = {x \<in> set (as @ a # bs). is_free h x}" using d by auto
    finally show "set frees' = {x \<in> set (as @ a # bs). is_free h' x}" unfolding ty(1) .
    show "\<forall>x\<in>set (as @ a # bs). block_ok h' hp head x"
    proof
      fix x assume x: "x \<in> set (as @ a # bs)"
      show "block_ok h' hp head x"
      proof (cases "x = a")
        case True
        then show ?thesis using bb m f sz ty(2) [of a] by (auto simp: block_ok_def)
      next
        case False
        then show ?thesis using block_ok_cong [of h' x h hp head] old x ok(4) by auto
      qed
    qed
    have os: "attrs (h' q) = attrs (h q)" if "q \<in> set as \<union> set bs" for q
      by (rule old) (use that d(2) in blast)
    have "apart h' (as @ [a]) = apart h (as @ [a])" by (rule apart_cong') (use os in simp)
    moreover have "apart h' bs = apart h bs" by (rule apart_cong) (use os in simp)
    ultimately show "apart h' (as @ a # bs)"
      unfolding apart_append [of h' as a bs] using apart sz m by (cases bs) auto
    show "btype h' head = type_code ARENA_TYPE_HEAD" using ok(6) d(4) by (simp add: btype_def at)
  qed
qed

lemma free_push_fields:
  assumes "nxf h head = Some n" "ah \<noteq> head"
  shows "attrs (free_push h head ah q) = (if q = ah then ARENA_TYPE_SET (attrs (h ah)) 1 else attrs (h q))"
    "atag (free_push h head ah q) = (if q = ah then 0 else atag (h q))"
    "nx (free_push h head ah) = nx h" "pv (free_push h head ah) = pv h"
    "nxf (free_push h head ah) = (nxf h)(ah := Some n, head := Some ah)"
    "pvf (free_push h head ah) = (pvf h)(ah := Some head, n := Some ah)"
  using assms by (simp_all add: free_push_def Let_def set_type_def nxf_def [of h head])

lemma free_push_ok:
  assumes H: "heap_ok h hp head (as @ ah # bs) frees" and u: "is_used h ah"
  defines "h' \<equiv> free_push h head ah"
  shows "heap_ok h' hp head (as @ ah # bs) (ah # frees)" "bsize h' ah = bsize h ah" "is_free h' ah"
    "\<And>q. q \<noteq> ah \<Longrightarrow> attrs (h' q) = attrs (h q) \<and> atag (h' q) = atag (h q)" "nx h' = nx h"
proof -
  note ok = heap_okD [OF H]
  have d: "ah \<noteq> head" "ah \<notin> set as \<union> set bs" using ring_distinct [OF ok(1)] by auto
  have "\<not> is_free h ah" using u type_facts by blast
  then have nf: "ah \<notin> set frees" using ok(3) by auto
  let ?n = "hd (frees @ [head])"
  note f = free_push_fields [OF ring_head_succ [OF ok(2)] d(1), folded h'_def]
  show b: "bsize h' ah = bsize h ah" and fr: "is_free h' ah" by (simp_all add: bsize_def is_free_def btype_def f type1)
  show old: "attrs (h' q) = attrs (h q) \<and> atag (h' q) = atag (h q)" if "q \<noteq> ah" for q using that by (simp add: f)
  show "nx h' = nx h" by (rule f)
  show "heap_ok h' hp head (as @ ah # bs) (ah # frees)"
    unfolding heap_ok_def
  proof (intro conjI)
    show "ring (nx h') (pv h') head (as @ ah # bs)" using ok(1) by (simp only: f)
    have "ring ((nxf h)(head := Some ah, ah := Some ?n)) ((pvf h)(?n := Some ah, ah := Some head)) head ([] @ ah # frees)"
      using ring_insert [of "nxf h" "pvf h" head "[]" frees ah] ok(2) d nf by simp
    moreover have "?n \<noteq> ah" using nf d by (cases frees) auto
    ultimately show "ring (nxf h') (pvf h') head (ah # frees)" using d(1) by (simp add: f fun_upd_twist)
    have os: "attrs (h' q) = attrs (h q)" if "q \<in> set as \<union> set bs" for q
      by (rule old [THEN conjunct1]) (use that d(2) in blast)
    have "{a \<in> set as \<union> set bs. is_free h' a} = {a \<in> set as \<union> set bs. is_free h a}"
      by (rule is_free_set_cong) (rule os)
    then show "set (ah # frees) = {a \<in> set (as @ ah # bs). is_free h' a}"
      using ok(3) fr \<open>\<not> is_free h ah\<close> by auto
    show "\<forall>x\<in>set (as @ ah # bs). block_ok h' hp head x"
    proof
      fix x assume x: "x \<in> set (as @ ah # bs)"
      show "block_ok h' hp head x"
      proof (cases "x = ah")
        case True
        then show ?thesis using ok(4) b fr by (auto simp: block_ok_def f)
      next
        case False
        then show ?thesis using block_ok_cong [of h' x h hp head] old x ok(4) by auto
      qed
    qed
    have "bsize h' a = bsize h a" for a by (simp add: bsize_def f)
    then show "apart h' (as @ ah # bs)" using ok(5) apart_bsize [of h' h] by metis
    show "btype h' head = type_code ARENA_TYPE_HEAD" using ok(6) d(1) by (simp add: btype_def f)
  qed
qed


text \<open>The state between the two halves of \<open>__free_block\<close>: the block \<open>a\<close> is free, and only its border to the
  next block may still be open.\<close>

definition half_freed :: "heap \<Rightarrow> u32 \<Rightarrow> u32 \<Rightarrow> u32 list \<Rightarrow> u32 \<Rightarrow> u32 list \<Rightarrow> heap \<Rightarrow> u32 list \<Rightarrow> u32 \<Rightarrow> bool" where
  "half_freed h hp head as ah bs h1 as1 a \<longleftrightarrow>
     (\<exists>frees1. heap_ok h1 hp head (as1 @ a # bs) frees1) \<and> is_free h1 a \<and> used_view h1 as1 = used_view h as \<and>
     (\<forall>b\<in>set bs. attrs (h1 b) = attrs (h b) \<and> atag (h1 b) = atag (h b)) \<and>
     total h1 as1 + bsize h1 a = total h as + bsize h ah \<and>
     (coalesced h (as @ ah # bs) \<longrightarrow> coalesced h1 (as1 @ [a]))"

lemma same_address: "unat a + n = unat b \<longleftrightarrow> a + s = b" if "unat a + n < 2 ^ 32" "unat (s :: u32) = n"
  using unat_add_small [OF that] by (auto simp: word_unat_eq_iff)

lemma merge_test:
  assumes "block_ok h hp head a"
  shows "a + ARENA_SIZE_GET (attrs (h a)) = b \<longleftrightarrow> unat a + bsize h a = unat b"
  using assms unfolding block_ok_def bsize_def by (intro same_address [symmetric]) auto

text \<open>First half.\<close>

lemma free_first_half:
  assumes H: "heap_ok h hp head (as @ ah # bs) frees" and u: "is_used h ah"
  defines "pah \<equiv> aprev (h ah)" and "nah \<equiv> anext (h ah)"
  defines "t \<equiv> ARENA_TYPE_GET (attrs (h pah)) = type_code ARENA_TYPE_FREE \<and> pah + ARENA_SIZE_GET (attrs (h pah)) = ah"
  shows "\<exists>as1. half_freed h hp head as ah bs (if t then free_into_prev h ah pah nah else free_push h head ah) as1 (if t then pah else ah)"
    "nah = hd (bs @ [head])"
proof -
  note ok = heap_okD [OF H]
  have p: "pah = last (head # as)" using ring_pred [OF ok(1)] by (simp add: pv_def pah_def)
  show n: "nah = hd (bs @ [head])" using ring_succ [OF ok(1)] by (simp add: nx_def nah_def)
  have d: "distinct (head # as @ ah # bs)" using ring_distinct [OF ok(1)] .
  have nfree: "\<not> is_free h ah" using u type_facts by blast
  show "\<exists>as1. half_freed h hp head as ah bs (if t then free_into_prev h ah pah nah else free_push h head ah) as1 (if t then pah else ah)"
  proof (cases t)
    case True
    then have "as \<noteq> []" using p ok(6) by (auto simp: t_def btype_def)
    then obtain as1 where as: "as = as1 @ [pah]" using p by (metis append_butlast_last_id last_ConsR)
    define h1 where "h1 = free_into_prev h ah pah nah"
    have H': "heap_ok h hp head (as1 @ pah # ah # bs) frees" using H by (simp add: as)
    have pf: "is_free h pah" "unat pah + bsize h pah = unat ah"
      using True ok(4) merge_test [of h hp head pah ah] by (auto simp: t_def is_free_def btype_def as)
    have at: "attrs (h1 q) = (if q = pah then ARENA_SIZE_SET (attrs (h pah)) (ARENA_SIZE_GET (attrs (h pah)) + ARENA_SIZE_GET (attrs (h ah)))
        else attrs (h q))" "atag (h1 q) = atag (h q)" "nx h1 = (nx h)(pah := Some nah)" "pv h1 = (pv h)(nah := Some pah)"
        "nxf h1 = nxf h" "pvf h1 = pvf h" for q
      by (simp_all add: h1_def free_into_prev_def Let_def set_size_def)
    have "ring ((nx h)(pah := Some nah)) ((pv h)(nah := Some pah)) head ((as1 @ [pah]) @ bs)"
      using ring_unlink [of "nx h" "pv h" head "as1 @ [pah]" ah bs] ok(1) by (simp add: as n)
    then have r: "ring (nx h1) (pv h1) head (as1 @ pah # bs)" by (simp add: at)
    have fr: "ring (nxf h1) (pvf h1) head frees" using ok(2) by (simp add: at)
    have sf: "set frees = set frees - {ah}" using ok(3) nfree by auto
    note m = merge_ok [OF H' pf at(1) r fr sf]
    have np: "pah \<notin> set as1 \<union> set bs" using d by (auto simp: as)
    have oa: "attrs (h1 q) = attrs (h q)" if "q \<in> set as1 \<union> set bs" for q by (rule m(4)) (use that np in blast)
    have "half_freed h hp head as ah bs h1 as1 pah"
      unfolding half_freed_def
    proof (intro conjI ballI impI)
      show "\<exists>frees1. heap_ok h1 hp head (as1 @ pah # bs) frees1" using m(1) by blast
      show "is_free h1 pah" by (rule m(3))
      have "used_view h1 as1 = used_view h as1" by (rule used_view_cong) (use oa at(2) in auto)
      then show "used_view h1 as1 = used_view h as" using pf(1) by (simp add: as used_view_Cons) (simp add: used_view_def view_def)
      have "total h1 as1 = total h as1" by (rule total_cong) (use oa in auto)
      then show "total h1 as1 + bsize h1 pah = total h as + bsize h ah" by (simp add: as m(2))
      assume "coalesced h (as @ ah # bs)"
      then have "coalesced h (as1 @ [pah])" using coalesced_append [of h as1 pah "ah # bs"] by (simp add: as)
      then show "coalesced h1 (as1 @ [pah])"
        using coalesced_snoc_cong [of as1 h1 h pah] oa m(3) pf(1) by simp
    qed (use oa at(2) in auto)
    then show ?thesis using True by (simp add: h1_def) blast
  next
    case False
    define h1 where "h1 = free_push h head ah"
    note f = free_push_ok [OF H u, folded h1_def]
    have oa: "attrs (h1 q) = attrs (h q) \<and> atag (h1 q) = atag (h q)" if "q \<in> set as \<union> set bs" for q
      by (rule f(4)) (use that d in auto)
    have "half_freed h hp head as ah bs h1 as ah"
      unfolding half_freed_def
    proof (intro conjI ballI impI)
      show "\<exists>frees1. heap_ok h1 hp head (as @ ah # bs) frees1" using f(1) by blast
      show "is_free h1 ah" by (rule f(3))
      show "used_view h1 as = used_view h as" by (rule used_view_cong) (use oa in auto)
      have "total h1 as = total h as" by (rule total_cong) (use oa in auto)
      then show "total h1 as + bsize h1 ah = total h as + bsize h ah" by (simp add: f(2))
      assume c: "coalesced h (as @ ah # bs)"
      show "coalesced h1 (as @ [ah])"
      proof (cases as rule: rev_cases)
        case (snoc us x)
        then have x: "pah = x" using p by simp
        have "\<not> mergeable h1 x ah"
        proof
          assume "mergeable h1 x ah"
          then have "is_free h x" "unat x + bsize h x = unat ah"
            using oa [of x] snoc by (auto simp: mergeable_def is_free_def btype_def bsize_def)
          then have t using merge_test [of h hp head x ah] ok(4) snoc by (auto simp: t_def x is_free_def btype_def)
          then show False using False by simp
        qed
        moreover have "coalesced h (us @ [x])" using c coalesced_append [of h us x "ah # bs"] snoc by simp
        then have "coalesced h1 (us @ [x])" using coalesced_cong [of "us @ [x]" h1 h] oa snoc by auto
        ultimately show ?thesis using coalesced_append [of h1 us x "[ah]"] snoc by simp
      qed simp
    qed (use oa in auto)
    then show ?thesis using False by (simp add: h1_def) blast
  qed
qed


lemma free_second_half:
  assumes H: "heap_ok h hp head (as @ a # bs) frees" and f: "is_free h a"
  defines "nah \<equiv> hd (bs @ [head])"
  defines "h' \<equiv> free_merge_next h a nah"
  obtains bs' frees' where "heap_ok h' hp head (as @ a # bs') frees'" "used_view h' bs' = used_view h bs"
    "is_free h' a" "\<forall>q\<in>set as. attrs (h' q) = attrs (h q) \<and> atag (h' q) = atag (h q)"
    "bsize h' a + total h' bs' = bsize h a + total h bs" "length bs' \<le> length bs"
    "coalesced h (as @ [a]) \<and> coalesced h bs \<longrightarrow> coalesced h' (as @ a # bs')"
proof -
  note ok = heap_okD [OF H]
  let ?t = "ARENA_TYPE_GET (attrs (h nah)) = type_code ARENA_TYPE_FREE \<and> a + ARENA_SIZE_GET (attrs (h a)) = nah"
  have d: "distinct (head # as @ a # bs)" using ring_distinct [OF ok(1)] .
  show thesis
  proof (cases ?t)
    case False
    then have h': "h' = h" unfolding h'_def free_merge_next_def by (simp only: if_False)
    have "coalesced h (as @ a # bs)" if "coalesced h (as @ [a])" "coalesced h bs"
    proof (cases bs)
      case (Cons b cs)
      have "\<not> mergeable h a b"
        using False merge_test [of h hp head a b] ok(4) Cons by (auto simp: nah_def mergeable_def is_free_def btype_def)
      then show ?thesis using that coalesced_append [of h as a bs] Cons by simp
    qed (use that in simp)
    then show thesis using that [of bs frees] H f by (simp add: h')
  next
    case True
    then have "bs \<noteq> []" using ok(6) by (auto simp: nah_def btype_def)
    then obtain cs where bs: "bs = nah # cs" unfolding nah_def by (cases bs) auto
    have nf: "is_free h nah" "unat a + bsize h a = unat nah"
      using True merge_test [of h hp head a nah] ok(4) bs by (auto simp: is_free_def btype_def)
    then have "nah \<in> set frees" using ok(3) bs by auto
    then obtain fs gs where fg: "frees = fs @ nah # gs" by (meson split_list)
    note fl = free_links [OF ok(2) [unfolded fg]]
    have na: "anext (h nah) = hd (cs @ [head])" using ring_succ [of "nx h" "pv h" head "as @ [a]" nah cs] ok(1) bs by (simp add: nx_def)
    define h1 where "h1 = set_size h a (ARENA_SIZE_GET (attrs (h a)) + ARENA_SIZE_GET (attrs (h nah)))"
    have f1: "attrs (h1 q) = (if q = a then ARENA_SIZE_SET (attrs (h a)) (ARENA_SIZE_GET (attrs (h a)) + ARENA_SIZE_GET (attrs (h nah)))
        else attrs (h q))" "atag (h1 q) = atag (h q)" "nx h1 = nx h" "pv h1 = pv h" "nxf h1 = nxf h" "pvf h1 = pvf h"
        "anext (h1 q) = anext (h q)" for q
      by (simp_all add: h1_def set_size_def)
    define h2 where "h2 = free_remove h1 nah"
    note f2 = free_remove_fields [of h1 nah, folded h2_def, OF fl [folded f1(5,6)]]
    have a2: "anext (h2 nah) = hd (cs @ [head])" using na f2(3) f1(3) by (simp add: nx_def fun_eq_iff)
    have h': "h' = set_prev (set_next h2 a (hd (cs @ [head]))) (hd (cs @ [head])) a"
    proof -
      have "anext (set_next h2 a (hd (cs @ [head])) nah) = hd (cs @ [head])" using a2 by simp
      then show ?thesis
        unfolding h'_def free_merge_next_def if_P [OF True] Let_def h1_def [symmetric] h2_def [symmetric] a2 by (simp only:)
    qed
    have at: "attrs (h' q) = (if q = a then ARENA_SIZE_SET (attrs (h a)) (ARENA_SIZE_GET (attrs (h a)) + ARENA_SIZE_GET (attrs (h nah)))
        else attrs (h q))" "atag (h' q) = atag (h q)" for q
      by (simp_all add: h' f2 f1)
    have l: "nx h' = (nx h)(a := Some (hd (cs @ [head])))" "pv h' = (pv h)(hd (cs @ [head]) := Some a)"
      "nxf h' = (nxf h)(last (head # fs) := Some (hd (gs @ [head])))" "pvf h' = (pvf h)(hd (gs @ [head]) := Some (last (head # fs)))"
      by (simp_all add: h' f2 f1)
    have r: "ring (nx h') (pv h') head (as @ a # cs)"
      using ring_unlink [of "nx h" "pv h" head "as @ [a]" nah cs] ok(1) bs by (simp add: l)
    have rf: "ring (nxf h') (pvf h') head (fs @ gs)" using ring_unlink [OF ok(2) [unfolded fg]] by (simp only: l)
    have sf: "set (fs @ gs) = set frees - {nah}" using ring_distinct [OF ok(2)] fg by auto
    note m = merge_ok [OF H [unfolded bs] f nf(2) at(1) r rf sf]
    have na': "a \<notin> set as \<union> set cs" using d bs by auto
    have oa: "attrs (h' q) = attrs (h q) \<and> atag (h' q) = atag (h q)" if "q \<in> set as \<union> set cs" for q
    proof -
      have "q \<noteq> a" using that na' by blast
      then show ?thesis using m(4) at(2) by simp
    qed
    show thesis
    proof (rule that [OF m(1)])
      have "used_view h' cs = used_view h cs" by (rule used_view_cong) (use oa in blast)
      then show "used_view h' cs = used_view h bs" using nf by (simp add: bs used_view_Cons)
      have "total h' cs = total h cs" by (rule total_cong) (use oa in blast)
      then show "bsize h' a + total h' cs = bsize h a + total h bs" by (simp add: bs m(2))
      show "coalesced h (as @ [a]) \<and> coalesced h bs \<longrightarrow> coalesced h' (as @ a # cs)"
      proof
      assume "coalesced h (as @ [a]) \<and> coalesced h bs"
      then have c: "coalesced h (as @ [a])" "coalesced h bs" by simp_all
      have "coalesced h' (as @ [a])" using coalesced_snoc_cong [of as h' h a] oa m(3) f c(1) by auto
      moreover have "coalesced h' (a # cs)"
      proof (cases cs)
        case (Cons x xs)
        have "\<not> mergeable h nah x" "coalesced h cs" using c(2) bs Cons by simp_all
        moreover have "coalesced h' cs = coalesced h cs" by (rule coalesced_cong) (use oa in blast)
        moreover have "attrs (h' x) = attrs (h x)" using oa [of x] Cons by simp
        ultimately show ?thesis using Cons m(2) nf by (auto simp: mergeable_def is_free_def btype_def bsize_def)
      qed simp
      ultimately show "coalesced h' (as @ a # cs)" using coalesced_append [of h' as a cs] by simp
      qed
    qed (use m(3) oa bs in auto)
  qed
qed

text \<open>The whole of \<open>__free_block\<close>: the other used blocks are as before, no byte is lost, and a coalesced heap stays so.\<close>

lemma free_block_ok:
  assumes H: "heap_ok h hp (heap_head mh hp) (as @ ah # bs) frees" and u: "is_used h ah"
  obtains h' a' as' bs' frees' where "free_block mh h ah = (h', a')" "heap_ok h' hp (heap_head mh hp) (as' @ a' # bs') frees'"
    "used_view h' as' = used_view h as" "used_view h' bs' = used_view h bs" "is_free h' a'"
    "total h' (as' @ a' # bs') = total h (as @ ah # bs)" "length bs' \<le> length bs"
    "coalesced h (as @ ah # bs) \<longrightarrow> coalesced h' (as' @ a' # bs')"
proof -
  let ?head = "heap_head mh hp" and ?pah = "aprev (h ah)" and ?nah = "anext (h ah)"
  let ?t = "ARENA_TYPE_GET (attrs (h ?pah)) = type_code ARENA_TYPE_FREE \<and> ?pah + ARENA_SIZE_GET (attrs (h ?pah)) = ah"
  define h1 where "h1 = (if ?t then free_into_prev h ah ?pah ?nah else free_push h ?head ah)"
  define a where "a = (if ?t then ?pah else ah)"
  have hp: "ARENA_HEAP_GET (attrs (h ah)) = hp" using heap_okD(4) [OF H] by (simp add: block_ok_def)
  obtain as1 where "half_freed h hp ?head as ah bs h1 as1 a"
    using free_first_half(1) [OF H u] unfolding h1_def a_def by blast
  then obtain frees1 where h1: "heap_ok h1 hp ?head (as1 @ a # bs) frees1" "is_free h1 a" "used_view h1 as1 = used_view h as"
      "\<forall>b\<in>set bs. attrs (h1 b) = attrs (h b) \<and> atag (h1 b) = atag (h b)"
      "total h1 as1 + bsize h1 a = total h as + bsize h ah" "coalesced h (as @ ah # bs) \<Longrightarrow> coalesced h1 (as1 @ [a])"
    by (auto simp: half_freed_def)
  have n: "?nah = hd (bs @ [?head])" by (rule free_first_half(2) [OF H u])
  define h' where "h' = free_merge_next h1 a ?nah"
  have r: "free_block mh h ah = (h', a)"
    by (cases ?t) (simp_all only: free_block_def Let_def hp h'_def h1_def a_def if_True if_False simp_thms prod.case)
  have ub: "used_view h1 bs = used_view h bs" "total h1 bs = total h bs" "coalesced h1 bs = coalesced h bs"
    using h1(4) by (auto intro!: used_view_cong total_cong coalesced_cong)
  have cb: "coalesced h bs" if "coalesced h (as @ ah # bs)"
    using that coalesced_append [of h as ah bs] by (cases bs) auto
  obtain bs' frees' where s: "heap_ok h' hp ?head (as1 @ a # bs') frees'" "used_view h' bs' = used_view h1 bs"
    "is_free h' a" "\<forall>q\<in>set as1. attrs (h' q) = attrs (h1 q) \<and> atag (h' q) = atag (h1 q)"
    "bsize h' a + total h' bs' = bsize h1 a + total h1 bs" "length bs' \<le> length bs"
    "coalesced h1 (as1 @ [a]) \<and> coalesced h1 bs \<longrightarrow> coalesced h' (as1 @ a # bs')"
    by (rule free_second_half [OF h1(1,2), folded n h'_def])
  have "used_view h' as1 = used_view h1 as1" "total h' as1 = total h1 as1"
    using s(4) by (auto intro!: used_view_cong total_cong)
  then show thesis
    using that [OF r s(1)] s h1 ub cb by simp
qed


section \<open>Properties\<close>

text \<open>Coalescing, seen by the client.\<close>

fun free_pairs_apart :: "(nat \<times> nat \<times> u32 option) list \<Rightarrow> bool" where
  "free_pairs_apart ((a, s, t) # (b, s', t') # r) \<longleftrightarrow>
     \<not> (t = None \<and> t' = None \<and> a + s = b) \<and> free_pairs_apart ((b, s', t') # r)"
| "free_pairs_apart _ \<longleftrightarrow> True"

lemma coalesced_view: "coalesced h chain = free_pairs_apart (view h chain)"
proof (induction h chain rule: coalesced.induct)
  case (1 h a b r)
  then show ?case by (simp add: view_def mergeable_def)
qed (simp_all add: view_def)

lemma free_pairs_append:
  "free_pairs_apart (xs @ y # ys) \<longleftrightarrow> free_pairs_apart (xs @ [y]) \<and> free_pairs_apart (y # ys)"
proof (induction xs)
  case (Cons x xs)
  then show ?case by (cases x; cases xs; cases y) auto
qed simp

lemma alloc_view_coalesced:
  assumes "free_pairs_apart (xs @ (a, s, None) # ys)"
  shows "free_pairs_apart (xs @ alloc_view n tag (a, s) @ ys)"
proof -
  have x: "free_pairs_apart (xs @ [(a, s', Some tag)])" for s'
    using free_pairs_append [THEN iffD1, THEN conjunct1, OF assms]
  proof (induction xs)
    case (Cons x xs)
    then show ?case by (cases x; cases xs) auto
  qed simp
  have y: "free_pairs_apart ((a, s, None) # ys)" by (rule free_pairs_append [THEN iffD1, THEN conjunct2, OF assms])
  show ?thesis
  proof (cases "n + 32 \<le> s")
    case True
    have "free_pairs_apart ((a, n, Some tag) # (a + n, s - n, None) # ys)"
      using y True by (cases ys) auto
    then show ?thesis using True x [of n] free_pairs_append [of xs "(a, n, Some tag)" "(a + n, s - n, None) # ys"] by (simp add: alloc_view_def)
  next
    case False
    have "free_pairs_apart ((a, s, Some tag) # ys)" using y by (cases ys) auto
    then show ?thesis using False x [of s] free_pairs_append [of xs "(a, s, Some tag)" ys] by (simp add: alloc_view_def)
  qed
qed

text \<open>C9.  Allocation is first fit on a well-formed heap and keeps it well-formed: for a request whose rounded size does
  not wrap, either no free block is large enough and the result is NULL with the heap untouched, or the
  result points behind the header of the first block of the free chain that is large enough: every block before it in
  that chain is too small.  It is now used with the caller's tag, the rest of a block that has 32 bytes more is a free block, at
  the same place of the free chain, and no other block changed.  A coalesced heap stays coalesced.\<close>

theorem malloc_first_fit:
  assumes "heap_ok h (heap_code hp) (heap_head mh (heap_code hp)) chain frees" "sz \<noteq> 0" "unat sz + 31 < 2 ^ 32"
  shows "(\<forall>a\<in>set chain. is_free h a \<longrightarrow> bsize h a < rounded (unat sz)) \<and> malloc_from mh h sz hp tag = Some (h, 0) \<or>
    (\<exists>h' as fp bs fs gs chain' frees'. chain = as @ fp # bs \<and> frees = fs @ fp # gs \<and> is_free h fp \<and> rounded (unat sz) \<le> bsize h fp \<and>
       (\<forall>a\<in>set fs. bsize h a < rounded (unat sz)) \<and>
       frees' = fs @ (if rounded (unat sz) + 32 \<le> bsize h fp then [fp + of_nat (rounded (unat sz))] else []) @ gs \<and>
       malloc_from mh h sz hp tag = Some (h', fp + 16) \<and> fp + 16 \<noteq> 0 \<and>
       heap_ok h' (heap_code hp) (heap_head mh (heap_code hp)) chain' frees' \<and>
       view h' chain' = view h as @ alloc_view (rounded (unat sz)) (owner_code tag) (unat fp, bsize h fp) @ view h bs \<and>
       (coalesced h chain \<longrightarrow> coalesced h' chain'))"
  using malloc_from_ok [OF assms, of tag]
proof (elim disjE exE conjE)
  fix h' as fp bs fs gs chain' frees'
  assume r: "chain = as @ fp # bs" "is_free h fp" "rounded (unat sz) \<le> bsize h fp" "malloc_from mh h sz hp tag = Some (h', fp + 16)"
    "heap_ok h' (heap_code hp) (heap_head mh (heap_code hp)) chain' frees'"
    "view h' chain' = view h as @ alloc_view (rounded (unat sz)) (owner_code tag) (unat fp, bsize h fp) @ view h bs"
    and f: "frees = fs @ fp # gs" "\<forall>a\<in>set fs. bsize h a < rounded (unat sz)"
    "frees' = fs @ (if rounded (unat sz) + 32 \<le> bsize h fp then [fp + of_nat (rounded (unat sz))] else []) @ gs"
  have c: "coalesced h' chain'" if "coalesced h chain"
    unfolding coalesced_view r(6)
    by (rule alloc_view_coalesced) (use that r(1,2) in \<open>simp add: coalesced_view view_def\<close>)
  have b: "block_ok h (heap_code hp) (heap_head mh (heap_code hp)) fp" using heap_okD(4) [OF assms(1)] r(1) by simp
  then have "unat (fp + 16) = unat fp + 16" unfolding block_ok_def by (subst unat_add_no_wrap) auto
  then have "fp + 16 \<noteq> 0" by (metis add_is_0 unsigned_0 zero_neq_numeral)
  then show ?thesis using r f c by blast
qed simp

text \<open>C12.  Freeing a used block of a well-formed heap keeps it well-formed: every other used block is as before, in the
  same order, the bytes of all blocks add up to the same number, and if no two adjacent blocks were both free before, none
  are after.\<close>

theorem free_keeps_heap:
  assumes "heap_ok h hp (heap_head mh hp) (as @ ah # bs) frees" "is_used h ah"
  shows "\<exists>chain' frees'. heap_ok (free_mem mh h (ah + 16)) hp (heap_head mh hp) chain' frees' \<and>
    used_view (free_mem mh h (ah + 16)) chain' = used_view h as @ used_view h bs \<and>
    total (free_mem mh h (ah + 16)) chain' = total h (as @ ah # bs) \<and>
    (coalesced h (as @ ah # bs) \<longrightarrow> coalesced (free_mem mh h (ah + 16)) chain')"
proof -
  obtain h' a' as' bs' frees' where r: "free_block mh h ah = (h', a')" "heap_ok h' hp (heap_head mh hp) (as' @ a' # bs') frees'"
    "used_view h' as' = used_view h as" "used_view h' bs' = used_view h bs" "is_free h' a'"
    "total h' (as' @ a' # bs') = total h (as @ ah # bs)"
    "coalesced h (as @ ah # bs) \<longrightarrow> coalesced h' (as' @ a' # bs')"
    by (rule free_block_ok [OF assms])
  have "block_ok h hp (heap_head mh hp) ah" using heap_okD(4) [OF assms(1)] by simp
  then have "unat (ah + 16) = unat ah + 16" unfolding block_ok_def by (subst unat_add_no_wrap) auto
  then have "ah + 16 \<noteq> 0" by (metis add_is_0 unsigned_0 zero_neq_numeral)
  then have "free_mem mh h (ah + 16) = h'" by (simp add: free_mem_def r(1))
  then show ?thesis using r by (intro exI [where x = "as' @ a' # bs'"] exI [where x = frees']) (simp add: used_view_Cons)
qed

text \<open>C34.  A request within 31 bytes of 4G wraps in the rounding: the search then takes the first free block, whatever its
  size, so the caller gets a block that is far too small instead of NULL.\<close>

theorem malloc_huge_wraps:
  assumes "heap_ok h (heap_code hp) (heap_head mh (heap_code hp)) chain (f # frees)" "2 ^ 32 \<le> unat sz + 31"
  shows "(\<exists>h'. malloc_from mh h sz hp tag = Some (h', f + 16)) \<and> f + 16 \<noteq> 0 \<and> bsize h f < unat sz"
proof -
  let ?head = "heap_head mh (heap_code hp)"
  define s where "s = (sz + 2 * 16 - 1) AND ARENA_SIZE_MASK"
  note ok = heap_okD [OF assms(1)]
  have "f \<in> set chain" using ok(3) by auto
  then have b: "block_ok h (heap_code hp) ?head f" using ok(4) by blast
  have "unat sz \<ge> 4294967265" using assms(2) by simp
  then have z: "sz \<noteq> 0" by auto
  have "unat (sz + 31) = (unat sz + 31) mod 2 ^ 32" by (simp add: unat_word_ariths)
  also have "\<dots> \<le> 30"
  proof -
    have "unat sz < 4294967296" using unat_u32_lt [of sz] by simp
    then have "unat sz - 4294967265 \<le> 30" by linarith
    then have "unat sz + 31 - 2 ^ 32 \<le> 30" by simp
    moreover have "(unat sz + 31) mod 2 ^ 32 = (unat sz + 31 - 2 ^ 32) mod 2 ^ 32" using assms(2) by (rule le_mod_geq)
    moreover have "(unat sz + 31 - 2 ^ 32) mod 2 ^ 32 \<le> unat sz + 31 - 2 ^ 32" by (rule mod_less_eq_dividend)
    ultimately show ?thesis by linarith
  qed
  finally have "unat (sz + 31) \<le> 30" .
  moreover have "s = ARENA_SIZE_GET (sz + 31)" by (simp add: s_def ARENA_SIZE_GET_def add.commute)
  ultimately have "unat s \<le> 30" using unat_size_get [of "sz + 31"] by (simp add: le_trans [OF div_times_less_eq_dividend])
  then have le: "s \<le> ARENA_SIZE_GET (attrs (h f))" using b by (simp add: word_le_nat_alt block_ok_def bsize_def)
  have "links (nxf h) (pvf h) (?head # (f # frees) @ [?head])" "?head \<notin> set (f # frees)" using ok(2) by (auto simp: ring_def)
  then have ff: "find_fit h ?head s (next_free (h ?head)) = Some (find (\<lambda>a. s \<le> ARENA_SIZE_GET (attrs (h a))) (f # frees))"
    by (rule find_fit_chain)
  have "malloc_from mh h sz hp tag = Some (malloc_from_block h f s (owner_code tag))"
    using z le by (simp only: malloc_from_def Let_def ff bind.bind_lunit if_True simp_thms find.simps option.case flip: s_def)
  moreover have "snd (malloc_from_block h f s (owner_code tag)) = f + 16" by (simp add: malloc_from_block_def Let_def)
  moreover have "bsize h f < unat sz" using b \<open>unat sz \<ge> 4294967265\<close> by (simp add: block_ok_def)
  moreover have "unat (f + 16) = unat f + 16" using b unfolding block_ok_def by (subst unat_add_no_wrap) auto
  then have "f + 16 \<noteq> 0" by (metis add_is_0 unsigned_0 zero_neq_numeral)
  ultimately show ?thesis by (cases "malloc_from_block h f s (owner_code tag)") auto
qed

text \<open>Freeing everything with a tag ends, removes exactly the used blocks with that tag, and leaves a well-formed heap
  with the same number of bytes, coalesced if it was.\<close>

lemma free_tagged_loop_ok:
  assumes "heap_ok h hp (heap_head mh hp) (as @ bs) frees" "fp = hd (bs @ [heap_head mh hp])"
  shows "\<exists>h' chain' frees'. free_tagged_loop mh h (heap_head mh hp) tag fp = Some h' \<and>
    heap_ok h' hp (heap_head mh hp) chain' frees' \<and>
    used_view h' chain' = used_view h as @ filter (\<lambda>(a, s, t). t \<noteq> Some tag) (used_view h bs) \<and>
    total h' chain' = total h (as @ bs) \<and> (coalesced h (as @ bs) \<longrightarrow> coalesced h' chain')"
  using assms
proof (induction "length bs" arbitrary: h as bs frees fp rule: less_induct)
  case less
  let ?head = "heap_head mh hp"
  show ?case
  proof (cases bs)
    case Nil
    then show ?thesis using less.prems by (subst free_tagged_loop.simps) (auto simp: used_view_def view_def)
  next
    case (Cons b cs)
    have H: "heap_ok h hp ?head (as @ b # cs) frees" using less.prems(1) Cons by simp
    note ok = heap_okD [OF H]
    have fp: "fp = b" "b \<noteq> ?head" using less.prems(2) Cons ring_distinct [OF ok(1)] by auto
    show ?thesis
    proof (cases "is_used h b \<and> atag (h b) = tag")
      case True
      obtain h1 a1 as1 cs1 frees1 where r: "free_block mh h b = (h1, a1)" "heap_ok h1 hp ?head (as1 @ a1 # cs1) frees1"
        "used_view h1 as1 = used_view h as" "used_view h1 cs1 = used_view h cs" "is_free h1 a1"
        "total h1 (as1 @ a1 # cs1) = total h (as @ b # cs)" "length cs1 \<le> length cs"
        "coalesced h (as @ b # cs) \<longrightarrow> coalesced h1 (as1 @ a1 # cs1)"
        by (rule free_block_ok [OF H True [THEN conjunct1]])
      have n: "anext (h1 a1) = hd (cs1 @ [?head])" using ring_succ [OF heap_okD(1) [OF r(2)]] by (simp add: nx_def)
      have s: "free_tagged_loop mh h ?head tag fp = free_tagged_loop mh h1 ?head tag (hd (cs1 @ [?head]))"
        using True fp r(1) n by (subst free_tagged_loop.simps) (simp add: is_used_def btype_def)
      have "length cs1 < length bs" using r(7) Cons by simp
      from less.hyps [OF this, of h1 "as1 @ [a1]" frees1 "hd (cs1 @ [?head])"] r(2)
      obtain h' chain' frees' where R: "free_tagged_loop mh h1 ?head tag (hd (cs1 @ [?head])) = Some h'"
        "heap_ok h' hp ?head chain' frees'"
        "used_view h' chain' = used_view h1 (as1 @ [a1]) @ filter (\<lambda>(a, s, t). t \<noteq> Some tag) (used_view h1 cs1)"
        "total h' chain' = total h1 ((as1 @ [a1]) @ cs1)" "coalesced h1 ((as1 @ [a1]) @ cs1) \<longrightarrow> coalesced h' chain'"
        by auto
      have "used_view h1 (as1 @ [a1]) = used_view h as" using r(3,5) by (simp add: used_view_Cons) (simp add: used_view_def view_def)
      moreover have "\<not> is_free h b" using True type_facts by blast
      ultimately have "used_view h' chain' = used_view h as @ filter (\<lambda>(a, s, t). t \<noteq> Some tag) (used_view h bs)"
        using R(3) r(4) True Cons by (simp add: used_view_Cons)
      then show ?thesis using s R r(6,8) Cons by auto
    next
      case False
      have n: "anext (h b) = hd (cs @ [?head])" using ring_succ [OF ok(1)] by (simp add: nx_def)
      have s: "free_tagged_loop mh h ?head tag fp = free_tagged_loop mh h ?head tag (hd (cs @ [?head]))"
        using False fp n by (subst free_tagged_loop.simps) (auto simp: is_used_def btype_def)
      from less.hyps [of cs h "as @ [b]" frees "hd (cs @ [?head])"] H Cons
      obtain h' chain' frees' where R: "free_tagged_loop mh h ?head tag (hd (cs @ [?head])) = Some h'"
        "heap_ok h' hp ?head chain' frees'"
        "used_view h' chain' = used_view h (as @ [b]) @ filter (\<lambda>(a, s, t). t \<noteq> Some tag) (used_view h cs)"
        "total h' chain' = total h ((as @ [b]) @ cs)" "coalesced h ((as @ [b]) @ cs) \<longrightarrow> coalesced h' chain'"
        by auto
      have "is_free h b \<or> is_used h b" using ok(4) by (auto simp: block_ok_def)
      then have "used_view h' chain' = used_view h as @ filter (\<lambda>(a, s, t). t \<noteq> Some tag) (used_view h bs)"
        using R(3) False Cons by (auto simp: used_view_Cons) (simp_all add: used_view_def view_def)
      then show ?thesis using s R Cons by auto
    qed
  qed
qed

text \<open>A concrete heap: a used block of a module, a free block and a used block.\<close>

definition small_heap :: heap where
  "small_heap =
     (\<lambda>_. \<lparr>atag = 0, attrs = 0, anext = 0, aprev = 0, next_free = 0, prev_free = 0\<rparr>)
       (64 := \<lparr>atag = 1, attrs = 2, anext = 128, aprev = 256, next_free = 192, prev_free = 192\<rparr>,
        128 := \<lparr>atag = 3, attrs = 64, anext = 192, aprev = 64, next_free = 0, prev_free = 0\<rparr>,
        192 := \<lparr>atag = 0, attrs = 65, anext = 256, aprev = 128, next_free = 64, prev_free = 64\<rparr>,
        256 := \<lparr>atag = 2, attrs = 32, anext = 64, aprev = 192, next_free = 0, prev_free = 0\<rparr>)"

lemma small_heap_at:
  "small_heap 64 = \<lparr>atag = 1, attrs = 2, anext = 128, aprev = 256, next_free = 192, prev_free = 192\<rparr>"
  "small_heap 128 = \<lparr>atag = 3, attrs = 64, anext = 192, aprev = 64, next_free = 0, prev_free = 0\<rparr>"
  "small_heap 192 = \<lparr>atag = 0, attrs = 65, anext = 256, aprev = 128, next_free = 64, prev_free = 64\<rparr>"
  "small_heap 256 = \<lparr>atag = 2, attrs = 32, anext = 64, aprev = 192, next_free = 0, prev_free = 0\<rparr>"
  by (simp_all add: small_heap_def)

lemma arena_get_numeral:
  "ARENA_TYPE_GET 2 = 2" "ARENA_TYPE_GET 64 = 0" "ARENA_TYPE_GET 65 = 1" "ARENA_TYPE_GET 32 = 0"
  "ARENA_SIZE_GET 64 = 64" "ARENA_SIZE_GET 65 = 64" "ARENA_SIZE_GET 32 = 32"
  "ARENA_HEAP_GET 64 = 0" "ARENA_HEAP_GET 65 = 0" "ARENA_HEAP_GET 32 = 0"
  by (simp_all add: ARENA_TYPE_GET_def ARENA_SIZE_GET_def ARENA_HEAP_GET_def ARENA_TYPE_MASK_def ARENA_SIZE_MASK_def ARENA_HEAP_MASK_def)

lemma small_heap_views:
  "btype small_heap 64 = 2" "btype small_heap 128 = 0" "btype small_heap 192 = 1" "btype small_heap 256 = 0"
  "bsize small_heap 128 = 64" "bsize small_heap 192 = 64" "bsize small_heap 256 = 32"
  by (simp_all add: btype_def bsize_def small_heap_at arena_get_numeral)

lemma small_heap_ok: "heap_ok small_heap (heap_code HEAP_MAIN) (heap_head 64 (heap_code HEAP_MAIN)) [128, 192, 256] [192]"
  unfolding heap_ok_def ring_def block_ok_def is_free_def is_used_def
  by (auto simp: heap_head_def nx_def pv_def nxf_def pvf_def small_heap_views small_heap_at arena_get_numeral)

theorem malloc_first_fit_witness:
  "\<exists>h' p. malloc_from 64 small_heap 10 HEAP_MAIN MALLOC_CORE = Some (h', 192 + 16)"
proof -
  have free: "is_free small_heap a \<longleftrightarrow> a = 192" if "a \<in> set [128, 192, 256]" for a
    using that by (auto simp: is_free_def small_heap_views)
  have "rounded (unat (10 :: u32)) = 32" by (simp add: rounded_def)
  then have "\<not> (\<forall>a\<in>set [128, 192, 256]. is_free small_heap a \<longrightarrow> bsize small_heap a < rounded (unat (10 :: u32)))"
    using free by (auto simp: small_heap_views)
  with malloc_first_fit [OF small_heap_ok, of 10 MALLOC_CORE]
  obtain h' as fp bs where "[128, 192, 256] = as @ fp # bs" "is_free small_heap fp"
    "malloc_from 64 small_heap 10 HEAP_MAIN MALLOC_CORE = Some (h', fp + 16)" by auto
  moreover from this(1) have "fp \<in> set [128, 192, 256]" by (metis in_set_conv_decomp)
  ultimately show ?thesis using free by blast
qed

theorem free_keeps_heap_witness:
  "\<exists>chain' frees'. heap_ok (free_mem 64 small_heap (128 + 16)) 0 (heap_head 64 0) chain' frees' \<and>
     used_view (free_mem 64 small_heap (128 + 16)) chain' = [(256, 32, Some 2)]"
  using free_keeps_heap [of small_heap 0 64 "[]" 128 "[192, 256]" "[192]"] small_heap_ok
  by (auto simp: is_used_def small_heap_views used_view_def view_def is_free_def small_heap_at)

theorem malloc_huge_wraps_witness:
  "\<exists>h'. malloc_from 64 small_heap 0xFFFFFFF0 HEAP_MAIN MALLOC_CORE = Some (h', 192 + 16)"
  using malloc_huge_wraps [OF small_heap_ok, of "0xFFFFFFF0" MALLOC_CORE] by simp

text \<open>C33.  Freeing everything with a tag ends, keeps the heap well-formed, leaves exactly the used blocks
  with other tags, in their order, and the same number of bytes; a coalesced heap stays coalesced.\<close>

theorem free_tagged_leaves_others:
  assumes "heap_ok h hp (heap_head mh hp) chain frees"
  shows "\<exists>h' chain' frees'. free_tagged_loop mh h (heap_head mh hp) tag (anext (h (heap_head mh hp))) = Some h' \<and>
    heap_ok h' hp (heap_head mh hp) chain' frees' \<and>
    used_view h' chain' = filter (\<lambda>(a, s, t). t \<noteq> Some tag) (used_view h chain) \<and>
    total h' chain' = total h chain \<and> (coalesced h chain \<longrightarrow> coalesced h' chain')"
proof -
  have "links (nx h) (pv h) (heap_head mh hp # chain @ [heap_head mh hp])" using heap_okD(1) [OF assms] by (simp add: ring_def)
  then have "anext (h (heap_head mh hp)) = hd (chain @ [heap_head mh hp])" by (cases chain) (auto simp: nx_def)
  then show ?thesis using free_tagged_loop_ok [of h hp mh "[]" chain frees, OF _ ] assms by (simp add: used_view_def view_def)
qed

theorem free_tagged_leaves_others_witness:
  "\<exists>h' chain'. free_tagged_loop 64 small_heap 64 3 128 = Some h' \<and> used_view h' chain' = [(256, 32, Some 2)]"
  using free_tagged_leaves_others [OF small_heap_ok, of 3]
  by (auto simp: heap_head_def small_heap_at small_heap_views used_view_def view_def is_free_def)


section \<open>The heaps at the start\<close>

text \<open>A used block alone in a memory whose head is empty: injecting it gives a heap with this one free block.\<close>

definition lone_block :: "heap \<Rightarrow> u32 \<Rightarrow> u32 \<Rightarrow> heap" where
  "lone_block h head a =
     h(a := \<lparr>atag = 0, attrs = ARENA_TYPE_SET (attrs (h a)) 1, anext = head, aprev = head, next_free = head, prev_free = head\<rparr>,
       head := (h head)\<lparr>anext := a, aprev := a, next_free := a, prev_free := a\<rparr>)"

lemma inject_lone:
  assumes "anext (h head) = head" "aprev (h head) = head" "next_free (h head) = head" "prev_free (h head) = head"
    "btype h head = 2" "head = heap_head mh (ARENA_HEAP_GET (attrs (h a)))" "a \<noteq> head"
  shows "inject_free_block mh h a = Some (lone_block h head a)"
proof -
  have p: "inject_place h head a e head = Some (Some head)" for e by (subst inject_place.simps) simp
  define g where "g = set_next (set_prev (set_prev (set_next h a head) a head) head a) head a"
  have g: "g = h(a := (h a)\<lparr>anext := head, aprev := head\<rparr>, head := (h head)\<lparr>anext := a, aprev := a\<rparr>)"
    using assms(7) by (auto simp: g_def setter_defs fun_eq_iff)
  have t: "ARENA_TYPE_GET (attrs (h head)) = 2" using assms(5) by (simp add: btype_def)
  have "free_block mh g a = (free_push g head a, a)"
    using assms(6,7) t by (simp add: free_block_def Let_def g free_merge_next_def free_push_def setter_defs set_type_def flip: assms(6))
  moreover have "free_push g head a = lone_block h head a"
    using assms(3,4,7) by (auto simp: g free_push_def lone_block_def setter_defs set_type_def Let_def fun_eq_iff)
  ultimately show ?thesis
    using assms(1,2,7) p by (simp add: inject_free_block_def Let_def flip: assms(6)) (simp add: g_def setter_defs)
qed

lemma lone_block_ok:
  assumes "a \<noteq> head" "btype h head = 2" "btype h a = 0" "ARENA_HEAP_GET (attrs (h a)) = hp" "32 \<le> unat a" "32 \<le> bsize h a"
    "unat a + bsize h a < 2 ^ 32" "unat head < unat a \<or> unat a + bsize h a \<le> unat head"
  shows "heap_ok (lone_block h head a) hp head [a] [a]" "bsize (lone_block h head a) a = bsize h a"
proof -
  let ?h = "lone_block h head a"
  have at: "?h a = \<lparr>atag = 0, attrs = ARENA_TYPE_SET (attrs (h a)) 1, anext = head, aprev = head, next_free = head, prev_free = head\<rparr>"
    "?h head = (h head)\<lparr>anext := a, aprev := a, next_free := a, prev_free := a\<rparr>"
    using assms(1) by (auto simp: lone_block_def)
  have b: "bsize ?h a = bsize h a" "btype ?h a = 1" "btype ?h head = 2" "ARENA_HEAP_GET (attrs (?h a)) = hp"
    using assms(2,4) type1 by (simp_all add: at bsize_def btype_def)
  show "heap_ok ?h hp head [a] [a]"
    unfolding heap_ok_def ring_def block_ok_def is_free_def is_used_def
    using assms(1,5-8) b by (auto simp: nx_def pv_def nxf_def pvf_def at)
  show "bsize ?h a = bsize h a" by (rule b)
qed

lemma ring_cong:
  assumes "\<And>x. x \<in> insert c (set xs) \<Longrightarrow> f' x = f x \<and> g' x = g x"
  shows "ring f' g' c xs = ring f g c xs"
proof -
  have "set (butlast (c # xs @ [c])) \<union> set (tl (c # xs @ [c])) \<subseteq> insert c (set xs)"
    using in_set_butlastD [of _ "c # xs @ [c]"] by auto
  then have "links f' g' (c # xs @ [c]) = links f g (c # xs @ [c])"
    using assms by (intro links_cong) blast+
  then show ?thesis by (simp add: ring_def)
qed

lemma heap_ok_frame:
  assumes "heap_ok h hp head chain frees" "\<And>a. a \<in> insert head (set chain) \<Longrightarrow> h' a = h a"
  shows "heap_ok h' hp head chain frees"
proof -
  have f: "set frees \<subseteq> set chain" using heap_okD(3) [OF assms(1)] by auto
  have "ring (nx h') (pv h') head chain = ring (nx h) (pv h) head chain"
    by (rule ring_cong) (use assms(2) in \<open>auto simp: nx_def pv_def\<close>)
  moreover have "ring (nxf h') (pvf h') head frees = ring (nxf h) (pvf h) head frees"
    by (rule ring_cong) (use assms(2) f in \<open>auto simp: nxf_def pvf_def\<close>)
  moreover have "is_free h' a = is_free h a" "block_ok h' hp head a = block_ok h hp head a" if "a \<in> set chain" for a
    using assms(2) [of a] that by (simp_all add: attr_cong(2) [of h' a h] block_ok_cong [of h' a h])
  moreover have "apart h' chain = apart h chain" by (rule apart_cong) (use assms(2) in simp)
  moreover have "btype h' head = btype h head" using assms(2) by (simp add: btype_def)
  ultimately show ?thesis using assms(1) unfolding heap_ok_def by auto
qed

text \<open>C36.  \<open>mem_init\<close> ends and sets up two well-formed heaps, each with one free block: 128 KiB at \<open>__main_heap\<close>, and the
  low memory from \<open>__lowmem_heap\<close> to the BIOS limit, its size rounded down to 16, provided these regions are in
  memory and apart from the heads, and do not start at the same address.\<close>

theorem mem_init_two_heaps:
  assumes "main \<noteq> low" "32 \<le> unat main" "unat main + 131072 < 2 ^ 32" "32 \<le> unat low" "unat low + 32 \<le> 1024 * unat bios"
    "unat mh + 64 \<le> unat main \<or> unat main + 131072 \<le> unat mh"
    "unat mh + 64 \<le> unat low \<or> 1024 * unat bios \<le> unat mh" "unat mh + 64 < 2 ^ 32"
  shows "\<exists>h'. mem_init mh main low bios h = Some h' \<and> heap_ok h' 0 mh [main] [main] \<and> heap_ok h' 1 (mh + 32) [low] [low] \<and>
    view h' [main] = [(unat main, 131072, None)] \<and> view h' [low] = [(unat low, (1024 * unat bios - unat low) div 16 * 16, None)]"
proof -
  let ?l = "mh + 32"
  have l: "unat ?l = unat mh + 32" using assms(8) by (subst unat_add_no_wrap) auto
  have ne: "mh \<noteq> ?l" "main \<noteq> mh" "main \<noteq> ?l" "low \<noteq> mh" "low \<noteq> ?l"
    using l assms by (auto dest: arg_cong [where f = unat])
  have side: "unat mh < unat main \<or> unat main + 131072 \<le> unat mh" "unat ?l < unat low \<or> 1024 * unat bios \<le> unat ?l"
    using assms(6,7) l by linarith+
  define h2 where "h2 = init_heap_head mh 1 (init_heap_head mh 0 h)"
  define h3 where "h3 = set_size (set_attrs h2 main 0) main 131072"
  define h4 where "h4 = lone_block h3 mh main"
  define h5 where "h5 = set_size (set_attrs h4 low 4) low (1024 * ucast bios - low)"
  have h2: "h2 mh = \<lparr>atag = 1, attrs = 2, anext = mh, aprev = mh, next_free = mh, prev_free = mh\<rparr>"
    "h2 ?l = \<lparr>atag = 1, attrs = 6, anext = ?l, aprev = ?l, next_free = ?l, prev_free = ?l\<rparr>"
    using ne(1) by (auto simp: h2_def init_heap_head_def heap_head_def setter_defs Let_def)
  have h3: "h3 mh = h2 mh" "h3 ?l = h2 ?l" "attrs (h3 main) = 131072"
    using ne by (simp_all add: h3_def setter_defs set_size_def ARENA_SIZE_SET_def ARENA_SIZE_MASK_def)
  have m: "ARENA_TYPE_GET 2 = 2" "ARENA_TYPE_GET 6 = 2" "ARENA_TYPE_GET 131072 = 0" "ARENA_HEAP_GET 131072 = 0" "ARENA_SIZE_GET 131072 = 131072"
    "ARENA_TYPE_GET 4 = 0" "ARENA_HEAP_GET 4 = 1"
    by (simp_all add: ARENA_TYPE_GET_def ARENA_SIZE_GET_def ARENA_HEAP_GET_def ARENA_TYPE_MASK_def ARENA_SIZE_MASK_def ARENA_HEAP_MASK_def)
  have i1: "inject_free_block mh h3 main = Some h4"
    unfolding h4_def by (rule inject_lone) (use ne in \<open>simp_all add: h2 h3 btype_def m heap_head_def\<close>)
  have ok4: "heap_ok h4 0 mh [main] [main]" "bsize h4 main = 131072"
    using lone_block_ok [of main mh h3 0] assms(2,3) side(1) ne by (simp_all add: h2 h3 btype_def bsize_def m h4_def)
  have h4: "h4 ?l = h2 ?l" using ne by (simp add: h4_def lone_block_def h3)
  have "unat bios < 65536" using unsigned_less [of bios] by simp
  then have bl: "1024 * unat bios < 67108864" by simp
  have big: "unat (1024 * ucast bios :: u32) = 1024 * unat bios"
  proof -
    have "1024 * unat bios < 4294967296" using bl by linarith
    from mod_less [OF this] show ?thesis by (simp add: unat_word_ariths unat_ucast_up)
  qed
  have "low \<le> 1024 * ucast bios" using assms(5) big by (simp add: word_le_nat_alt)
  then have sz: "unat (1024 * ucast bios - low :: u32) = 1024 * unat bios - unat low"
    by (simp add: unat_sub big)
  have h5: "h5 ?l = h2 ?l" "attrs (h5 low) = ARENA_SIZE_SET 4 (1024 * ucast bios - low)" "h5 mh = h4 mh" "h5 main = h4 main"
    using ne assms(1) by (simp_all add: h5_def setter_defs set_size_def h4)
  have i2: "inject_free_block mh h5 low = Some (lone_block h5 ?l low)"
    by (rule inject_lone) (use ne in \<open>simp_all add: h2 h5 btype_def m heap_head_def\<close>)
  have b5: "bsize h5 low = (1024 * unat bios - unat low) div 16 * 16" by (simp add: bsize_def h5 unat_size_get sz)
  have b5': "32 \<le> bsize h5 low" "unat low + bsize h5 low \<le> 1024 * unat bios"
  proof -
    have n: "32 \<le> n \<Longrightarrow> 32 \<le> n div 16 * 16" "n div 16 * 16 \<le> n" for n :: nat by presburger+
    show "32 \<le> bsize h5 low" unfolding b5 by (rule n(1)) (use assms(5) in linarith)
    show "unat low + bsize h5 low \<le> 1024 * unat bios"
      using n(2) [of "1024 * unat bios - unat low"] assms(5) unfolding b5 by linarith
  qed
  have b5'': "unat low + bsize h5 low < 2 ^ 32" by (rule less_le_trans [of _ 4294967296]) (use b5'(2) bl in linarith, simp)
  have b5s: "unat ?l < unat low \<or> unat low + bsize h5 low \<le> unat ?l" using b5'(2) side(2) by linarith
  have ok5: "heap_ok (lone_block h5 ?l low) 1 ?l [low] [low]" "bsize (lone_block h5 ?l low) low = bsize h5 low"
    using lone_block_ok [of low ?l h5 1] assms(4) b5'(1) b5'' b5s ne by (simp_all add: h2 h5 btype_def m)
  have "heap_ok (lone_block h5 ?l low) 0 mh [main] [main]" "bsize (lone_block h5 ?l low) main = bsize h4 main"
    using ok4(1) ne assms(1) by (auto intro!: heap_ok_frame [OF ok4(1)] attr_cong(1) simp: h5 lone_block_def)
  moreover have "mem_init mh main low bios h = Some (lone_block h5 ?l low)"
    using i1 i2 by (simp add: mem_init_def h2_def h3_def h5_def push_bit_eq_mult mult.commute)
  moreover have "is_free (lone_block h5 ?l low) main" "is_free (lone_block h5 ?l low) low"
    using heap_okD(3) [OF ok5(1)] heap_okD(3) [OF calculation(1)] by auto
  ultimately show ?thesis using ok4(2) ok5 b5 by (simp add: view_def)
qed

theorem mem_init_two_heaps_witness:
  "\<exists>h'. mem_init 0x1000 0x100000 0x8000 639 small_heap = Some h' \<and> heap_ok h' 1 0x1020 [0x8000] [0x8000] \<and>
     view h' [0x8000] = [(32768, 621568, None)]"
  using mem_init_two_heaps [of "0x100000" "0x8000" 639 "0x1000" small_heap] by auto

end
