(* ===== verification/Vfs.thy ===== *)
theory Vfs
  imports Fatdir "HOL-Library.Multiset"
begin

text \<open>
  The file layer \<open>libcore/fs/fs.c\<close>: the table of open files, reference-counted inodes, and the generic
  path search of \<open>searchdir\<close> over the operations of a file system.

  Inodes live in cells at addresses (0 is NULL, here \<open>None\<close>); a read through a pointer to a cell that
  is not there gives \<open>None\<close>.  The file system's own state (device, cache) is the \<open>world\<close>.
  Where an inode is put is a parameter \<open>inew\<close>, the allocator's choice; \<open>alloc\<close> is the allocator for
  strings: \<open>alloc n\<close> is a fresh object or \<open>None\<close> for NULL.
\<close>

section \<open>State\<close>

record vfile =
  file_fs :: bool
  foffset :: u32
  finode :: "nat option"

type_synonym 'p cells = "nat \<Rightarrow> 'p inode option"

record ('p, 'w) vfs =
  cells :: "'p cells"
  files :: "vfile list"
  root_inode :: "nat option"
  cwd_inode :: "nat option"
  cwd_name :: bytes
  world :: 'w

definition no_file :: vfile where
  "no_file = \<lparr>file_fs = False, foffset = 0, finode = None\<rparr>"

text \<open>\<open>struct fs_ops\<close>; an operation that a file system may leave out is an option.\<close>

record ('p, 'w) fs_ops =
  op_flags :: u32
  op_init :: "'w \<Rightarrow> 'w \<times> int"
  op_searchdir :: "(bytes \<Rightarrow> nat \<Rightarrow> ('p, 'w) vfs \<Rightarrow> ('p, 'w) vfs option) option"
  op_getfssec :: "nat \<Rightarrow> int \<Rightarrow> ('p, 'w) vfs \<Rightarrow> (('p, 'w) vfs \<times> bytes \<times> u32 \<times> bool) option"
  op_close_file :: "nat \<Rightarrow> ('p, 'w) vfs \<Rightarrow> ('p, 'w) vfs option"
  op_mangle_name :: "bytes \<Rightarrow> bytes \<Rightarrow> bytes option"
  op_realpath :: "(bytes \<Rightarrow> bytes \<Rightarrow> nat \<Rightarrow> 'w \<Rightarrow> ('w \<times> bytes \<times> u32) option) option"
  op_chdir :: "(bytes \<Rightarrow> ('p, 'w) vfs \<Rightarrow> (('p, 'w) vfs \<times> int) option) option"
  op_load_config :: "('p, 'w) vfs \<Rightarrow> (('p, 'w) vfs \<times> int) option"
  op_iget_root :: "('w \<Rightarrow> ('w \<times> 'p inode option) option) option"
  op_iget :: "bytes \<Rightarrow> 'p inode \<Rightarrow> 'w \<Rightarrow> ('w \<times> 'p inode option) option"
  op_readlink :: "('p inode \<Rightarrow> bytes \<Rightarrow> 'w \<Rightarrow> ('w \<times> bytes \<times> int) option) option"
  op_readdir :: "(nat \<Rightarrow> ('p, 'w) vfs \<Rightarrow> dirent \<Rightarrow> (('p, 'w) vfs \<times> dirent \<times> int) option) option"

definition MAX_SYMLINK_CNT :: int where "MAX_SYMLINK_CNT = 20"
definition MAX_SYMLINK_BUF :: u32 where "MAX_SYMLINK_BUF = 4096"

definition set_cell :: "nat \<Rightarrow> 'p inode option \<Rightarrow> ('p, 'w) vfs \<Rightarrow> ('p, 'w) vfs" where
  "set_cell a i st = st\<lparr>cells := (cells st)(a := i)\<rparr>"

section \<open>Inodes\<close>

definition alloc_inode :: "u32 \<Rightarrow> 'p \<Rightarrow> 'p inode" where
  "alloc_inode ino p = (zero_inode p)\<lparr>inum := ino, refcnt := 1\<rparr>"

definition get_inode :: "nat option \<Rightarrow> ('p, 'w) vfs \<Rightarrow> ('p, 'w) vfs option" where
  "get_inode p st = do { a \<leftarrow> p; i \<leftarrow> cells st a; Some (set_cell a (Some (i\<lparr>refcnt := refcnt i + 1\<rparr>)) st) }"

partial_function (option) put_inode :: "nat option \<Rightarrow> ('p, 'w) vfs \<Rightarrow> ('p, 'w) vfs option" where
  "put_inode p st =
     (case p of
        None \<Rightarrow> Some st
      | Some a \<Rightarrow>
          do { i \<leftarrow> cells st a;
               if refcnt i - 1 \<noteq> 0 then Some (set_cell a (Some (i\<lparr>refcnt := refcnt i - 1\<rparr>)) st)
               else put_inode (parent i) (set_cell a None st) })"

section \<open>Files and handles\<close>

fun find_free ::  "vfile list \<Rightarrow> nat option" where
  "find_free [] = None"
| "find_free (f # fs) = (if \<not> file_fs f then Some 0 else map_option Suc (find_free fs))"

definition alloc_file :: "('p, 'w) vfs \<Rightarrow> nat option" where
  "alloc_file st = find_free (files st)"

definition set_file :: "nat \<Rightarrow> vfile \<Rightarrow> ('p, 'w) vfs \<Rightarrow> ('p, 'w) vfs" where
  "set_file k f st = st\<lparr>files := (files st)[k := f]\<rparr>"

definition free_file :: "nat \<Rightarrow> ('p, 'w) vfs \<Rightarrow> ('p, 'w) vfs" where
  "free_file k st = set_file k no_file st"

definition the_file :: "('p, 'w) vfs \<Rightarrow> nat \<Rightarrow> vfile option" where
  "the_file st k = rd (files st) k"

definition close_file_at :: "('p, 'w) fs_ops \<Rightarrow> nat \<Rightarrow> ('p, 'w) vfs \<Rightarrow> ('p, 'w) vfs option" where
  "close_file_at ops k st =
     do { f \<leftarrow> the_file st k;
          st \<leftarrow> (if file_fs f then op_close_file ops k st else Some st);
          Some (free_file k st) }"

text \<open>\<open>lib/close.c\<close>\<close>

definition generic_close_file :: "nat \<Rightarrow> ('p, 'w) vfs \<Rightarrow> ('p, 'w) vfs option" where
  "generic_close_file k st =
     do { f \<leftarrow> the_file st k;
          case finode f of
            None \<Rightarrow> Some st
          | Some a \<Rightarrow> put_inode (Some a) (set_file k (f\<lparr>foffset := 0\<rparr>) st) }"

text \<open>A handle is the index in the table plus one; \<open>None\<close> is the NULL pointer for handle 0.\<close>

definition file_to_handle :: "nat option \<Rightarrow> u16" where
  "file_to_handle k = (case k of Some k \<Rightarrow> of_nat k + 1 | None \<Rightarrow> 0)"

definition handle_to_file :: "u16 \<Rightarrow> nat option" where
  "handle_to_file h = (if h \<noteq> 0 then Some (unat (h - 1)) else None)"

definition close_file :: "('p, 'w) fs_ops \<Rightarrow> u16 \<Rightarrow> ('p, 'w) vfs \<Rightarrow> ('p, 'w) vfs option" where
  "close_file ops h st = (if h \<noteq> 0 then do { k \<leftarrow> handle_to_file h; close_file_at ops k st } else Some st)"

section \<open>The path search\<close>

fun skip_slashes :: "bytes \<Rightarrow> nat option" where
  "skip_slashes [] = None"
| "skip_slashes (c # s) = (if c = 0x2f then map_option Suc (skip_slashes s) else Some 0)"

definition root_name :: bytes where
  "root_name = [0x2f, 0]"

text \<open>The next component: its name, the path with the name cut off, and where the rest starts.\<close>

definition next_component :: "bytes \<Rightarrow> nat \<Rightarrow> (bytes \<times> bytes \<times> nat option) option" where
  "next_component path pos =
     do { c \<leftarrow> rd path pos;
          (name, path, nxt) \<leftarrow>
            (if c = 0x2f then Some (root_name, path, Some (pos + 1))
             else do { r \<leftarrow> strchr (drop (pos + 1) path) 0x2f;
                       case r of
                         None \<Rightarrow> Some (drop pos path, path, None)
                       | Some k \<Rightarrow> do { path \<leftarrow> wr path (pos + 1 + k) 0; Some (drop pos path, path, Some (pos + 1 + k + 1)) } });
          nxt \<leftarrow> (case nxt of
                    None \<Rightarrow> Some None
                  | Some q \<Rightarrow> do { k \<leftarrow> skip_slashes (drop q path);
                                   c \<leftarrow> rd path (q + k);
                                   Some (if c = 0 then None else Some (q + k)) });
          Some (name, path, nxt) }"

text \<open>
  What one round of the loop leaves: the inode (\<open>None\<close>: the search failed), the path, the rest, and
  the number of links left.
\<close>

record ('p, 'w) walk =
  wst :: "('p, 'w) vfs"
  winode :: "nat option"
  wpath :: bytes
  wnext :: "nat option"
  wcount :: int

definition walk_fail :: "('p, 'w) walk \<Rightarrow> nat \<Rightarrow> ('p, 'w) walk option" where
  "walk_fail w a = do { st \<leftarrow> put_inode (Some a) (wst w); Some (w\<lparr>wst := st, winode := None\<rparr>) }"

definition follow_link :: "('p, 'w) fs_ops \<Rightarrow> (nat \<Rightarrow> bytes option) \<Rightarrow> nat \<Rightarrow> ('p, 'w) walk \<Rightarrow> ('p, 'w) walk option" where
  "follow_link ops alloc b w =
     do { i \<leftarrow> cells (wst w) b;
          let new_len = isize i + 1;
          new_len \<leftarrow> (case wnext w of None \<Rightarrow> Some new_len
                       | Some q \<Rightarrow> do { l \<leftarrow> strlen (drop q (wpath w)); Some (new_len + (of_nat l + 1)) });
          case op_readlink ops of
            None \<Rightarrow> walk_fail w b
          | Some readlink \<Rightarrow>
              let w = w\<lparr>wcount := wcount w - 1\<rparr> in
              if wcount w = 0 \<or> MAX_SYMLINK_BUF <s new_len then walk_fail w b
              else case alloc (unat new_len) of
                None \<Rightarrow> walk_fail w b
              | Some new_path \<Rightarrow>
                  do { (x, new_path, copied) \<leftarrow> readlink i new_path (world (wst w));
                       let w = w\<lparr>wst := (wst w)\<lparr>world := x\<rparr>\<rparr>;
                       if copied \<le> 0 then walk_fail w b
                       else do { new_path \<leftarrow> wr new_path (nat copied) 0;
                                 new_path \<leftarrow> (case wnext w of
                                     None \<Rightarrow> Some new_path
                                   | Some q \<Rightarrow>
                                       do { new_path \<leftarrow> wr new_path (nat copied) 0x2f;
                                            t \<leftarrow> strcpy (drop (nat copied + 1) new_path) (drop q (wpath w));
                                            Some (take (nat copied + 1) new_path @ t) });
                                 let st = wst w;
                                 st \<leftarrow> get_inode (parent i) st;
                                 st \<leftarrow> put_inode (Some b) st;
                                 Some (w\<lparr>wst := st, winode := parent i, wpath := new_path, wnext := Some 0\<rparr>) } } }"

text \<open>Any name but the special ones: look it up in the directory at \<open>a\<close>.\<close>

definition walk_lookup ::
  "('p, 'w) fs_ops \<Rightarrow> (nat \<Rightarrow> bytes option) \<Rightarrow> (('p, 'w) vfs \<Rightarrow> nat) \<Rightarrow> bytes \<Rightarrow> nat \<Rightarrow> ('p, 'w) walk \<Rightarrow> ('p, 'w) walk option" where
  "walk_lookup ops alloc inew name a w =
     do { dir \<leftarrow> cells (wst w) a;
          (x, r) \<leftarrow> op_iget ops name dir (world (wst w));
          let w = w\<lparr>wst := (wst w)\<lparr>world := x\<rparr>\<rparr>;
          case r of
            None \<Rightarrow> walk_fail w a
          | Some i \<Rightarrow>
              let b = inew (wst w); w = w\<lparr>wst := set_cell b (Some i) (wst w)\<rparr> in
              if parent i \<noteq> None \<and> parent i \<noteq> Some a
              then do { st \<leftarrow> put_inode (Some b) (wst w); walk_fail (w\<lparr>wst := st\<rparr>) a }
              else do { nm \<leftarrow> strdup alloc name;
                        let i = i\<lparr>parent := Some a, iname := nm\<rparr>;
                        let w = w\<lparr>wst := set_cell b (Some i) (wst w)\<rparr>;
                        if imode i = ucast (dt_code DT_LNK) then follow_link ops alloc b w
                        else if wnext w \<noteq> None \<and> imode i \<noteq> ucast (dt_code DT_DIR) then walk_fail w b
                        else Some (w\<lparr>winode := Some b\<rparr>) } }"

definition walk_step ::
  "('p, 'w) fs_ops \<Rightarrow> (nat \<Rightarrow> bytes option) \<Rightarrow> (('p, 'w) vfs \<Rightarrow> nat) \<Rightarrow> nat \<Rightarrow> nat \<Rightarrow> ('p, 'w) walk \<Rightarrow> ('p, 'w) walk option" where
  "walk_step ops alloc inew pos a w =
     do { (name, path, nxt) \<leftarrow> next_component (wpath w) pos;
          let w = w\<lparr>wpath := path, wnext := nxt\<rparr>;
          c \<leftarrow> rd name 0;
          if c = 0x2f
          then do { st \<leftarrow> put_inode (Some a) (wst w);
                    st \<leftarrow> get_inode (root_inode st) st;
                    Some (w\<lparr>wst := st, winode := root_inode st\<rparr>) }
          else do { dot \<leftarrow> strncmp name [0x2e, 0] 2;
                    if dot = 0 then Some w
                    else do { dotdot \<leftarrow> strncmp name [0x2e, 0x2e, 0] 3;
                              if dotdot = 0
                              then do { i \<leftarrow> cells (wst w) a;
                                        case parent i of
                                          None \<Rightarrow> Some w
                                        | Some p \<Rightarrow>
                                            do { st \<leftarrow> get_inode (Some p) (wst w);
                                                 st \<leftarrow> put_inode (Some a) st;
                                                 Some (w\<lparr>wst := st, winode := Some p\<rparr>) } }
                              else walk_lookup ops alloc inew name a w } } }"

partial_function (option) walk_loop ::
  "('p, 'w) fs_ops \<Rightarrow> (nat \<Rightarrow> bytes option) \<Rightarrow> (('p, 'w) vfs \<Rightarrow> nat) \<Rightarrow> ('p, 'w) walk \<Rightarrow> ('p, 'w) walk option" where
  "walk_loop ops alloc inew w =
     (case (wnext w, winode w) of
        (Some pos, Some a) \<Rightarrow> do { w \<leftarrow> walk_step ops alloc inew pos a w; walk_loop ops alloc inew w }
      | _ \<Rightarrow> Some w)"

text \<open>\<open>searchdir\<close> returns a handle or -1.\<close>

definition searchdir_fail :: "('p, 'w) fs_ops \<Rightarrow> nat \<Rightarrow> ('p, 'w) vfs \<Rightarrow> (('p, 'w) vfs \<times> int) option" where
  "searchdir_fail ops k st = do { st \<leftarrow> close_file_at ops k st; Some (st, -1) }"

definition searchdir ::
  "('p, 'w) fs_ops \<Rightarrow> (nat \<Rightarrow> bytes option) \<Rightarrow> (('p, 'w) vfs \<Rightarrow> nat) \<Rightarrow> bytes \<Rightarrow> ('p, 'w) vfs \<Rightarrow> (('p, 'w) vfs \<times> int) option" where
  "searchdir ops alloc inew name st =
     (case alloc_file st of
        None \<Rightarrow> Some (st, -1)
      | Some k \<Rightarrow>
          do { f \<leftarrow> the_file st k;
               let st = set_file k (f\<lparr>file_fs := True\<rparr>) st;
               case op_searchdir ops of
                 Some sd \<Rightarrow>
                   do { st \<leftarrow> sd name k st;
                        f \<leftarrow> the_file st k;
                        if finode f \<noteq> None then Some (st, uint (file_to_handle (Some k))) else searchdir_fail ops k st }
               | None \<Rightarrow>
                   do { p \<leftarrow> strdup alloc name;
                        case p of
                          None \<Rightarrow> searchdir_fail ops k st
                        | Some path \<Rightarrow>
                            do { st \<leftarrow> get_inode (cwd_inode st) st;
                                 w \<leftarrow> walk_loop ops alloc inew
                                   \<lparr>wst = st, winode = cwd_inode st, wpath = path, wnext = Some 0, wcount = MAX_SYMLINK_CNT\<rparr>;
                                 let st = wst w;
                                 case winode w of
                                   None \<Rightarrow> searchdir_fail ops k st
                                 | Some a \<Rightarrow>
                                     do { f \<leftarrow> the_file st k;
                                          Some (set_file k (f\<lparr>finode := Some a, foffset := 0\<rparr>) st, uint (file_to_handle (Some k))) } } } })"

section \<open>Opening and reading\<close>

text \<open>\<open>struct com32_filedata\<close>.\<close>

record filedata =
  fd_size :: u32
  fd_blocklg2 :: nat
  fd_handle :: u16

definition mangle_name :: "('p, 'w) fs_ops \<Rightarrow> bytes \<Rightarrow> bytes \<Rightarrow> bytes option" where
  "mangle_name ops dst src = op_mangle_name ops dst src"

text \<open>The file and the inode behind a handle.\<close>

definition file_inode :: "('p, 'w) vfs \<Rightarrow> nat \<Rightarrow> 'p inode option" where
  "file_inode st k = do { f \<leftarrow> the_file st k; a \<leftarrow> finode f; cells st a }"

text \<open>\<open>junk\<close> is the first contents of the local buffer.\<close>

definition open_file ::
  "fs_info \<Rightarrow> ('p, 'w) fs_ops \<Rightarrow> (nat \<Rightarrow> bytes option) \<Rightarrow> (('p, 'w) vfs \<Rightarrow> nat) \<Rightarrow> bytes \<Rightarrow> bytes \<Rightarrow> ('p, 'w) vfs \<Rightarrow>
   (('p, 'w) vfs \<times> int \<times> filedata option) option" where
  "open_file fs ops alloc inew junk name st =
     do { mangled \<leftarrow> mangle_name ops junk name;
          (st, rv) \<leftarrow> searchdir ops alloc inew mangled st;
          if rv < 0 then Some (st, rv, None)
          else do { k \<leftarrow> handle_to_file (word_of_int rv);
                    i \<leftarrow> file_inode st k;
                    if imode i \<noteq> ucast (dt_code DT_REG)
                    then do { st \<leftarrow> close_file_at ops k st; Some (st, -1, None) }
                    else Some (st, rv, Some \<lparr>fd_size = isize i, fd_blocklg2 = sector_shift fs, fd_handle = word_of_int rv\<rparr>) } }"

definition pmapi_read_file :: "('p, 'w) fs_ops \<Rightarrow> u16 \<Rightarrow> int \<Rightarrow> ('p, 'w) vfs \<Rightarrow> (('p, 'w) vfs \<times> u16 \<times> bytes \<times> u32) option" where
  "pmapi_read_file ops h sectors st =
     do { k \<leftarrow> handle_to_file h;
          f \<leftarrow> the_file st k;
          (st, buf, n, more) \<leftarrow> op_getfssec ops k sectors st;
          if \<not> more then do { st \<leftarrow> close_file_at ops k st; Some (st, 0, buf, n) }
          else Some (st, h, buf, n) }"

section \<open>The entries from real mode\<close>

record com32sys =
  r_gs :: u16
  r_fs :: u16
  r_es :: u16
  r_ds :: u16
  r_edi :: u32
  r_esi :: u32
  r_ebp :: u32
  r_ebx :: u32
  r_edx :: u32
  r_ecx :: u32
  r_eax :: u32
  r_eflags :: u32

definition EFLAGS_CF :: u32 where "EFLAGS_CF = 0x00000001"
definition EFLAGS_PF :: u32 where "EFLAGS_PF = 0x00000004"
definition EFLAGS_AF :: u32 where "EFLAGS_AF = 0x00000010"
definition EFLAGS_ZF :: u32 where "EFLAGS_ZF = 0x00000040"
definition EFLAGS_SF :: u32 where "EFLAGS_SF = 0x00000080"
definition EFLAGS_OF :: u32 where "EFLAGS_OF = 0x00000800"

text \<open>The low half of a register.\<close>

definition w0 :: "u32 \<Rightarrow> u16" where
  "w0 r = ucast r"

definition set_w0 :: "u32 \<Rightarrow> u16 \<Rightarrow> u32" where
  "set_w0 r v = (r AND 0xffff0000) OR ucast v"

definition set_flags :: "com32sys \<Rightarrow> u32 \<Rightarrow> com32sys" where
  "set_flags regs fl =
     regs\<lparr>r_eflags := (r_eflags regs AND NOT (EFLAGS_CF OR EFLAGS_PF OR EFLAGS_AF OR EFLAGS_ZF OR EFLAGS_SF OR EFLAGS_OF)) OR fl\<rparr>"

text \<open>\<open>str seg off\<close> is the string that \<open>MK_PTR(seg, off)\<close> points to.\<close>

definition pm_load_config :: "('p, 'w) fs_ops \<Rightarrow> ('p, 'w) vfs \<Rightarrow> com32sys \<Rightarrow> (('p, 'w) vfs \<times> com32sys) option" where
  "pm_load_config ops st regs =
     do { (st, err) \<leftarrow> op_load_config ops st;
          Some (st, set_flags regs (if err \<noteq> 0 then EFLAGS_ZF else 0)) }"

definition pm_mangle_name :: "('p, 'w) fs_ops \<Rightarrow> (u16 \<Rightarrow> u16 \<Rightarrow> bytes) \<Rightarrow> com32sys \<Rightarrow> bytes option" where
  "pm_mangle_name ops str regs =
     mangle_name ops (str (r_es regs) (w0 (r_edi regs))) (str (r_ds regs) (w0 (r_esi regs)))"

definition read_regs ::
  "('p, 'w) fs_ops \<Rightarrow> int \<Rightarrow> ('p, 'w) vfs \<Rightarrow> com32sys \<Rightarrow> (('p, 'w) vfs \<times> bytes \<times> com32sys) option" where
  "read_regs ops sectors st regs =
     do { k \<leftarrow> handle_to_file (w0 (r_esi regs));
          (st, buf, n, more) \<leftarrow> op_getfssec ops k sectors st;
          (st, regs) \<leftarrow> (if \<not> more then do { st \<leftarrow> close_file_at ops k st; Some (st, regs\<lparr>r_esi := set_w0 (r_esi regs) 0\<rparr>) }
                       else Some (st, regs));
          Some (st, buf, regs\<lparr>r_ecx := n\<rparr>) }"

definition getfssec :: "('p, 'w) fs_ops \<Rightarrow> ('p, 'w) vfs \<Rightarrow> com32sys \<Rightarrow> (('p, 'w) vfs \<times> bytes \<times> com32sys) option" where
  "getfssec ops st regs = read_regs ops (uint (w0 (r_ecx regs))) st regs"

definition getfsbytes :: "fs_info \<Rightarrow> ('p, 'w) fs_ops \<Rightarrow> ('p, 'w) vfs \<Rightarrow> com32sys \<Rightarrow> (('p, 'w) vfs \<times> bytes \<times> com32sys) option" where
  "getfsbytes fs ops st regs = read_regs ops (uint (drop_bit (sector_shift fs) (w0 (r_ecx regs)))) st regs"

definition pm_searchdir ::
  "('p, 'w) fs_ops \<Rightarrow> (nat \<Rightarrow> bytes option) \<Rightarrow> (('p, 'w) vfs \<Rightarrow> nat) \<Rightarrow> (u16 \<Rightarrow> u16 \<Rightarrow> bytes) \<Rightarrow> ('p, 'w) vfs \<Rightarrow> com32sys \<Rightarrow>
   (('p, 'w) vfs \<times> com32sys) option" where
  "pm_searchdir ops alloc inew str st regs =
     do { (st, rv) \<leftarrow> searchdir ops alloc inew (str (r_ds regs) (w0 (r_edi regs))) st;
          if rv < 0
          then Some (st, regs\<lparr>r_esi := set_w0 (r_esi regs) 0, r_eax := 0, r_eflags := r_eflags regs OR EFLAGS_ZF\<rparr>)
          else do { k \<leftarrow> handle_to_file (word_of_int rv);
                    i \<leftarrow> file_inode st k;
                    Some (st, regs\<lparr>r_esi := set_w0 (r_esi regs) (word_of_int rv), r_eax := isize i,
                                   r_eflags := r_eflags regs AND NOT EFLAGS_ZF\<rparr>) } }"

definition pm_open_file ::
  "fs_info \<Rightarrow> ('p, 'w) fs_ops \<Rightarrow> (nat \<Rightarrow> bytes option) \<Rightarrow> (('p, 'w) vfs \<Rightarrow> nat) \<Rightarrow> (u16 \<Rightarrow> u16 \<Rightarrow> bytes) \<Rightarrow> bytes \<Rightarrow> ('p, 'w) vfs \<Rightarrow>
   com32sys \<Rightarrow> (('p, 'w) vfs \<times> com32sys) option" where
  "pm_open_file fs ops alloc inew str junk st regs =
     do { mangled \<leftarrow> mangle_name ops junk (str (r_es regs) (w0 (r_esi regs)));
          (st, rv) \<leftarrow> searchdir ops alloc inew mangled st;
          if rv < 0 then Some (st, regs\<lparr>r_eflags := r_eflags regs OR EFLAGS_CF\<rparr>)
          else do { k \<leftarrow> handle_to_file (word_of_int rv);
                    i \<leftarrow> file_inode st k;
                    Some (st, regs\<lparr>r_eflags := r_eflags regs AND NOT EFLAGS_CF, r_eax := isize i,
                                   r_ecx := set_w0 (r_ecx regs) (ucast (sector_size fs)),
                                   r_esi := set_w0 (r_esi regs) (word_of_int rv)\<rparr>) } }"

definition pm_close_file :: "('p, 'w) fs_ops \<Rightarrow> ('p, 'w) vfs \<Rightarrow> com32sys \<Rightarrow> ('p, 'w) vfs option" where
  "pm_close_file ops st regs = close_file ops (w0 (r_esi regs)) st"

section \<open>Start\<close>

definition FS_NODEV :: u32 where "FS_NODEV = 1"

text \<open>
  \<open>start_mem\<close>, \<open>start_dev\<close> and \<open>start_cache\<close> are \<open>mem_init\<close>, \<open>device_init\<close> and \<open>cache_init\<close> on the world.  The drivers are tried in order; \<open>None\<close>: none takes the disk, and the code loops for ever.  The
  device is set up before the first driver that needs one.
\<close>

fun mount_loop ::
  "('w \<Rightarrow> 'w) \<Rightarrow> ('p, 'w) fs_ops list \<Rightarrow> bool \<Rightarrow> 'w \<Rightarrow> ('w \<times> ('p, 'w) fs_ops \<times> bool \<times> int) option" where
  "mount_loop start_dev [] dev x = None"
| "mount_loop start_dev (ops # rest) dev x =
     (let nodev = (op_flags ops AND FS_NODEV \<noteq> 0);
          (x, dev) = (if nodev then (x, dev) else (if dev then x else start_dev x, True));
          (x, blk_shift) = op_init ops x
      in if blk_shift < 0 then mount_loop start_dev rest dev x else Some (x, ops, \<not> nodev, blk_shift))"

definition fs_init ::
  "('w \<Rightarrow> 'w option) \<Rightarrow> ('w \<Rightarrow> 'w) \<Rightarrow> ('w \<Rightarrow> bool) \<Rightarrow> (int \<Rightarrow> 'w \<Rightarrow> 'w) \<Rightarrow> (('p, 'w) vfs \<Rightarrow> nat) \<Rightarrow> ('p, 'w) fs_ops list \<Rightarrow> 'w \<Rightarrow>
   (('p, 'w) vfs \<times> ('p, 'w) fs_ops) option" where
  "fs_init start_mem start_dev has_cache start_cache inew drivers x =
     do { x \<leftarrow> start_mem x;
          (x, ops, dev, blk_shift) \<leftarrow> mount_loop start_dev drivers False x;
          let x = (if dev \<and> has_cache x then start_cache blk_shift x else x);
          let st = \<lparr>cells = (\<lambda>_. None), files = replicate MAX_OPEN no_file, root_inode = None, cwd_inode = None,
                     cwd_name = 0x2f # replicate (CURRENTDIR_MAX - 1) 0, world = x\<rparr>;
          st \<leftarrow> (case op_iget_root ops of
                  None \<Rightarrow> Some st
                | Some iget_root \<Rightarrow>
                    do { (x, r) \<leftarrow> iget_root (world st);
                         i \<leftarrow> r;
                         let a = inew (st\<lparr>world := x\<rparr>);
                         let st = set_cell a (Some i) (st\<lparr>world := x, root_inode := Some a, cwd_inode := Some a\<rparr>);
                         get_inode (Some a) st });
          Some (st, ops) }"


section \<open>Reference counts\<close>

text \<open>All references in the state: root and current directory, open files, parents.\<close>

definition opt_refs :: "nat option \<Rightarrow> nat multiset" where
  "opt_refs p = (case p of None \<Rightarrow> {#} | Some a \<Rightarrow> {#a#})"

definition file_refs :: "vfile list \<Rightarrow> nat multiset" where
  "file_refs fs = (\<Sum>f\<leftarrow>fs. opt_refs (finode f))"

definition parent_refs :: "'p cells \<Rightarrow> nat multiset" where
  "parent_refs C = (\<Sum>b\<in>dom C. opt_refs (parent (the (C b))))"

definition refs :: "('p, 'w) vfs \<Rightarrow> nat multiset" where
  "refs st = opt_refs (root_inode st) + opt_refs (cwd_inode st) + file_refs (files st) + parent_refs (cells st)"

text \<open>
  The count of every inode is the number of references to it, \<open>X\<close> the ones held in local variables; an
  inode without references is not there.  The allocator gives multiples of 16 below 4G.
\<close>

definition counted :: "nat multiset \<Rightarrow> ('p, 'w) vfs \<Rightarrow> bool" where
  "counted X st \<longleftrightarrow> length (files st) = MAX_OPEN \<and> set_mset (refs st + X) = dom (cells st) \<and>
     (\<forall>a i. cells st a = Some i \<longrightarrow> unat (refcnt i) = count (refs st + X) a) \<and>
     (\<forall>a\<in>dom (cells st). 16 dvd a \<and> a < 2 ^ 32)"

lemma opt_refs_simps [simp]: "opt_refs None = {#}" "opt_refs (Some a) = {#a#}" "size (opt_refs p) \<le> 1"
  by (simp_all add: opt_refs_def split: option.split)

lemma counted_finite: "counted X st \<Longrightarrow> finite (dom (cells st))"
  unfolding counted_def by (metis finite_set_mset)

lemma parent_refs_upd_same:
  assumes "C a = Some i" "parent j = parent i"
  shows "parent_refs (C(a := Some j)) = parent_refs C"
proof -
  have "dom (C(a := Some j)) = dom C" using assms(1) by auto
  then show ?thesis using assms unfolding parent_refs_def by (intro sum.cong) auto
qed

lemma parent_refs_remove:
  assumes "finite (dom C)" "C a = Some i"
  shows "parent_refs C = opt_refs (parent i) + parent_refs (C(a := None))"
proof -
  have "parent_refs C = opt_refs (parent i) + (\<Sum>b\<in>dom C - {a}. opt_refs (parent (the (C b))))"
    unfolding parent_refs_def using assms by (subst sum.remove [of _ a]) auto
  moreover have "(\<Sum>b\<in>dom C - {a}. opt_refs (parent (the (C b)))) = parent_refs (C(a := None))"
    unfolding parent_refs_def by (rule sum.cong) auto
  ultimately show ?thesis by simp
qed

lemma parent_refs_add:
  assumes "finite (dom C)" "C a = None"
  shows "parent_refs (C(a := Some i)) = opt_refs (parent i) + parent_refs C"
proof -
  have "(C(a := Some i))(a := None) = C" using assms(2) by auto
  then show ?thesis using parent_refs_remove [of "C(a := Some i)" a i] assms(1) by simp
qed

lemma size_parent_refs: "finite (dom C) \<Longrightarrow> size (parent_refs C) \<le> card (dom C)"
proof -
  assume f: "finite (dom C)"
  have "size (parent_refs C) = (\<Sum>b\<in>dom C. size (opt_refs (parent (the (C b)))))"
    unfolding parent_refs_def by (rule size_multiset_sum)
  also have "\<dots> \<le> (\<Sum>b\<in>dom C. 1)" by (rule sum_mono) (simp add: opt_refs_def split: option.split)
  finally show ?thesis by simp
qed

lemma size_file_refs: "size (file_refs fs) \<le> length fs"
proof (induction fs)
  case (Cons f fs)
  then show ?case using opt_refs_simps(3) [of "finode f"] by (simp add: file_refs_def)
qed (simp add: file_refs_def)

lemma card_cells: "counted X st \<Longrightarrow> card (dom (cells st)) \<le> 2 ^ 28"
proof -
  assume c: "counted X st"
  have "a \<in> (\<lambda>k :: nat. 16 * k) ` {..<2 ^ 28}" if "a \<in> dom (cells st)" for a
  proof -
    have "16 dvd a" "a < 2 ^ 32" using c that by (auto simp: counted_def)
    then obtain k where "a = 16 * k" by (auto elim: dvdE)
    moreover from this have "k < 2 ^ 28" using \<open>a < 2 ^ 32\<close> by simp
    ultimately show ?thesis by blast
  qed
  then have "dom (cells st) \<subseteq> (\<lambda>k :: nat. 16 * k) ` {..<2 ^ 28}" by blast
  then have "card (dom (cells st)) \<le> card ((\<lambda>k :: nat. 16 * k) ` {..<2 ^ 28})" by (rule card_mono [rotated]) simp
  also have "\<dots> \<le> card {..<(2 ^ 28 :: nat)}" by (rule card_image_le) simp
  finally show ?thesis by simp
qed

lemma count_small:
  assumes "counted X st" "size X \<le> 1000"
  shows "count (refs st + X) a < 2 ^ 29"
proof -
  have "count (refs st + X) a \<le> size (refs st + X)" by (rule count_le_size)
  also have "size (refs st + X) \<le> 1 + 1 + MAX_OPEN + 2 ^ 28 + 1000"
    using size_parent_refs [OF counted_finite [OF assms(1)]] card_cells [OF assms(1)] size_file_refs [of "files st"]
      opt_refs_simps(3) [of "root_inode st"] opt_refs_simps(3) [of "cwd_inode st"] assms
    unfolding refs_def counted_def size_union by linarith
  also have "\<dots> < 2 ^ 29" by (simp add: MAX_OPEN_def)
  finally show ?thesis .
qed

text \<open>Nothing but the counts changes, and inodes may go.\<close>

definition kept :: "('p, 'w) vfs \<Rightarrow> ('p, 'w) vfs \<Rightarrow> bool" where
  "kept st st' \<longleftrightarrow> (\<exists>C. st' = st\<lparr>cells := C\<rparr>) \<and>
     (\<forall>a i'. cells st' a = Some i' \<longrightarrow> (\<exists>i. cells st a = Some i \<and> i' = i\<lparr>refcnt := refcnt i'\<rparr>))"

lemma kept_trans: "kept st st1 \<Longrightarrow> kept st1 st2 \<Longrightarrow> kept st st2"
proof -
  assume a: "kept st st1" "kept st1 st2"
  have "\<exists>i. cells st a = Some i \<and> i' = i\<lparr>refcnt := refcnt i'\<rparr>" if i': "cells st2 a = Some i'" for a i'
  proof -
    obtain j where j: "cells st1 a = Some j" "i' = j\<lparr>refcnt := refcnt i'\<rparr>" using a(2) i' by (auto simp: kept_def)
    obtain i where i: "cells st a = Some i" "j = i\<lparr>refcnt := refcnt j\<rparr>" using a(1) j(1) by (auto simp: kept_def)
    have "i' = i\<lparr>refcnt := refcnt i'\<rparr>" using j(2) i(2) by (metis inode.update_convs(3) inode.surjective)
    then show ?thesis using i(1) by blast
  qed
  moreover have "\<exists>C. st2 = st\<lparr>cells := C\<rparr>" using a by (auto simp: kept_def)
  ultimately show ?thesis unfolding kept_def by blast
qed

lemma refs_set_cell_same: "cells st a = Some i \<Longrightarrow> parent j = parent i \<Longrightarrow> refs (set_cell a (Some j) st) = refs st"
  by (simp add: refs_def set_cell_def parent_refs_upd_same)

lemma get_inode_ok:
  assumes "counted X st" "size X \<le> 1000" "a \<in> dom (cells st)"
  obtains st' where "get_inode (Some a) st = Some st'" "counted (X + {#a#}) st'" "kept st st'" "dom (cells st') = dom (cells st)"
proof -
  obtain i where i: "cells st a = Some i" using assms(3) by blast
  let ?st = "set_cell a (Some (i\<lparr>refcnt := refcnt i + 1\<rparr>)) st"
  have r: "refs ?st = refs st" using i by (simp add: refs_set_cell_same)
  have "unat (refcnt i) < 2 ^ 29" using assms(1) i count_small [OF assms(1,2), of a] by (simp add: counted_def)
  then have u: "unat (refcnt i + 1) = unat (refcnt i) + 1" by (subst unat_add_no_wrap) simp_all
  have c: "unat (refcnt j) = count (refs st + X) b" if "cells st b = Some j" for b j using assms(1) that by (auto simp: counted_def)
  have d: "dom (cells ?st) = dom (cells st)" using i by (auto simp: set_cell_def)
  have "set_mset (refs ?st + (X + {#a#})) = dom (cells ?st)" using assms(1,3) unfolding r d counted_def by auto
  moreover have "unat (refcnt j) = count (refs ?st + (X + {#a#})) b" if "cells ?st b = Some j" for b j
    using that c [of b] u unfolding r by (auto simp: set_cell_def i split: if_splits)
  ultimately have "counted (X + {#a#}) ?st" using assms(1) unfolding counted_def d by (auto simp: set_cell_def)
  moreover have "kept st ?st" using i by (auto simp: kept_def set_cell_def)
  ultimately show thesis using that [of ?st] i d by (simp add: get_inode_def)
qed

lemma put_inode_ok:
  assumes "counted (X + {#a#}) st"
  shows "\<exists>st'. put_inode (Some a) st = Some st' \<and> counted X st' \<and> kept st st'"
  using assms
proof (induction "card (dom (cells st))" arbitrary: st a rule: less_induct)
  case less
  let ?R = "refs st"
  note c = less.prems [unfolded counted_def]
  have fin: "finite (dom (cells st))" by (rule counted_finite [OF less.prems])
  have "a \<in> dom (cells st)" using c by auto
  then obtain i where i: "cells st a = Some i" by blast
  have cnt: "unat (refcnt i) = count (?R + X) a + 1" using c i by simp
  have cnt': "unat (refcnt j) = count (?R + X) b" if "cells st b = Some j" "b \<noteq> a" for b j using c that by auto
  have dom: "set_mset (?R + X) \<union> {a} = dom (cells st)" using c by auto
  have "refcnt i \<noteq> 0" using cnt by auto
  then have dec: "unat (refcnt i - 1) = count (?R + X) a" using cnt unat_sub [of 1 "refcnt i"] by (simp add: word_le_nat_alt)
  show ?case
  proof (cases "refcnt i - 1 = 0")
    case False
    let ?st = "set_cell a (Some (i\<lparr>refcnt := refcnt i - 1\<rparr>)) st"
    have r: "refs ?st = ?R" using i by (simp add: refs_set_cell_same)
    have d: "dom (cells ?st) = dom (cells st)" using i by (auto simp: set_cell_def)
    have "count (?R + X) a \<noteq> 0" using False dec by (metis unat_eq_0)
    then have "a \<in> set_mset (?R + X)" by (metis not_in_iff)
    then have "set_mset (refs ?st + X) = dom (cells ?st)" using dom unfolding r d by blast
    moreover have "unat (refcnt j) = count (refs ?st + X) b" if "cells ?st b = Some j" for b j
      using that cnt' [of b] dec unfolding r by (auto simp: set_cell_def i split: if_splits)
    ultimately have "counted X ?st" using c unfolding counted_def d by (auto simp: set_cell_def)
    moreover have "kept st ?st" using i by (auto simp: kept_def set_cell_def)
    moreover have "put_inode (Some a) st = Some ?st" using i False by (subst put_inode.simps) simp
    ultimately show ?thesis by blast
  next
    case True
    let ?st = "set_cell a None st"
    have r: "?R = refs ?st + opt_refs (parent i)"
      using parent_refs_remove [OF fin i] by (simp add: refs_def set_cell_def)
    have "count (?R + X) a = 0" using True dec by simp
    then have na: "a \<notin> set_mset (?R + X)" by (simp only: count_eq_zero_iff) simp
    have d: "dom (cells ?st) = dom (cells st) - {a}" by (auto simp: set_cell_def)
    have "set_mset (refs ?st + (X + opt_refs (parent i))) = dom (cells ?st)" using dom na r unfolding d by auto
    moreover have "unat (refcnt j) = count (refs ?st + (X + opt_refs (parent i))) b" if "cells ?st b = Some j" for b j
      using that cnt' [of b j] r by (auto simp: set_cell_def split: if_splits)
    moreover have "length (files ?st) = MAX_OPEN" "\<forall>a\<in>dom (cells ?st). 16 dvd a \<and> a < 2 ^ 32" using c by (auto simp: set_cell_def)
    ultimately have c1: "counted (X + opt_refs (parent i)) ?st" unfolding counted_def by blast
    have k: "kept st ?st" by (auto simp: kept_def set_cell_def split: if_splits)
    have p: "put_inode (Some a) st = put_inode (parent i) ?st" using i True by (subst put_inode.simps) simp
    show ?thesis
    proof (cases "parent i")
      case None
      then show ?thesis using c1 k p by (simp add: put_inode.simps)
    next
      case (Some b)
      have "card (dom (cells ?st)) < card (dom (cells st))" unfolding d using fin \<open>a \<in> dom (cells st)\<close> by (rule card_Diff1_less)
      from less.hyps [OF this, of b] c1 Some obtain st' where
        "put_inode (Some b) ?st = Some st'" "counted X st'" "kept ?st st'" by auto
      then show ?thesis using p Some kept_trans [OF k] by auto
    qed
  qed
qed


section \<open>Components of a path\<close>

definition slash :: u8 where "slash = 0x2f"

definition name_part :: "bytes \<Rightarrow> bytes" where
  "name_part s = takeWhile (\<lambda>c. c \<noteq> slash) s"

definition rest_part :: "bytes \<Rightarrow> bytes" where
  "rest_part s = dropWhile (\<lambda>c. c = slash) (dropWhile (\<lambda>c. c \<noteq> slash) s)"

lemma skip_slashes_ok:
  "0 \<notin> set s \<Longrightarrow> skip_slashes (s @ 0 # j) = Some (length (takeWhile (\<lambda>c. c = slash) s))"
  by (induction s) (auto simp: slash_def)

lemma skip_drop: "drop (length (takeWhile P s)) (s @ t) = dropWhile P s @ t"
  by (induction s) auto

lemma after_slashes:
  assumes "drop q path = s @ 0 # j" "0 \<notin> set s"
  obtains k where "skip_slashes (drop q path) = Some k" "drop (q + k) path = dropWhile (\<lambda>c. c = slash) s @ 0 # j"
    "rd path (q + k) = Some (hd (dropWhile (\<lambda>c. c = slash) s @ [0]))"
proof -
  let ?k = "length (takeWhile (\<lambda>c. c = slash) s)"
  have d: "drop (q + ?k) path = dropWhile (\<lambda>c. c = slash) s @ 0 # j"
    unfolding add.commute [of q] drop_drop [symmetric] assms(1) by (rule skip_drop)
  have l: "q + ?k < length path"
  proof (rule ccontr)
    assume "\<not> q + ?k < length path"
    then show False using d by simp
  qed
  have h: "hd (x @ 0 # j) = hd (x @ [0])" for x by (cases x) auto
  have "path ! (q + ?k) = hd (drop (q + ?k) path)" using l by (simp add: hd_drop_conv_nth)
  also have "\<dots> = hd (dropWhile (\<lambda>c. c = slash) s @ [0])" unfolding d using h by blast
  finally have "path ! (q + ?k) = hd (dropWhile (\<lambda>c. c = slash) s @ [0]) \<and> q + ?k < length path" using l by simp
  then show thesis using that [OF _ d] skip_slashes_ok [OF assms(2)] assms(1) by (simp add: rd_def)
qed

lemma cut_at [simp]:
  "slash \<notin> set n \<Longrightarrow> takeWhile (\<lambda>c. c \<noteq> slash) (n @ slash # t) = n"
  "slash \<notin> set n \<Longrightarrow> dropWhile (\<lambda>c. c \<noteq> slash) (n @ slash # t) = slash # t"
  by (induction n) auto

lemma next_component_ok:
  assumes s: "drop pos path = s @ 0 # j" "0 \<notin> set s" "s \<noteq> []"
  obtains name path' nxt where "next_component path pos = Some (name, path', nxt)"
    "\<exists>j'. name = (if hd s = slash then [slash] else name_part s) @ 0 # j'"
    "case nxt of None \<Rightarrow> (if hd s = slash then dropWhile (\<lambda>c. c = slash) (tl s) else rest_part s) = []
     | Some q \<Rightarrow> (if hd s = slash then dropWhile (\<lambda>c. c = slash) (tl s) else rest_part s) \<noteq> [] \<and>
         (\<exists>j'. drop q path' = (if hd s = slash then dropWhile (\<lambda>c. c = slash) (tl s) else rest_part s) @ 0 # j')"
proof -
  obtain c r where cr: "s = c # r" using s(3) by (cases s) auto
  have pos: "pos < length path" "path ! pos = c" "drop (pos + 1) path = r @ 0 # j"
  proof -
    show "pos < length path" using s(1) by (metis append_is_Nil_conv drop_eq_Nil linorder_not_le list.discI)
    then have "drop pos path = path ! pos # drop (Suc pos) path" by (rule Cons_nth_drop_Suc [symmetric])
    then show "path ! pos = c" "drop (pos + 1) path = r @ 0 # j" using s(1) cr by simp_all
  qed
  have cstr_r: "cstr (r @ 0 # j) = r" "is_cstr (r @ 0 # j)"
    using s(2) cr by simp_all
  have nr: "0 \<notin> set r" "c \<noteq> 0" using s(2) cr by auto
  show thesis
  proof (cases "c = slash")
    case True
    obtain k where k: "skip_slashes (drop (pos + 1) path) = Some k" "drop (pos + 1 + k) path = dropWhile (\<lambda>c. c = slash) r @ 0 # j"
      "rd path (pos + 1 + k) = Some (hd (dropWhile (\<lambda>c. c = slash) r @ [0]))"
      by (rule after_slashes [OF pos(3) nr(1)])
    let ?d = "dropWhile (\<lambda>c. c = slash) r"
    have "hd (?d @ [0]) = 0 \<longleftrightarrow> ?d = []" using nr(1) by (metis append_Nil hd_append2 hd_in_set list.sel(1) set_dropWhileD)
    then have "next_component path pos = Some (root_name, path, if ?d = [] then None else Some (pos + 1 + k))"
      using pos True k by (simp add: next_component_def slash_def)
    moreover have "\<exists>j'. root_name = [slash] @ 0 # j'" by (simp add: root_name_def slash_def)
    ultimately show thesis using that k(2) True cr by (auto split: option.splits if_splits)
  next
    case False
    show thesis
    proof (cases "slash \<in> set r")
      case in_r: False
      have "strchr (drop (pos + 1) path) 0x2f = Some None"
        using strchr_first [of "r @ 0 # j" 47] pos(3) nr(1) in_r by (simp add: slash_def cstr_r)
      then have "next_component path pos = Some (drop pos path, path, None)"
        using pos False by (simp add: next_component_def slash_def)
      moreover have "\<forall>x\<in>set s. x \<noteq> slash" using in_r False cr by auto
      then have w: "name_part s = s" "dropWhile (\<lambda>c. c \<noteq> slash) s = []"
        by (auto simp: name_part_def takeWhile_eq_all_conv dropWhile_eq_Nil_conv)
      moreover have "rest_part s = []" unfolding rest_part_def w(2) by simp
      ultimately show thesis using that s(1) False cr by (auto split: option.splits)
    next
      case in_r: True
      define n where "n = takeWhile (\<lambda>c. c \<noteq> slash) r"
      obtain t where t: "r = n @ slash # t" "slash \<notin> set n"
      proof -
        from in_r obtain ys zs where "r = ys @ slash # zs" "slash \<notin> set ys" by (auto dest: split_list_first)
        moreover from this have "n = ys" by (simp add: n_def)
        ultimately show thesis using that by auto
      qed
      have nt: "0 \<notin> set n" "0 \<notin> set t" "(slash :: u8) \<noteq> 0" using nr(1) t(1) by (auto simp: slash_def)
      have sc: "strchr (drop (pos + 1) path) 0x2f = Some (Some (length n))"
        using strchr_first [of "r @ 0 # j" 47] pos(3) nr(1) in_r by (simp add: slash_def [symmetric] cstr_r n_def)
      have len: "pos + 1 + length n < length path"
        using arg_cong [OF pos(3), of length] t(1) pos(1) by simp
      define path' where "path' = path[pos + 1 + length n := 0]"
      have w: "wr path (pos + 1 + length n) 0 = Some path'" using len by (simp add: path'_def)
      have d': "drop (pos + 1) path' = n @ 0 # t @ 0 # j"
        using pos(3) t(1) by (simp add: path'_def drop_update_swap list_update_append)
      have d2: "drop (pos + 1 + length n + 1) path' = t @ 0 # j"
      proof -
        have "drop (pos + 1 + length n + 1) path' = drop (length n + 1) (drop (pos + 1) path')" by (simp add: add.commute add.left_commute)
        then show ?thesis unfolding d' by simp
      qed
      have d0: "drop pos path' = c # n @ 0 # t @ 0 # j"
      proof -
        have "pos < length path'" "path' ! pos = c" using pos by (simp_all add: path'_def)
        then have "drop pos path' = c # drop (Suc pos) path'" by (metis Cons_nth_drop_Suc)
        then show ?thesis using d' by simp
      qed
      obtain k where k: "skip_slashes (drop (pos + 1 + length n + 1) path') = Some k"
        "drop (pos + 1 + length n + 1 + k) path' = dropWhile (\<lambda>c. c = slash) t @ 0 # j"
        "rd path' (pos + 1 + length n + 1 + k) = Some (hd (dropWhile (\<lambda>c. c = slash) t @ [0]))"
        by (rule after_slashes [OF d2 nt(2)])
      let ?d = "dropWhile (\<lambda>c. c = slash) t"
      have "hd (?d @ [0]) = 0 \<longleftrightarrow> ?d = []" using nt(2) by (metis append_Nil hd_append2 hd_in_set list.sel(1) set_dropWhileD)
      then have "next_component path pos = Some (drop pos path', path', if ?d = [] then None else Some (pos + 1 + length n + 1 + k))"
        using pos False k sc w by (simp add: next_component_def slash_def del: wr_in dropWhile_eq_Nil_conv)
      moreover have "name_part s = c # n" "rest_part s = ?d"
        using False t cr by (simp_all add: name_part_def rest_part_def)
      ultimately show thesis using that d0 k(2) False cr by (auto split: option.splits if_splits)
    qed
  qed
qed


text \<open>An empty path is read behind its terminator: \<open>strchr\<close> starts at the second byte.\<close>

lemma empty_path_reads_past_end: "next_component [0] 0 = None"
  by (simp add: next_component_def rd_def)

lemma name_tests:
  assumes "0 \<notin> set n"
  shows "\<exists>d. strncmp (n @ 0 # j) [0x2e, 0] 2 = Some d \<and> (d = 0 \<longleftrightarrow> n = [0x2e])"
    "\<exists>d. strncmp (n @ 0 # j) [0x2e, 0x2e, 0] 3 = Some d \<and> (d = 0 \<longleftrightarrow> n = [0x2e, 0x2e])"
proof -
  have u: "uint a = 46 \<longleftrightarrow> a = 46" for a :: u8 using word_uint_eq_iff [of a 46] by simp
  have two: "strncmp s t 2 = strncmp_loop s t (Suc (Suc 0)) 0" for s t by (simp add: strncmp_def eval_nat_numeral)
  have three: "strncmp s t 3 = strncmp_loop s t (Suc (Suc (Suc 0))) 0" for s t by (simp add: strncmp_def eval_nat_numeral)
  show "\<exists>d. strncmp (n @ 0 # j) [0x2e, 0] 2 = Some d \<and> (d = 0 \<longleftrightarrow> n = [0x2e])"
    using assms u unfolding two by (cases n; cases "tl n") (simp_all add: Let_def)
  show "\<exists>d. strncmp (n @ 0 # j) [0x2e, 0x2e, 0] 3 = Some d \<and> (d = 0 \<longleftrightarrow> n = [0x2e, 0x2e])"
    using assms u unfolding three by (cases n; cases "tl n"; cases "tl (tl n)") (simp_all add: Let_def)
qed

section \<open>The reference path search\<close>

text \<open>
  What a path search sees of an inode, and the chain from an inode up to the root: the reference works on
  chains of inode contents, without cells, counts and path buffers.
\<close>

definition core :: "'p inode \<Rightarrow> 'p inode" where
  "core i = i\<lparr>refcnt := 0, parent := None\<rparr>"

fun chain :: "'p cells \<Rightarrow> nat \<Rightarrow> 'p inode list \<Rightarrow> bool" where
  "chain C a [] \<longleftrightarrow> False"
| "chain C a (d # ds) \<longleftrightarrow> (\<exists>i. C a = Some i \<and> core i = d \<and> (case parent i of None \<Rightarrow> ds = [] | Some p \<Rightarrow> chain C p ds))"

definition is_link :: "'p inode \<Rightarrow> bool" where "is_link i \<longleftrightarrow> imode i = ucast (dt_code DT_LNK)"
definition is_dir :: "'p inode \<Rightarrow> bool" where "is_dir i \<longleftrightarrow> imode i = ucast (dt_code DT_DIR)"

text \<open>The path that is searched after a link: its target, a slash, the rest; empty if there is no target or it is too long.\<close>

definition link_path :: "bytes option \<Rightarrow> bytes \<Rightarrow> bytes" where
  "link_path t rest =
     (let p = the t @ (if rest = [] then [] else slash # rest)
      in if t = None \<or> the t = [] \<or> length p + 1 > 4096 then [] else p)"

lemma rest_part_shorter: "s \<noteq> [] \<Longrightarrow> hd s \<noteq> slash \<Longrightarrow> length (rest_part s) < length s"
proof -
  assume a: "s \<noteq> []" "hd s \<noteq> slash"
  have "length (rest_part s) \<le> length (dropWhile (\<lambda>c. c \<noteq> slash) s)" by (simp add: rest_part_def length_dropWhile_le)
  moreover have "length (dropWhile (\<lambda>c. c \<noteq> slash) s) < length s"
    using a by (cases s) (auto simp: less_Suc_eq_le length_dropWhile_le)
  ultimately show ?thesis by simp
qed

function resolve ::
  "('p inode \<Rightarrow> bytes \<Rightarrow> 'p inode option) \<Rightarrow> ('p inode \<Rightarrow> bytes option) \<Rightarrow> 'p inode list \<Rightarrow> nat \<Rightarrow> 'p inode list \<Rightarrow> bytes \<Rightarrow>
   'p inode list option" where
  "resolve look target rt n ds s =
     (if s = [] then Some ds
      else if hd s = slash then resolve look target rt n rt (dropWhile (\<lambda>c. c = slash) (tl s))
      else let name = name_part s; rest = rest_part s in
        if name = [0x2e] then resolve look target rt n ds rest
        else if name = [0x2e, 0x2e] then resolve look target rt n (if tl ds = [] then ds else tl ds) rest
        else case look (hd ds) name of
          None \<Rightarrow> None
        | Some i \<Rightarrow>
            if is_link i
            then if n \<le> 1 \<or> link_path (target i) rest = [] then None
                 else resolve look target rt (n - 1) ds (link_path (target i) rest)
            else if rest \<noteq> [] \<and> \<not> is_dir i then None
            else resolve look target rt n (i\<lparr>iname := Some (name @ [0])\<rparr> # ds) rest)"
  by pat_completeness auto
termination
proof (relation "measures [\<lambda>(look, target, rt, n, ds, s). n, \<lambda>(look, target, rt, n, ds, s). length s]", goal_cases)
  case (2 look target rt n ds s)
  then show ?case by (cases s) (auto simp: less_Suc_eq_le length_dropWhile_le)
qed (auto simp: rest_part_shorter)

declare resolve.simps [simp del]

text \<open>
  What the search relies on in a file system: a lookup and a link's target do not depend on the state
  behind the file system as long as \<open>winv\<close> holds, a looked-up inode has one reference and no parent, a link
  has less than \<open>2 ^ 30\<close> bytes, and \<open>readlink\<close> stores the target, as long as the inode says, or fails.
\<close>

definition tree_ops ::
  "('p, 'w) fs_ops \<Rightarrow> ('w \<Rightarrow> bool) \<Rightarrow> ('p inode \<Rightarrow> bytes \<Rightarrow> 'p inode option) \<Rightarrow> ('p inode \<Rightarrow> bytes option) \<Rightarrow> bool" where
  "tree_ops ops winv look target \<longleftrightarrow>
     (\<forall>i nm j x. winv x \<longrightarrow> 0 \<notin> set nm \<longrightarrow> nm \<noteq> [] \<longrightarrow>
        (\<exists>x'. op_iget ops (nm @ 0 # j) i x = Some (x', map_option (\<lambda>d. d\<lparr>refcnt := 1\<rparr>) (look (core i) nm)) \<and> winv x')) \<and>
     (\<forall>i nm d. look i nm = Some d \<longrightarrow> core d = d \<and> iname d = None \<and> (is_link d \<longrightarrow> unat (isize d) < 2 ^ 30)) \<and>
     (\<forall>rl i buf x. op_readlink ops = Some rl \<longrightarrow> winv x \<longrightarrow> unat (isize i) < length buf \<longrightarrow> is_link i \<longrightarrow>
        (\<exists>x' buf' n. rl i buf x = Some (x', buf', n) \<and> winv x' \<and>
           (case target (core i\<lparr>iname := None\<rparr>) of
              None \<Rightarrow> n \<le> 0
            | Some t \<Rightarrow> n = int (length t) \<and> buf' = t @ drop (length t) buf))) \<and>
     (\<forall>i t. target i = Some t \<longrightarrow> 0 \<notin> set t \<and> length t = unat (isize i)) \<and>
     (op_readlink ops = None \<longrightarrow> target = (\<lambda>_. None))"

text \<open>What a search leaves alone: the tables, and every chain that starts at a reference from them.\<close>

definition base_refs :: "('p, 'w) vfs \<Rightarrow> nat multiset" where
  "base_refs st = opt_refs (root_inode st) + opt_refs (cwd_inode st) + file_refs (files st)"

definition stable :: "('p, 'w) vfs \<Rightarrow> ('p, 'w) vfs \<Rightarrow> bool" where
  "stable st0 st \<longleftrightarrow> files st = files st0 \<and> root_inode st = root_inode st0 \<and> cwd_inode st = cwd_inode st0 \<and>
     cwd_name st = cwd_name st0 \<and> (\<forall>p ds. p \<in># base_refs st0 \<longrightarrow> chain (cells st0) p ds \<longrightarrow> chain (cells st) p ds)"

lemma refs_base: "refs st = base_refs st + parent_refs (cells st)"
  by (simp add: refs_def base_refs_def)

lemma parent_in_refs:
  assumes "finite (dom C)" "C a = Some i" "parent i = Some p"
  shows "p \<in># parent_refs C"
  using parent_refs_remove [OF assms(1,2)] assms(3) by simp

lemma chain_kept:
  assumes "chain (cells st) p ds" "kept st st'" "counted X st'" "p \<in> dom (cells st')"
  shows "chain (cells st') p ds"
  using assms(1,4)
proof (induction ds arbitrary: p)
  case (Cons d ds)
  from Cons.prems(2) obtain i' where i': "cells st' p = Some i'" by blast
  then obtain i where i: "cells st p = Some i" "i' = i\<lparr>refcnt := refcnt i'\<rparr>" using assms(2) by (auto simp: kept_def)
  then have e: "core i' = core i" "parent i' = parent i"
    by (metis (no_types) core_def inode.update_convs(1,3) inode.surjective, metis inode.select_convs(1) inode.surjective inode.update_convs(3))
  show ?case
  proof (cases "parent i")
    case None
    then show ?thesis using Cons.prems(1) i i' e by auto
  next
    case (Some q)
    have "q \<in># refs st'" using parent_in_refs [OF counted_finite [OF assms(3)] i'] e Some by (simp add: refs_base)
    then have "q \<in> dom (cells st')" using assms(3) by (auto simp: counted_def)
    then show ?thesis using Cons i i' e Some by auto
  qed
qed simp

lemma chain_add: "chain C p ds \<Longrightarrow> C b = None \<Longrightarrow> chain (C(b := x)) p ds"
proof (induction ds arbitrary: p)
  case (Cons d ds)
  then show ?case by (auto split: option.splits)
qed simp

lemma chain_world [simp]: "cells (st\<lparr>world := x\<rparr>) = cells st"
  by simp

lemma stable_refl: "stable st st"
  by (simp add: stable_def)

lemma stable_base: "stable st0 st \<Longrightarrow> base_refs st = base_refs st0"
  by (simp add: stable_def base_refs_def)

lemma stable_kept:
  assumes "stable st0 st" "kept st st'" "counted X st'"
  shows "stable st0 st'"
proof -
  have same: "files st' = files st" "root_inode st' = root_inode st" "cwd_inode st' = cwd_inode st" "cwd_name st' = cwd_name st"
    using assms(2) by (auto simp: kept_def)
  have "chain (cells st') p ds" if "p \<in># base_refs st0" "chain (cells st0) p ds" for p ds
  proof -
    have "p \<in># refs st'" using that(1) stable_base [OF assms(1)] same by (simp add: refs_base base_refs_def)
    then have "p \<in> dom (cells st')" using assms(3) by (auto simp: counted_def)
    then show ?thesis using chain_kept [OF _ assms(2,3)] assms(1) that by (auto simp: stable_def)
  qed
  then show ?thesis using assms(1) same by (simp add: stable_def)
qed

lemma kept_same: "kept st st' \<Longrightarrow> world st' = world st \<and> dom (cells st') \<subseteq> dom (cells st)"
  by (fastforce simp: kept_def)

lemma release:
  assumes "counted (X + {#a#}) st" "stable st0 st"
  shows "\<exists>st'. put_inode (Some a) st = Some st' \<and> counted X st' \<and> stable st0 st' \<and> world st' = world st \<and>
    card (dom (cells st')) \<le> card (dom (cells st)) \<and> (\<forall>p ds. p \<in># X \<longrightarrow> chain (cells st) p ds \<longrightarrow> chain (cells st') p ds)"
proof -
  from put_inode_ok [OF assms(1)] obtain st' where p: "put_inode (Some a) st = Some st'" "counted X st'" "kept st st'" by blast
  have "chain (cells st') q ds" if "q \<in># X" "chain (cells st) q ds" for q ds
    using chain_kept [OF that(2) p(3,2)] that(1) p(2) by (auto simp: counted_def)
  moreover have "card (dom (cells st')) \<le> card (dom (cells st))"
    using kept_same [OF p(3)] counted_finite [OF assms(1)] by (simp add: card_mono)
  ultimately show ?thesis using p stable_kept [OF assms(2) p(3,2)] kept_same [OF p(3)] by blast
qed

lemma retain:
  assumes "counted X st" "stable st0 st" "size X \<le> 1000" "a \<in> dom (cells st)"
  shows "\<exists>st'. get_inode (Some a) st = Some st' \<and> counted (X + {#a#}) st' \<and> stable st0 st' \<and> world st' = world st \<and>
    dom (cells st') = dom (cells st) \<and> (\<forall>p ds. chain (cells st) p ds \<longrightarrow> chain (cells st') p ds)"
proof -
  obtain st' where g: "get_inode (Some a) st = Some st'" "counted (X + {#a#}) st'" "kept st st'" "dom (cells st') = dom (cells st)"
    by (rule get_inode_ok [OF assms(1,3,4)])
  have "chain (cells st') p ds" if "chain (cells st) p ds" for p ds
  proof -
    have "p \<in> dom (cells st)" using that by (cases ds) auto
    then show ?thesis using chain_kept [OF that g(3,2)] g(4) by simp
  qed
  then show ?thesis using g stable_kept [OF assms(2) g(3,2)] kept_same [OF g(3)] by blast
qed


definition inew_ok :: "(('p, 'w) vfs \<Rightarrow> nat) \<Rightarrow> bool" where
  "inew_ok inew \<longleftrightarrow> (\<forall>st. finite (dom (cells st)) \<and> card (dom (cells st)) < 2 ^ 27 \<longrightarrow>
     cells st (inew st) = None \<and> 16 dvd inew st \<and> inew st < 2 ^ 32)"

lemma add_inode:
  assumes "counted (X + {#a#}) st" "stable st0 st" "cells st b = None" "16 dvd b" "b < 2 ^ 32" "parent i = Some a" "refcnt i = 1"
    "chain (cells st) a ds" "core i = d"
  shows "counted (X + {#b#}) (set_cell b (Some i) st)" "stable st0 (set_cell b (Some i) st)"
    "chain (cells (set_cell b (Some i) st)) b (d # ds)" "card (dom (cells (set_cell b (Some i) st))) = card (dom (cells st)) + 1"
proof -
  let ?st = "set_cell b (Some i) st"
  note c = assms(1) [unfolded counted_def]
  have fin: "finite (dom (cells st))" by (rule counted_finite [OF assms(1)])
  have r: "refs ?st = refs st + {#a#}"
    using parent_refs_add [OF fin assms(3)] assms(6) by (simp add: refs_def set_cell_def)
  have d: "dom (cells ?st) = insert b (dom (cells st))" by (auto simp: set_cell_def)
  have "b \<notin> set_mset (refs st + (X + {#a#}))" using c assms(3) by auto
  then have b0: "count (refs st) b + count X b + count {#a#} b = 0" by (simp add: not_in_iff)
  have cnt: "unat (refcnt j) = count (refs ?st + (X + {#b#})) x" if "cells ?st x = Some j" for x j
  proof (cases "x = b")
    case True
    have "a \<noteq> b" using c assms(3) by auto
    then show ?thesis using that b0 assms(7) r True by (simp add: set_cell_def)
  next
    case False
    then have "cells st x = Some j" using that by (simp add: set_cell_def)
    then show ?thesis using c False r by simp
  qed
  have dm: "set_mset (refs ?st + (X + {#b#})) = dom (cells ?st)" using c d r by auto
  show "counted (X + {#b#}) ?st"
    unfolding counted_def using c cnt dm d assms(4,5) by (auto simp: set_cell_def)
  show "stable st0 ?st" using assms(2,3) by (auto simp: stable_def set_cell_def intro!: chain_add)
  show "chain (cells ?st) b (d # ds)" using assms(3,6,8,9) by (auto simp: set_cell_def intro!: chain_add)
  show "card (dom (cells ?st)) = card (dom (cells st)) + 1" unfolding d using fin assms(3) by (simp add: domIff)
qed

text \<open>The state in front of a round: at \<open>a\<close>, whose chain is \<open>ds\<close>, with \<open>s\<close> left of the path and \<open>n\<close> of the links.\<close>

definition walking ::
  "('p, 'w) vfs \<Rightarrow> ('w \<Rightarrow> bool) \<Rightarrow> nat \<Rightarrow> ('p, 'w) walk \<Rightarrow> nat \<Rightarrow> 'p inode list \<Rightarrow> bytes \<Rightarrow> nat \<Rightarrow> bool" where
  "walking st0 winv B w a ds s n \<longleftrightarrow> winode w = Some a \<and> counted {#a#} (wst w) \<and> stable st0 (wst w) \<and> winv (world (wst w)) \<and>
     chain (cells (wst w)) a ds \<and> wcount w = int n \<and> 1 \<le> n \<and> 0 \<notin> set s \<and> length s < 2 ^ 29 \<and>
     (case wnext w of None \<Rightarrow> s = [] | Some q \<Rightarrow> s \<noteq> [] \<and> (\<exists>j. drop q (wpath w) = s @ 0 # j)) \<and>
     card (dom (cells (wst w))) + length s + 4096 * n \<le> B"

definition failed :: "('p, 'w) vfs \<Rightarrow> ('w \<Rightarrow> bool) \<Rightarrow> ('p, 'w) walk \<Rightarrow> bool" where
  "failed st0 winv w \<longleftrightarrow> winode w = None \<and> counted {#} (wst w) \<and> stable st0 (wst w) \<and> winv (world (wst w))"

lemma walk_fail_ok:
  assumes "counted {#a#} (wst w)" "stable st0 (wst w)" "winv (world (wst w))"
  shows "\<exists>w'. walk_fail w a = Some w' \<and> failed st0 winv w'"
proof -
  from release [of "{#}" a "wst w" st0] assms obtain st' where
    "put_inode (Some a) (wst w) = Some st'" "counted {#} st'" "stable st0 st'" "world st' = world (wst w)" by auto
  then show ?thesis using assms(3) by (simp add: walk_fail_def failed_def)
qed

lemma tree_opsD:
  fixes ops :: "('p, 'w) fs_ops"
  assumes "tree_ops ops winv look target"
  shows "\<And>i nm j x. winv x \<Longrightarrow> 0 \<notin> set nm \<Longrightarrow> nm \<noteq> [] \<Longrightarrow>
      \<exists>x'. op_iget ops (nm @ 0 # j) i x = Some (x', map_option (\<lambda>d. d\<lparr>refcnt := 1\<rparr>) (look (core i) nm)) \<and> winv x'"
    "\<And>i nm d. look i nm = Some d \<Longrightarrow> core d = d \<and> iname d = None \<and> (is_link d \<longrightarrow> unat (isize d) < 2 ^ 30)"
    "\<And>rl i buf x. op_readlink ops = Some rl \<Longrightarrow> winv x \<Longrightarrow> unat (isize i) < length buf \<Longrightarrow> is_link i \<Longrightarrow>
      \<exists>x' buf' n. rl i buf x = Some (x', buf', n) \<and> winv x' \<and>
         (case target (core i\<lparr>iname := None\<rparr>) of None \<Rightarrow> n \<le> 0 | Some t \<Rightarrow> n = int (length t) \<and> buf' = t @ drop (length t) buf)"
    "\<And>i t. target i = Some t \<Longrightarrow> 0 \<notin> set t \<and> length t = unat (isize i)"
    "op_readlink ops = None \<Longrightarrow> target = (\<lambda>_. None)"
proof -
  note t = assms [unfolded tree_ops_def]
  note t1 = t [THEN conjunct2] and t2 = t [THEN conjunct2, THEN conjunct2]
  note t3 = t2 [THEN conjunct2] and t4 = t2 [THEN conjunct2, THEN conjunct2]
  show "\<And>i nm j x. winv x \<Longrightarrow> 0 \<notin> set nm \<Longrightarrow> nm \<noteq> [] \<Longrightarrow>
      \<exists>x'. op_iget ops (nm @ 0 # j) i x = Some (x', map_option (\<lambda>d. d\<lparr>refcnt := 1\<rparr>) (look (core i) nm)) \<and> winv x'"
    using t [THEN conjunct1] by blast
  show "\<And>i nm d. look i nm = Some d \<Longrightarrow> core d = d \<and> iname d = None \<and> (is_link d \<longrightarrow> unat (isize d) < 2 ^ 30)" using t1 [THEN conjunct1] by blast
  show "\<And>rl i buf x. op_readlink ops = Some rl \<Longrightarrow> winv x \<Longrightarrow> unat (isize i) < length buf \<Longrightarrow> is_link i \<Longrightarrow>
      \<exists>x' buf' n. rl i buf x = Some (x', buf', n) \<and> winv x' \<and>
         (case target (core i\<lparr>iname := None\<rparr>) of None \<Rightarrow> n \<le> 0 | Some t \<Rightarrow> n = int (length t) \<and> buf' = t @ drop (length t) buf)"
    using t2 [THEN conjunct1] by simp
  show "\<And>i t. target i = Some t \<Longrightarrow> 0 \<notin> set t \<and> length t = unat (isize i)" using t3 [THEN conjunct1] by blast
  show "op_readlink ops = None \<Longrightarrow> target = (\<lambda>_. None)" using t4 by blast
qed

lemma rest_part_sub: "set (rest_part s) \<subseteq> set s" "length (rest_part s) \<le> length s" "set (name_part s) \<subseteq> set s"
  by (auto simp: rest_part_def name_part_def dest: set_dropWhileD set_takeWhileD intro: le_trans [OF length_dropWhile_le] length_dropWhile_le)

end
