(* ===== verification/Searchdir.thy ===== *)
theory Searchdir
  imports Vfs
begin

text \<open>
  The path search of \<open>fs.c\<close> (\<open>searchdir\<close>) follows the reference search on chains of inodes, keeps every
  reference count exact, and leaves the tables and the other files alone.
\<close>


definition alloc_ok :: "(nat \<Rightarrow> bytes option) \<Rightarrow> bool" where
  "alloc_ok alloc \<longleftrightarrow> (\<forall>n. \<exists>d. alloc n = Some d \<and> length d = n)"

lemma sint_small: "unat (w :: u32) < 2 ^ 31 \<Longrightarrow> sint w = int (unat w)"
proof -
  assume "unat w < 2 ^ 31"
  then have "int (unat w) < int (2 ^ 31)" by (simp only: of_nat_less_iff)
  then have "uint w < 2 ^ 31" by (simp only: uint_nat of_nat_power of_nat_numeral)
  then have "uint w < 2 ^ (LENGTH(32) - 1)" by simp
  moreover have "- (2 ^ (LENGTH(32) - 1)) \<le> uint w" by (rule order_trans [of _ 0]) simp_all
  ultimately have "signed_take_bit (LENGTH(32) - 1) (uint w) = uint w" by (intro signed_take_bit_int_eq_self)
  then show ?thesis by (simp only: sint_uint uint_nat One_nat_def)
qed

text \<open>What is left of the path: \<open>r\<close>, without a terminator inside and not too long.\<close>

definition left_is :: "('p, 'w) walk \<Rightarrow> bytes \<Rightarrow> bool" where
  "left_is w r \<longleftrightarrow> 0 \<notin> set r \<and> length r < 2 ^ 29 \<and>
     (case wnext w of None \<Rightarrow> r = [] | Some q \<Rightarrow> r \<noteq> [] \<and> (\<exists>j. drop q (wpath w) = r @ 0 # j))"

lemma link_length:
  assumes "left_is w r" "is_link i" "unat (isize i) < 2 ^ 30"
  obtains len where "(case wnext w of None \<Rightarrow> Some (isize i + 1)
      | Some q \<Rightarrow> do { l \<leftarrow> strlen (drop q (wpath w)); Some (isize i + 1 + (of_nat l + 1)) }) = Some len"
    "unat len = unat (isize i) + 1 + (if r = [] then 0 else length r + 1)" "MAX_SYMLINK_BUF <s len \<longleftrightarrow> 4096 < unat len"
proof -
  have one: "unat (isize i + 1) = unat (isize i) + 1" using assms(3) by (subst unat_add_no_wrap) simp_all
  have sl: "MAX_SYMLINK_BUF <s len \<longleftrightarrow> 4096 < unat len" if "unat len < 2 ^ 31" for len
  proof -
    have "sint MAX_SYMLINK_BUF = int 4096" by (simp add: MAX_SYMLINK_BUF_def)
    then show ?thesis unfolding word_sless_alt sint_small [OF that] by (simp only: of_nat_less_iff)
  qed
  show thesis
  proof (cases "wnext w")
    case None
    then show thesis using that [of "isize i + 1"] assms(1,3) one sl [of "isize i + 1"] by (simp add: left_is_def)
  next
    case (Some q)
    then obtain j where r: "r \<noteq> []" "drop q (wpath w) = r @ 0 # j" "0 \<notin> set r" "length r < 2 ^ 29"
      using assms(1) by (auto simp: left_is_def)
    let ?len = "isize i + 1 + (of_nat (length r) + 1)"
    have two: "unat (of_nat (length r) + 1 :: u32) = length r + 1"
      using r(4) by (subst unat_add_no_wrap) (simp_all add: unat_of_nat)
    have u: "unat ?len = unat (isize i) + 1 + (length r + 1)"
      using assms(3) r(4) by (subst unat_add_no_wrap) (simp_all only: one two, simp)
    have "unat ?len < 2 ^ 31" unfolding u using assms(3) r(4) by simp
    then show thesis by (intro that [OF _ _ sl [of ?len]]) (use Some r u in simp_all)
  qed
qed


lemma follow_link_ok:
  assumes T: "tree_ops ops winv look target" and A: "alloc_ok alloc"
    and C: "counted {#b#} (wst w)" "stable st0 (wst w)" "winv (world (wst w))" "cells (wst w) b = Some i" "is_link i" "parent i = Some a" "unat (isize i) < 2 ^ 30"
    and ch: "chain (cells (wst w)) a ds" and L: "left_is w r" and n: "wcount w = int n" "1 \<le> n"
    and B: "card (dom (cells (wst w))) + 4096 * n \<le> B"
  shows "\<exists>w'. follow_link ops alloc b w = Some w' \<and>
    (if n \<le> 1 \<or> link_path (target (core i\<lparr>iname := None\<rparr>)) r = [] then failed st0 winv w'
     else walking st0 winv B w' a ds (link_path (target (core i\<lparr>iname := None\<rparr>)) r) (n - 1))"
proof -
  let ?t = "target (core i\<lparr>iname := None\<rparr>)"
  have small: "unat (isize i) < 2 ^ 30" by (rule C(7))
  obtain len where len: "(case wnext w of None \<Rightarrow> Some (isize i + 1)
      | Some q \<Rightarrow> do { l \<leftarrow> strlen (drop q (wpath w)); Some (isize i + 1 + (of_nat l + 1)) }) = Some len"
    "unat len = unat (isize i) + 1 + (if r = [] then 0 else length r + 1)" "MAX_SYMLINK_BUF <s len \<longleftrightarrow> 4096 < unat len"
    by (rule link_length [OF L C(5) small])
  have tl: "0 \<notin> set t \<and> length t = unat (isize i)" if "?t = Some t" for t
    using tree_opsD(4) [OF T that] by (simp add: core_def)
  show ?thesis
  proof (cases "op_readlink ops")
    case None
    then have "link_path ?t r = []" using tree_opsD(5) [OF T] by (simp add: link_path_def)
    moreover obtain w' where "walk_fail w b = Some w'" "failed st0 winv w'" using walk_fail_ok [of b w st0 winv] C(1-3) by auto
    moreover have "follow_link ops alloc b w = walk_fail w b"
      unfolding follow_link_def by (simp only: C(4) len(1) None bind.bind_lunit option.case Let_def)
    ultimately show ?thesis by simp
  next
    case (Some rl)
    let ?w1 = "w\<lparr>wcount := wcount w - 1\<rparr>"
    have w1: "wst ?w1 = wst w" "wcount ?w1 = int n - 1" using n by simp_all
    show ?thesis
    proof (cases "n \<le> 1 \<or> 4096 < unat len")
      case True
      obtain w' where w': "walk_fail ?w1 b = Some w'" "failed st0 winv w'" using walk_fail_ok [of b ?w1 st0 winv] C(1-3) by auto
      have "wcount ?w1 = 0 \<or> MAX_SYMLINK_BUF <s len" using True n len(3) w1 by auto
      then have "follow_link ops alloc b w = walk_fail ?w1 b"
        unfolding follow_link_def by (simp only: C(4) len(1) Some bind.bind_lunit option.case Let_def if_True)
      moreover have "n \<le> 1 \<or> link_path ?t r = []"
        using True tl len(2) by (cases ?t) (auto simp: link_path_def Let_def)
      ultimately show ?thesis using w' by auto
    next
      case go: False
      obtain buf where buf: "alloc (unat len) = Some buf" "length buf = unat len" using A by (auto simp: alloc_ok_def)
      have "unat (isize i) < length buf" using buf(2) len(2) by simp
      from tree_opsD(3) [OF T Some C(3) this C(5)] obtain x' buf' m where rl: "rl i buf (world (wst w)) = Some (x', buf', m)" "winv x'"
        "case ?t of None \<Rightarrow> m \<le> 0 | Some t \<Rightarrow> m = int (length t) \<and> buf' = t @ drop (length t) buf" by auto
      let ?w2 = "?w1\<lparr>wst := (wst ?w1)\<lparr>world := x'\<rparr>\<rparr>"
      have C2: "counted X (wst ?w2) = counted X (wst w)" "stable st0 (wst ?w2) = stable st0 (wst w)" for X
        by (simp_all add: counted_def refs_def stable_def)
      have cond: "\<not> (wcount ?w1 = 0 \<or> MAX_SYMLINK_BUF <s len)" using go n len(3) w1 by auto
      have step: "follow_link ops alloc b w =
        (if m \<le> 0 then walk_fail ?w2 b
         else do { new_path \<leftarrow> wr buf' (nat m) 0;
                   new_path \<leftarrow> (case wnext ?w2 of None \<Rightarrow> Some new_path
                     | Some q \<Rightarrow> do { new_path \<leftarrow> wr new_path (nat m) 0x2f;
                                     t \<leftarrow> strcpy (drop (nat m + 1) new_path) (drop q (wpath ?w2));
                                     Some (take (nat m + 1) new_path @ t) });
                   st \<leftarrow> get_inode (parent i) (wst ?w2);
                   st \<leftarrow> put_inode (Some b) st;
                   Some (?w2\<lparr>wst := st, winode := parent i, wpath := new_path, wnext := Some 0\<rparr>) })"
        unfolding follow_link_def
        by (simp only: C(4) len(1) Some bind.bind_lunit option.case Let_def if_not_P [OF cond] buf(1) w1(1) rl(1) prod.case)
      show ?thesis
      proof (cases "?t = None \<or> ?t = Some []")
        case True
        then have "m \<le> 0" "link_path ?t r = []" using rl(3) by (auto simp: link_path_def)
        moreover obtain w' where "walk_fail ?w2 b = Some w'" "failed st0 winv w'"
          using walk_fail_ok [of b ?w2 st0 winv] C(1,2) C2 rl(2) by auto
        ultimately show ?thesis using step by auto
      next
        case False
        then obtain t where t: "?t = Some t" "t \<noteq> []" by auto
        then have m: "m = int (length t)" "buf' = t @ drop (length t) buf" "\<not> m \<le> 0" using rl(3) by auto
        note tt = tl [OF t(1)]
        let ?p = "t @ (if r = [] then [] else slash # r)"
        have lp: "link_path ?t r = ?p" using t tt go len(2) by (auto simp: link_path_def Let_def)
        have lens: "length buf = length t + 1 + (if r = [] then 0 else length r + 1)" using buf(2) len(2) tt by simp
        have w0: "wr buf' (nat m) 0 = Some (t @ 0 # drop (length t + 1) buf)"
        proof -
          obtain y ys where "drop (length t) buf = y # ys" using lens by (cases "drop (length t) buf") auto
          moreover from this have "drop (length t + 1) buf = ys" by (metis Suc_eq_plus1 drop_Suc drop_tl list.sel(3))
          ultimately show ?thesis using m by (simp add: wr_def)
        qed
        obtain np j where np: "(case wnext ?w2 of None \<Rightarrow> Some (t @ 0 # drop (length t + 1) buf)
            | Some q \<Rightarrow> do { new_path \<leftarrow> wr (t @ 0 # drop (length t + 1) buf) (nat m) 0x2f;
                            t \<leftarrow> strcpy (drop (nat m + 1) new_path) (drop q (wpath ?w2));
                            Some (take (nat m + 1) new_path @ t) }) = Some np" "np = ?p @ 0 # j"
        proof (cases "wnext w")
          case None
          then show thesis using that L by (simp add: left_is_def)
        next
          case (Some q)
          then obtain j' where q: "r \<noteq> []" "drop q (wpath w) = r @ 0 # j'" "0 \<notin> set r" using L by (auto simp: left_is_def)
          have w1': "wr (t @ 0 # drop (length t + 1) buf) (nat m) 0x2f = Some (t @ slash # drop (length t + 1) buf)"
            using m by (simp add: wr_def slash_def)
          have "length r < length (drop (length t + 1) buf)" using lens q(1) by simp
          then have sc: "strcpy (drop (length t + 1) buf) (r @ 0 # j') = Some (r @ 0 # drop (Suc (length r)) (drop (length t + 1) buf))"
            using q(3) by (subst strcpy_value) simp_all
          show thesis
            by (rule that [of "t @ slash # r @ 0 # drop (Suc (length r)) (drop (length t + 1) buf)" "drop (Suc (length r)) (drop (length t + 1) buf)"])
              (use Some w1' sc m q in simp_all)
        qed
        have cnt2: "counted {#b#} (wst ?w2)" "stable st0 (wst ?w2)" using C(1,2) C2 by simp_all
        have "a \<in> dom (cells (wst ?w2))" using ch by (cases ds) auto
        from retain [OF cnt2 _ this] obtain st1 where st1: "get_inode (Some a) (wst ?w2) = Some st1" "counted ({#b#} + {#a#}) st1"
          "stable st0 st1" "world st1 = x'" "dom (cells st1) = dom (cells (wst ?w2))" "chain (cells st1) a ds" using ch by auto
        have "counted ({#a#} + {#b#}) st1" using st1(2) by (simp add: add.commute)
        from release [OF this st1(3)] obtain st2 where st2: "put_inode (Some b) st1 = Some st2" "counted {#a#} st2" "stable st0 st2"
          "world st2 = x'" "card (dom (cells st2)) \<le> card (dom (cells st1))" "chain (cells st2) a ds" using st1(4,6) by auto
        let ?w3 = "?w2\<lparr>wst := st2, winode := Some a, wpath := np, wnext := Some 0\<rparr>"
        have f: "follow_link ops alloc b w = Some ?w3"
          unfolding step using m(3) by (simp only: if_False w0 np(1) C(6) st1(1) st2(1) bind.bind_lunit)
        have card: "card (dom (cells st2)) \<le> card (dom (cells (wst w)))" using st2(5) st1(5) by simp
        have lp4: "length ?p \<le> 4095" using go len(2) tt by auto
        have "card (dom (cells st2)) + length ?p + 4096 * (n - 1) \<le> B"
        proof -
          have "4096 * (n - 1) = 4096 * n - 4096" by (simp add: right_diff_distrib')
          then show ?thesis using card lp4 B n(2) by linarith
        qed
        moreover have "0 \<notin> set ?p" using tt L by (auto simp: left_is_def slash_def)
        ultimately have "walking st0 winv B ?w3 a ds ?p (n - 1)"
          using st2 rl(2) np(2) go n t(2) lp4 unfolding walking_def by auto
        then show ?thesis using f lp go t(2) by auto
      qed
    qed
  qed
qed


lemma strdup_name:
  assumes "alloc_ok alloc" "0 \<notin> set nm"
  shows "strdup alloc (nm @ 0 # j) = Some (Some (nm @ [0]))"
proof -
  obtain d where d: "alloc (length nm + 1) = Some d" "length d = length nm + 1" using assms(1) by (auto simp: alloc_ok_def)
  then show ?thesis using assms(2) by (simp add: strdup_def Let_def wr_range_def)
qed

lemma core_same: "core d = d \<Longrightarrow> parent d = None \<and> refcnt d = 0"
  by (metis core_def inode.select_convs(1,3) inode.surjective inode.update_convs(1,3))

lemma set_cell_twice [simp]: "set_cell b x (set_cell b y st) = set_cell b x st"
  by (simp add: set_cell_def)

lemma world_only:
  "counted X (st\<lparr>world := x\<rparr>) = counted X st" "stable st0 (st\<lparr>world := x\<rparr>) = stable st0 st"
  by (simp_all add: counted_def refs_def stable_def)

lemma walk_lookup_ok:
  assumes T: "tree_ops ops winv look target" and A: "alloc_ok alloc" "inew_ok inew"
    and C: "counted {#a#} (wst w)" "stable st0 (wst w)" "winv (world (wst w))" "chain (cells (wst w)) a ds"
    and L: "left_is w r" and n: "wcount w = int n" "1 \<le> n" and nm: "0 \<notin> set nm" "nm \<noteq> []"
    and B: "card (dom (cells (wst w))) + length r + 1 + 4096 * n \<le> B" "B < 2 ^ 27"
  shows "\<exists>w'. walk_lookup ops alloc inew (nm @ 0 # j) a w = Some w' \<and>
    (case look (hd ds) nm of
       None \<Rightarrow> failed st0 winv w'
     | Some d \<Rightarrow>
         if is_link d
         then if n \<le> 1 \<or> link_path (target d) r = [] then failed st0 winv w'
              else walking st0 winv B w' a ds (link_path (target d) r) (n - 1)
         else if r \<noteq> [] \<and> \<not> is_dir d then failed st0 winv w'
         else \<exists>b. walking st0 winv B w' b (d\<lparr>iname := Some (nm @ [0])\<rparr> # ds) r n)"
proof -
  obtain dir where dir: "cells (wst w) a = Some dir" "core dir = hd ds" using C(4) by (cases ds) auto
  from tree_opsD(1) [OF T C(3) nm, of j dir] dir(2) obtain x where x:
    "op_iget ops (nm @ 0 # j) dir (world (wst w)) = Some (x, map_option (\<lambda>d. d\<lparr>refcnt := 1\<rparr>) (look (hd ds) nm))" "winv x" by auto
  let ?w1 = "w\<lparr>wst := (wst w)\<lparr>world := x\<rparr>\<rparr>"
  let ?st1 = "wst ?w1"
  have C1: "counted {#a#} ?st1" "stable st0 ?st1" "winv (world ?st1)" "chain (cells ?st1) a ds" "cells ?st1 = cells (wst w)"
    using C x(2) by (simp_all add: world_only)
  show ?thesis
  proof (cases "look (hd ds) nm")
    case None
    obtain w' where w': "walk_fail ?w1 a = Some w'" "failed st0 winv w'" using walk_fail_ok [of a ?w1 st0 winv] C1 by auto
    then show ?thesis using None by (simp add: walk_lookup_def dir(1) x(1))
  next
    case (Some d)
    note dd = tree_opsD(2) [OF T Some]
    note dd' = core_same [OF dd [THEN conjunct1]]
    define b where "b = inew ?st1"
    have fin: "finite (dom (cells ?st1))" by (rule counted_finite [OF C1(1)])
    have "card (dom (cells ?st1)) < 2 ^ 27" using B C1(5) by simp
    then have b: "cells ?st1 b = None" "16 dvd b" "b < 2 ^ 32" using A(2) fin unfolding inew_ok_def b_def by blast+
    define i where "i = d\<lparr>refcnt := 1, parent := Some a, iname := Some (nm @ [0])\<rparr>"
    have ci: "core i = d\<lparr>iname := Some (nm @ [0])\<rparr>" "core i\<lparr>iname := None\<rparr> = d" "is_link i = is_link d" "is_dir i = is_dir d"
      "parent i = Some a" "refcnt i = 1"
      using dd dd' by (cases d; simp add: i_def core_def is_link_def is_dir_def)+
    have C1': "counted ({#} + {#a#}) ?st1" using C1(1) by simp
    let ?w2 = "?w1\<lparr>wst := set_cell b (Some i) ?st1\<rparr>"
    note add = add_inode [OF C1' C1(2) b ci(5,6) C1(4) ci(1)]
    have C2: "counted {#b#} (wst ?w2)" "stable st0 (wst ?w2)" "winv (world (wst ?w2))" "cells (wst ?w2) b = Some i"
      "chain (cells (wst ?w2)) b (d\<lparr>iname := Some (nm @ [0])\<rparr> # ds)" "card (dom (cells (wst ?w2))) = card (dom (cells (wst w))) + 1"
      using add x(2) C1(5) by (simp_all add: set_cell_def)
    have cha: "chain (cells (wst ?w2)) a ds" using C2(4,5) ci(5) by simp
    have L2: "left_is ?w2 r" using L by (cases "wnext w") (auto simp: left_is_def)
    have step: "walk_lookup ops alloc inew (nm @ 0 # j) a w =
      (if is_link i then follow_link ops alloc b ?w2
       else if wnext w \<noteq> None \<and> \<not> is_dir i then walk_fail ?w2 b else Some (?w2\<lparr>winode := Some b\<rparr>))"
    proof -
      have "d\<lparr>refcnt := 1\<rparr>\<lparr>parent := Some a, iname := Some (nm @ [0])\<rparr> = i" by (simp add: i_def)
      moreover have "parent (d\<lparr>refcnt := 1\<rparr>) = None" using dd' by simp
      moreover have "imode d = imode i" by (simp add: i_def)
      ultimately show ?thesis
        by (simp add: walk_lookup_def dir(1) x(1) Some Let_def b_def strdup_name [OF A(1) nm(1)] is_link_def is_dir_def del: inode.update_convs)
    qed
    have nr: "wnext w = None \<longleftrightarrow> r = []" using L by (auto simp: left_is_def split: option.splits)
    show ?thesis
    proof (cases "is_link d")
      case True
      have "card (dom (cells (wst ?w2))) + 4096 * n \<le> B" using B(1) C2(6) by simp
      moreover have sz: "unat (isize i) < 2 ^ 30" using dd True by (simp add: i_def)
      moreover have "is_link i" "wcount ?w2 = int n" using True ci(3) n(1) by simp_all
      moreover have e: "walk_lookup ops alloc inew (nm @ 0 # j) a w = follow_link ops alloc b ?w2" using step True ci(3) by simp
      ultimately show ?thesis
        using follow_link_ok [OF T A(1) C2(1-4) _ ci(5) sz cha L2 _ n(2), of B] unfolding Some option.case e ci(2) if_P [OF True] by blast
    next
      case False
      show ?thesis
      proof (cases "r \<noteq> [] \<and> \<not> is_dir d")
        case True
        obtain w' where "walk_fail ?w2 b = Some w'" "failed st0 winv w'" using walk_fail_ok [of b ?w2 st0 winv] C2 by auto
        then show ?thesis using step Some True False ci(3,4) nr by simp
      next
        case go: False
        have "walking st0 winv B (?w2\<lparr>winode := Some b\<rparr>) b (d\<lparr>iname := Some (nm @ [0])\<rparr> # ds) r n"
          using C2 L n B(1) unfolding walking_def left_is_def by (cases "wnext w") auto
        then show ?thesis using step Some go False ci(3,4) nr by auto
      qed
    qed
  qed
qed


lemma name_part_props:
  assumes "s \<noteq> []" "hd s \<noteq> slash" "0 \<notin> set s"
  shows "name_part s \<noteq> []" "0 \<notin> set (name_part s)" "hd (name_part s @ j) = hd s" "slash \<notin> set (name_part s)"
  using assms by (cases s; auto simp: name_part_def dest: set_takeWhileD)+

lemma walk_step_ok:
  assumes T: "tree_ops ops winv look target" and A: "alloc_ok alloc" "inew_ok inew"
    and R: "root_inode st0 = Some ra" "chain (cells st0) ra rt"
    and W: "walking st0 winv B w a ds s n" "wnext w = Some pos" and B: "B < 2 ^ 27"
  shows "\<exists>w'. walk_step ops alloc inew pos a w = Some w' \<and>
    (if hd s = slash then \<exists>b. walking st0 winv B w' b rt (dropWhile (\<lambda>c. c = slash) (tl s)) n
     else if name_part s = [0x2e] then walking st0 winv B w' a ds (rest_part s) n
     else if name_part s = [0x2e, 0x2e] then \<exists>b. walking st0 winv B w' b (if tl ds = [] then ds else tl ds) (rest_part s) n
     else case look (hd ds) (name_part s) of
       None \<Rightarrow> failed st0 winv w'
     | Some d \<Rightarrow>
         if is_link d
         then if n \<le> 1 \<or> link_path (target d) (rest_part s) = [] then failed st0 winv w'
              else walking st0 winv B w' a ds (link_path (target d) (rest_part s)) (n - 1)
         else if rest_part s \<noteq> [] \<and> \<not> is_dir d then failed st0 winv w'
         else \<exists>b. walking st0 winv B w' b (d\<lparr>iname := Some (name_part s @ [0])\<rparr> # ds) (rest_part s) n)"
proof -
  note w = W(1) [unfolded walking_def W(2) option.case]
  have s: "s \<noteq> []" "0 \<notin> set s" "length s < 2 ^ 29" using w by auto
  from w obtain j where j: "drop pos (wpath w) = s @ 0 # j" by auto
  define r where "r = (if hd s = slash then dropWhile (\<lambda>c. c = slash) (tl s) else rest_part s)"
  obtain name path' nxt where nc: "next_component (wpath w) pos = Some (name, path', nxt)"
    "\<exists>j'. name = (if hd s = slash then [slash] else name_part s) @ 0 # j'"
    "case nxt of None \<Rightarrow> r = [] | Some q \<Rightarrow> r \<noteq> [] \<and> (\<exists>j'. drop q path' = r @ 0 # j')"
    using next_component_ok [OF j s(2,1)] unfolding r_def by blast
  let ?w = "w\<lparr>wpath := path', wnext := nxt\<rparr>"
  have r: "0 \<notin> set r" "length r < length s"
  proof -
    have "set r \<subseteq> set s" using s(1) rest_part_sub(1) [of s] by (cases s) (auto simp: r_def dest: set_dropWhileD)
    then show "0 \<notin> set r" using s(2) by auto
    show "length r < length s" using s(1) rest_part_shorter [of s] by (cases s) (auto simp: r_def less_Suc_eq_le length_dropWhile_le)
  qed
  have w': "wst ?w = wst w" "wcount ?w = int n" "winode ?w = Some a" using w by simp_all
  have L: "left_is (?w\<lparr>wst := st\<rparr>) r" "left_is (?w\<lparr>wst := st, winode := i\<rparr>) r" "left_is ?w r" for st i
    using nc(3) r s(3) by (cases nxt; simp add: left_is_def)+
  have into: "walking st0 winv B w1 b ds' r n"
    if "winode w1 = Some b" "counted {#b#} (wst w1)" "stable st0 (wst w1)" "world (wst w1) = world (wst w)" "chain (cells (wst w1)) b ds'"
      "wcount w1 = int n" "left_is w1 r" "card (dom (cells (wst w1))) \<le> card (dom (cells (wst w)))" for w1 b ds'
    using that w r(2) unfolding walking_def left_is_def by auto
  show ?thesis
  proof (cases "hd s = slash")
    case True
    obtain st1 where st1: "put_inode (Some a) (wst w) = Some st1" "counted {#} st1" "stable st0 st1" "world st1 = world (wst w)"
      "card (dom (cells st1)) \<le> card (dom (cells (wst w)))"
      using release [of "{#}" a "wst w" st0] w by auto
    have root: "root_inode st1 = Some ra" "chain (cells st1) ra rt"
      using st1(3) R by (auto simp: stable_def base_refs_def)
    then have "ra \<in> dom (cells st1)" by (cases rt) auto
    then obtain st2 where st2: "get_inode (Some ra) st1 = Some st2" "counted {#ra#} st2" "stable st0 st2" "world st2 = world st1"
      "dom (cells st2) = dom (cells st1)" "chain (cells st2) ra rt"
      using retain [OF st1(2,3), of ra] root(2) by auto
    have root2: "root_inode st2 = Some ra" using st2(3) R(1) by (simp add: stable_def)
    have "walk_step ops alloc inew pos a w = Some (?w\<lparr>wst := st2, winode := Some ra\<rparr>)"
      using nc(1,2) True st1(1) st2(1) root(1) root2 by (auto simp: walk_step_def rd_def slash_def Let_def)
    moreover have "walking st0 winv B (?w\<lparr>wst := st2, winode := Some ra\<rparr>) ra rt r n"
      by (rule into) (use st1 st2 L(2) w' in simp_all)
    ultimately show ?thesis using True by (auto simp: r_def)
  next
    case False
    note np = name_part_props [OF s(1) False s(2)]
    obtain j' where name: "name = name_part s @ 0 # j'" using nc(2) False by auto
    have r': "r = rest_part s" using False by (simp add: r_def)
    have c: "rd name 0 = Some (hd s)" "hd s \<noteq> 0x2f"
      using np(1) np(3) [of "0 # j'"] name False by (auto simp: rd_def slash_def hd_conv_nth)
    obtain e1 where e1: "strncmp name [0x2e, 0] 2 = Some e1" "e1 = 0 \<longleftrightarrow> name_part s = [0x2e]"
      using name_tests(1) [OF np(2), of j'] name by auto
    obtain e2 where e2: "strncmp name [0x2e, 0x2e, 0] 3 = Some e2" "e2 = 0 \<longleftrightarrow> name_part s = [0x2e, 0x2e]"
      using name_tests(2) [OF np(2), of j'] name by auto
    have st: "walk_step ops alloc inew pos a w =
      (if e1 = 0 then Some ?w
       else if e2 = 0 then do { i \<leftarrow> cells (wst ?w) a;
              case parent i of None \<Rightarrow> Some ?w
              | Some p \<Rightarrow> do { st \<leftarrow> get_inode (Some p) (wst ?w); st \<leftarrow> put_inode (Some a) st;
                             Some (?w\<lparr>wst := st, winode := Some p\<rparr>) } }
       else walk_lookup ops alloc inew name a ?w)"
      using nc(1) c e1(1) e2(1) by (simp add: walk_step_def Let_def)
    consider (dot) "name_part s = [0x2e]" | (dotdot) "name_part s = [0x2e, 0x2e]"
      | (other) "name_part s \<noteq> [0x2e]" "name_part s \<noteq> [0x2e, 0x2e]" by blast
    then show ?thesis
    proof cases
      case dot
      have "walking st0 winv B ?w a ds r n" by (rule into) (use w w' L(3) in simp_all)
      then show ?thesis using st e1(2) dot False r' by auto
    next
      case dotdot
      obtain i where i: "cells (wst w) a = Some i" "case parent i of None \<Rightarrow> tl ds = [] | Some p \<Rightarrow> chain (cells (wst w)) p (tl ds)"
      proof -
        from w have "chain (cells (wst w)) a ds" by blast
        then obtain i where "cells (wst w) a = Some i" "case parent i of None \<Rightarrow> tl ds = [] | Some p \<Rightarrow> chain (cells (wst w)) p (tl ds)"
          by (cases ds; auto split: option.splits)
        then show thesis by (rule that)
      qed
      show ?thesis
      proof (cases "parent i")
        case None
        have "walking st0 winv B ?w a ds r n" by (rule into) (use w w' L(3) in simp_all)
        then show ?thesis using st e1(2) e2(2) dotdot False r' None i by auto
      next
        case (Some p)
        then have p: "chain (cells (wst w)) p (tl ds)" using i(2) by simp
        then have "p \<in> dom (cells (wst w))" "tl ds \<noteq> []" by (cases "tl ds"; auto)+
        then obtain st1 where st1: "get_inode (Some p) (wst w) = Some st1" "counted ({#p#} + {#a#}) st1" "stable st0 st1"
          "world st1 = world (wst w)" "dom (cells st1) = dom (cells (wst w))" "chain (cells st1) p (tl ds)"
          using retain [of "{#a#}" "wst w" st0 p] w p by (auto simp: add.commute)
        from release [OF st1(2,3)] obtain st2 where st2: "put_inode (Some a) st1 = Some st2" "counted {#p#} st2" "stable st0 st2"
          "world st2 = world st1" "card (dom (cells st2)) \<le> card (dom (cells st1))" "chain (cells st2) p (tl ds)" using st1(6) by auto
        have "walking st0 winv B (?w\<lparr>wst := st2, winode := Some p\<rparr>) p (tl ds) r n"
          by (rule into) (use st1 st2 L(2) w' in simp_all)
        then show ?thesis using st e1(2) e2(2) dotdot False r' Some i st1(1) st2(1) \<open>tl ds \<noteq> []\<close> by auto
      qed
    next
      case other
      have b: "card (dom (cells (wst ?w))) + length (rest_part s) + 1 + 4096 * n \<le> B" using w r(2) r' by auto
      have pre: "counted {#a#} (wst ?w)" "stable st0 (wst ?w)" "winv (world (wst ?w))" "chain (cells (wst ?w)) a ds" "1 \<le> n"
        using w by simp_all
      from walk_lookup_ok [OF T A pre(1-4) L(3) [unfolded r'] w'(2) pre(5) np(2,1) b B] other False
      show ?thesis unfolding st e1(2) e2(2) name by simp
    qed
  qed
qed


lemma walk_loop_step:
  "wnext w = Some pos \<Longrightarrow> winode w = Some a \<Longrightarrow> walk_step ops alloc inew pos a w = Some w' \<Longrightarrow>
   walk_loop ops alloc inew w = walk_loop ops alloc inew w'"
  by (subst walk_loop.simps) simp

lemma walk_loop_failed: "failed st0 winv w \<Longrightarrow> walk_loop ops alloc inew w = Some w"
  by (subst walk_loop.simps) (simp add: failed_def split: option.split)

lemma walk_loop_ok:
  assumes T: "tree_ops ops winv look target" and A: "alloc_ok alloc" "inew_ok inew"
    and R: "root_inode st0 = Some ra" "chain (cells st0) ra rt" and B: "B < 2 ^ 27"
  shows "walking st0 winv B w a ds s n \<Longrightarrow>
    \<exists>w'. walk_loop ops alloc inew w = Some w' \<and>
      (case resolve look target rt n ds s of
         None \<Rightarrow> failed st0 winv w'
       | Some ds' \<Rightarrow> \<exists>b m. walking st0 winv B w' b ds' [] m)"
proof (induction "(n, length s)" arbitrary: w a ds s n rule: wf_induct_rule [OF wf_lex_prod [OF wf_less_than wf_less_than]])
  case (1 s n w a ds)
  have IH: "\<exists>w''. walk_loop ops alloc inew w' = Some w'' \<and>
      (case resolve look target rt n' ds' s' of None \<Rightarrow> failed st0 winv w'' | Some ds'' \<Rightarrow> \<exists>b m. walking st0 winv B w'' b ds'' [] m)"
    if "n' < n \<or> n' = n \<and> length s' < length s" "walking st0 winv B w' a' ds' s' n'" for n' s' w' a' ds'
    using "1.hyps" [of n' s' w' a' ds'] that by auto
  show ?case
  proof (cases "wnext w")
    case None
    then have "s = []" "walk_loop ops alloc inew w = Some w"
      using "1.prems" by (simp add: walking_def, subst walk_loop.simps) simp
    then show ?thesis using "1.prems" by (auto simp: resolve.simps)
  next
    case (Some pos)
    note w = "1.prems" [unfolded walking_def Some option.case]
    from walk_step_ok [OF T A R "1.prems" Some B] obtain w' where st: "walk_step ops alloc inew pos a w = Some w'" and
      res: "if hd s = slash then \<exists>b. walking st0 winv B w' b rt (dropWhile (\<lambda>c. c = slash) (tl s)) n
     else if name_part s = [0x2e] then walking st0 winv B w' a ds (rest_part s) n
     else if name_part s = [0x2e, 0x2e] then \<exists>b. walking st0 winv B w' b (if tl ds = [] then ds else tl ds) (rest_part s) n
     else case look (hd ds) (name_part s) of
       None \<Rightarrow> failed st0 winv w'
     | Some d \<Rightarrow>
         if is_link d
         then if n \<le> 1 \<or> link_path (target d) (rest_part s) = [] then failed st0 winv w'
              else walking st0 winv B w' a ds (link_path (target d) (rest_part s)) (n - 1)
         else if rest_part s \<noteq> [] \<and> \<not> is_dir d then failed st0 winv w'
         else \<exists>b. walking st0 winv B w' b (d\<lparr>iname := Some (name_part s @ [0])\<rparr> # ds) (rest_part s) n" by blast
    have loop: "walk_loop ops alloc inew w = walk_loop ops alloc inew w'"
      by (rule walk_loop_step [OF Some _ st]) (use w in blast)
    have s: "s \<noteq> []" using w by blast
    show ?thesis
    proof (cases "hd s = slash")
      case True
      have "length (dropWhile (\<lambda>c. c = slash) (tl s)) < length s" using s by (cases s) (auto simp: less_Suc_eq_le length_dropWhile_le)
      then show ?thesis using res True IH [of n "dropWhile (\<lambda>c. c = slash) (tl s)" w'] s
        unfolding loop by (subst resolve.simps) auto
    next
      case ns: False
      have shorter: "length (rest_part s) < length s" by (rule rest_part_shorter [OF s ns])
      note r = res [unfolded if_not_P [OF ns]]
      have R0: "resolve look target rt n ds s =
        (if name_part s = [0x2e] then resolve look target rt n ds (rest_part s)
        else if name_part s = [0x2e, 0x2e] then resolve look target rt n (if tl ds = [] then ds else tl ds) (rest_part s)
        else case look (hd ds) (name_part s) of
          None \<Rightarrow> None
        | Some i \<Rightarrow>
            if is_link i
            then if n \<le> 1 \<or> link_path (target i) (rest_part s) = [] then None
                 else resolve look target rt (n - 1) ds (link_path (target i) (rest_part s))
            else if rest_part s \<noteq> [] \<and> \<not> is_dir i then None
            else resolve look target rt n (i\<lparr>iname := Some (name_part s @ [0])\<rparr> # ds) (rest_part s))"
        using s ns by (subst resolve.simps) (simp add: Let_def)
      consider (dot) "name_part s = [0x2e]" | (dotdot) "name_part s = [0x2e, 0x2e]" 
        | (none) "name_part s \<noteq> [0x2e]" "name_part s \<noteq> [0x2e, 0x2e]" "look (hd ds) (name_part s) = None"
        | (some) d where "name_part s \<noteq> [0x2e]" "name_part s \<noteq> [0x2e, 0x2e]" "look (hd ds) (name_part s) = Some d" by fastforce
      then show ?thesis
      proof cases
        case dot
        then show ?thesis using r IH [of n "rest_part s" w'] shorter unfolding loop R0 by auto
      next
        case dotdot
        then show ?thesis using r IH [of n "rest_part s" w'] shorter unfolding loop R0 by auto
      next
        case none
        then show ?thesis using r walk_loop_failed [of st0 winv w'] unfolding loop R0 by auto
      next
        case some
        note r' = r [unfolded if_not_P [OF some(1)] if_not_P [OF some(2)] some(3) option.case]
        note R1 = R0 [unfolded if_not_P [OF some(1)] if_not_P [OF some(2)] some(3) option.case]
        have "n \<ge> 1" using w by blast
        then show ?thesis
          using r' IH [of "n - 1" "link_path (target d) (rest_part s)" w' a ds] IH [of n "rest_part s" w'] shorter
            walk_loop_failed [of st0 winv w']
          unfolding loop R1 by (cases "is_link d"; cases "n \<le> 1 \<or> link_path (target d) (rest_part s) = []"; cases "rest_part s \<noteq> [] \<and> \<not> is_dir d") auto
      qed
    qed
  qed
qed


lemma find_free_some: "find_free fs = Some k \<Longrightarrow> k < length fs \<and> \<not> file_fs (fs ! k)"
  by (induction fs arbitrary: k) (auto split: if_splits)

lemma file_refs_upd: "k < length fs \<Longrightarrow> file_refs (fs[k := f]) + opt_refs (finode (fs ! k)) = file_refs fs + opt_refs (finode f)"
proof (induction fs arbitrary: k)
  case (Cons g fs)
  then show ?case by (cases k) (auto simp: file_refs_def add_ac)
qed simp

lemma handle_value: "k < MAX_OPEN \<Longrightarrow> uint (file_to_handle (Some k)) = int k + 1"
proof -
  assume k: "k < MAX_OPEN"
  have "unat (of_nat k + 1 :: u16) = k + 1"
    using k by (subst unat_add_no_wrap) (simp_all add: unat_of_nat MAX_OPEN_def)
  then show ?thesis by (simp only: file_to_handle_def uint_nat option.case)
qed

text \<open>A free slot of the table is clear.\<close>

definition idle_clear :: "('p, 'w) vfs \<Rightarrow> bool" where
  "idle_clear st \<longleftrightarrow> (\<forall>f\<in>set (files st). \<not> file_fs f \<longrightarrow> f = no_file)"

lemma searchdir_ok:
  assumes T: "tree_ops ops winv look target" and A: "alloc_ok alloc" "inew_ok inew"
    and O: "op_searchdir ops = None" "op_close_file ops = generic_close_file"
    and C: "counted {#} st" "idle_clear st" "winv (world st)" "alloc_file st = Some k"
    and R: "root_inode st = Some ra" "chain (cells st) ra rt" and D: "cwd_inode st = Some ca" "chain (cells st) ca cs"
    and N: "0 \<notin> set nm" "nm \<noteq> []" "length nm < 2 ^ 26" and B: "card (dom (cells st)) < 2 ^ 25"
  shows "\<exists>st'. counted {#} st' \<and> idle_clear st' \<and> winv (world st') \<and>
    (case resolve look target rt 20 cs nm of
       None \<Rightarrow> searchdir ops alloc inew (nm @ 0 # j) st = Some (st', -1) \<and> stable st st'
     | Some ds \<Rightarrow> searchdir ops alloc inew (nm @ 0 # j) st = Some (st', int k + 1) \<and>
         (\<exists>a st1. stable st st1 \<and> st' = set_file k \<lparr>file_fs = True, foffset = 0, finode = Some a\<rparr> st1 \<and> chain (cells st') a ds))"
proof -
  have k: "k < length (files st)" "\<not> file_fs (files st ! k)" "k < MAX_OPEN"
    using C(1,4) find_free_some [of "files st" k] by (auto simp: alloc_file_def counted_def)
  then have nf: "files st ! k = no_file" using C(2) by (auto simp: idle_clear_def)
  define f1 where "f1 = no_file\<lparr>file_fs := True\<rparr>"
  let ?st1 = "set_file k f1 st"
  have f1: "finode f1 = None" "finode no_file = None" by (simp_all add: f1_def no_file_def)
  have fr: "file_refs ((files st)[k := f1]) = file_refs (files st)" using file_refs_upd [OF k(1), of f1] nf f1 by simp
  have C1: "counted {#} ?st1" using C(1) fr by (simp add: counted_def refs_def set_file_def)
  have dom: "ca \<in> dom (cells ?st1)" using D(2) by (cases cs) (auto simp: set_file_def)
  have "base_refs ?st1 = base_refs st" using fr by (simp add: base_refs_def set_file_def)
  obtain st2 where st2: "get_inode (Some ca) ?st1 = Some st2" "counted {#ca#} st2" "stable ?st1 st2" "world st2 = world st"
    "dom (cells st2) = dom (cells st)" "chain (cells st2) ca cs"
    using retain [OF C1 stable_refl _ dom] D(2) by (auto simp: set_file_def)
  let ?w = "\<lparr>wst = st2, winode = Some ca, wpath = nm @ [0], wnext = Some 0, wcount = MAX_SYMLINK_CNT\<rparr>"
  have W: "walking ?st1 winv (2 ^ 27 - 1) ?w ca cs nm 20"
    using st2 C(3) N B unfolding walking_def by (simp add: MAX_SYMLINK_CNT_def)
  have "root_inode ?st1 = Some ra" "chain (cells ?st1) ra rt" using R by (simp_all add: set_file_def)
  from walk_loop_ok [OF T A this _ W] obtain w' where w': "walk_loop ops alloc inew ?w = Some w'"
    "case resolve look target rt 20 cs nm of None \<Rightarrow> failed ?st1 winv w'
       | Some ds' \<Rightarrow> \<exists>b m. walking ?st1 winv (2 ^ 27 - 1) w' b ds' [] m" by auto
  have the1: "the_file st k = Some no_file" "the_file x k = Some f1" if "files x = files ?st1" for x
    using k nf that by (simp_all add: the_file_def rd_def set_file_def)
  have cwd: "cwd_inode st2 = Some ca" using st2(3) D(1) by (simp add: stable_def set_file_def)
  have sd: "searchdir ops alloc inew (nm @ 0 # j) st =
    (case winode w' of None \<Rightarrow> searchdir_fail ops k (wst w')
     | Some a \<Rightarrow> do { f \<leftarrow> the_file (wst w') k;
                    Some (set_file k (f\<lparr>finode := Some a, foffset := 0\<rparr>) (wst w'), int k + 1) })"
    using the1(1) [of ?st1] strdup_name [OF A(1) N(1), of j] st2(1) w'(1) cwd D(1) k(3)
    by (simp add: searchdir_def C(4) O(1) Let_def f1_def [symmetric] handle_value) (simp add: set_file_def handle_value split: option.split)
  have undone: "stable st (set_file k no_file st')" if "stable ?st1 st'" for st'
  proof -
    have "files (set_file k no_file st') = files st"
      using that k nf by (simp add: stable_def set_file_def) (metis list_update_id)
    then show ?thesis using that \<open>base_refs ?st1 = base_refs st\<close> unfolding stable_def by (simp add: set_file_def)
  qed
  have same: "files x = files ?st1" if "stable ?st1 x" for x using that by (simp add: stable_def)
  have clear: "idle_clear (set_file k no_file st')" if "stable ?st1 st'" for st'
    using C(2) undone [OF that] by (simp add: idle_clear_def stable_def)
  have counted_set: "counted X (set_file k no_file st')" if "counted X st'" "files st' = files ?st1" for X st'
    using that k nf fr by (simp add: counted_def refs_def set_file_def) (metis list_update_id)
  show ?thesis
  proof (cases "resolve look target rt 20 cs nm")
    case None
    then have f: "winode w' = None" "counted {#} (wst w')" "stable ?st1 (wst w')" "winv (world (wst w'))"
      using w'(2) by (simp_all add: failed_def)
    note e = the1(2) [OF same [OF f(3)]]
    have "searchdir ops alloc inew (nm @ 0 # j) st = Some (set_file k no_file (wst w'), -1)"
      using sd f(1) e f1 by (simp add: searchdir_fail_def close_file_at_def O(2) generic_close_file_def free_file_def f1_def)
    then show ?thesis using None f undone [OF f(3)] clear [OF f(3)] counted_set [OF f(2) same [OF f(3)]]
      by (auto simp: set_file_def)
  next
    case (Some ds)
    then obtain a m where f: "walking ?st1 winv (2 ^ 27 - 1) w' a ds [] m" using w'(2) by auto
    note f' = f [unfolded walking_def]
    have s: "stable ?st1 (wst w')" "counted {#a#} (wst w')" "winode w' = Some a" "chain (cells (wst w')) a ds" "winv (world (wst w'))"
      using f' by simp_all
    let ?f = "\<lparr>file_fs = True, foffset = 0, finode = Some a\<rparr>"
    let ?st' = "set_file k ?f (wst w')"
    let ?st2 = "set_file k no_file (wst w')"
    have st': "?st' = set_file k ?f ?st2" by (simp add: set_file_def)
    have "f1\<lparr>finode := Some a, foffset := 0\<rparr> = ?f" by (simp add: f1_def no_file_def)
    then have "searchdir ops alloc inew (nm @ 0 # j) st = Some (?st', int k + 1)"
      using sd s(3) the1(2) [OF same [OF s(1)]] by simp
    moreover have "file_refs (files ?st') = file_refs (files (wst w')) + {#a#}"
      using file_refs_upd [of k "files (wst w')" ?f] same [OF s(1)] k(1) f1 by (simp add: set_file_def)
    then have "counted {#} ?st'" using s(2) by (simp add: counted_def refs_def set_file_def)
    moreover have "files ?st2 = files st" using undone [OF s(1)] by (simp add: stable_def)
    then have "files ?st' = (files st)[k := ?f]" unfolding st' by (simp add: set_file_def)
    then have "idle_clear ?st'"
      using C(2) by (auto simp: idle_clear_def dest!: set_update_subset_insert [THEN subsetD])
    moreover have "chain (cells ?st') a ds" "winv (world ?st')" using s(4,5) by (simp_all add: set_file_def)
    ultimately show ?thesis unfolding Some option.case using undone [OF s(1)] st' by blast
  qed
qed


section \<open>An example tree\<close>

text \<open>The root holds a file \<open>a\<close> of five bytes, a link \<open>l\<close> to it and a directory \<open>d\<close>; cells are taken in order.\<close>

definition demo_root :: "unit inode" where
  "demo_root = (zero_inode ())\<lparr>imode := ucast (dt_code DT_DIR)\<rparr>"

definition demo_file :: "unit inode" where
  "demo_file = (zero_inode ())\<lparr>imode := ucast (dt_code DT_REG), isize := 5\<rparr>"

definition demo_link :: "unit inode" where
  "demo_link = (zero_inode ())\<lparr>imode := ucast (dt_code DT_LNK), isize := 1\<rparr>"

definition demo_dir :: "unit inode" where
  "demo_dir = (zero_inode ())\<lparr>imode := ucast (dt_code DT_DIR), isize := 512\<rparr>"

definition demo_look :: "unit inode \<Rightarrow> bytes \<Rightarrow> unit inode option" where
  "demo_look i nm = (if nm = [0x61] then Some demo_file else if nm = [0x6c] then Some demo_link else if nm = [0x64] then Some demo_dir else None)"

definition demo_target :: "unit inode \<Rightarrow> bytes option" where
  "demo_target i = (if isize i = 1 then Some [0x61] else None)"

definition demo_ops :: "(unit, unit) fs_ops" where
  "demo_ops =
     \<lparr>op_flags = 0, op_init = (\<lambda>x. (x, 9)), op_searchdir = None, op_getfssec = (\<lambda>k n st. None),
      op_close_file = generic_close_file, op_mangle_name = (\<lambda>dst src. Some src), op_realpath = None, op_chdir = None,
      op_load_config = (\<lambda>st. Some (st, -1)), op_iget_root = None,
      op_iget = (\<lambda>nm i x. Some (x, map_option (\<lambda>d. d\<lparr>refcnt := 1\<rparr>) (demo_look (core i) (cstr nm)))),
      op_readlink = Some (\<lambda>i buf x. case demo_target (core i\<lparr>iname := None\<rparr>) of
          None \<Rightarrow> Some (x, buf, -1)
        | Some t \<Rightarrow> Some (x, t @ drop (length t) buf, int (length t))),
      op_readdir = None\<rparr>"

definition demo_alloc :: "nat \<Rightarrow> bytes option" where
  "demo_alloc n = Some (replicate n 0xcc)"

definition demo_inew :: "(unit, unit) vfs \<Rightarrow> nat" where
  "demo_inew st = (case find (\<lambda>a. cells st a = None) (map ((*) 16) [0..<2 ^ 28]) of Some a \<Rightarrow> a | None \<Rightarrow> 0)"

definition demo_vfs :: "(unit, unit) vfs" where
  "demo_vfs = \<lparr>cells = [16 \<mapsto> demo_root\<lparr>refcnt := 2\<rparr>], files = replicate MAX_OPEN no_file,
     root_inode = Some 16, cwd_inode = Some 16, cwd_name = [0x2f, 0], world = ()\<rparr>"

lemma demo_tree: "tree_ops demo_ops (\<lambda>_. True) demo_look demo_target"
proof -
  have "unat (isize i) = 1" if "isize i = 1" for i :: "unit inode" using that by simp
  then show ?thesis
    unfolding tree_ops_def
    by (auto simp: demo_ops_def demo_look_def demo_target_def core_def demo_file_def demo_link_def demo_dir_def zero_inode_def is_link_def)
qed

lemma demo_inew_ok: "inew_ok demo_inew"
  unfolding inew_ok_def
proof (intro allI impI)
  fix st :: "(unit, unit) vfs"
  assume f: "finite (dom (cells st)) \<and> card (dom (cells st)) < 2 ^ 27"
  show "cells st (demo_inew st) = None \<and> 16 dvd demo_inew st \<and> demo_inew st < 2 ^ 32"
  proof (cases "find (\<lambda>a. cells st a = None) (map ((*) 16) [0..<2 ^ 28])")
    case None
    then have "(*) 16 ` {0..<2 ^ 28} \<subseteq> dom (cells st)" by (auto simp: find_None_iff)
    then have "card ((*) (16 :: nat) ` {0..<2 ^ 28}) \<le> card (dom (cells st))" using f by (simp add: card_mono)
    moreover have "card ((*) (16 :: nat) ` {0..<2 ^ 28}) = 2 ^ 28" by (subst card_image) (auto simp: inj_on_def)
    ultimately show ?thesis using f by simp
  next
    case (Some a)
    then have "demo_inew st = a" by (simp only: demo_inew_def option.case)
    then show ?thesis using Some by (auto simp: find_Some_iff)
  qed
qed

lemma demo_counted: "counted {#} demo_vfs"
proof -
  have "file_refs (replicate n no_file) = {#}" for n by (induction n) (simp_all add: file_refs_def no_file_def)
  moreover have "parent_refs (cells demo_vfs) = {#}" by (simp add: parent_refs_def demo_vfs_def demo_root_def zero_inode_def)
  ultimately show ?thesis by (auto simp: counted_def refs_def demo_vfs_def)
qed

lemma demo_resolve:
  "resolve demo_look demo_target [core demo_root] 20 [core demo_root] [0x2f, 0x2e, 0x2f, 0x6c] =
     Some [demo_file\<lparr>iname := Some [0x61, 0]\<rparr>, core demo_root]"
  by (simp add: resolve.simps name_part_def rest_part_def slash_def demo_look_def demo_target_def link_path_def
      is_link_def is_dir_def demo_file_def demo_link_def zero_inode_def Let_def)


lemma demo_alloc_ok: "alloc_ok demo_alloc"
  by (simp add: alloc_ok_def demo_alloc_def)

lemma demo_given:
  "chain (cells demo_vfs) 16 [core demo_root]" "root_inode demo_vfs = Some 16" "cwd_inode demo_vfs = Some 16"
  "op_searchdir demo_ops = None" "op_close_file demo_ops = generic_close_file"
  "idle_clear demo_vfs" "alloc_file demo_vfs = Some 0"
  "0 \<notin> set [0x2f, 0x2e, 0x2f, 0x6c :: u8]" "[0x2f, 0x2e, 0x2f, 0x6c :: u8] \<noteq> []" "length [0x2f, 0x2e, 0x2f, 0x6c :: u8] < 2 ^ 26"
  "card (dom (cells demo_vfs)) < 2 ^ 25"
proof -
  have m: "MAX_OPEN = Suc 31" by (simp add: MAX_OPEN_def)
  show "alloc_file demo_vfs = Some 0"
    unfolding alloc_file_def demo_vfs_def vfs.select_convs m replicate_Suc find_free.simps by (simp add: no_file_def)
  show "idle_clear demo_vfs" by (simp add: idle_clear_def demo_vfs_def)
qed (simp_all add: demo_vfs_def core_def demo_root_def zero_inode_def demo_ops_def)

text \<open>C2. The path search opens what the reference search finds: from the root or the current directory, over "."
  and "..", and through at most 20 links, with the link target put in front of the rest.  It returns -1 exactly
  when the reference finds nothing; then the tables are as before.  Otherwise it returns the handle of the first free
  slot of the table, whose inode has the chain that was found.  In both cases every reference count is
  exact again: nothing is leaked and nothing is freed early, and what the tables refer to is still there.\<close>

theorem searchdir_follows_path:
  assumes "tree_ops ops winv look target" "alloc_ok alloc" "inew_ok inew"
    and "op_searchdir ops = None" "op_close_file ops = generic_close_file"
    and "counted {#} st" "idle_clear st" "winv (world st)" "alloc_file st = Some k"
    and "root_inode st = Some ra" "chain (cells st) ra rt" "cwd_inode st = Some ca" "chain (cells st) ca cs"
    and "0 \<notin> set nm" "nm \<noteq> []" "length nm < 2 ^ 26" "card (dom (cells st)) < 2 ^ 25"
  shows "\<exists>st'. counted {#} st' \<and> idle_clear st' \<and> winv (world st') \<and>
    (case resolve look target rt 20 cs nm of
       None \<Rightarrow> searchdir ops alloc inew (nm @ 0 # j) st = Some (st', -1) \<and> stable st st'
     | Some ds \<Rightarrow> searchdir ops alloc inew (nm @ 0 # j) st = Some (st', int k + 1) \<and>
         (\<exists>a st1. stable st st1 \<and> st' = set_file k \<lparr>file_fs = True, foffset = 0, finode = Some a\<rparr> st1 \<and> chain (cells st') a ds))"
  by (rule searchdir_ok [OF assms])

theorem searchdir_follows_path_witness:
  "\<exists>st'. searchdir demo_ops demo_alloc demo_inew [0x2f, 0x2e, 0x2f, 0x6c, 0] demo_vfs = Some (st', 1) \<and> counted {#} st' \<and>
     (\<exists>a. chain (cells st') a [demo_file\<lparr>iname := Some [0x61, 0]\<rparr>, core demo_root])"
proof -
  from searchdir_follows_path [OF demo_tree demo_alloc_ok demo_inew_ok demo_given(4,5) demo_counted demo_given(6) TrueI demo_given(7)
      demo_given(2,1,3,1,8,9,10,11), of "[]"]
  show ?thesis unfolding demo_resolve option.case by auto
qed


section \<open>Closing and opening\<close>

lemma put_inode_frame:
  assumes "put_inode p st = Some st'" "cells t = cells st"
  shows "put_inode p t = Some (t\<lparr>cells := cells st'\<rparr>)"
  using assms
proof (induction arbitrary: t rule: put_inode.raw_induct [rotated, consumes 1, case_names step])
  case (step rec p st st')
  show ?case
  proof (cases p)
    case None
    then show ?thesis using step(2,3) by (simp add: put_inode.simps)
  next
    case (Some a)
    then obtain i where i: "cells st a = Some i" using step(2) by (auto split: bind_splits)
    show ?thesis
    proof (cases "refcnt i - 1 = 0")
      case False
      then show ?thesis using step(2,3) Some i by (subst put_inode.simps) (auto simp: set_cell_def)
    next
      case True
      then have "rec (parent i) (set_cell a None st) = Some st'" using step(2) Some i by simp
      from step(1) [OF this, of "set_cell a None t"] have "put_inode (parent i) (set_cell a None t) = Some ((set_cell a None t)\<lparr>cells := cells st'\<rparr>)"
        using step(3) by (simp add: set_cell_def)
      then show ?thesis using Some i True step(3) by (subst put_inode.simps) (simp add: set_cell_def)
    qed
  qed
qed

lemma get_inode_frame: "get_inode p st = Some st' \<Longrightarrow> cells t = cells st \<Longrightarrow> get_inode p t = Some (t\<lparr>cells := cells st'\<rparr>)"
  by (auto simp: get_inode_def set_cell_def split: bind_splits)

lemma get_inode_form: "get_inode p st = Some st' \<Longrightarrow> st' = st\<lparr>cells := cells st'\<rparr>"
  using get_inode_frame [of p st st' st] by simp

lemma put_inode_form: "put_inode p st = Some st' \<Longrightarrow> st' = st\<lparr>cells := cells st'\<rparr>"
  using put_inode_frame [of p st st' st] by simp

lemma put_inode_files:
  assumes "put_inode p st = Some st'"
  shows "put_inode p (st\<lparr>files := F\<rparr>) = Some (st'\<lparr>files := F\<rparr>)"
proof -
  have "put_inode p (st\<lparr>files := F\<rparr>) = Some ((st\<lparr>files := F\<rparr>)\<lparr>cells := cells st'\<rparr>)" by (rule put_inode_frame [OF assms]) simp
  also have "(st\<lparr>files := F\<rparr>)\<lparr>cells := cells st'\<rparr> = st'\<lparr>files := F\<rparr>" by (subst (2) put_inode_form [OF assms]) simp
  finally show ?thesis .
qed

lemma close_file_ok:
  assumes "counted {#} (set_file k f st1)" "k < length (files st1)" "finode f = Some a" "file_fs f"
    "files st1 ! k = no_file" "op_close_file ops = generic_close_file" "stable st0 st1" "chain (cells st1) a ds"
  shows "\<exists>st2. close_file_at ops k (set_file k f st1) = Some st2 \<and> counted {#} st2 \<and> stable st0 st2 \<and> world st2 = world st1"
proof -
  let ?F = "(files st1)[k := f\<lparr>foffset := 0\<rparr>]"
  have "file_refs (files (set_file k f st1)) = file_refs (files st1) + {#a#}"
    using file_refs_upd [OF assms(2), of f] assms(3,5) by (simp add: set_file_def no_file_def)
  then have "counted ({#} + {#a#}) st1" using assms(1) by (simp add: counted_def refs_def set_file_def)
  from release [OF this assms(7)] obtain st2 where st2: "put_inode (Some a) st1 = Some st2" "counted {#} st2" "stable st0 st2"
    "world st2 = world st1" by auto
  have fs: "files st2 = files st1" using st2(3) assms(7) by (simp add: stable_def)
  have "put_inode (Some a) (set_file k (f\<lparr>foffset := 0\<rparr>) (set_file k f st1)) = Some (st2\<lparr>files := ?F\<rparr>)"
    using put_inode_files [OF st2(1), of ?F] by (simp add: set_file_def)
  then have "generic_close_file k (set_file k f st1) = Some (st2\<lparr>files := ?F\<rparr>)"
    using assms(2,3) by (simp add: generic_close_file_def the_file_def rd_def set_file_def)
  moreover have "free_file k (st2\<lparr>files := ?F\<rparr>) = st2"
    using fs assms(2,5) by (simp add: free_file_def set_file_def) (metis list_update_id vfs.surjective vfs.update_convs(2))
  ultimately have "close_file_at ops k (set_file k f st1) = Some st2"
    using assms(2,4,6) by (simp add: close_file_at_def the_file_def rd_def set_file_def)
  then show ?thesis using st2 by blast
qed

text \<open>What a successful search leaves: the file behind the handle.\<close>

lemma opened_file:
  assumes "counted {#} st" "idle_clear st" "alloc_file st = Some k" "stable st st1"
    "st' = set_file k \<lparr>file_fs = True, foffset = 0, finode = Some a\<rparr> st1"
  shows "handle_to_file (word_of_int (int k + 1)) = Some k" "handle_to_file (of_nat (k + 1)) = Some k"
    "the_file st' k = Some \<lparr>file_fs = True, foffset = 0, finode = Some a\<rparr>" "file_inode st' k = cells st' a"
    "k < length (files st1)" "files st1 ! k = no_file" "cells st' = cells st1" "k < MAX_OPEN"
proof -
  have k: "k < length (files st)" "\<not> file_fs (files st ! k)" "k < MAX_OPEN"
    using assms(1,3) find_free_some [of "files st" k] by (auto simp: alloc_file_def counted_def)
  then show k1: "k < length (files st1)" "files st1 ! k = no_file" "k < MAX_OPEN" using assms(2,4) by (auto simp: stable_def idle_clear_def)
  show "cells st' = cells st1" using assms(5) by (simp add: set_file_def)
  show f: "the_file st' k = Some \<lparr>file_fs = True, foffset = 0, finode = Some a\<rparr>"
    using k1(1) assms(5) by (simp add: the_file_def rd_def set_file_def)
  then show "file_inode st' k = cells st' a" by (simp add: file_inode_def)
  have "unat (of_nat k + 1 :: u16) = k + 1" using k(3) by (subst unat_add_no_wrap) (simp_all add: unat_of_nat MAX_OPEN_def)
  then have "(of_nat k + 1 :: u16) \<noteq> 0" by (metis Suc_eq_plus1 nat.distinct(1) unat_0)
  moreover have "unat (of_nat k :: u16) = k" using k(3) by (simp add: unat_of_nat MAX_OPEN_def)
  ultimately show h: "handle_to_file (of_nat (k + 1)) = Some k" by (simp add: handle_to_file_def add.commute)
  have "word_of_int (int k + 1) = (of_nat (k + 1) :: u16)" by simp
  with h show "handle_to_file (word_of_int (int k + 1)) = Some k" by metis
qed

text \<open>C17. Opening a file: the handle, the size and the block size of the regular file that the mangled name
  resolves to.  Anything else - no such path, a directory, a link that leads nowhere - is the error -1, and then the
  handle that was taken is closed again and every inode the search touched is released.\<close>

theorem open_file_regular_or_undone:
  assumes "tree_ops ops winv look target" "alloc_ok alloc" "inew_ok inew"
    and "op_searchdir ops = None" "op_close_file ops = generic_close_file"
    and "counted {#} st" "idle_clear st" "winv (world st)" "alloc_file st = Some k"
    and "root_inode st = Some ra" "chain (cells st) ra rt" "cwd_inode st = Some ca" "chain (cells st) ca cs"
    and "0 \<notin> set nm" "nm \<noteq> []" "length nm < 2 ^ 26" "card (dom (cells st)) < 2 ^ 25"
    and "op_mangle_name ops junk name = Some (nm @ 0 # j)"
  shows "\<exists>st'. counted {#} st' \<and> idle_clear st' \<and> winv (world st') \<and>
    (case resolve look target rt 20 cs nm of
       Some ds \<Rightarrow>
         if imode (hd ds) = ucast (dt_code DT_REG)
         then open_file fs ops alloc inew junk name st = Some (st', int k + 1,
           Some \<lparr>fd_size = isize (hd ds), fd_blocklg2 = sector_shift fs, fd_handle = of_nat (k + 1)\<rparr>)
         else open_file fs ops alloc inew junk name st = Some (st', -1, None) \<and> stable st st'
     | None \<Rightarrow> open_file fs ops alloc inew junk name st = Some (st', -1, None) \<and> stable st st')"
proof -
  from searchdir_ok [OF assms(1-17), of j] obtain st' where st': "counted {#} st'" "idle_clear st'" "winv (world st')"
    "case resolve look target rt 20 cs nm of
       None \<Rightarrow> searchdir ops alloc inew (nm @ 0 # j) st = Some (st', -1) \<and> stable st st'
     | Some ds \<Rightarrow> searchdir ops alloc inew (nm @ 0 # j) st = Some (st', int k + 1) \<and>
         (\<exists>a st1. stable st st1 \<and> st' = set_file k \<lparr>file_fs = True, foffset = 0, finode = Some a\<rparr> st1 \<and> chain (cells st') a ds)"
    by blast
  show ?thesis
  proof (cases "resolve look target rt 20 cs nm")
    case None
    then have "open_file fs ops alloc inew junk name st = Some (st', -1, None)" using st'(4) assms(18) by (simp add: open_file_def mangle_name_def)
    then show ?thesis using None st' by auto
  next
    case (Some ds)
    then obtain a st1 where s: "searchdir ops alloc inew (nm @ 0 # j) st = Some (st', int k + 1)" "stable st st1"
      "st' = set_file k \<lparr>file_fs = True, foffset = 0, finode = Some a\<rparr> st1" "chain (cells st') a ds" using st'(4) by auto
    note o = opened_file [OF assms(6,7,9) s(2,3)]
    obtain i where i: "cells st' a = Some i" "core i = hd ds" using s(4) by (cases ds) auto
    have im: "imode i = imode (hd ds)" "isize i = isize (hd ds)" unfolding i(2) [symmetric] by (simp_all add: core_def)
    have op: "open_file fs ops alloc inew junk name st =
      (if imode (hd ds) \<noteq> ucast (dt_code DT_REG) then do { st \<leftarrow> close_file_at ops k st'; Some (st, -1, None) }
       else Some (st', int k + 1, Some \<lparr>fd_size = isize (hd ds), fd_blocklg2 = sector_shift fs, fd_handle = of_nat (k + 1)\<rparr>))"
      using s(1) assms(18) o(1,4) i(1) im by (simp add: open_file_def mangle_name_def)
    show ?thesis
    proof (cases "imode (hd ds) = ucast (dt_code DT_REG)")
      case True
      then show ?thesis using op Some st'(1-3) by auto
    next
      case False
      have "chain (cells st1) a ds" using s(4) o(7) by simp
      then obtain st2 where st2: "close_file_at ops k st' = Some st2" "counted {#} st2" "stable st st2" "world st2 = world st1"
        using close_file_ok [of k "\<lparr>file_fs = True, foffset = 0, finode = Some a\<rparr>" st1 a ops st ds] st'(1) o(5,6) s(2,3) assms(5) by auto
      have "idle_clear st2" using st2(3) assms(7) by (simp add: stable_def idle_clear_def)
      then show ?thesis using op False Some st2 st'(3) s(3) by (auto simp: set_file_def)
    qed
  qed
qed


theorem open_file_regular_or_undone_witness:
  "\<exists>st'. open_file demo_fs demo_ops demo_alloc demo_inew [] [0x2f, 0x2e, 0x2f, 0x6c, 0] demo_vfs =
     Some (st', 1, Some \<lparr>fd_size = 5, fd_blocklg2 = 9, fd_handle = 1\<rparr>) \<and> counted {#} st'"
proof -
  have m: "op_mangle_name demo_ops [] [0x2f, 0x2e, 0x2f, 0x6c, 0] = Some ([0x2f, 0x2e, 0x2f, 0x6c] @ 0 # [])" by (simp add: demo_ops_def)
  from open_file_regular_or_undone [OF demo_tree demo_alloc_ok demo_inew_ok demo_given(4,5) demo_counted demo_given(6) TrueI demo_given(7)
      demo_given(2,1,3,1,8,9,10,11) m, of demo_fs]
  show ?thesis unfolding demo_resolve option.case by (auto simp: demo_file_def demo_fs_def)
qed

end
