(* ===== verification/Vsnprintf.thy ===== *)
theory Vsnprintf
  imports Cstring
begin

text \<open>
  The formatter \<open>libcomcore/vsnprintf.c\<close> and its wrappers \<open>snprintf.c\<close>, \<open>sprintf.c\<close>: the state machine
  over the format, the conversions, and \<open>format_int\<close>, which generates a number from right to left.

  \<open>int\<close> variables are \<^typ>\<open>int\<close>, with \<open>None\<close> where a C computation leaves the range (undefined behaviour);
  \<open>size_t\<close> counters are \<^typ>\<open>nat\<close> modulo \<open>2 ^ 32\<close>.  The arguments are a list of typed values: \<open>va_arg\<close> with
  another type is undefined behaviour.  A string argument is the object it points to; the stores of \<open>%n\<close> are
  recorded in order.
\<close>

section \<open>Flags, ranks and arguments\<close>

definition FL_ZERO :: u8 where "FL_ZERO = 0x01"
definition FL_MINUS :: u8 where "FL_MINUS = 0x02"
definition FL_PLUS :: u8 where "FL_PLUS = 0x04"
definition FL_TICK :: u8 where "FL_TICK = 0x08"
definition FL_SPACE :: u8 where "FL_SPACE = 0x10"
definition FL_HASH :: u8 where "FL_HASH = 0x20"
definition FL_SIGNED :: u8 where "FL_SIGNED = 0x40"
definition FL_UPPER :: u8 where "FL_UPPER = 0x80"

definition rank_char :: int where "rank_char = -2"
definition rank_short :: int where "rank_short = -1"
definition rank_int :: int where "rank_int = 0"
definition rank_long :: int where "rank_long = 1"
definition rank_longlong :: int where "rank_longlong = 2"

text \<open>\<open>signed\<close> and \<open>unsigned\<close> arguments of one width are read alike; \<open>ARef\<close> is the target of a \<open>%n\<close>.\<close>

datatype varg = AInt u32 | ALong u32 | ALongLong u64 | APtr u32 | AStr "bytes option" | ARef nat

fun va_int :: "varg list \<Rightarrow> (u32 \<times> varg list) option" where
  "va_int (AInt v # ap) = Some (v, ap)" | "va_int _ = None"

fun va_long :: "varg list \<Rightarrow> (u32 \<times> varg list) option" where
  "va_long (ALong v # ap) = Some (v, ap)" | "va_long _ = None"

fun va_longlong :: "varg list \<Rightarrow> (u64 \<times> varg list) option" where
  "va_longlong (ALongLong v # ap) = Some (v, ap)" | "va_longlong _ = None"

fun va_ptr :: "varg list \<Rightarrow> (u32 \<times> varg list) option" where
  "va_ptr (APtr v # ap) = Some (v, ap)" | "va_ptr _ = None"

fun va_str :: "varg list \<Rightarrow> (bytes option \<times> varg list) option" where
  "va_str (AStr v # ap) = Some (v, ap)" | "va_str _ = None"

fun va_ref :: "varg list \<Rightarrow> (nat \<times> varg list) option" where
  "va_ref (ARef v # ap) = Some (v, ap)" | "va_ref _ = None"

text \<open>The value of a C \<open>int\<close> expression.\<close>

definition c_int :: "int \<Rightarrow> int option" where
  "c_int x = (if - (2 ^ 31) \<le> x \<and> x < 2 ^ 31 then Some x else None)"

section \<open>Output\<close>

text \<open>The object written to, the index \<open>q\<close> into it, and the number \<open>o\<close> of characters put out.\<close>

record outst =
  obuf :: bytes
  oq :: nat
  oo :: nat

definition emit :: "nat \<Rightarrow> u8 \<Rightarrow> outst \<Rightarrow> outst option" where
  "emit n x s =
     (if oo s < n
      then do { b \<leftarrow> wr (obuf s) (oq s) x; Some (s\<lparr>obuf := b, oq := oq s + 1, oo := (oo s + 1) mod 2 ^ 32\<rparr>) }
      else Some (s\<lparr>oo := (oo s + 1) mod 2 ^ 32\<rparr>))"

text \<open>\<open>while (width > w) { EMIT(x); width--; }\<close>\<close>

function pad_loop :: "nat \<Rightarrow> u8 \<Rightarrow> int \<Rightarrow> int \<Rightarrow> outst \<Rightarrow> (outst \<times> int) option" where
  "pad_loop n x w width s =
     (if width > w then do { s \<leftarrow> emit n x s; pad_loop n x w (width - 1) s } else Some (s, width))"
  by pat_completeness auto
termination by (relation "measure (\<lambda>(n, x, w, width, s). nat (width - w))") auto

declare pad_loop.simps [simp del]

section \<open>Integers\<close>

definition lcdigits :: bytes where
  "lcdigits = [0x30, 0x31, 0x32, 0x33, 0x34, 0x35, 0x36, 0x37, 0x38, 0x39, 0x61, 0x62, 0x63, 0x64, 0x65, 0x66]"

definition ucdigits :: bytes where
  "ucdigits = [0x30, 0x31, 0x32, 0x33, 0x34, 0x35, 0x36, 0x37, 0x38, 0x39, 0x41, 0x42, 0x43, 0x44, 0x45, 0x46]"

text \<open>\<open>while (tmpval) { tmpval /= base; ndigits++; }\<close>\<close>

fun count_digits :: "nat \<Rightarrow> nat \<Rightarrow> int \<Rightarrow> int" where
  "count_digits base tmpval ndigits =
     (if tmpval = 0 \<or> base \<le> 1 then ndigits else count_digits base (tmpval div base) (ndigits + 1))"

declare count_digits.simps [simp del]

text \<open>The loop that generates the number from right to left; the arguments are its variables.\<close>

definition put_back :: "nat \<Rightarrow> u8 \<Rightarrow> bytes \<Rightarrow> nat \<Rightarrow> nat \<Rightarrow> (bytes \<times> nat \<times> nat) option" where
  "put_back n x buf qq o' =
     (let o' = (o' + 2 ^ 32 - 1) mod 2 ^ 32 in
      if qq = 0 then None
      else do { buf \<leftarrow> (if o' < n then wr buf (qq - 1) x else Some buf); Some (buf, qq - 1, o') })"

function digit_loop :: "nat \<Rightarrow> bytes \<Rightarrow> nat \<Rightarrow> int \<Rightarrow> bytes \<Rightarrow> nat \<Rightarrow> nat \<Rightarrow> int \<Rightarrow> int \<Rightarrow> nat \<Rightarrow> bytes option" where
  "digit_loop n digits base tickskip buf qq o' ndigits b4tick val =
     (if ndigits > 0
      then do { (buf, qq, o', ndigits, b4tick) \<leftarrow>
                  (if b4tick = 0
                   then do { (buf, qq, o') \<leftarrow> put_back n 0x5f buf qq o'; Some (buf, qq, o', ndigits - 1, tickskip - 1) }
                   else Some (buf, qq, o', ndigits, b4tick - 1));
                (buf, qq, o') \<leftarrow> put_back n (digits ! (val mod base)) buf qq o';
                digit_loop n digits base tickskip buf qq o' (ndigits - 1) b4tick (val div base) }
      else Some buf)"
  by pat_completeness auto
termination
  by (relation "measure (\<lambda>(n, digits, base, tickskip, buf, qq, o', ndigits, b4tick, val). nat ndigits)")
    (auto simp: bind_eq_Some_conv split: if_splits prod.splits)

declare digit_loop.simps [simp del]

text \<open>\<open>base\<close> is 8, 10 or 16.\<close>

definition format_int :: "bytes \<Rightarrow> nat \<Rightarrow> nat \<Rightarrow> u64 \<Rightarrow> u8 \<Rightarrow> nat \<Rightarrow> int \<Rightarrow> int \<Rightarrow> (bytes \<times> nat) option" where
  "format_int buf q n val flags base width prec =
     (let digits = (if flags AND FL_UPPER \<noteq> 0 then ucdigits else lcdigits);
          minus = (flags AND FL_SIGNED \<noteq> 0 \<and> val <s 0);
          val = (if minus then - val else val);
          ndigits = count_digits base (unat val) 0;
          prec = (if flags AND FL_HASH \<noteq> 0 \<and> base = 8 \<and> prec < ndigits + 1 then ndigits + 1 else prec);
          ndigits = (if ndigits < prec then prec else if val = 0 then 1 else ndigits);
          tickskip = (if flags AND FL_TICK \<noteq> 0 then if base = 16 then 4 else 3 else ndigits)
      in do { ndigits \<leftarrow> c_int (ndigits + (ndigits - 1) div tickskip);
              nchars \<leftarrow> (if minus \<or> flags AND (FL_PLUS OR FL_SPACE) \<noteq> 0 then c_int (ndigits + 1) else Some ndigits);
              nchars \<leftarrow> (if flags AND FL_HASH \<noteq> 0 \<and> base = 16 then c_int (nchars + 2) else Some nchars);
              let s = \<lparr>obuf = buf, oq = q, oo = 0\<rparr>;
              (s, width) \<leftarrow> (if flags AND (FL_MINUS OR FL_ZERO) = 0 \<and> width > nchars then pad_loop n 0x20 nchars width s
                            else Some (s, width));
              s \<leftarrow> (if minus then emit n 0x2d s
                   else if flags AND FL_PLUS \<noteq> 0 then emit n 0x2b s
                   else if flags AND FL_SPACE \<noteq> 0 then emit n 0x20 s
                   else Some s);
              s \<leftarrow> (if flags AND FL_HASH \<noteq> 0 \<and> base = 16
                   then do { s \<leftarrow> emit n 0x30 s; emit n (if flags AND FL_UPPER \<noteq> 0 then 0x58 else 0x78) s }
                   else Some s);
              (s, width) \<leftarrow> (if flags AND (FL_MINUS OR FL_ZERO) = FL_ZERO \<and> width > ndigits then pad_loop n 0x30 nchars width s
                            else Some (s, width));
              let s = s\<lparr>oq := oq s + nat ndigits, oo := (oo s + nat ndigits) mod 2 ^ 32\<rparr>;
              b \<leftarrow> digit_loop n digits base tickskip (obuf s) (oq s) (oo s) ndigits tickskip (unat val);
              let s = s\<lparr>obuf := b\<rparr>;
              (s, width) \<leftarrow> (if flags AND FL_MINUS \<noteq> 0 then pad_loop n 0x20 nchars width s else Some (s, width));
              Some (obuf s, oo s) })"

section \<open>The format\<close>

datatype vmode = st_normal | st_flags | st_width | st_prec | st_modifiers

record vstate = outst +
  vflags :: u8
  vrank :: int
  vwidth :: int
  vprec :: int
  vap :: "varg list"
  vstores :: "(nat \<times> int \<times> nat) list"

fun flag_of :: "u8 \<Rightarrow> u8 option" where
  "flag_of ch =
     (if ch = 0x2d then Some FL_MINUS else if ch = 0x2b then Some FL_PLUS else if ch = 0x27 then Some FL_TICK
      else if ch = 0x20 then Some FL_SPACE else if ch = 0x23 then Some FL_HASH else if ch = 0x30 then Some FL_ZERO else None)"

definition is_digit :: "u8 \<Rightarrow> bool" where
  "is_digit ch \<longleftrightarrow> 0x30 \<le> ch \<and> ch \<le> 0x39"

definition digit_val :: "u8 \<Rightarrow> int" where
  "digit_val ch = int (unat ch) - 0x30"

fun rank_mod :: "u8 \<Rightarrow> int \<Rightarrow> int option" where
  "rank_mod ch r =
     (if ch = 0x68 then Some (r - 1) else if ch = 0x6c then Some (r + 1)
      else if ch = 0x6a then Some rank_longlong else if ch = 0x7a then Some rank_long
      else if ch = 0x74 then Some rank_long else if ch = 0x4c \<or> ch = 0x71 then Some (r + 2) else None)"

definition clamp_rank :: "int \<Rightarrow> int" where
  "clamp_rank r = (if r < rank_char then rank_char else if r > rank_longlong then rank_longlong else r)"

definition signed_arg :: "int \<Rightarrow> varg list \<Rightarrow> (u64 \<times> varg list) option" where
  "signed_arg r ap =
     (if r = rank_char then do { (v, ap) \<leftarrow> va_int ap; Some (scast (ucast v :: u8), ap) }
      else if r = rank_short then do { (v, ap) \<leftarrow> va_int ap; Some (scast (ucast v :: u16), ap) }
      else if r = rank_int then do { (v, ap) \<leftarrow> va_int ap; Some (scast v, ap) }
      else if r = rank_long then do { (v, ap) \<leftarrow> va_long ap; Some (scast v, ap) }
      else va_longlong ap)"

definition unsigned_arg :: "int \<Rightarrow> varg list \<Rightarrow> (u64 \<times> varg list) option" where
  "unsigned_arg r ap =
     (if r = rank_char then do { (v, ap) \<leftarrow> va_int ap; Some (ucast (ucast v :: u8), ap) }
      else if r = rank_short then do { (v, ap) \<leftarrow> va_int ap; Some (ucast (ucast v :: u16), ap) }
      else if r = rank_int then do { (v, ap) \<leftarrow> va_int ap; Some (ucast v, ap) }
      else if r = rank_long then do { (v, ap) \<leftarrow> va_long ap; Some (ucast v, ap) }
      else va_longlong ap)"

text \<open>The state with the output replaced; \<open>is_integer\<close> and \<open>is_string\<close> are the two labels.\<close>

definition with_out :: "vstate \<Rightarrow> outst \<Rightarrow> vstate" where
  "with_out s t = s\<lparr>obuf := obuf t, oq := oq t, oo := oo t\<rparr>"

definition out_of :: "vstate \<Rightarrow> outst" where
  "out_of s = \<lparr>obuf = obuf s, oq = oq s, oo = oo s\<rparr>"

definition is_integer :: "nat \<Rightarrow> u64 \<Rightarrow> nat \<Rightarrow> vstate \<Rightarrow> vstate option" where
  "is_integer n val base s =
     do { (b, sz) \<leftarrow> format_int (obuf s) (oq s) (if oo s < n then n - oo s else 0) val (vflags s) base (vwidth s) (vprec s);
          Some (s\<lparr>obuf := b, oq := oq s + sz, oo := (oo s + sz) mod 2 ^ 32\<rparr>) }"

fun emit_bytes :: "nat \<Rightarrow> nat \<Rightarrow> bytes \<Rightarrow> outst \<Rightarrow> outst option" where
  "emit_bytes n 0 sarg s = Some s"
| "emit_bytes n (Suc i) [] s = None"
| "emit_bytes n (Suc i) (sch # sarg) s = do { s \<leftarrow> emit n sch s; emit_bytes n i sarg s }"

definition is_string :: "nat \<Rightarrow> bytes \<Rightarrow> int \<Rightarrow> vstate \<Rightarrow> vstate option" where
  "is_string n sarg slen s =
     (let slen = (if vprec s \<noteq> -1 \<and> slen > vprec s then vprec s else slen)
      in do { (t, w) \<leftarrow> (if vwidth s > slen \<and> vflags s AND FL_MINUS = 0
                       then pad_loop n (if vflags s AND FL_ZERO \<noteq> 0 then 0x30 else 0x20) slen (vwidth s) (out_of s)
                       else Some (out_of s, vwidth s));
              t \<leftarrow> emit_bytes n (nat slen) sarg t;
              (t, w) \<leftarrow> (if w > slen \<and> vflags s AND FL_MINUS \<noteq> 0 then pad_loop n 0x20 slen w t else Some (t, w));
              Some (with_out s t\<lparr>vwidth := w\<rparr>) })"

definition null_text :: bytes where
  "null_text = [0x28, 0x6e, 0x75, 0x6c, 0x6c, 0x29, 0]"

definition emit_char :: "nat \<Rightarrow> u8 \<Rightarrow> vstate \<Rightarrow> vstate option" where
  "emit_char n ch s = do { t \<leftarrow> emit n ch (out_of s); Some (with_out s t) }"

definition convert :: "nat \<Rightarrow> u8 \<Rightarrow> vstate \<Rightarrow> vstate option" where
  "convert n ch s =
     (if ch = 0x50 \<or> ch = 0x70
      then do { (v, ap) \<leftarrow> va_ptr (vap s);
                is_integer n (ucast v) 16
                  (s\<lparr>vflags := (if ch = 0x50 then vflags s OR FL_UPPER else vflags s) OR FL_HASH, vprec := 8, vap := ap\<rparr>) }
      else if ch = 0x64 \<or> ch = 0x69
      then do { (v, ap) \<leftarrow> signed_arg (vrank s) (vap s);
                is_integer n v 10 (s\<lparr>vflags := vflags s OR FL_SIGNED, vap := ap\<rparr>) }
      else if ch = 0x6f then do { (v, ap) \<leftarrow> unsigned_arg (vrank s) (vap s); is_integer n v 8 (s\<lparr>vap := ap\<rparr>) }
      else if ch = 0x75 then do { (v, ap) \<leftarrow> unsigned_arg (vrank s) (vap s); is_integer n v 10 (s\<lparr>vap := ap\<rparr>) }
      else if ch = 0x58
      then do { (v, ap) \<leftarrow> unsigned_arg (vrank s) (vap s);
                is_integer n v 16 (s\<lparr>vflags := vflags s OR FL_UPPER, vap := ap\<rparr>) }
      else if ch = 0x78 then do { (v, ap) \<leftarrow> unsigned_arg (vrank s) (vap s); is_integer n v 16 (s\<lparr>vap := ap\<rparr>) }
      else if ch = 0x63 then do { (v, ap) \<leftarrow> va_int (vap s); is_string n [ucast v] 1 (s\<lparr>vap := ap\<rparr>) }
      else if ch = 0x73
      then do { (v, ap) \<leftarrow> va_str (vap s);
                let sarg = (case v of Some str \<Rightarrow> str | None \<Rightarrow> null_text);
                l \<leftarrow> strlen sarg;
                slen \<leftarrow> c_int (int l);
                is_string n sarg slen (s\<lparr>vap := ap\<rparr>) }
      else if ch = 0x6e then do { (r, ap) \<leftarrow> va_ref (vap s); Some (s\<lparr>vap := ap, vstores := vstores s @ [(r, vrank s, oo s)]\<rparr>) }
      else emit_char n ch s)"

fun mode_left :: "vmode \<Rightarrow> nat" where
  "mode_left st_normal = 0" | "mode_left st_flags = 3" | "mode_left st_width = 2" | "mode_left st_prec = 2"
| "mode_left st_modifiers = 1"

text \<open>One character of the format; the result says whether it is processed again.\<close>

definition vs_step :: "nat \<Rightarrow> u8 \<Rightarrow> vmode \<Rightarrow> vstate \<Rightarrow> (bool \<times> vmode \<times> vstate) option" where
  "vs_step n ch m s =
     (case m of
        st_normal \<Rightarrow>
          if ch = 0x25 then Some (False, st_flags, s\<lparr>vflags := 0, vrank := rank_int, vwidth := 0, vprec := -1\<rparr>)
          else do { s \<leftarrow> emit_char n ch s; Some (False, st_normal, s) }
      | st_flags \<Rightarrow>
          (case flag_of ch of
             Some f \<Rightarrow> Some (False, st_flags, s\<lparr>vflags := vflags s OR f\<rparr>)
           | None \<Rightarrow> Some (True, st_width, s))
      | st_width \<Rightarrow>
          if is_digit ch then do { w \<leftarrow> c_int (vwidth s * 10 + digit_val ch); Some (False, st_width, s\<lparr>vwidth := w\<rparr>) }
          else if ch = 0x2a
          then do { (v, ap) \<leftarrow> va_int (vap s);
                    let w = sint v;
                    if w < 0
                    then do { w \<leftarrow> c_int (- w); Some (False, st_width, s\<lparr>vwidth := w, vflags := vflags s OR FL_MINUS, vap := ap\<rparr>) }
                    else Some (False, st_width, s\<lparr>vwidth := w, vap := ap\<rparr>) }
          else if ch = 0x2e then Some (False, st_prec, s\<lparr>vprec := 0\<rparr>)
          else Some (True, st_modifiers, s)
      | st_prec \<Rightarrow>
          if is_digit ch then do { p \<leftarrow> c_int (vprec s * 10 + digit_val ch); Some (False, st_prec, s\<lparr>vprec := p\<rparr>) }
          else if ch = 0x2a
          then do { (v, ap) \<leftarrow> va_int (vap s);
                    Some (False, st_prec, s\<lparr>vprec := (if sint v < 0 then -1 else sint v), vap := ap\<rparr>) }
          else Some (True, st_modifiers, s)
      | st_modifiers \<Rightarrow>
          (case rank_mod ch (vrank s) of
             Some r \<Rightarrow> Some (False, st_modifiers, s\<lparr>vrank := r\<rparr>)
           | None \<Rightarrow> do { s \<leftarrow> convert n ch (s\<lparr>vrank := clamp_rank (vrank s)\<rparr>); Some (False, st_normal, s) }))"

lemma vs_step_again: "vs_step n ch m s = Some (True, m', s') \<Longrightarrow> mode_left m' < mode_left m"
  by (cases m) (auto simp: vs_step_def Let_def bind_eq_Some_conv split: if_splits option.splits)

function vs_loop :: "nat \<Rightarrow> bytes \<Rightarrow> vmode \<Rightarrow> vstate \<Rightarrow> vstate option" where
  "vs_loop n [] m s = None"
| "vs_loop n (ch # p) m s =
     (if ch = 0 then Some s
      else do { (again, m, s) \<leftarrow> vs_step n ch m s;
                if again then vs_loop n (ch # p) m s else vs_loop n p m s })"
  by pat_completeness auto
termination
  by (relation "measures [\<lambda>(n, p, m, s). length p, \<lambda>(n, p, m, s). mode_left m]") (auto dest: vs_step_again)

text \<open>The result is the object, the \<open>%n\<close> stores and the value returned.\<close>

definition vsnprintf :: "bytes \<Rightarrow> nat \<Rightarrow> bytes \<Rightarrow> varg list \<Rightarrow> (bytes \<times> (nat \<times> int \<times> nat) list \<times> nat) option" where
  "vsnprintf buf n fmt args =
     do { s \<leftarrow> vs_loop n fmt st_normal
            \<lparr>obuf = buf, oq = 0, oo = 0, vflags = 0, vrank = rank_int, vwidth = 0, vprec = -1, vap = args, vstores = []\<rparr>;
          b \<leftarrow> (if oo s < n then wr (obuf s) (oq s) 0
               else if n > 0 then wr (obuf s) (n - 1) 0 else Some (obuf s));
          Some (b, vstores s, oo s) }"

definition snprintf :: "bytes \<Rightarrow> nat \<Rightarrow> bytes \<Rightarrow> varg list \<Rightarrow> (bytes \<times> (nat \<times> int \<times> nat) list \<times> nat) option" where
  "snprintf buf n fmt args = vsnprintf buf n fmt args"

definition sprintf :: "bytes \<Rightarrow> bytes \<Rightarrow> varg list \<Rightarrow> (bytes \<times> (nat \<times> int \<times> nat) list \<times> nat) option" where
  "sprintf buf fmt args = vsnprintf buf (2 ^ 32 - 1) fmt args"

text \<open>\<open>printf\<close> formats into a local buffer and hands the string to \<open>myputs\<close>; the result here is that string.\<close>

definition printf :: "bytes \<Rightarrow> bytes \<Rightarrow> varg list \<Rightarrow> (bytes \<times> (nat \<times> int \<times> nat) list \<times> nat) option" where
  "printf junk fmt args = do { (b, st, rv) \<leftarrow> vsnprintf junk (length junk) fmt args; Some (cstr b, st, rv) }"


section \<open>The output\<close>

text \<open>
  The text \<open>xs\<close> has been put out into the \<open>n\<close> bytes from index \<open>q0\<close> of the object \<open>b0\<close>: what fits is
  there, nothing else has changed, and \<open>q\<close> follows \<open>o\<close> as long as there is room.
\<close>

definition text_out :: "bytes \<Rightarrow> nat \<Rightarrow> nat \<Rightarrow> bytes \<Rightarrow> bytes" where
  "text_out b0 q0 n xs = take q0 b0 @ take n xs @ drop (q0 + min n (length xs)) b0"

definition rep :: "bytes \<Rightarrow> nat \<Rightarrow> nat \<Rightarrow> bytes \<Rightarrow> outst \<Rightarrow> bool" where
  "rep b0 q0 n xs s \<longleftrightarrow> obuf s = text_out b0 q0 n xs \<and> oo s = length xs \<and> (length xs < n \<longrightarrow> oq s = q0 + length xs)"

definition room :: "bytes \<Rightarrow> nat \<Rightarrow> nat \<Rightarrow> bool" where
  "room b0 q0 n \<longleftrightarrow> n = 0 \<or> q0 + n \<le> length b0"

lemma text_out_length [simp]: "room b0 q0 n \<Longrightarrow> length (text_out b0 q0 n xs) = length b0"
  by (auto simp: text_out_def room_def)

lemma text_out_snoc_full: "n \<le> length xs \<Longrightarrow> text_out b0 q0 n (xs @ ys) = text_out b0 q0 n xs"
  by (simp add: text_out_def)

lemma text_out_snoc:
  assumes "room b0 q0 n" "length xs < n"
  shows "(text_out b0 q0 n xs)[q0 + length xs := x] = text_out b0 q0 n (xs @ [x])"
proof -
  have "drop (q0 + length xs) b0 \<noteq> []" using assms by (auto simp: room_def)
  then obtain y ys where d: "drop (q0 + length xs) b0 = y # ys" by (cases "drop (q0 + length xs) b0") auto
  then have "drop (q0 + Suc (length xs)) b0 = ys" by (metis add_Suc_right drop_Suc drop_drop drop_tl list.sel(3) plus_1_eq_Suc add.commute)
  then show ?thesis
    using assms d by (simp add: text_out_def room_def list_update_append min_absorb2 Suc_leI)
qed

lemma emit_rep:
  assumes "room b0 q0 n" "rep b0 q0 n xs s" "length xs + 1 < 2 ^ 32"
  shows "\<exists>s'. emit n x s = Some s' \<and> rep b0 q0 n (xs @ [x]) s'"
proof (cases "length xs < n")
  case True
  then have "oq s < length (obuf s)" using assms(1,2) by (auto simp: rep_def room_def text_out_length [OF assms(1)])
  then show ?thesis using True assms by (simp add: emit_def rep_def text_out_snoc)
next
  case False
  then show ?thesis using assms by (simp add: emit_def rep_def text_out_snoc_full)
qed

lemma pad_loop_rep:
  assumes "room b0 q0 n" "rep b0 q0 n xs s" "length xs + nat (width - w) < 2 ^ 32"
  shows "\<exists>s'. pad_loop n x w width s = Some (s', min width w) \<and> rep b0 q0 n (xs @ replicate (nat (width - w)) x) s'"
  using assms
proof (induction n x w width s arbitrary: xs rule: pad_loop.induct)
  case (1 n x w width s)
  show ?case
  proof (cases "width > w")
    case True
    then have k: "nat (width - w) = Suc (nat (width - 1 - w))" by simp
    have "length xs + 1 < 2 ^ 32" using "1.prems"(3) k by linarith
    from emit_rep [OF "1.prems"(1,2) this] obtain s1 where s1: "emit n x s = Some s1" "rep b0 q0 n (xs @ [x]) s1" by blast
    have "length (xs @ [x]) + nat (width - 1 - w) < 2 ^ 32" using "1.prems"(3) k by simp
    from "1.IH" [OF True s1(1) "1.prems"(1) s1(2) this] obtain s2 where
      "pad_loop n x w (width - 1) s1 = Some (s2, min (width - 1) w)"
      "rep b0 q0 n ((xs @ [x]) @ replicate (nat (width - 1 - w)) x) s2" by blast
    then show ?thesis using True s1(1) k by (subst pad_loop.simps) (simp add: min_def)
  next
    case False
    then show ?thesis using "1.prems" by (subst pad_loop.simps) (simp add: min_def)
  qed
qed

lemma emit_bytes_rep:
  assumes "room b0 q0 n" "rep b0 q0 n xs s" "length xs + k < 2 ^ 32" "k \<le> length ys"
  shows "\<exists>s'. emit_bytes n k ys s = Some s' \<and> rep b0 q0 n (xs @ take k ys) s'"
  using assms(2-4)
proof (induction k arbitrary: xs ys s)
  case (Suc k)
  then obtain y zs where ys: "ys = y # zs" by (cases ys) auto
  from emit_rep [OF assms(1) Suc.prems(1), of y] Suc.prems(2) obtain s1
    where s1: "emit n y s = Some s1" "rep b0 q0 n (xs @ [y]) s1" by auto
  from Suc.IH [OF s1(2), of zs] Suc.prems(2,3) ys obtain s2
    where "emit_bytes n k zs s1 = Some s2" "rep b0 q0 n ((xs @ [y]) @ take k zs) s2" by auto
  then show ?case using s1 ys by simp
qed simp

section \<open>Digits\<close>

text \<open>The number from right to left: \<open>d\<close> digits of \<open>v\<close>, a tick after every \<open>t\<close> of them, \<open>b\<close> digits before the next.\<close>

fun gen :: "(nat \<Rightarrow> u8) \<Rightarrow> nat \<Rightarrow> nat \<Rightarrow> nat \<Rightarrow> nat \<Rightarrow> nat \<Rightarrow> bytes" where
  "gen f base t b 0 v = []"
| "gen f base t 0 (Suc d) v = 0x5f # f (v mod base) # gen f base t (t - 1) d (v div base)"
| "gen f base t (Suc b) (Suc d) v = f (v mod base) # gen f base t b d (v div base)"

lemma gen_length:
  assumes "0 < t"
  shows "length (gen f base t b d v) = d + (if b < d then 1 + (d - b - 1) div t else 0)"
  using assms
proof (induction f base t b d v rule: gen.induct)
  case (2 f base t d v)
  have "(if t - 1 < d then 1 + (d - (t - 1) - 1) div t else 0) = d div t"
    using 2(2) by (auto simp: le_div_geq Suc_leI)
  with 2 show ?case by simp
qed auto

lemma gen_length_start: "0 < d \<Longrightarrow> 0 < t \<Longrightarrow> length (gen f base t t d v) = d + (d - 1) div t"
  by (simp add: gen_length) (metis One_nat_def Suc_eq_plus1 add.commute diff_Suc_eq_diff_pred div_add_self2 div_less le_add_diff_inverse less_imp_le linorder_not_less not_less_eq plus_1_eq_Suc Suc_pred)

text \<open>The part of the object that is still to be written, when there is room for some of it.\<close>

definition region :: "nat \<Rightarrow> nat \<Rightarrow> nat \<Rightarrow> nat \<Rightarrow> bytes \<Rightarrow> bytes \<Rightarrow> bytes \<Rightarrow> bytes \<Rightarrow> bool" where
  "region n a Q m buf A M B \<longleftrightarrow> (a < n \<longrightarrow> buf = A @ M @ B \<and> length A + m = Q \<and> length M = min m (n - a))"

definition filled :: "nat \<Rightarrow> nat \<Rightarrow> bytes \<Rightarrow> bytes \<Rightarrow> bytes \<Rightarrow> bytes \<Rightarrow> bytes" where
  "filled n a buf A B ts = (if a < n then A @ take (n - a) ts @ B else buf)"

lemma put_back_ok:
  assumes "region n a Q (Suc m) buf A M B" "a + Suc m < 2 ^ 32" "Suc m \<le> Q"
  obtains buf' M' B' where "put_back n c buf Q (a + Suc m) = Some (buf', Q - 1, a + m)" "region n a (Q - 1) m buf' A M' B'"
    "\<forall>ts. length ts = m \<longrightarrow> filled n a buf' A B' ts = filled n a buf A B (ts @ [c])"
proof -
  have o': "(a + Suc m + 2 ^ 32 - 1) mod 2 ^ 32 = a + m" using assms(2) by simp
  show thesis
  proof (cases "a + m < n")
    case True
    then have r: "buf = A @ M @ B" "length A + Suc m = Q" "length M = Suc m" using assms(1) by (auto simp: region_def)
    then obtain M' z where M: "M = M' @ [z]" by (cases M rule: rev_cases) auto
    have w: "wr buf (Q - 1) c = Some (A @ M' @ c # B)"
    proof -
      have "Q - 1 = length (A @ M')" using r M by simp
      moreover have "wr ((A @ M') @ z # B) (length (A @ M')) c = Some ((A @ M') @ c # B)"
        using list_update_length [of "A @ M'" z B c] by (simp add: wr_def del: append_assoc)
      ultimately show ?thesis using r(1) M by simp
    qed
    show ?thesis
      by (rule that [of "A @ M' @ c # B" M' "c # B"])
        (use True w o' assms(3) r M in \<open>auto simp: put_back_def region_def filled_def\<close>)
  next
    case False
    show ?thesis
      by (rule that [of buf M B]) (use False o' assms in \<open>auto simp: put_back_def region_def filled_def min_def\<close>)
  qed
qed

lemma digit_loop_ok:
  assumes "0 < t" "region n a Q (length (gen ((!) digits) base t b d v)) buf A M B"
    "a + length (gen ((!) digits) base t b d v) < 2 ^ 32" "length (gen ((!) digits) base t b d v) \<le> Q"
  shows "digit_loop n digits base (int t) buf Q (a + length (gen ((!) digits) base t b d v))
      (int (length (gen ((!) digits) base t b d v))) (int b) v
    = Some (filled n a buf A B (rev (gen ((!) digits) base t b d v)))"
  using assms
proof (induction "(!) digits" base t b d v arbitrary: Q buf M B rule: gen.induct)
  case (1 base t b v)
  then show ?case by (subst digit_loop.simps) (auto simp: filled_def region_def)
next
  case (2 base t d v)
  let ?g = "gen ((!) digits) base t (t - 1) d (v div base)"
  have m: "length (gen ((!) digits) base t 0 (Suc d) v) = Suc (Suc (length ?g))" by simp
  note pr = "2.prems"(2-4) [unfolded m]
  obtain buf1 M1 B1 where r1: "put_back n 0x5f buf Q (a + Suc (Suc (length ?g))) = Some (buf1, Q - 1, a + Suc (length ?g))"
    "region n a (Q - 1) (Suc (length ?g)) buf1 A M1 B1"
    "\<forall>ts. length ts = Suc (length ?g) \<longrightarrow> filled n a buf1 A B1 ts = filled n a buf A B (ts @ [0x5f])"
    by (rule put_back_ok [OF pr])
  have "a + Suc (length ?g) < 2 ^ 32" "Suc (length ?g) \<le> Q - 1" using pr by auto
  then obtain buf2 M2 B2 where r2: "put_back n (digits ! (v mod base)) buf1 (Q - 1) (a + Suc (length ?g)) = Some (buf2, Q - 1 - 1, a + length ?g)"
    "region n a (Q - 1 - 1) (length ?g) buf2 A M2 B2"
    "\<forall>ts. length ts = length ?g \<longrightarrow> filled n a buf2 A B2 ts = filled n a buf1 A B1 (ts @ [digits ! (v mod base)])"
    using put_back_ok [OF r1(2)] by metis
  have "digit_loop n digits base (int t) buf2 (Q - 1 - 1) (a + length ?g) (int (length ?g)) (int (t - 1)) (v div base)
    = Some (filled n a buf2 A B2 (rev ?g))"
    by (rule "2.hyps" [OF "2.prems"(1) r2(2)]) (use pr in auto)
  moreover have "filled n a buf2 A B2 (rev ?g) = filled n a buf A B (rev (gen ((!) digits) base t 0 (Suc d) v))"
    using r1(3) r2(3) by simp
  moreover have "int (t - 1) = int t - 1" using "2.prems"(1) by simp
  ultimately show ?case unfolding m using r1(1) r2(1) by (subst digit_loop.simps) simp
next
  case (3 base t b d v)
  let ?g = "gen ((!) digits) base t b d (v div base)"
  have m: "length (gen ((!) digits) base t (Suc b) (Suc d) v) = Suc (length ?g)" by simp
  note pr = "3.prems"(2-4) [unfolded m]
  obtain buf1 M1 B1 where r1: "put_back n (digits ! (v mod base)) buf Q (a + Suc (length ?g)) = Some (buf1, Q - 1, a + length ?g)"
    "region n a (Q - 1) (length ?g) buf1 A M1 B1"
    "\<forall>ts. length ts = length ?g \<longrightarrow> filled n a buf1 A B1 ts = filled n a buf A B (ts @ [digits ! (v mod base)])"
    by (rule put_back_ok [OF pr])
  have "digit_loop n digits base (int t) buf1 (Q - 1) (a + length ?g) (int (length ?g)) (int b) (v div base)
    = Some (filled n a buf1 A B1 (rev ?g))"
    by (rule "3.hyps" [OF "3.prems"(1) r1(2)]) (use pr in auto)
  moreover have "filled n a buf1 A B1 (rev ?g) = filled n a buf A B (rev (gen ((!) digits) base t (Suc b) (Suc d) v))"
    using r1(3) by simp
  ultimately show ?case unfolding m using r1(1) by (subst digit_loop.simps) simp
qed


lemma gen_text:
  assumes "0 < t"
  shows "gen f base t b d v = concat (map (\<lambda>i. (if b \<le> i \<and> (i - b) mod t = 0 then [0x5f] else []) @ [f (v div base ^ i mod base)]) [0..<d])"
  using assms
proof (induction f base t b d v rule: gen.induct)
  case (2 f base t d v)
  have e: "(t - 1 \<le> i \<and> (i - (t - 1)) mod t = 0) = (Suc i mod t = 0)" for i
  proof (cases "t - 1 \<le> i")
    case True
    then have "Suc i = (i - (t - 1)) + t" using 2(2) by simp
    then have "Suc i mod t = (i - (t - 1)) mod t" by (simp only: mod_add_self2)
    then show ?thesis using True by simp
  next
    case False
    then show ?thesis by simp
  qed
  show ?case
    unfolding gen.simps 2(1) [OF 2(2)] e upt_conv_Cons [OF zero_less_Suc] map_Suc_upt [symmetric] list.map list.map_comp o_def
    by (simp add: div_mult2_eq)
next
  case (3 f base t b d v)
  show ?case
    unfolding gen.simps 3(1) [OF 3(2)] upt_conv_Cons [OF zero_less_Suc] map_Suc_upt [symmetric] list.map list.map_comp o_def
    by (simp add: div_mult2_eq)
qed simp

section \<open>Numbers\<close>

fun num_digits :: "nat \<Rightarrow> nat \<Rightarrow> nat" where
  "num_digits base v = (if v = 0 \<or> base \<le> 1 then 0 else Suc (num_digits base (v div base)))"

declare num_digits.simps [simp del]

lemma count_digits_eq: "count_digits base v k = k + int (num_digits base v)"
  by (induction base v k rule: count_digits.induct) (subst count_digits.simps, subst num_digits.simps, simp)

lemma num_digits_0 [simp]: "num_digits base 0 = 0"
  by (simp add: num_digits.simps)

lemma num_digits_pos: "2 \<le> base \<Longrightarrow> 0 < v \<Longrightarrow> 0 < num_digits base v"
  by (simp add: num_digits.simps)

lemma num_digits_le:
  "2 \<le> base \<Longrightarrow> v < 2 ^ k \<Longrightarrow> num_digits base v \<le> k"
proof (induction k arbitrary: v)
  case (Suc k)
  have "v div base \<le> v div 2" using Suc.prems(1) by (rule div_le_mono2 [rotated]) simp
  also have "\<dots> < 2 ^ k" using Suc.prems(2) by simp
  finally show ?case using Suc by (subst num_digits.simps) auto
qed simp

text \<open>The digits suffice.\<close>

lemma num_digits_enough: "2 \<le> base \<Longrightarrow> v < base ^ num_digits base v"
proof (induction base v rule: num_digits.induct)
  case (1 base v)
  show ?case
  proof (cases "v = 0")
    case False
    then have "v div base < base ^ num_digits base (v div base)" using 1 by simp
    then have "v < base * base ^ num_digits base (v div base)" using 1(2) by (simp add: div_less_iff_less_mult mult.commute)
    then show ?thesis using False 1(2) by (subst num_digits.simps) simp
  qed simp
qed

lemma two_bits:
  fixes w :: "'a::len word"
  assumes "i < LENGTH('a)" "j < LENGTH('a)" "i \<noteq> j"
  shows "w AND (2 ^ i OR 2 ^ j) = 0 \<longleftrightarrow> \<not> bit w i \<and> \<not> bit w j" "w AND (2 ^ i OR 2 ^ j) = 2 ^ j \<longleftrightarrow> \<not> bit w i \<and> bit w j"
    "w AND 2 ^ i = 0 \<longleftrightarrow> \<not> bit w i"
proof -
  have p: "bit ((2 :: 'a word) ^ k) n \<longleftrightarrow> n = k" if "k < LENGTH('a)" for k n
    using that by (auto simp: bit_exp_iff possible_bit_word)
  have b: "bit (w AND (2 ^ i OR 2 ^ j)) n \<longleftrightarrow> bit w n \<and> (n = i \<or> n = j)" "bit (w AND 2 ^ i) n \<longleftrightarrow> bit w n \<and> n = i" for n
    using assms p by (auto simp: bit_and_iff bit_or_iff)
  show "w AND (2 ^ i OR 2 ^ j) = 0 \<longleftrightarrow> \<not> bit w i \<and> \<not> bit w j" "w AND 2 ^ i = 0 \<longleftrightarrow> \<not> bit w i"
    unfolding bit_eq_iff [where ?'a = "'a word"] b by (auto dest: bit_imp_le_length)
  show "w AND (2 ^ i OR 2 ^ j) = 2 ^ j \<longleftrightarrow> \<not> bit w i \<and> bit w j"
    unfolding bit_eq_iff [where ?'a = "'a word"] b p [OF assms(2)] using assms by (auto simp: possible_bit_word)
qed

lemma fl_masks:
  "w AND (FL_PLUS OR FL_SPACE) \<noteq> 0 \<longleftrightarrow> w AND FL_PLUS \<noteq> 0 \<or> w AND FL_SPACE \<noteq> 0"
  "w AND (FL_MINUS OR FL_ZERO) = 0 \<longleftrightarrow> w AND FL_MINUS = 0 \<and> w AND FL_ZERO = 0"
  "w AND (FL_MINUS OR FL_ZERO) = FL_ZERO \<longleftrightarrow> w AND FL_MINUS = 0 \<and> w AND FL_ZERO \<noteq> 0"
proof -
  have p: "FL_PLUS = 2 ^ 2" "FL_SPACE = 2 ^ 4" "FL_MINUS = 2 ^ 1" "FL_ZERO = 2 ^ 0"
    by (simp_all add: FL_PLUS_def FL_SPACE_def FL_MINUS_def FL_ZERO_def)
  show "w AND (FL_PLUS OR FL_SPACE) \<noteq> 0 \<longleftrightarrow> w AND FL_PLUS \<noteq> 0 \<or> w AND FL_SPACE \<noteq> 0"
    "w AND (FL_MINUS OR FL_ZERO) = 0 \<longleftrightarrow> w AND FL_MINUS = 0 \<and> w AND FL_ZERO = 0"
    "w AND (FL_MINUS OR FL_ZERO) = FL_ZERO \<longleftrightarrow> w AND FL_MINUS = 0 \<and> w AND FL_ZERO \<noteq> 0"
    unfolding p using two_bits [of 2 4 w] two_bits [of 4 2 w] two_bits [of 1 0 w] two_bits [of 0 1 w] by auto
qed

text \<open>The text of a number, declaratively: fill, sign, prefix, zeros, digits with ticks, fill.\<close>

definition digit_text :: "(nat \<Rightarrow> u8) \<Rightarrow> nat \<Rightarrow> nat \<Rightarrow> nat \<Rightarrow> nat \<Rightarrow> bytes" where
  "digit_text f base t d v =
     rev (concat (map (\<lambda>i. (if 0 < i \<and> i mod t = 0 then [0x5f] else []) @ [f (v div base ^ i mod base)]) [0..<d]))"

definition int_text :: "u64 \<Rightarrow> u8 \<Rightarrow> nat \<Rightarrow> int \<Rightarrow> int \<Rightarrow> bytes" where
  "int_text val flags base width prec =
     (let on = (\<lambda>x. flags AND x \<noteq> 0);
          neg = (on FL_SIGNED \<and> sint val < 0);
          mag = (if neg then nat (- sint val) else unat val);
          k = num_digits base mag;
          d = Max {1, k, nat prec, if on FL_HASH \<and> base = 8 then k + 1 else 1};
          t = (if on FL_TICK then if base = 16 then 4 else 3 else d);
          sign = (if neg then [0x2d] else if on FL_PLUS then [0x2b] else if on FL_SPACE then [0x20] else []);
          pre = (if on FL_HASH \<and> base = 16 then [0x30, if on FL_UPPER then 0x58 else 0x78] else []);
          body = digit_text ((!) (if on FL_UPPER then ucdigits else lcdigits)) base t d mag;
          fill = replicate (nat (width - int (length (sign @ pre @ body))))
      in if on FL_MINUS then sign @ pre @ body @ fill 0x20
         else if on FL_ZERO then sign @ pre @ fill 0x30 @ body
         else fill 0x20 @ sign @ pre @ body)"

lemma digit_text_gen:
  assumes "0 < t"
  shows "digit_text f base t d v = rev (gen f base t t d v)"
proof -
  have "(0 < i \<and> i mod t = 0) = (t \<le> i \<and> (i - t) mod t = 0)" for i
    using assms by (metis le_mod_geq mod_less not_le nat_less_le less_le_trans linorder_not_le)
  then show ?thesis by (simp add: digit_text_def gen_text [OF assms])
qed


lemma digits_rep:
  assumes "room b q n" "rep b q n xs s" "length xs + L < 2 ^ 32" "0 < t" "L = length (gen ((!) digits) base t t d v)"
  shows "\<exists>b'. digit_loop n digits base (int t) (obuf s) (oq s + L) ((oo s + L) mod 2 ^ 32) (int L) (int t) v = Some b' \<and>
     rep b q n (xs @ rev (gen ((!) digits) base t t d v)) (s\<lparr>oq := oq s + L, oo := (oo s + L) mod 2 ^ 32, obuf := b'\<rparr>)"
proof -
  let ?g = "gen ((!) digits) base t t d v" and ?a = "length xs"
  let ?A = "take q b @ xs" and ?m = "min L (n - length xs)"
  let ?M = "take ?m (drop (q + ?a) b)" and ?B = "drop (q + ?a + ?m) b"
  have oo: "(oo s + L) mod 2 ^ 32 = ?a + L" using assms(2,3) by (simp add: rep_def)
  have reg: "region n ?a (oq s + L) L (obuf s) ?A ?M ?B"
  proof (cases "?a < n")
    case True
    then have "obuf s = ?A @ drop (q + ?a) b" "oq s = q + ?a" "q + n \<le> length b"
      using assms(1,2) by (auto simp: rep_def text_out_def room_def)
    moreover have "?B = drop ?m (drop (q + ?a) b)" by (simp only: drop_drop add.commute [of ?m "q + ?a"])
    then have "drop (q + ?a) b = ?M @ ?B" by (simp only: append_take_drop_id)
    ultimately show ?thesis using True by (auto simp: region_def)
  qed (simp add: region_def)
  have "digit_loop n digits base (int t) (obuf s) (oq s + L) (?a + L) (int L) (int t) v = Some (filled n ?a (obuf s) ?A ?B (rev ?g))"
    using digit_loop_ok [OF assms(4), of n ?a "oq s + L" digits base t d v "obuf s" ?A ?M ?B] reg assms(3) by (simp add: assms(5))
  moreover have "filled n ?a (obuf s) ?A ?B (rev ?g) = text_out b q n (xs @ rev ?g)"
  proof (cases "?a < n")
    case True
    then have "q + ?a + ?m = q + min n (?a + L)" by auto
    then have "?B = drop (q + min n (?a + L)) b" by (simp only:)
    then show ?thesis using True unfolding filled_def text_out_def by (simp add: assms(5))
  next
    case False
    then show ?thesis using assms(2) by (simp add: filled_def rep_def text_out_snoc_full)
  qed
  moreover have "length (xs @ rev ?g) < n \<longrightarrow> oq s + L = q + length (xs @ rev ?g)"
    using assms(2,5) by (auto simp: rep_def)
  ultimately show ?thesis using oo by (simp add: rep_def assms(5))
qed

lemma pad_if:
  assumes "room b q n" "rep b q n xs s" "length xs + nat (width - w) < 2 ^ 32" "\<not> g \<longrightarrow> width \<le> w"
  shows "\<exists>s'. (if c \<and> g then pad_loop n x w width s else Some (s, width)) = Some (s', if c then min width w else width) \<and>
    rep b q n (xs @ (if c then replicate (nat (width - w)) x else [])) s'"
proof (cases "c \<and> g")
  case True
  then show ?thesis using pad_loop_rep [OF assms(1-3), of x] by simp
next
  case False
  then show ?thesis using assms(2,4) by (auto simp: min_def)
qed

lemma magnitude:
  fixes v :: u64
  shows "unat (if c \<and> v <s 0 then - v else v) = (if c \<and> sint v < 0 then nat (- sint v) else unat v)"
proof (cases "c \<and> v <s 0")
  case True
  then have c: c "sint v < 0" by (auto simp: word_sless_alt)
  have "- v = word_of_int (- sint v)" by simp
  then have "uint (- v) = - sint v mod 2 ^ 64" by (simp only: uint_word_of_int) simp
  also have "\<dots> = - sint v" using c(2) sint_ge [of v] by simp
  finally show ?thesis using True c by (simp add: unat_eq_nat_uint)
next
  case False
  then have "\<not> (c \<and> sint v < 0)" by (simp add: word_sless_alt)
  then show ?thesis using False by auto
qed

lemma c_int_in: "- (2 ^ 31) \<le> x \<Longrightarrow> x < 2 ^ 31 \<Longrightarrow> c_int x = Some x"
  by (simp add: c_int_def)

text \<open>\<open>format_int\<close> puts out the text of the number: what fits into the \<open>n\<close> bytes is there, and the value is the full length.\<close>

lemma format_int_ok:
  assumes room: "room b q n" and base: "base = 8 \<or> base = 10 \<or> base = 16" and bounds: "width < 2 ^ 30" "prec < 2 ^ 29"
  shows "format_int b q n val flags base width prec =
    Some (text_out b q n (int_text val flags base width prec), length (int_text val flags base width prec))"
    "length (int_text val flags base width prec) < 2 ^ 32"
proof -
  define neg where "neg = (flags AND FL_SIGNED \<noteq> 0 \<and> sint val < 0)"
  define mag where "mag = (if neg then nat (- sint val) else unat val)"
  define k where "k = num_digits base mag"
  define d where "d = Max {1, k, nat prec, if flags AND FL_HASH \<noteq> 0 \<and> base = 8 then k + 1 else 1}"
  define t where "t = (if flags AND FL_TICK \<noteq> 0 then if base = 16 then 4 else 3 else d)"
  define sign where "sign = (if neg then [0x2d] else if flags AND FL_PLUS \<noteq> 0 then [0x2b] else if flags AND FL_SPACE \<noteq> 0 then [0x20] else [] :: bytes)"
  define pre where "pre = (if flags AND FL_HASH \<noteq> 0 \<and> base = 16 then [0x30, if flags AND FL_UPPER \<noteq> 0 then 0x58 else 0x78] else [] :: bytes)"
  define digits where "digits = (if flags AND FL_UPPER \<noteq> 0 then ucdigits else lcdigits)"
  define g where "g = gen ((!) digits) base t t d mag"
  define nch where "nch = length sign + length pre + length g"
  define fill where "fill = (\<lambda>x. replicate (nat (width - int nch)) x :: bytes)"
  define P where "P = (flags AND FL_MINUS = 0 \<and> flags AND FL_ZERO = 0)"
  define Z where "Z = (flags AND FL_MINUS = 0 \<and> flags AND FL_ZERO \<noteq> 0)"
  define M where "M = (flags AND FL_MINUS \<noteq> 0)"
  have d: "0 < d" by (simp add: d_def)
  have t: "0 < t" using d by (simp add: t_def)
  have body: "digit_text ((!) digits) base t d mag = rev g" using t by (simp add: g_def digit_text_gen)
  have whole: "int_text val flags base width prec =
    (if P then fill 0x20 else []) @ sign @ pre @ (if Z then fill 0x30 else []) @ rev g @ (if M then fill 0x20 else [])"
    unfolding int_text_def Let_def neg_def [symmetric] mag_def [symmetric] k_def [symmetric] d_def [symmetric] t_def [symmetric]
      sign_def [symmetric] pre_def [symmetric] digits_def [symmetric] body
    by (simp add: P_def Z_def M_def fill_def nch_def add.assoc)
  have "mag < 2 ^ 64"
    using sint_ge [of val] unsigned_less [of val] by (auto simp: mag_def)
  then have k64: "k \<le> 64" unfolding k_def using base by (intro num_digits_le) auto
  have "nat prec \<le> 536870912" using bounds(2) by simp
  then have d30: "d \<le> 536870912" using k64 by (simp add: d_def)
  have gl: "length g = d + (d - 1) div t" using gen_length_start [OF d t] by (simp add: g_def)
  have "(d - 1) div t \<le> d - 1" by (rule div_le_dividend)
  then have "length g < 2147483648" using gl d30 d by linarith
  then have g31: "length g < 2 ^ 31" by simp
  have gs: "length g \<le> 1073741824" using gl d30 \<open>(d - 1) div t \<le> d - 1\<close> by linarith
  have sp: "length sign \<le> 1" "length pre \<le> 2" "0 < length g" using gl d by (auto simp: sign_def pre_def)
  have fl: "length (fill x) \<le> 2 ^ 30" for x using bounds(1) by (simp add: fill_def)
  show "length (int_text val flags base width prec) < 2 ^ 32"
    unfolding whole using g31 sp fl [of 32] fl [of 48] by (simp add: P_def Z_def M_def)
  \<comment> \<open>The widths of the code.\<close>
  have neg: "(flags AND FL_SIGNED \<noteq> 0 \<and> val <s 0) = neg" by (simp add: neg_def word_sless_alt)
  have v: "unat (if neg then - val else val) = mag"
    using magnitude [of "flags AND FL_SIGNED \<noteq> 0" val] unfolding neg by (simp add: mag_def neg_def)
  have v0: "((if neg then - val else val) = 0) = (mag = 0)" unfolding v [symmetric] by (simp add: unat_eq_0)
  have nd: "(if (if flags AND FL_HASH \<noteq> 0 \<and> base = 8 \<and> prec < int k + 1 then int k + 1 else prec) > int k
      then (if flags AND FL_HASH \<noteq> 0 \<and> base = 8 \<and> prec < int k + 1 then int k + 1 else prec)
      else if mag = 0 then 1 else int k) = int d"
  proof -
    have "(mag = 0) = (k = 0)" using base num_digits_pos [of base mag] by (cases "mag = 0") (auto simp: k_def)
    then show ?thesis by (auto simp: d_def max_def)
  qed
  have tk: "(if flags AND FL_TICK \<noteq> 0 then if base = 16 then 4 else 3 else int d) = int t" by (simp add: t_def)
  have ticks: "c_int (int d + (int d - 1) div int t) = Some (int (length g))"
  proof -
    have "int d + (int d - 1) div int t = int (length g)" using d unfolding gl by (simp add: of_nat_diff zdiv_int)
    then show ?thesis using g31 by (simp add: c_int_in)
  qed
  have n1: "(if neg \<or> flags AND FL_PLUS \<noteq> 0 \<or> flags AND FL_SPACE \<noteq> 0 then c_int (int (length g) + 1) else Some (int (length g)))
     = Some (int (length sign + length g))"
    using gs by (simp add: sign_def c_int_in)
  have n2: "(if flags AND FL_HASH \<noteq> 0 \<and> base = 16 then c_int (int (length sign + length g) + 2) else Some (int (length sign + length g)))
     = Some (int nch)"
    using gs sp by (simp add: pre_def nch_def c_int_in)
  \<comment> \<open>The stages.\<close>
  let ?s0 = "\<lparr>obuf = b, oq = q, oo = 0\<rparr>"
  have r0: "rep b q n [] ?s0" by (simp add: rep_def text_out_def)
  obtain s1 where s1: "(if P \<and> width > int nch then pad_loop n 0x20 (int nch) width ?s0 else Some (?s0, width)) = Some (s1, if P then min width (int nch) else width)"
    "rep b q n (if P then fill 0x20 else []) s1"
  proof -
    have "length ([] :: bytes) + nat (width - int nch) < 2 ^ 32" using fl [of 32] by (simp add: fill_def)
    from pad_if [OF room r0 this, of "width > int nch" P 32] that show thesis unfolding fill_def by auto
  qed
  obtain s2 where s2: "(if neg then emit n 0x2d s1 else if flags AND FL_PLUS \<noteq> 0 then emit n 0x2b s1
      else if flags AND FL_SPACE \<noteq> 0 then emit n 0x20 s1 else Some s1) = Some s2" "rep b q n ((if P then fill 0x20 else []) @ sign) s2"
  proof -
    have "length (if P then fill 32 else []) + 1 < 2 ^ 32" using fl [of 32] by auto
    from emit_rep [OF room s1(2) this] s1(2) that show thesis unfolding sign_def by (cases neg; cases "flags AND FL_PLUS = 0"; cases "flags AND FL_SPACE = 0") fastforce+
  qed
  obtain s3 where s3: "(if flags AND FL_HASH \<noteq> 0 \<and> base = 16 then do { s \<leftarrow> emit n 0x30 s2; emit n (if flags AND FL_UPPER \<noteq> 0 then 0x58 else 0x78) s }
      else Some s2) = Some s3" "rep b q n ((if P then fill 0x20 else []) @ sign @ pre) s3"
  proof (cases "flags AND FL_HASH \<noteq> 0 \<and> base = 16")
    case True
    have l: "length ((if P then fill 32 else []) @ sign) + 2 < 2 ^ 32" using fl [of 32] sp by auto
    then have "length ((if P then fill 32 else []) @ sign) + 1 < 2 ^ 32" by simp
    from emit_rep [OF room s2(2) this] obtain s where s: "emit n 48 s2 = Some s" "rep b q n (((if P then fill 32 else []) @ sign) @ [48]) s" by blast
    have "length (((if P then fill 32 else []) @ sign) @ [48]) + 1 < 2 ^ 32" using l by simp
    from emit_rep [OF room s(2) this, of "if flags AND FL_UPPER \<noteq> 0 then 88 else 120"] obtain s' where
      "emit n (if flags AND FL_UPPER \<noteq> 0 then 88 else 120) s = Some s'"
      "rep b q n ((((if P then fill 32 else []) @ sign) @ [48]) @ [if flags AND FL_UPPER \<noteq> 0 then 88 else 120]) s'" by blast
    then show thesis using that [of s'] s True by (simp add: pre_def)
  next
    case False
    then have "pre = []" unfolding pre_def by (rule if_not_P)
    then show thesis by (intro that [of s2] if_not_P [OF False]) (use s2(2) in simp)
  qed
  let ?w = "if P then min width (int nch) else width"
  obtain s4 where s4: "(if Z \<and> ?w > int (length g) then pad_loop n 0x30 (int nch) ?w s3 else Some (s3, ?w)) = Some (s4, if Z then min ?w (int nch) else ?w)"
    "rep b q n ((if P then fill 0x20 else []) @ sign @ pre @ (if Z then fill 0x30 else [])) s4"
  proof -
    have PZ: "\<not> (P \<and> Z)" by (simp add: P_def Z_def)
    have "length ((if P then fill 32 else []) @ sign @ pre) + nat (?w - int nch) < 2 ^ 32"
      using sp fl [of 32] by (auto simp: fill_def)
    moreover have "\<not> (?w > int (length g)) \<longrightarrow> ?w \<le> int nch" by (simp add: nch_def)
    ultimately show thesis using pad_if [OF room s3(2), of ?w "int nch" "?w > int (length g)" Z 48] that PZ
      unfolding fill_def by (cases Z; cases P) auto
  qed
  let ?w' = "if Z then min ?w (int nch) else ?w"
  obtain b' where b': "digit_loop n digits base (int t) (obuf s4) (oq s4 + length g) ((oo s4 + length g) mod 2 ^ 32) (int (length g)) (int t) mag = Some b'"
    "rep b q n ((if P then fill 0x20 else []) @ sign @ pre @ (if Z then fill 0x30 else []) @ rev g)
       (s4\<lparr>oq := oq s4 + length g, oo := (oo s4 + length g) mod 2 ^ 32, obuf := b'\<rparr>)"
  proof -
    have "length ((if P then fill 32 else []) @ sign @ pre @ (if Z then fill 48 else [])) + length g < 2 ^ 32"
      using sp fl [of 32] fl [of 48] gs by (auto simp: P_def Z_def)
    from digits_rep [OF room s4(2) this t, of digits base d mag] that show thesis by (auto simp: g_def)
  qed
  let ?s5 = "s4\<lparr>oq := oq s4 + length g, oo := (oo s4 + length g) mod 2 ^ 32, obuf := b'\<rparr>"
  obtain s6 where s6: "(if M then pad_loop n 0x20 (int nch) ?w' ?s5 else Some (?s5, ?w')) = Some (s6, if M then min ?w' (int nch) else ?w')"
    "rep b q n (int_text val flags base width prec) s6"
  proof -
    have PM: "\<not> (P \<and> M)" "\<not> (Z \<and> M)" by (simp_all add: P_def Z_def M_def)
    have "length ((if P then fill 32 else []) @ sign @ pre @ (if Z then fill 48 else []) @ rev g) + nat (?w' - int nch) < 2 ^ 32"
      using sp fl [of 32] fl [of 48] gs PM by (auto simp: fill_def)
    from pad_if [OF room b'(2) this, of True M 32] that PM show thesis
      unfolding whole fill_def by (cases M; cases P; cases Z) auto
  qed
  have moved: "obuf (s\<lparr>oq := i, oo := j\<rparr>) = obuf s" "oq (s\<lparr>oq := i, oo := j\<rparr>) = i" "oo (s\<lparr>oq := i, oo := j\<rparr>) = j" for s :: outst and i j
    by simp_all
  have "format_int b q n val flags base width prec = Some (obuf s6, oo s6)"
    unfolding format_int_def Let_def v v0 count_digits_eq add_0 k_def [symmetric] fl_masks neg
    by (simp only: nd tk ticks n1 n2 bind.bind_lunit prod.case digits_def [symmetric] P_def [symmetric] Z_def [symmetric] M_def [symmetric]
      s1(1) s2(1) s3(1) s4(1) nat_int moved b'(1) s6(1))
  then show "format_int b q n val flags base width prec =
    Some (text_out b q n (int_text val flags base width prec), length (int_text val flags base width prec))"
    using s6(2) by (simp add: rep_def)
qed


section \<open>The reference: formats as lists of directives\<close>

datatype vwid = NoWidth | WDigits bytes | WStar
datatype vpre = NoPrec | PDigits bytes | PStar
datatype directive = Lit u8 | Conv (cflags: bytes) (cwidth: vwid) (cprec: vpre) (cmods: bytes) (cconv: u8)

fun show_width :: "vwid \<Rightarrow> bytes" where
  "show_width NoWidth = []" | "show_width (WDigits ds) = ds" | "show_width WStar = [0x2a]"

fun show_prec :: "vpre \<Rightarrow> bytes" where
  "show_prec NoPrec = []" | "show_prec (PDigits ds) = 0x2e # ds" | "show_prec PStar = [0x2e, 0x2a]"

fun show_directive :: "directive \<Rightarrow> bytes" where
  "show_directive (Lit c) = [c]"
| "show_directive (Conv fs w p ms c) = 0x25 # fs @ show_width w @ show_prec p @ ms @ [c]"

definition dec_val :: "bytes \<Rightarrow> int" where
  "dec_val ds = foldl (\<lambda>a c. a * 10 + digit_val c) 0 ds"

definition is_flag :: "u8 \<Rightarrow> bool" where "is_flag c \<longleftrightarrow> flag_of c \<noteq> None"
definition is_mod :: "u8 \<Rightarrow> bool" where "is_mod c \<longleftrightarrow> rank_mod c 0 \<noteq> None"

text \<open>Well-formed: no character of one part can be taken for one of another; widths and precisions are below \<open>2 ^ 29\<close>.\<close>

fun wf_width :: "vwid \<Rightarrow> bool" where
  "wf_width (WDigits ds) \<longleftrightarrow> list_all is_digit ds \<and> ds \<noteq> [] \<and> hd ds \<noteq> 0x30 \<and> dec_val ds < 2 ^ 29" | "wf_width _ \<longleftrightarrow> True"

fun wf_prec :: "vpre \<Rightarrow> bool" where
  "wf_prec (PDigits ds) \<longleftrightarrow> list_all is_digit ds \<and> dec_val ds < 2 ^ 29" | "wf_prec _ \<longleftrightarrow> True"

fun wf_directive :: "directive \<Rightarrow> bool" where
  "wf_directive (Lit c) \<longleftrightarrow> c \<noteq> 0 \<and> c \<noteq> 0x25"
| "wf_directive (Conv fs w p ms c) \<longleftrightarrow> list_all is_flag fs \<and> wf_width w \<and> wf_prec p \<and> list_all is_mod ms \<and>
     c \<noteq> 0 \<and> \<not> is_mod c \<and> \<not> is_flag c \<and> \<not> is_digit c \<and> c \<noteq> 0x2a \<and> c \<noteq> 0x2e"

definition flags_word :: "bytes \<Rightarrow> u8" where
  "flags_word fs = foldl (\<lambda>a c. a OR the (flag_of c)) 0 fs"

definition mods_rank :: "bytes \<Rightarrow> int" where
  "mods_rank ms = clamp_rank (foldl (\<lambda>r c. the (rank_mod c r)) 0 ms)"

fun the_width :: "vwid \<Rightarrow> varg list \<Rightarrow> (int \<times> bool \<times> varg list) option" where
  "the_width NoWidth args = Some (0, False, args)"
| "the_width (WDigits ds) args = Some (dec_val ds, False, args)"
| "the_width WStar args =
     (case args of AInt v # r \<Rightarrow> if \<bar>sint v\<bar> < 2 ^ 29 then Some (\<bar>sint v\<bar>, sint v < 0, r) else None | _ \<Rightarrow> None)"

fun the_prec :: "vpre \<Rightarrow> varg list \<Rightarrow> (int \<times> varg list) option" where
  "the_prec NoPrec args = Some (-1, args)"
| "the_prec (PDigits ds) args = Some (dec_val ds, args)"
| "the_prec PStar args =
     (case args of AInt v # r \<Rightarrow> if sint v < 2 ^ 29 then Some (max (-1) (sint v), r) else None | _ \<Rightarrow> None)"

definition str_text :: "bytes \<Rightarrow> u8 \<Rightarrow> int \<Rightarrow> int \<Rightarrow> bytes" where
  "str_text str flags width prec =
     (let b = (if prec < 0 then str else take (nat prec) str);
          fill = replicate (nat (width - int (length b)))
      in if flags AND FL_MINUS \<noteq> 0 then b @ fill 0x20
         else fill (if flags AND FL_ZERO \<noteq> 0 then 0x30 else 0x20) @ b)"

text \<open>The text of a conversion, the arguments left and the store of a \<open>%n\<close>; \<open>len\<close> characters are out before it.\<close>

definition conv_text :: "nat \<Rightarrow> u8 \<Rightarrow> int \<Rightarrow> int \<Rightarrow> int \<Rightarrow> u8 \<Rightarrow> varg list \<Rightarrow> (bytes \<times> varg list \<times> (nat \<times> int \<times> nat) list) option" where
  "conv_text len flags w p r c args =
     (if c \<in> {0x50, 0x70}
      then do { (v, args) \<leftarrow> va_ptr args;
                Some (int_text (ucast v) (flags OR FL_HASH OR (if c = 0x50 then FL_UPPER else 0)) 16 w 8, args, []) }
      else if c \<in> {0x64, 0x69} then do { (v, args) \<leftarrow> signed_arg r args; Some (int_text v (flags OR FL_SIGNED) 10 w p, args, []) }
      else if c \<in> {0x6f, 0x75, 0x58, 0x78}
      then do { (v, args) \<leftarrow> unsigned_arg r args;
                Some (int_text v (if c = 0x58 then flags OR FL_UPPER else flags) (if c = 0x6f then 8 else if c = 0x75 then 10 else 16) w p,
                  args, []) }
      else if c = 0x63 then do { (v, args) \<leftarrow> va_int args; Some (str_text [ucast v] flags w p, args, []) }
      else if c = 0x73
      then do { (v, args) \<leftarrow> va_str args;
                let str = (case v of None \<Rightarrow> butlast null_text | Some s \<Rightarrow> cstr s);
                if (\<forall>s. v = Some s \<longrightarrow> is_cstr s) \<and> length str < 2 ^ 31 then Some (str_text str flags w p, args, []) else None }
      else if c = 0x6e then do { (ref, args) \<leftarrow> va_ref args; Some ([], args, [(ref, r, len)]) }
      else Some ([c], args, []))"

fun directive_text :: "nat \<Rightarrow> directive \<Rightarrow> varg list \<Rightarrow> (bytes \<times> varg list \<times> (nat \<times> int \<times> nat) list) option" where
  "directive_text len (Lit c) args = Some ([c], args, [])"
| "directive_text len (Conv fs w p ms c) args =
     do { (width, left, args) \<leftarrow> the_width w args;
          (prec, args) \<leftarrow> the_prec p args;
          conv_text len (flags_word fs OR (if left then FL_MINUS else 0)) width prec (mods_rank ms) c args }"

fun render :: "nat \<Rightarrow> directive list \<Rightarrow> varg list \<Rightarrow> (bytes \<times> (nat \<times> int \<times> nat) list) option" where
  "render len [] args = Some ([], [])"
| "render len (d # ds) args =
     do { (x, args, st) \<leftarrow> directive_text len d args;
          (y, st') \<leftarrow> render (len + length x) ds args;
          Some (x @ y, st @ st') }"

section \<open>The state machine follows the reference\<close>

definition vrep :: "bytes \<Rightarrow> nat \<Rightarrow> bytes \<Rightarrow> vstate \<Rightarrow> bool" where
  "vrep b n xs s \<longleftrightarrow> rep b 0 n xs (out_of s)"

lemma vrep_same [simp]:
  "vrep b n xs (s\<lparr>vflags := f\<rparr>) = vrep b n xs s" "vrep b n xs (s\<lparr>vrank := r\<rparr>) = vrep b n xs s"
  "vrep b n xs (s\<lparr>vwidth := w\<rparr>) = vrep b n xs s" "vrep b n xs (s\<lparr>vprec := p\<rparr>) = vrep b n xs s"
  "vrep b n xs (s\<lparr>vap := a\<rparr>) = vrep b n xs s" "vrep b n xs (s\<lparr>vstores := t\<rparr>) = vrep b n xs s"
  by (simp_all add: vrep_def out_of_def)

lemma flags_loop:
  "list_all is_flag fs \<Longrightarrow>
   vs_loop n (fs @ p) st_flags s = vs_loop n p st_flags (s\<lparr>vflags := foldl (\<lambda>a c. a OR the (flag_of c)) (vflags s) fs\<rparr>)"
proof (induction fs arbitrary: s)
  case (Cons c fs)
  then obtain f where f: "flag_of c = Some f" by (auto simp: is_flag_def)
  then have "c \<noteq> 0" by auto
  with Cons f show ?case by (simp add: vs_step_def del: flag_of.simps)
qed simp

lemma flags_end:
  "c \<noteq> 0 \<Longrightarrow> \<not> is_flag c \<Longrightarrow> vs_loop n (c # p) st_flags s = vs_loop n (c # p) st_width s"
  by (subst vs_loop.simps(2)) (simp add: vs_step_def is_flag_def del: flag_of.simps vs_loop.simps)

lemma dec_val_snoc: "dec_val (ds @ [c]) = dec_val ds * 10 + digit_val c" "dec_val [] = 0"
  by (simp_all add: dec_val_def)

lemma digit_val_range: "is_digit c \<Longrightarrow> 0 \<le> digit_val c \<and> digit_val c < 10"
  by (auto simp: is_digit_def digit_val_def word_le_def)

lemma digits_mono: "list_all is_digit ds \<Longrightarrow> 0 \<le> a \<Longrightarrow> a \<le> foldl (\<lambda>a c. a * 10 + digit_val c) a ds"
proof (induction ds arbitrary: a)
  case (Cons c ds)
  then have "0 \<le> digit_val c" using digit_val_range by simp
  then show ?case using Cons.IH [of "a * 10 + digit_val c"] Cons.prems by simp
qed simp

lemma dec_val_nonneg: "list_all is_digit ds \<Longrightarrow> 0 \<le> dec_val ds"
  using digits_mono [of ds 0] by (simp add: dec_val_def)

lemma digit_nonzero: "is_digit c \<Longrightarrow> c \<noteq> 0"
  by (auto simp: is_digit_def)

lemma width_digits:
  assumes "list_all is_digit ds" "0 \<le> vwidth s" "foldl (\<lambda>a c. a * 10 + digit_val c) (vwidth s) ds < 2 ^ 31"
  shows "vs_loop n (ds @ p) st_width s = vs_loop n p st_width (s\<lparr>vwidth := foldl (\<lambda>a c. a * 10 + digit_val c) (vwidth s) ds\<rparr>)"
  using assms
proof (induction ds arbitrary: s)
  case (Cons c ds)
  let ?w = "vwidth s * 10 + digit_val c"
  have w: "0 \<le> ?w" using Cons.prems digit_val_range [of c] by simp
  then have "c_int ?w = Some ?w" using digits_mono [of ds ?w] Cons.prems by (intro c_int_in) auto
  then show ?case using Cons.IH [of "s\<lparr>vwidth := ?w\<rparr>"] Cons.prems w digit_nonzero [of c] by (simp add: vs_step_def)
qed simp

lemma prec_digits:
  assumes "list_all is_digit ds" "0 \<le> vprec s" "foldl (\<lambda>a c. a * 10 + digit_val c) (vprec s) ds < 2 ^ 31"
  shows "vs_loop n (ds @ p) st_prec s = vs_loop n p st_prec (s\<lparr>vprec := foldl (\<lambda>a c. a * 10 + digit_val c) (vprec s) ds\<rparr>)"
  using assms
proof (induction ds arbitrary: s)
  case (Cons c ds)
  let ?w = "vprec s * 10 + digit_val c"
  have w: "0 \<le> ?w" using Cons.prems digit_val_range [of c] by simp
  then have "c_int ?w = Some ?w" using digits_mono [of ds ?w] Cons.prems by (intro c_int_in) auto
  then show ?case using Cons.IH [of "s\<lparr>vprec := ?w\<rparr>"] Cons.prems w digit_nonzero [of c] by (simp add: vs_step_def)
qed simp

lemma mods_loop:
  "list_all is_mod ms \<Longrightarrow>
   vs_loop n (ms @ p) st_modifiers s = vs_loop n p st_modifiers (s\<lparr>vrank := foldl (\<lambda>r c. the (rank_mod c r)) (vrank s) ms\<rparr>)"
proof (induction ms arbitrary: s)
  case (Cons c ms)
  then have "rank_mod c (vrank s) \<noteq> None" by (auto simp: is_mod_def split: if_splits)
  then obtain r where r: "rank_mod c (vrank s) = Some r" by auto
  moreover have "c \<noteq> 0" using r by auto
  ultimately show ?case using Cons by (simp add: vs_step_def del: rank_mod.simps)
qed simp

lemma width_end:
  "c \<noteq> 0 \<Longrightarrow> \<not> is_digit c \<Longrightarrow> c \<noteq> 0x2a \<Longrightarrow> c \<noteq> 0x2e \<Longrightarrow> vs_loop n (c # p) st_width s = vs_loop n (c # p) st_modifiers s"
  by (subst vs_loop.simps(2)) (simp add: vs_step_def del: vs_loop.simps)

lemma prec_end:
  "c \<noteq> 0 \<Longrightarrow> \<not> is_digit c \<Longrightarrow> c \<noteq> 0x2a \<Longrightarrow> vs_loop n (c # p) st_prec s = vs_loop n (c # p) st_modifiers s"
  by (subst vs_loop.simps(2)) (simp add: vs_step_def del: vs_loop.simps)

text \<open>The first character behind flags, width or precision.\<close>

definition conv_start :: "u8 \<Rightarrow> bool" where
  "conv_start c \<longleftrightarrow> c \<noteq> 0 \<and> \<not> is_flag c \<and> \<not> is_digit c \<and> c \<noteq> 0x2a \<and> c \<noteq> 0x2e"

lemma mods_start:
  assumes "list_all is_mod ms" "conv_start c"
  obtains x y where "ms @ c # r = x # y" "conv_start x"
proof (cases ms)
  case Nil
  then show thesis using that assms by simp
next
  case (Cons m ms')
  then have "is_mod m" using assms by simp
  then have "conv_start m" by (auto simp: is_mod_def conv_start_def is_flag_def is_digit_def split: if_splits)
  then show thesis using that [of m "ms' @ c # r"] Cons by simp
qed

lemma prec_stage:
  assumes "wf_prec p" "the_prec p (vap s) = Some (prec, args)" "vprec s = -1" "u = x # y" "conv_start x"
  shows "vs_loop n (show_prec p @ u) st_width s = vs_loop n u st_modifiers (s\<lparr>vprec := prec, vap := args\<rparr>)"
proof (cases p)
  case NoPrec
  then have "s\<lparr>vprec := prec, vap := args\<rparr> = s" using assms(2,3) by simp
  then show ?thesis using NoPrec assms(4,5) width_end [of x n y s] by (simp add: conv_start_def)
next
  case (PDigits ds)
  let ?s = "s\<lparr>vprec := 0\<rparr>"
  have "vs_loop n (0x2e # ds @ u) st_width s = vs_loop n (ds @ u) st_prec ?s"
    by (simp add: vs_step_def is_digit_def)
  also have "\<dots> = vs_loop n u st_prec (?s\<lparr>vprec := dec_val ds\<rparr>)"
    using prec_digits [of ds ?s n u] assms(1) PDigits by (simp add: dec_val_def)
  also have "\<dots> = vs_loop n u st_modifiers (?s\<lparr>vprec := dec_val ds\<rparr>)"
    using assms(4,5) by (simp add: prec_end conv_start_def del: vs_loop.simps)
  also have "?s\<lparr>vprec := dec_val ds\<rparr> = s\<lparr>vprec := prec, vap := args\<rparr>" using PDigits assms(2) by (cases s) simp
  finally show ?thesis using PDigits by (simp only: show_prec.simps append_Cons)
next
  case PStar
  then obtain v where v: "vap s = AInt v # args" "sint v < 2 ^ 29" "prec = max (-1) (sint v)"
    using assms(2) by (auto split: list.splits varg.splits if_splits)
  have m: "(if sint v < 0 then -1 else sint v) = prec" using v(3) by auto
  have "vs_loop n (0x2e # 0x2a # u) st_width s = vs_loop n u st_prec (s\<lparr>vprec := prec, vap := args\<rparr>)"
    using v(1) m by (simp add: vs_step_def is_digit_def)
  also have "\<dots> = vs_loop n u st_modifiers (s\<lparr>vprec := prec, vap := args\<rparr>)"
    using assms(4,5) by (simp add: prec_end conv_start_def del: vs_loop.simps)
  finally show ?thesis using PStar by simp
qed

lemma width_stage:
  assumes "wf_width w" "the_width w (vap s) = Some (width, left, args)" "vwidth s = 0"
  shows "vs_loop n (show_width w @ u) st_width s =
    vs_loop n u st_width (s\<lparr>vwidth := width, vflags := vflags s OR (if left then FL_MINUS else 0), vap := args\<rparr>)"
proof (cases w)
  case NoWidth
  then have "s\<lparr>vwidth := width, vflags := vflags s OR (if left then FL_MINUS else 0), vap := args\<rparr> = s" using assms(2,3) by simp
  then show ?thesis using NoWidth by simp
next
  case (WDigits ds)
  have "s\<lparr>vwidth := dec_val ds\<rparr> = s\<lparr>vwidth := width, vflags := vflags s OR (if left then FL_MINUS else 0), vap := args\<rparr>"
    using WDigits assms(2) by (cases s) simp
  moreover have "vs_loop n (ds @ u) st_width s = vs_loop n u st_width (s\<lparr>vwidth := dec_val ds\<rparr>)"
    using width_digits [of ds s n u] assms WDigits by (simp add: dec_val_def)
  ultimately show ?thesis using WDigits by simp
next
  case WStar
  then obtain v where v: "vap s = AInt v # args" "\<bar>sint v\<bar> < 536870912" "width = \<bar>sint v\<bar>" "left = (sint v < 0)"
    using assms(2) by (auto split: list.splits varg.splits if_splits)
  then have "- sint v < 536870912" by linarith
  then have "sint v < 0 \<longrightarrow> c_int (- sint v) = Some (- sint v)" by (auto intro: c_int_in)
  then show ?thesis using WStar v by (auto simp: vs_step_def is_digit_def Let_def)
qed

lemma flags_stage:
  assumes "list_all is_flag fs" "u = x # y" "x \<noteq> 0" "\<not> is_flag x"
  shows "vs_loop n (0x25 # fs @ u) st_normal s =
    vs_loop n u st_width (s\<lparr>vflags := flags_word fs, vrank := rank_int, vwidth := 0, vprec := -1\<rparr>)"
proof -
  let ?s = "s\<lparr>vflags := 0, vrank := rank_int, vwidth := 0, vprec := -1\<rparr>"
  have "vs_loop n (0x25 # fs @ u) st_normal s = vs_loop n (fs @ u) st_flags ?s" by (simp add: vs_step_def)
  also have "\<dots> = vs_loop n u st_flags (?s\<lparr>vflags := flags_word fs\<rparr>)"
    using flags_loop [OF assms(1), of n u ?s] by (simp add: flags_word_def)
  also have "\<dots> = vs_loop n u st_width (?s\<lparr>vflags := flags_word fs\<rparr>)" using flags_end assms(2-4) by simp
  also have "?s\<lparr>vflags := flags_word fs\<rparr> = s\<lparr>vflags := flags_word fs, vrank := rank_int, vwidth := 0, vprec := -1\<rparr>" by (cases s) simp
  finally show ?thesis .
qed

lemma conv_prefix:
  assumes wf: "wf_directive (Conv fs w p ms c)"
    and w: "the_width w (vap s) = Some (width, left, args1)" and p: "the_prec p args1 = Some (prec, args2)"
  shows "vs_loop n (show_directive (Conv fs w p ms c) @ r) st_normal s = vs_loop n (c # r) st_modifiers
    (s\<lparr>vflags := flags_word fs OR (if left then FL_MINUS else 0), vrank := foldl (\<lambda>r c. the (rank_mod c r)) 0 ms,
       vwidth := width, vprec := prec, vap := args2\<rparr>)"
proof -
  have c: "conv_start c" using wf by (simp add: conv_start_def)
  obtain x y where xy: "ms @ c # r = x # y" "conv_start x" using mods_start [OF _ c, of ms r] wf by auto
  obtain x' y' where xy': "show_width w @ show_prec p @ ms @ c # r = x' # y'" "x' \<noteq> 0" "\<not> is_flag x'"
  proof (cases w)
    case NoWidth
    have dot: "\<not> is_flag 0x2e" by (simp add: is_flag_def)
    show thesis
    proof (cases p)
      case NoPrec
      then show thesis using that [of x y] NoWidth xy by (simp add: conv_start_def)
    qed (use that NoWidth dot in auto)
  next
    case (WDigits ds)
    then obtain d ds' where ds: "ds = d # ds'" using wf by (cases ds) auto
    then have "is_digit d" "d \<noteq> 0x30" using wf WDigits by auto
    then have "\<not> is_flag d" by (auto simp: is_digit_def is_flag_def split: if_splits)
    then show thesis using that WDigits ds \<open>is_digit d\<close> digit_nonzero by auto
  next
    case WStar
    have "\<not> is_flag 0x2a" by (simp add: is_flag_def)
    then show thesis using that WStar by auto
  qed
  let ?s0 = "s\<lparr>vflags := flags_word fs, vrank := rank_int, vwidth := 0, vprec := -1\<rparr>"
  let ?s1 = "?s0\<lparr>vwidth := width, vflags := vflags ?s0 OR (if left then FL_MINUS else 0), vap := args1\<rparr>"
  have "vs_loop n (show_directive (Conv fs w p ms c) @ r) st_normal s =
      vs_loop n (show_width w @ show_prec p @ ms @ c # r) st_width ?s0"
    using flags_stage [OF _ xy'] wf by (simp del: vs_loop.simps)
  also have "\<dots> = vs_loop n (show_prec p @ ms @ c # r) st_width ?s1"
    by (rule width_stage) (use wf w in simp_all)
  also have "\<dots> = vs_loop n (ms @ c # r) st_modifiers (?s1\<lparr>vprec := prec, vap := args2\<rparr>)"
    by (rule prec_stage [OF _ _ _ xy]) (use wf p in simp_all)
  also have "\<dots> = vs_loop n (c # r) st_modifiers (?s1\<lparr>vprec := prec, vap := args2, vrank := foldl (\<lambda>r c. the (rank_mod c r)) 0 ms\<rparr>)"
    using mods_loop [of ms n "c # r"] wf by (simp add: rank_int_def del: vs_loop.simps)
  also have "?s1\<lparr>vprec := prec, vap := args2, vrank := foldl (\<lambda>r c. the (rank_mod c r)) 0 ms\<rparr> =
     s\<lparr>vflags := flags_word fs OR (if left then FL_MINUS else 0), vrank := foldl (\<lambda>r c. the (rank_mod c r)) 0 ms,
       vwidth := width, vprec := prec, vap := args2\<rparr>" by (cases s) simp
  finally show ?thesis .
qed


lemma text_out_compose:
  assumes "length xs < n" "n \<le> length b"
  shows "text_out (text_out b 0 n xs) (length xs) (n - length xs) ys = text_out b 0 n (xs @ ys)"
proof -
  have "text_out b 0 n xs = xs @ drop (length xs) b" using assms by (simp add: text_out_def min_absorb2)
  moreover have "length xs + min (n - length xs) (length ys) = min n (length xs + length ys)" using assms by auto
  ultimately show ?thesis using assms by (simp add: text_out_def add.commute)
qed

lemma text_out_zero [simp]: "text_out b q 0 xs = b"
  by (simp add: text_out_def)

lemma is_integer_ok:
  assumes "vrep b n xs s" "n \<le> length b" "base = 8 \<or> base = 10 \<or> base = 16" "vwidth s < 2 ^ 30" "vprec s < 2 ^ 29"
    "length xs + length (int_text val (vflags s) base (vwidth s) (vprec s)) < 2 ^ 32"
  obtains s' where "is_integer n val base s = Some s'" "vrep b n (xs @ int_text val (vflags s) base (vwidth s) (vprec s)) s'"
    "vap s' = vap s" "vstores s' = vstores s"
proof -
  let ?n = "if oo s < n then n - oo s else 0" and ?t = "int_text val (vflags s) base (vwidth s) (vprec s)"
  have r: "obuf s = text_out b 0 n xs" "oo s = length xs" "length xs < n \<longrightarrow> oq s = length xs"
    using assms(1) by (simp_all add: vrep_def rep_def out_of_def)
  have room0: "room b 0 n" using assms(2) by (simp add: room_def)
  have "room (obuf s) (oq s) ?n" using r assms(2) text_out_length [OF room0, of xs] by (auto simp: room_def)
  from format_int_ok(1) [OF this assms(3-5)]
  have f: "format_int (obuf s) (oq s) ?n val (vflags s) base (vwidth s) (vprec s) =
    Some (text_out (obuf s) (oq s) ?n ?t, length ?t)" .
  moreover have "text_out (obuf s) (oq s) ?n ?t = text_out b 0 n (xs @ ?t)"
  proof (cases "length xs < n")
    case True
    then show ?thesis using r text_out_compose [OF True assms(2)] by simp
  next
    case False
    then show ?thesis using r by (simp add: text_out_snoc_full)
  qed
  ultimately show thesis
    using that r assms(6) by (simp add: is_integer_def vrep_def rep_def out_of_def)
qed

lemma is_string_ok:
  assumes "vrep b n xs s" "n \<le> length b" "-1 \<le> vprec s" "str = take (nat slen) sarg" "0 \<le> slen" "nat slen \<le> length sarg"
    "length xs + length (str_text str (vflags s) (vwidth s) (vprec s)) < 2 ^ 32"
  obtains s' where "is_string n sarg slen s = Some s'" "vrep b n (xs @ str_text str (vflags s) (vwidth s) (vprec s)) s'"
    "vap s' = vap s" "vstores s' = vstores s"
proof -
  have room: "room b 0 n" using assms(2) by (simp add: room_def)
  define sl where "sl = (if vprec s \<noteq> -1 \<and> slen > vprec s then vprec s else slen)"
  define body where "body = take (nat sl) sarg"
  define M where "M = (vflags s AND FL_MINUS \<noteq> 0)"
  let ?k = "nat (vwidth s - sl)"
  let ?c = "if vflags s AND FL_ZERO \<noteq> 0 then 0x30 else 0x20 :: u8"
  have sl: "0 \<le> sl" "nat sl \<le> length sarg" "sl \<le> slen" using assms(3,5,6) by (auto simp: sl_def)
  have bl: "int (length body) = sl" using sl by (simp add: body_def)
  have body: "body = (if vprec s < 0 then str else take (nat (vprec s)) str)"
  proof (cases "0 \<le> vprec s \<and> vprec s < slen")
    case True
    then show ?thesis using assms(4) by (simp add: body_def sl_def min_absorb1)
  next
    case False
    then have "0 \<le> vprec s \<Longrightarrow> nat slen \<le> nat (vprec s)" by auto
    then show ?thesis using False assms(3,4) by (auto simp: body_def sl_def min_absorb2)
  qed
  have st: "str_text str (vflags s) (vwidth s) (vprec s) =
      (if M then body @ replicate ?k 0x20 else replicate ?k ?c @ body)"
    by (simp add: str_text_def M_def Let_def bl flip: body)
  have lim: "length xs + ?k + length body < 2 ^ 32" using assms(7) by (simp add: st split: if_splits)
  have r0: "rep b 0 n xs (out_of s)" using assms(1) by (simp add: vrep_def)
  have "length xs + nat (vwidth s - sl) < 2 ^ 32" using lim by simp
  from pad_if [OF room r0 this, of "vwidth s > sl" "\<not> M" ?c] obtain t1 where
    t1: "(if \<not> M \<and> vwidth s > sl then pad_loop n ?c sl (vwidth s) (out_of s) else Some (out_of s, vwidth s)) =
       Some (t1, if \<not> M then min (vwidth s) sl else vwidth s)"
    "rep b 0 n (xs @ (if \<not> M then replicate ?k ?c else [])) t1" by auto
  have "length (xs @ (if \<not> M then replicate ?k ?c else [])) + nat sl < 2 ^ 32" using lim bl by auto
  from emit_bytes_rep [OF room t1(2) this sl(2)] obtain t2 where
    t2: "emit_bytes n (nat sl) sarg t1 = Some t2" "rep b 0 n ((xs @ (if \<not> M then replicate ?k ?c else [])) @ body) t2"
    by (auto simp: body_def)
  let ?w = "if \<not> M then min (vwidth s) sl else vwidth s"
  have "length ((xs @ (if \<not> M then replicate ?k ?c else [])) @ body) + nat (?w - sl) < 2 ^ 32" using lim by auto
  from pad_if [OF room t2(2) this, of "?w > sl" M 32] obtain t3 w3 where
    t3: "(if M \<and> ?w > sl then pad_loop n 0x20 sl ?w t2 else Some (t2, ?w)) = Some (t3, w3)"
    "rep b 0 n (((xs @ (if \<not> M then replicate ?k ?c else [])) @ body) @ (if M then replicate (nat (?w - sl)) 0x20 else [])) t3"
    by auto
  have "is_string n sarg slen s = Some (with_out s t3\<lparr>vwidth := w3\<rparr>)"
  proof -
    have m: "(vwidth s > sl \<and> vflags s AND FL_MINUS = 0) = (\<not> M \<and> vwidth s > sl)"
      "(w > sl \<and> vflags s AND FL_MINUS \<noteq> 0) = (M \<and> w > sl)" for w by (auto simp: M_def)
    show ?thesis
      unfolding is_string_def Let_def sl_def [symmetric] m
      by (simp only: t1(1) t2(1) t3(1) bind.bind_lunit prod.case)
  qed
  moreover have "vrep b n (xs @ str_text str (vflags s) (vwidth s) (vprec s)) (with_out s t3\<lparr>vwidth := w3\<rparr>)"
  proof -
    have e: "((xs @ (if \<not> M then replicate ?k ?c else [])) @ body) @ (if M then replicate (nat (?w - sl)) 0x20 else []) =
      xs @ str_text str (vflags s) (vwidth s) (vprec s)" unfolding st by (cases M) simp_all
    show ?thesis using t3(2) unfolding e by (simp add: vrep_def out_of_def with_out_def rep_def)
  qed
  ultimately show thesis using that by (simp add: with_out_def)
qed

lemma emit_char_ok:
  assumes "vrep b n xs s" "n \<le> length b" "length xs + 1 < 2 ^ 32"
  obtains s' where "emit_char n c s = Some s'" "vrep b n (xs @ [c]) s'" "vap s' = vap s" "vstores s' = vstores s"
proof -
  have "room b 0 n" using assms(2) by (simp add: room_def)
  from emit_rep [OF this _ assms(3), of "out_of s" c] assms(1) obtain t where
    "emit n c (out_of s) = Some t" "rep b 0 n (xs @ [c]) t" by (auto simp: vrep_def)
  then show thesis using that by (simp add: emit_char_def vrep_def out_of_def with_out_def rep_def)
qed

lemma int_conv:
  assumes "vrep b n xs s" "n \<le> length b" "vwidth s < 2 ^ 29" "p < 2 ^ 29" "base = 8 \<or> base = 10 \<or> base = 16"
    and x: "x = int_text v f base (vwidth s) p" and len: "length xs + length x < 2 ^ 32"
    and t: "t = s\<lparr>vflags := f, vprec := p, vap := args\<rparr>"
  shows "\<exists>s'. is_integer n v base t = Some s' \<and> vrep b n (xs @ x) s' \<and> vap s' = args \<and> vstores s' = vstores s"
proof -
  have w: "vwidth s < 2 ^ 30" using assms(3) by simp
  show ?thesis
    by (rule is_integer_ok [of b n xs t base v]) (use assms(1,2,4,5) x len w in \<open>auto simp: t\<close>)
qed

lemma str_conv:
  assumes "vrep b n xs s" "n \<le> length b" "-1 \<le> vprec s"
    and "str = take (nat slen) sarg" "0 \<le> slen" "nat slen \<le> length sarg"
    and x: "x = str_text str (vflags s) (vwidth s) (vprec s)" and len: "length xs + length x < 2 ^ 32"
  shows "\<exists>s'. is_string n sarg slen (s\<lparr>vap := args\<rparr>) = Some s' \<and> vrep b n (xs @ x) s' \<and> vap s' = args \<and> vstores s' = vstores s"
  by (rule is_string_ok [of b n xs "s\<lparr>vap := args\<rparr>" str slen sarg]) (use assms in auto)

lemma or_hash: "(if c then f OR FL_UPPER else f) OR FL_HASH = f OR FL_HASH OR (if c then FL_UPPER else 0)"
  by (simp add: or.assoc or.commute or.left_commute)

lemma convert_ok:
  assumes R: "vrep b n xs s" "n \<le> length b" "vwidth s < 2 ^ 29" and p: "-1 \<le> vprec s" "vprec s < 2 ^ 29"
    and c: "conv_text (length xs) (vflags s) (vwidth s) (vprec s) (vrank s) c (vap s) = Some (x, args, st)"
    and len: "length xs + length x < 2 ^ 32"
  shows "\<exists>s'. convert n c s = Some s' \<and> vrep b n (xs @ x) s' \<and> vap s' = args \<and> vstores s' = vstores s @ st"
proof -
  consider "c \<in> {0x50, 0x70}" | "c \<in> {0x64, 0x69}" | "c \<in> {0x6f, 0x75, 0x58, 0x78}" | "c = 0x63" | "c = 0x73" | "c = 0x6e"
    | "c \<notin> {0x50, 0x70, 0x64, 0x69, 0x6f, 0x75, 0x58, 0x78, 0x63, 0x73, 0x6e}" by blast
  then show ?thesis
  proof cases
    case 1
    then obtain v where v: "va_ptr (vap s) = Some (v, args)" "st = []"
      "x = int_text (ucast v) (vflags s OR FL_HASH OR (if c = 0x50 then FL_UPPER else 0)) 16 (vwidth s) 8"
      using c by (auto simp: conv_text_def bind_eq_Some_conv)
    have "convert n c s = is_integer n (ucast v) 16 (s\<lparr>vflags := (if c = 0x50 then vflags s OR FL_UPPER else vflags s) OR FL_HASH, vprec := 8, vap := args\<rparr>)"
      using 1 v(1) by (auto simp: convert_def)
    with int_conv [OF R, of 8 16 x "ucast v" "(if c = 0x50 then vflags s OR FL_UPPER else vflags s) OR FL_HASH"] v(2,3) len or_hash [of "c = 0x50" "vflags s"]
    show ?thesis by auto
  next
    case 2
    then obtain v where v: "signed_arg (vrank s) (vap s) = Some (v, args)" "st = []"
      "x = int_text v (vflags s OR FL_SIGNED) 10 (vwidth s) (vprec s)"
      using c by (auto simp: conv_text_def bind_eq_Some_conv)
    have "convert n c s = is_integer n v 10 (s\<lparr>vflags := vflags s OR FL_SIGNED, vprec := vprec s, vap := args\<rparr>)"
      using 2 v(1) by (auto simp: convert_def)
    with int_conv [OF R p(2), of 10 x v "vflags s OR FL_SIGNED"] v(2,3) len show ?thesis by auto
  next
    case 3
    let ?f = "if c = 0x58 then vflags s OR FL_UPPER else vflags s" and ?b = "if c = 0x6f then 8 else if c = 0x75 then 10 else 16 :: nat"
    from 3 obtain v where v: "unsigned_arg (vrank s) (vap s) = Some (v, args)" "st = []" "x = int_text v ?f ?b (vwidth s) (vprec s)"
      using c by (auto simp: conv_text_def bind_eq_Some_conv)
    have "convert n c s = is_integer n v ?b (s\<lparr>vflags := ?f, vprec := vprec s, vap := args\<rparr>)"
      using 3 v(1) by (auto simp: convert_def)
    with int_conv [OF R p(2), of ?b x v ?f] v(2,3) len show ?thesis by auto
  next
    case 4
    then obtain v where v: "va_int (vap s) = Some (v, args)" "st = []" "x = str_text [ucast v] (vflags s) (vwidth s) (vprec s)"
      using c by (auto simp: conv_text_def bind_eq_Some_conv)
    have "convert n c s = is_string n [ucast v] 1 (s\<lparr>vap := args\<rparr>)" using 4 v(1) by (simp add: convert_def)
    with str_conv [OF R(1,2) p(1), of "[ucast v]" 1 "[ucast v]" x args] v(2,3) len show ?thesis by simp
  next
    case 5
    then obtain v where v: "va_str (vap s) = Some (v, args)" "st = []" "\<forall>s. v = Some s \<longrightarrow> is_cstr s"
      "length (case v of None \<Rightarrow> butlast null_text | Some s \<Rightarrow> cstr s) < 2 ^ 31"
      "x = str_text (case v of None \<Rightarrow> butlast null_text | Some s \<Rightarrow> cstr s) (vflags s) (vwidth s) (vprec s)"
      using c by (auto simp: conv_text_def bind_eq_Some_conv Let_def split: if_splits)
    define sarg where "sarg = (case v of None \<Rightarrow> null_text | Some s \<Rightarrow> s)"
    define str where "str = (case v of None \<Rightarrow> butlast null_text | Some s \<Rightarrow> cstr s)"
    have sc: "is_cstr sarg" "str = cstr sarg" using v(3) by (cases v; simp add: sarg_def str_def null_text_def is_cstr_def cstr_def)+
    have l: "strlen sarg = Some (length str)" using sc by (simp add: strlen_cstr)
    have l2: "str = take (length str) sarg" unfolding sc(2) cstr_def by (rule takeWhile_eq_take)
    have l3: "length str \<le> length sarg" unfolding sc(2) cstr_def by (rule length_takeWhile_le)
    have "c_int (int (length str)) = Some (int (length str))" using v(4) by (intro c_int_in) (simp_all add: str_def)
    then have "convert n c s = is_string n sarg (int (length str)) (s\<lparr>vap := args\<rparr>)"
      using 5 v(1) l by (simp add: convert_def sarg_def [symmetric] Let_def)
    moreover have "x = str_text str (vflags s) (vwidth s) (vprec s)" using v(5) by (simp only: str_def)
    ultimately show ?thesis
      using str_conv [OF R(1,2) p(1), of str "int (length str)" sarg x args] v(2) len l2 l3 by auto
  next
    case 6
    then obtain r where v: "va_ref (vap s) = Some (r, args)" "st = [(r, vrank s, length xs)]" "x = []"
      using c by (auto simp: conv_text_def bind_eq_Some_conv)
    have "oo s = length xs" using R(1) by (simp add: vrep_def rep_def out_of_def)
    then have "convert n c s = Some (s\<lparr>vap := args, vstores := vstores s @ st\<rparr>)" using 6 v(1,2) by (simp add: convert_def)
    then show ?thesis using R(1) v(3) by simp
  next
    case 7
    then have v: "x = [c]" "st = []" "args = vap s" using c by (auto simp: conv_text_def)
    have "convert n c s = emit_char n c s" using 7 by (simp add: convert_def)
    moreover have "length xs + 1 < 2 ^ 32" using len v(1) by simp
    ultimately show ?thesis using emit_char_ok [OF R(1,2), of c] v by (metis append_Nil2)
  qed
qed


lemma the_width_range: "wf_width w \<Longrightarrow> the_width w a = Some (x, l, a') \<Longrightarrow> x < 2 ^ 29"
  by (cases w) (auto split: list.splits varg.splits if_splits)

lemma the_prec_range: "wf_prec p \<Longrightarrow> the_prec p a = Some (x, a') \<Longrightarrow> -1 \<le> x \<and> x < 2 ^ 29"
  using dec_val_nonneg by (cases p) (force split: list.splits varg.splits if_splits)+

lemma directive_ok:
  assumes "wf_directive d" "vrep b n xs s" "n \<le> length b" "directive_text (length xs) d (vap s) = Some (x, args, st)"
    "length xs + length x < 2 ^ 32"
  shows "\<exists>s'. vs_loop n (show_directive d @ r) st_normal s = vs_loop n r st_normal s' \<and> vrep b n (xs @ x) s' \<and>
    vap s' = args \<and> vstores s' = vstores s @ st"
proof (cases d)
  case (Lit c)
  then have "c \<noteq> 0" "c \<noteq> 0x25" "x = [c]" "args = vap s" "st = []" "length xs + 1 < 2 ^ 32" using assms by auto
  moreover from this(6) obtain s' where "emit_char n c s = Some s'" "vrep b n (xs @ [c]) s'" "vap s' = vap s" "vstores s' = vstores s"
    by (rule emit_char_ok [OF assms(2,3)])
  ultimately show ?thesis using Lit by (auto simp: vs_step_def)
next
  case (Conv fs w p ms c)
  from assms(4) Conv obtain width left args1 prec args2 where W: "the_width w (vap s) = Some (width, left, args1)"
    and P: "the_prec p args1 = Some (prec, args2)"
    and C: "conv_text (length xs) (flags_word fs OR (if left then FL_MINUS else 0)) width prec (mods_rank ms) c args2 = Some (x, args, st)"
    by (auto simp: bind_eq_Some_conv)
  let ?rank = "foldl (\<lambda>r c. the (rank_mod c r)) 0 ms"
  let ?s = "s\<lparr>vflags := flags_word fs OR (if left then FL_MINUS else 0), vrank := ?rank, vwidth := width, vprec := prec, vap := args2\<rparr>"
  let ?t = "?s\<lparr>vrank := clamp_rank ?rank\<rparr>"
  have wf: "wf_width w" "wf_prec p" "\<not> is_mod c" "c \<noteq> 0" using assms(1) Conv by auto
  have "\<exists>s'. convert n c ?t = Some s' \<and> vrep b n (xs @ x) s' \<and> vap s' = args \<and> vstores s' = vstores ?t @ st"
    by (rule convert_ok)
      (use assms(2,3,5) C the_width_range [OF wf(1) W] the_prec_range [OF wf(2) P] in \<open>simp_all add: mods_rank_def\<close>)
  then obtain s' where s': "convert n c ?t = Some s'" "vrep b n (xs @ x) s'" "vap s' = args" "vstores s' = vstores s @ st" by auto
  have "rank_mod c ?rank = None" using wf(3) by (auto simp: is_mod_def split: if_splits)
  then have "vs_loop n (c # r) st_modifiers ?s = vs_loop n r st_normal s'"
    using s'(1) wf(4) by (simp add: vs_step_def del: rank_mod.simps)
  moreover have "vs_loop n (show_directive d @ r) st_normal s = vs_loop n (c # r) st_modifiers ?s"
    unfolding Conv by (rule conv_prefix [OF _ W P]) (use assms(1) Conv in simp)
  ultimately show ?thesis using s' by auto
qed

lemma render_ok:
  assumes "list_all wf_directive ds" "vrep b n xs s" "n \<le> length b" "render (length xs) ds (vap s) = Some (out, st)"
    "length xs + length out < 2 ^ 32"
  shows "\<exists>s'. vs_loop n (concat (map show_directive ds) @ r) st_normal s = vs_loop n r st_normal s' \<and> vrep b n (xs @ out) s' \<and>
    vstores s' = vstores s @ st"
  using assms
proof (induction ds arbitrary: xs s out st)
  case (Cons d ds)
  from Cons.prems(4) obtain x args st1 y st2 where d: "directive_text (length xs) d (vap s) = Some (x, args, st1)"
    "render (length xs + length x) ds args = Some (y, st2)" "out = x @ y" "st = st1 @ st2" by (auto simp: bind_eq_Some_conv)
  have "wf_directive d" "length xs + length x < 2 ^ 32" using Cons.prems(1,5) d(3) by simp_all
  from directive_ok [OF this(1) Cons.prems(2,3) d(1) this(2), of "concat (map show_directive ds) @ r"]
  obtain s1 where s1: "vs_loop n (show_directive d @ concat (map show_directive ds) @ r) st_normal s =
      vs_loop n (concat (map show_directive ds) @ r) st_normal s1" "vrep b n (xs @ x) s1" "vap s1 = args" "vstores s1 = vstores s @ st1"
    by blast
  from Cons.IH [OF _ s1(2) Cons.prems(3), of y st2] Cons.prems(1,5) d s1(3)
  obtain s2 where "vs_loop n (concat (map show_directive ds) @ r) st_normal s1 = vs_loop n r st_normal s2"
    "vrep b n ((xs @ x) @ y) s2" "vstores s2 = vstores s1 @ st2" by auto
  then show ?case using s1 d(3,4) by auto
qed auto

section \<open>Properties\<close>

text \<open>C5.  \<open>vsnprintf\<close> implements the reference: for every well-formed format with matching arguments it puts out exactly the text
  of the directives, cut to \<open>n - 1\<close> bytes and terminated, touches nothing else of the buffer, makes the \<open>%n\<close> stores of
  the reference, and returns the length of the whole text, whatever \<open>n\<close> is.\<close>

theorem vsnprintf_refines_reference:
  assumes "list_all wf_directive ds" "render 0 ds args = Some (out, st)" "length out < 2 ^ 32" "n \<le> length buf"
  shows "vsnprintf buf n (concat (map show_directive ds) @ 0 # r) args =
    Some (if n = 0 then buf else take (n - 1) out @ 0 # drop (Suc (min (length out) (n - 1))) buf, st, length out)"
proof -
  let ?s0 = "\<lparr>obuf = buf, oq = 0, oo = 0, vflags = 0, vrank = rank_int, vwidth = 0, vprec = -1, vap = args, vstores = []\<rparr>"
  have "vrep buf n [] ?s0" by (simp add: vrep_def rep_def out_of_def text_out_def)
  from render_ok [OF assms(1) this assms(4), of out st "0 # r"] assms(2,3)
  obtain s where l: "vs_loop n (concat (map show_directive ds) @ 0 # r) st_normal ?s0 = vs_loop n (0 # r) st_normal s"
    and v: "vrep buf n out s" "vstores s = st" by auto
  have r: "obuf s = text_out buf 0 n out" "oo s = length out" "length out < n \<longrightarrow> oq s = length out"
    using v(1) by (simp_all add: vrep_def rep_def out_of_def)
  have room: "room buf 0 n" using assms(4) by (simp add: room_def)
  have b: "(if oo s < n then wr (obuf s) (oq s) 0 else if n > 0 then wr (obuf s) (n - 1) 0 else Some (obuf s)) =
    Some (if n = 0 then buf else take (n - 1) out @ 0 # drop (Suc (min (length out) (n - 1))) buf)"
  proof (cases "length out < n")
    case True
    then have "wr (obuf s) (oq s) 0 = Some (text_out buf 0 n (out @ [0]))"
      using r assms(4) text_out_snoc [OF room True, of 0] text_out_length [OF room, of out] by (simp add: wr_def)
    moreover have "min (length out) (n - 1) = length out" "min n (Suc (length out)) = Suc (length out)" "take (n - 1) out = out"
      using True by auto
    ultimately show ?thesis using True r by (simp add: text_out_def)
  next
    case False
    show ?thesis
    proof (cases "n = 0")
      case True
      then show ?thesis using r by simp
    next
      case n: False
      have "take n out = take (n - 1) out @ [out ! (n - 1)]" using False n by (simp add: take_Suc_conv_app_nth [symmetric])
      then have "obuf s = take (n - 1) out @ out ! (n - 1) # drop n buf" using r(1) False by (simp add: text_out_def min_def)
      moreover have "length (take (n - 1) out) = n - 1" using False by simp
      ultimately have "wr (obuf s) (n - 1) 0 = Some (take (n - 1) out @ 0 # drop n buf)"
        by (simp add: wr_def list_update_append)
      then show ?thesis using False n r(2) by (simp add: min_def)
    qed
  qed
  have "vs_loop n (0 # r) st_normal s = Some s" by simp
  then show ?thesis unfolding vsnprintf_def l by (simp only: bind.bind_lunit b) (simp add: v(2) r(2))
qed

text \<open>\<open>%-5d|%s\<close> with 42 and a string, into eight bytes.\<close>

theorem vsnprintf_refines_reference_witness:
  "vsnprintf (replicate 8 0xff) 8 (concat (map show_directive [Conv [0x2d] (WDigits [0x35]) NoPrec [] 0x64, Lit 0x7c, Conv [] NoWidth NoPrec [] 0x73]) @ 0 # [])
     [AInt 42, AStr (Some [0x61, 0x62, 0x63, 0])] = Some ([0x34, 0x32, 0x20, 0x20, 0x20, 0x7c, 0x61, 0], [], 9)"
proof -
  let ?ds = "[Conv [0x2d] (WDigits [0x35]) NoPrec [] 0x64, Lit 0x7c, Conv [] NoWidth NoPrec [] 0x73]"
  have n: "num_digits 10 42 = 2" by (simp add: num_digits.simps)
  have s: "sint (42 :: u64) = 42" "scast (42 :: u32) = (42 :: u64)" by simp_all
  have i: "int_text 42 0x42 10 5 (-1) = [0x34, 0x32, 0x20, 0x20, 0x20]"
    by (simp add: int_text_def Let_def n s FL_SIGNED_def FL_HASH_def FL_TICK_def FL_PLUS_def FL_SPACE_def FL_UPPER_def FL_MINUS_def
      digit_text_def lcdigits_def upt_rec numeral_3_eq_3)
  have r: "render 0 ?ds [AInt 42, AStr (Some [0x61, 0x62, 0x63, 0])] = Some ([0x34, 0x32, 0x20, 0x20, 0x20, 0x7c, 0x61, 0x62, 0x63], [])"
    using i s by (simp add: conv_text_def flags_word_def mods_rank_def dec_val_def digit_val_def clamp_rank_def signed_arg_def
      rank_char_def rank_short_def rank_int_def rank_longlong_def FL_MINUS_def FL_SIGNED_def str_text_def is_cstr_def cstr_def)
  have "list_all wf_directive ?ds"
    by (simp add: is_flag_def is_digit_def is_mod_def dec_val_def digit_val_def)
  from vsnprintf_refines_reference [OF this r, of 8 "replicate 8 0xff" "[]"] show ?thesis by simp
qed


lemma digit_val_lcdigits: "x < 10 \<Longrightarrow> digit_val (lcdigits ! x) = int x \<and> lcdigits ! x \<noteq> 0x2d"
proof -
  assume "x < 10"
  then have "x \<in> {0, 1, 2, 3, 4, 5, 6, 7, 8, 9}" by auto
  then show ?thesis by (auto simp: digit_val_def lcdigits_def)
qed

lemma dec_val_gen: "d \<le> b \<Longrightarrow> dec_val (rev (gen ((!) lcdigits) 10 t b d v)) = int (v mod 10 ^ d)"
proof (induction d arbitrary: b v)
  case (Suc d)
  then obtain b' where b: "b = Suc b'" "d \<le> b'" by (cases b) auto
  have "v mod 10 ^ Suc d = 10 * (v div 10 mod 10 ^ d) + v mod 10" by (simp add: mod_mult2_eq)
  then show ?case using Suc.IH [OF b(2), of "v div 10"] digit_val_lcdigits [of "v mod 10"] by (simp add: b(1) dec_val_snoc)
qed (simp add: dec_val_def)

definition parse_int :: "bytes \<Rightarrow> int" where
  "parse_int xs = (case xs of [] \<Rightarrow> 0 | c # r \<Rightarrow> if c = 0x2d then - dec_val r else dec_val xs)"

text \<open>C29.  The decimal text of \<open>format_int\<close> without flags reads back as the signed value, for every 64-bit value,
  the most negative one included.\<close>

theorem format_int_decimal_roundtrip:
  assumes "n = 0 \<or> q + n \<le> length b"
  shows "\<exists>txt. format_int b q n v FL_SIGNED 10 0 (-1) = Some (text_out b q n txt, length txt) \<and> parse_int txt = sint v"
proof -
  define neg where "neg = (sint v < 0)"
  define mag where "mag = (if neg then nat (- sint v) else unat v)"
  define d where "d = max (num_digits 10 mag) (Suc 0)"
  have "0 < d" by (simp add: d_def)
  note dt = digit_text_gen [OF this]
  let ?g = "gen ((!) lcdigits) 10 d d d mag"
  have "int_text v FL_SIGNED 10 0 (-1) = (if neg then [0x2d] else []) @ rev ?g"
    by (simp add: int_text_def Let_def neg_def [symmetric] mag_def [symmetric] d_def [symmetric] dt
      FL_SIGNED_def FL_HASH_def FL_TICK_def FL_PLUS_def FL_SPACE_def FL_UPPER_def FL_MINUS_def FL_ZERO_def)
  moreover have "mag < 10 ^ d"
  proof -
    have "mag < 10 ^ num_digits 10 mag" by (rule num_digits_enough) simp
    also have "\<dots> \<le> 10 ^ d" by (rule power_increasing) (simp_all add: d_def)
    finally show ?thesis .
  qed
  then have val: "dec_val (rev ?g) = int mag" by (simp add: dec_val_gen)
  have "hd (rev ?g) \<noteq> 0x2d \<and> rev ?g \<noteq> []"
  proof -
    have "set (gen ((!) lcdigits) 10 d c k m) \<subseteq> (\<lambda>x. lcdigits ! x) ` {..<10}" if "k \<le> c" for c k m
      using that
    proof (induction k arbitrary: c m)
      case (Suc k)
      then obtain c' where "c = Suc c'" by (cases c) auto
      then show ?case using Suc by auto
    qed simp
    from this [of d d mag] have "\<forall>x\<in>set (rev ?g). x \<noteq> 0x2d" using digit_val_lcdigits by fastforce
    moreover have "rev ?g \<noteq> []" by (cases d) (auto simp: d_def)
    ultimately show ?thesis using hd_in_set by blast
  qed
  then have "parse_int (rev ?g) = int mag" using val by (cases "rev ?g") (auto simp: parse_int_def)
  moreover have "int mag = (if neg then - sint v else sint v)"
  proof (cases neg)
    case False
    then have "0 \<le> sint v" "sint v < 2 ^ 63" using sint_lt [of v] by (simp_all add: neg_def)
    then have "sint v mod 2 ^ 64 = sint v" by simp
    then have "uint v = sint v" by (simp add: uint_sint take_bit_eq_mod)
    then show ?thesis using False by (simp add: mag_def)
  qed (simp add: mag_def neg_def)
  ultimately show ?thesis
    using format_int_ok(1) [of b q n 10 0 "-1" v FL_SIGNED] assms val by (auto simp: room_def parse_int_def)
qed

theorem format_int_decimal_roundtrip_witness:
  "\<exists>txt. format_int (replicate 4 0) 0 4 (- 5) FL_SIGNED 10 0 (-1) = Some (text_out (replicate 4 0) 0 4 txt, length txt) \<and> parse_int txt = -5"
  using format_int_decimal_roundtrip [of 4 0 "replicate 4 0" "- 5"] by simp

end
