(* ===== verification/Pathname.thy ===== *)
theory Pathname
  imports Searchdir Vsnprintf
begin

text \<open>
  Path names: \<open>chdir.c\<close>, \<open>getcwd.c\<close>, \<open>readdir.c\<close>, \<open>lib/mangle.c\<close>, \<open>lib/searchconfig.c\<close>,
  \<open>lib/loadconfig.c\<close> and \<open>newconfig.c\<close>.  An inode is turned back into a path, and the theorems say that this path
  leads to the same inode again.
\<close>

section \<open>From an inode to its path\<close>

fun copy_string :: "bytes \<Rightarrow> u32 \<Rightarrow> u32 \<Rightarrow> bytes \<Rightarrow> (bytes \<times> u32) option" where
  "copy_string buf ix bufsize [] = None"
| "copy_string buf ix bufsize (c # src) =
     (if c \<noteq> 0
      then do { buf \<leftarrow> (if ix + 1 < bufsize then wr buf (unat ix) c else Some buf);
                copy_string buf (ix + 1) bufsize src }
      else do { buf \<leftarrow> (if ix < bufsize then wr buf (unat ix) 0 else Some buf); Some (buf, ix) })"

text \<open>The size is \<open>- 1\<close> when an inode other than the root has no name.\<close>

partial_function (option) generic_inode_to_path :: "'p cells \<Rightarrow> nat \<Rightarrow> bytes \<Rightarrow> u32 \<Rightarrow> (bytes \<times> u32) option" where
  "generic_inode_to_path C a dst bufsize =
     do { i \<leftarrow> C a;
          case parent i of
            None \<Rightarrow> Some (dst, 0)
          | Some p \<Rightarrow>
              (case iname i of
                 None \<Rightarrow> Some (dst, - 1)
               | Some name \<Rightarrow>
                   do { (dst, s) \<leftarrow> generic_inode_to_path C p dst bufsize;
                        if s = - 1 then Some (dst, s)
                        else do { (dst, s) \<leftarrow> copy_string dst s bufsize root_name; copy_string dst s bufsize name } }) }"

definition realpath ::
  "('p, 'w) fs_ops \<Rightarrow> (nat \<Rightarrow> bytes option) \<Rightarrow> (('p, 'w) vfs \<Rightarrow> nat) \<Rightarrow> bytes \<Rightarrow> bytes \<Rightarrow> u32 \<Rightarrow> ('p, 'w) vfs \<Rightarrow>
   (('p, 'w) vfs \<times> bytes \<times> u32) option" where
  "realpath ops alloc inew dst src bufsize st =
     (case op_realpath ops of
        Some rp \<Rightarrow> do { (x, dst, s) \<leftarrow> rp dst src (unat bufsize) (world st); Some (st\<lparr>world := x\<rparr>, dst, s) }
      | None \<Rightarrow>
          do { (st, rv) \<leftarrow> searchdir ops alloc inew src st;
               if rv < 0 then Some (st, dst, - 1)
               else do { k \<leftarrow> handle_to_file (word_of_int rv);
                         f \<leftarrow> the_file st k;
                         a \<leftarrow> finode f;
                         (dst, s) \<leftarrow> generic_inode_to_path (cells st) a dst bufsize;
                         (dst, s) \<leftarrow> (if s = 0 then copy_string dst 0 bufsize root_name else Some (dst, s));
                         st \<leftarrow> close_file_at ops k st;
                         Some (st, dst, s) } })"

definition pm_realpath ::
  "('p, 'w) fs_ops \<Rightarrow> (nat \<Rightarrow> bytes option) \<Rightarrow> (('p, 'w) vfs \<Rightarrow> nat) \<Rightarrow> (u16 \<Rightarrow> u16 \<Rightarrow> bytes) \<Rightarrow> ('p, 'w) vfs \<Rightarrow> com32sys \<Rightarrow>
   (('p, 'w) vfs \<times> bytes \<times> u32) option" where
  "pm_realpath ops alloc inew str st regs =
     realpath ops alloc inew (str (r_es regs) (w0 (r_edi regs))) (str (r_ds regs) (w0 (r_esi regs))) (of_nat FILENAME_MAX) st"

section \<open>The current directory\<close>

text \<open>The local buffer of \<open>chdir\<close> after the path is in it: a slash at the end, a terminator, and into \<open>cwd_name\<close>.\<close>

definition save_cwd_name :: "bytes \<Rightarrow> u32 \<Rightarrow> bytes \<Rightarrow> bytes option" where
  "save_cwd_name cwd_buf s cwd =
     do { slashed \<leftarrow> (if s < 1 then Some False else do { c \<leftarrow> rd cwd_buf (unat (s - 1)); Some (c = 0x2f) });
          (cwd_buf, s) \<leftarrow> (if slashed then Some (cwd_buf, s)
                          else do { cwd_buf \<leftarrow> wr cwd_buf (unat s) 0x2f; Some (cwd_buf, s + 1) });
          let s = (if of_nat CURRENTDIR_MAX \<le> s then of_nat CURRENTDIR_MAX - 1 else s);
          cwd_buf \<leftarrow> wr cwd_buf (unat s) 0;
          let s = s + 1;
          Some (take (unat s) cwd_buf @ drop (unat s) cwd) }"

text \<open>\<open>junk\<close> is the first contents of the local buffer.\<close>

definition chdir ::
  "('p, 'w) fs_ops \<Rightarrow> (nat \<Rightarrow> bytes option) \<Rightarrow> (('p, 'w) vfs \<Rightarrow> nat) \<Rightarrow> bytes \<Rightarrow> bytes \<Rightarrow> ('p, 'w) vfs \<Rightarrow> (('p, 'w) vfs \<times> int) option" where
  "chdir ops alloc inew junk src st =
     (case op_chdir ops of
        Some cd \<Rightarrow> cd src st
      | None \<Rightarrow>
          do { (st, rv) \<leftarrow> searchdir ops alloc inew src st;
               if rv < 0 then Some (st, rv)
               else do { k \<leftarrow> handle_to_file (word_of_int rv);
                         i \<leftarrow> file_inode st k;
                         if imode i \<noteq> ucast (dt_code DT_DIR)
                         then do { st \<leftarrow> close_file_at ops k st; Some (st, -1) }
                         else do { st \<leftarrow> put_inode (cwd_inode st) st;
                                   f \<leftarrow> the_file st k;
                                   st \<leftarrow> get_inode (finode f) st;
                                   let st = st\<lparr>cwd_inode := finode f\<rparr>;
                                   st \<leftarrow> close_file_at ops k st;
                                   a \<leftarrow> cwd_inode st;
                                   (cwd_buf, s) \<leftarrow> generic_inode_to_path (cells st) a junk (of_nat (CURRENTDIR_MAX - 1));
                                   name \<leftarrow> save_cwd_name cwd_buf s (cwd_name st);
                                   Some (st\<lparr>cwd_name := name\<rparr>, 0) } } })"

text \<open>\<open>getcwd.c\<close>; the result is \<open>buf\<close> or NULL.\<close>

definition getcwd :: "('p, 'w) vfs \<Rightarrow> bytes option \<Rightarrow> u32 \<Rightarrow> bytes option option" where
  "getcwd st buf n =
     (case buf of
        None \<Rightarrow> Some None
      | Some b \<Rightarrow> do { l \<leftarrow> strlen (cwd_name st);
                       if of_nat l < n then do { b \<leftarrow> strcpy b (cwd_name st); Some (Some b) } else Some None })"

section \<open>Directories\<close>

text \<open>A \<open>DIR *\<close> is a pointer to an open file: its index in the table, \<open>None\<close> for NULL.\<close>

definition opendir ::
  "('p, 'w) fs_ops \<Rightarrow> (nat \<Rightarrow> bytes option) \<Rightarrow> (('p, 'w) vfs \<Rightarrow> nat) \<Rightarrow> bytes \<Rightarrow> ('p, 'w) vfs \<Rightarrow> (('p, 'w) vfs \<times> nat option) option" where
  "opendir ops alloc inew path st =
     do { (st, rv) \<leftarrow> searchdir ops alloc inew path st;
          if rv < 0 then Some (st, None)
          else do { k \<leftarrow> handle_to_file (word_of_int rv);
                    i \<leftarrow> file_inode st k;
                    if imode i \<noteq> ucast (dt_code DT_DIR)
                    then do { st \<leftarrow> close_file_at ops k st; Some (st, None) }
                    else Some (st, Some k) } }"

text \<open>\<open>buf\<close> is the static entry; it is returned unless the file system returns a negative number.\<close>

definition readdir :: "('p, 'w) fs_ops \<Rightarrow> nat option \<Rightarrow> dirent \<Rightarrow> ('p, 'w) vfs \<Rightarrow> (('p, 'w) vfs \<times> dirent \<times> dirent option) option" where
  "readdir ops dir buf st =
     do { (st, buf, rv) \<leftarrow> (case (dir, op_readdir ops) of
                              (Some k, Some rdd) \<Rightarrow> rdd k st buf
                            | _ \<Rightarrow> Some (st, buf, -1));
          Some (st, buf, if rv < 0 then None else Some buf) }"

definition closedir :: "('p, 'w) fs_ops \<Rightarrow> nat option \<Rightarrow> ('p, 'w) vfs \<Rightarrow> (('p, 'w) vfs \<times> int) option" where
  "closedir ops dir st = do { k \<leftarrow> dir; st \<leftarrow> close_file_at ops k st; Some (st, 0) }"

section \<open>Mangling\<close>

text \<open>
  \<open>lib/mangle.c\<close>.  The first loop drops a slash that is followed by another one; the other two loops are
  those of \<open>vfat_mangle_name\<close>.  There is no check of \<open>i\<close> against the size of the buffer.
\<close>

fun gmangle_copy :: "bytes \<Rightarrow> bytes \<Rightarrow> nat \<Rightarrow> int \<Rightarrow> (bytes \<times> nat \<times> int) option" where
  "gmangle_copy [] buf d i = None"
| "gmangle_copy (c # src) buf d i =
     (if \<not> not_whitespace c then Some (buf, d, i)
      else if c = 0x2f \<and> src = [] then None
      else if c = 0x2f \<and> hd src = 0x2f then gmangle_copy src buf d (i - 1)
      else do { buf \<leftarrow> wr buf d c; gmangle_copy src buf (d + 1) (i - 1) })"

definition generic_mangle_name :: "bytes \<Rightarrow> bytes \<Rightarrow> bytes option" where
  "generic_mangle_name dst src =
     do { (buf, d, i) \<leftarrow> gmangle_copy src dst 0 (int FILENAME_MAX - 1);
          let (d, i) = vmangle_trim buf d i;
          vmangle_pad buf d (nat (i + 1)) }"

section \<open>The configuration file\<close>

text \<open>
  \<open>lib/searchconfig.c\<close>.  \<open>core_open\<close> is the real-mode open of the assembler core: it opens the name in
  \<open>ConfigName\<close> and returns the zero flag.  \<open>config\<close> is \<open>ConfigName\<close>, \<open>junk\<close> the first
  contents of the local buffers.
\<close>

definition config_format :: bytes where
  "config_format = [0x25, 0x73, 0x25, 0x73, 0x25, 0x73, 0]"

definition config_name :: "bytes \<Rightarrow> bytes \<Rightarrow> bytes \<Rightarrow> bytes option" where
  "config_name junk sd sf =
     do { c \<leftarrow> rd sd 0;
          sep \<leftarrow> (if c = 0 then Some root_name
                 else do { l \<leftarrow> strlen sd; e \<leftarrow> rd sd (l - 1); Some (if e = 0x2f then [0] else root_name) });
          (buf, _, _) \<leftarrow> snprintf junk FILENAME_MAX config_format [AStr (Some sd), AStr (Some sep), AStr (Some sf)];
          Some buf }"

fun search_names ::
  "('p, 'w) fs_ops \<Rightarrow> (nat \<Rightarrow> bytes option) \<Rightarrow> (('p, 'w) vfs \<Rightarrow> nat) \<Rightarrow> (bytes \<Rightarrow> ('p, 'w) vfs \<Rightarrow> ('p, 'w) vfs \<times> bool) \<Rightarrow> bytes \<Rightarrow> bytes \<Rightarrow>
   bytes list \<Rightarrow> bytes \<Rightarrow> ('p, 'w) vfs \<Rightarrow> (('p, 'w) vfs \<times> bytes \<times> bool) option" where
  "search_names ops alloc inew core_open junk sd [] config st = Some (st, config, False)"
| "search_names ops alloc inew core_open junk sd (sf # rest) config st =
     do { name \<leftarrow> config_name junk sd sf;
          (st, config, s) \<leftarrow> realpath ops alloc inew config name (of_nat FILENAME_MAX) st;
          if s = - 1 then search_names ops alloc inew core_open junk sd rest config st
          else let (st, zf) = core_open config st in
               if \<not> zf then do { (st, _) \<leftarrow> chdir ops alloc inew junk sd st; Some (st, config, True) }
               else search_names ops alloc inew core_open junk sd rest config st }"

fun search_config ::
  "('p, 'w) fs_ops \<Rightarrow> (nat \<Rightarrow> bytes option) \<Rightarrow> (('p, 'w) vfs \<Rightarrow> nat) \<Rightarrow> (bytes \<Rightarrow> ('p, 'w) vfs \<Rightarrow> ('p, 'w) vfs \<times> bool) \<Rightarrow> bytes \<Rightarrow>
   bytes list \<Rightarrow> bytes list \<Rightarrow> bytes \<Rightarrow> ('p, 'w) vfs \<Rightarrow> (('p, 'w) vfs \<times> bytes \<times> int) option" where
  "search_config ops alloc inew core_open junk [] names config st = Some (st, config, -1)"
| "search_config ops alloc inew core_open junk (sd # dirs) names config st =
     do { (st, config, found) \<leftarrow> search_names ops alloc inew core_open junk sd names config st;
          if found then Some (st, config, 0) else search_config ops alloc inew core_open junk dirs names config st }"

text \<open>\<open>lib/loadconfig.c\<close>: the directories \<open>CurrentDirName\<close>, \<open>/boot/syslinux\<close>, \<open>/syslinux\<close>, \<open>/\<close> and the
  names \<open>extlinux.conf\<close>, \<open>syslinux.cfg\<close>.\<close>

definition config_dirs :: "bytes \<Rightarrow> bytes list" where
  "config_dirs CurrentDirName =
     [CurrentDirName,
      [0x2f, 0x62, 0x6f, 0x6f, 0x74, 0x2f, 0x73, 0x79, 0x73, 0x6c, 0x69, 0x6e, 0x75, 0x78, 0],
      [0x2f, 0x73, 0x79, 0x73, 0x6c, 0x69, 0x6e, 0x75, 0x78, 0],
      root_name]"

definition config_names :: "bytes list" where
  "config_names =
     [[0x65, 0x78, 0x74, 0x6c, 0x69, 0x6e, 0x75, 0x78, 0x2e, 0x63, 0x6f, 0x6e, 0x66, 0],
      [0x73, 0x79, 0x73, 0x6c, 0x69, 0x6e, 0x75, 0x78, 0x2e, 0x63, 0x66, 0x67, 0]]"

definition generic_load_config ::
  "('p, 'w) fs_ops \<Rightarrow> (nat \<Rightarrow> bytes option) \<Rightarrow> (('p, 'w) vfs \<Rightarrow> nat) \<Rightarrow> (bytes \<Rightarrow> ('p, 'w) vfs \<Rightarrow> ('p, 'w) vfs \<times> bool) \<Rightarrow> bytes \<Rightarrow>
   bytes \<Rightarrow> bytes \<Rightarrow> ('p, 'w) vfs \<Rightarrow> (('p, 'w) vfs \<times> bytes \<times> int) option" where
  "generic_load_config ops alloc inew core_open junk CurrentDirName config st =
     search_config ops alloc inew core_open junk (config_dirs CurrentDirName) config_names config st"

text \<open>\<open>newconfig.c\<close>; the result is the state and \<open>ConfigName\<close>.\<close>

fun skip_white :: "bytes \<Rightarrow> bytes option" where
  "skip_white [] = None"
| "skip_white (c # p) = (if c \<noteq> 0 \<and> \<not> not_whitespace c then skip_white p else Some (c # p))"

definition pm_is_config_file ::
  "('p, 'w) fs_ops \<Rightarrow> (nat \<Rightarrow> bytes option) \<Rightarrow> (('p, 'w) vfs \<Rightarrow> nat) \<Rightarrow> bytes \<Rightarrow> bytes \<Rightarrow> bytes \<Rightarrow> bytes \<Rightarrow> ('p, 'w) vfs \<Rightarrow>
   (('p, 'w) vfs \<times> bytes) option" where
  "pm_is_config_file ops alloc inew junk KernelName cmd_line config st =
     do { (st, config, _) \<leftarrow> realpath ops alloc inew config KernelName (of_nat FILENAME_MAX) st;
          p \<leftarrow> skip_white cmd_line;
          c \<leftarrow> rd p 0;
          if c \<noteq> 0
          then do { target_cwd \<leftarrow> mangle_name ops junk p;
                    (st, _) \<leftarrow> chdir ops alloc inew junk target_cwd st;
                    Some (st, config) }
          else Some (st, config) }"


section \<open>The path of a chain\<close>

lemma below_u32: "m < unat (n :: u32) \<Longrightarrow> m < 4294967295"
proof -
  assume "m < unat n"
  moreover have "unat n < 4294967296" using unsigned_less [of n, where 'a = nat] by simp
  ultimately show ?thesis by linarith
qed

lemma copy_string_ok:
  "0 \<notin> set t \<Longrightarrow> unat ix + length t < unat n \<Longrightarrow> unat n \<le> length buf \<Longrightarrow>
   copy_string buf ix n (t @ 0 # j) =
     Some (take (unat ix) buf @ t @ 0 # drop (unat ix + length t + 1) buf, ix + of_nat (length t))"
proof (induction t arbitrary: buf ix)
  case Nil
  then have "ix < n" by (simp add: word_less_nat_alt)
  then show ?case using Nil by (simp add: wr_def upd_conv_take_nth_drop)
next
  case (Cons c t)
  have u: "unat (ix + 1) = unat ix + 1"
    using below_u32 [of "unat ix + 1" n] Cons.prems(2) by (subst unat_add_no_wrap) simp_all
  have l: "ix + 1 < n" using Cons.prems(2) by (simp add: word_less_nat_alt u)
  have b: "unat ix < length buf" using Cons.prems by simp
  have IH: "copy_string (buf[unat ix := c]) (ix + 1) n (t @ 0 # j) =
    Some (take (unat (ix + 1)) (buf[unat ix := c]) @ t @ 0 # drop (unat (ix + 1) + length t + 1) (buf[unat ix := c]), ix + 1 + of_nat (length t))"
    by (rule Cons.IH) (use Cons.prems u in simp_all)
  have "take (unat (ix + 1)) (buf[unat ix := c]) = take (unat ix) buf @ [c]"
    unfolding u using b by (simp add: take_Suc_conv_app_nth)
  then show ?case using Cons.prems IH l b u by (simp add: wr_def add_ac)
qed

fun path_of :: "'p inode list \<Rightarrow> bytes" where
  "path_of [] = []"
| "path_of (d # ds) = (if ds = [] then [] else path_of ds @ slash # cstr (the (iname d)))"

definition named :: "'p inode list \<Rightarrow> bool" where
  "named ds \<longleftrightarrow> (\<forall>d\<in>set (butlast ds). \<exists>n. iname d = Some (n @ [0]) \<and> 0 \<notin> set n)"

lemma inode_to_path_ok:
  "chain C a ds \<Longrightarrow> named ds \<Longrightarrow> length (path_of ds) < unat n \<Longrightarrow> unat n \<le> length dst \<Longrightarrow>
   generic_inode_to_path C a dst n =
     Some (if tl ds = [] then dst else path_of ds @ 0 # drop (length (path_of ds) + 1) dst, of_nat (length (path_of ds)))"
proof (induction ds arbitrary: a)
  case (Cons d ds)
  then obtain i where i: "C a = Some i" "core i = d" "case parent i of None \<Rightarrow> ds = [] | Some p \<Rightarrow> chain C p ds" by auto
  show ?case
  proof (cases "parent i")
    case None
    then show ?thesis using i by (subst generic_inode_to_path.simps) simp
  next
    case (Some p)
    then have p: "chain C p ds" "ds \<noteq> []" using i(3) by (cases ds; auto)+
    obtain nm where nm: "iname i = Some (nm @ [0])" "0 \<notin> set nm"
      using Cons.prems(2) p(2) i(2) by (auto simp: named_def core_def)
    have cs: "cstr (nm @ [0]) = nm" using nm(2) by simp
    have pd: "path_of (d # ds) = path_of ds @ slash # nm" using p(2) nm(1) i(2) cs by (auto simp: core_def)
    have ns: "named ds" using Cons.prems(2) p(2) by (auto simp: named_def)
    let ?l = "length (path_of ds)"
    have len: "?l + 1 + length nm < unat n" using Cons.prems(3) pd by simp
    obtain dst1 where g: "generic_inode_to_path C p dst n = Some (dst1, of_nat ?l)" "length dst1 = length dst" "take ?l dst1 = path_of ds"
      "drop (?l + 1) dst1 = drop (?l + 1) dst"
    proof -
      have "tl ds = [] \<Longrightarrow> path_of ds = []" by (cases ds) auto
      moreover have "generic_inode_to_path C p dst n = Some (if tl ds = [] then dst else path_of ds @ 0 # drop (?l + 1) dst, of_nat ?l)"
        by (rule Cons.IH [OF p(1) ns _ Cons.prems(4)]) (use len in simp)
      ultimately show thesis using that len Cons.prems(4) by (cases "tl ds = []") auto
    qed
    have b: "?l < 2 ^ 32" "length nm < 2 ^ 32" "?l + 1 + length nm < 2 ^ 32" using below_u32 [OF len] by simp_all
    then have u: "unat (of_nat ?l :: u32) = ?l" by (simp add: unat_of_nat)
    have u1: "unat (of_nat ?l + 1 :: u32) = ?l + 1" using b by (subst unat_add_no_wrap) (simp_all add: unat_of_nat)
    have ne: "(of_nat ?l :: u32) \<noteq> - 1"
    proof
      assume "(of_nat ?l :: u32) = - 1"
      then have "?l = unat (- 1 :: u32)" using u by simp
      also have "unat (- 1 :: u32) = 4294967295" by (simp add: unat_minus_one)
      finally show False using b(3) by simp
    qed
    have r: "root_name = [slash] @ 0 # []" by (simp add: root_name_def slash_def)
    have c1: "copy_string dst1 (of_nat ?l) n root_name = Some (path_of ds @ slash # 0 # drop (?l + 2) dst, of_nat ?l + 1)"
      unfolding r using copy_string_ok [of "[slash]" "of_nat ?l" n dst1 "[]"] g(2-4) len Cons.prems(4) u
      by (simp add: slash_def) (metis add_2_eq_Suc' drop_drop plus_1_eq_Suc)
    let ?d2 = "path_of ds @ slash # 0 # drop (?l + 2) dst"
    have "length ?d2 = length dst" using len Cons.prems(4) by simp
    then have "copy_string ?d2 (of_nat ?l + 1) n (nm @ [0]) =
      Some (take (?l + 1) ?d2 @ nm @ 0 # drop (?l + 1 + length nm + 1) ?d2, of_nat ?l + 1 + of_nat (length nm))"
      using copy_string_ok [of nm "of_nat ?l + 1" n ?d2 "[]"] nm(2) len Cons.prems(4) u1 by simp
    moreover have "drop (?l + 1 + length nm + 1) ?d2 = drop (?l + length nm + 2) dst" by (simp add: add_ac)
    ultimately show ?thesis
      using i(1) Some nm(1) g(1) ne c1 p(2) unfolding pd
      by (subst generic_inode_to_path.simps) (simp add: add_ac)
  qed
qed simp


section \<open>The path of a chain leads to it\<close>

text \<open>
  A chain that the search can find below the root \<open>r\<close>: every inode was looked up, under its name, in the
  directory below it in the chain.
\<close>

definition plain_name :: "bytes \<Rightarrow> bool" where
  "plain_name n \<longleftrightarrow> n \<noteq> [] \<and> 0 \<notin> set n \<and> slash \<notin> set n \<and> n \<noteq> [0x2e] \<and> n \<noteq> [0x2e, 0x2e]"

fun found :: "('p inode \<Rightarrow> bytes \<Rightarrow> 'p inode option) \<Rightarrow> 'p inode \<Rightarrow> 'p inode list \<Rightarrow> bool" where
  "found look r [] \<longleftrightarrow> False"
| "found look r (d # ds) \<longleftrightarrow>
     (if ds = [] then d = r
      else found look r ds \<and> is_dir (hd ds) \<and>
        (\<exists>i n. look (hd ds) n = Some i \<and> \<not> is_link i \<and> plain_name n \<and> d = i\<lparr>iname := Some (n @ [0])\<rparr>))"

lemma found_named: "found look r ds \<Longrightarrow> named ds"
proof (induction ds)
  case (Cons d ds)
  then show ?case by (cases "ds = []") (auto simp: named_def plain_name_def)
qed simp

lemma found_tl: "found look r ds \<Longrightarrow> tl ds \<noteq> [] \<Longrightarrow> found look r (tl ds) \<and> is_dir (hd (tl ds))"
  by (cases ds) auto

lemma is_dir_iname [simp]: "is_dir (i\<lparr>iname := x\<rparr>) = is_dir i"
  by (simp add: is_dir_def)

lemma dropWhile_sub: "set (dropWhile P (tl s)) \<subseteq> set s"
  by (cases s) (auto dest: set_dropWhileD)

lemma resolve_found:
  assumes T: "tree_ops ops winv look target" and r: "is_dir r"
  shows "resolve look target [r] n ds s = Some ds' \<Longrightarrow> found look r ds \<Longrightarrow> (s \<noteq> [] \<longrightarrow> is_dir (hd ds)) \<Longrightarrow> 0 \<notin> set s \<Longrightarrow>
    found look r ds'"
proof (induction "(n, length s)" arbitrary: ds s n rule: wf_induct_rule [OF wf_lex_prod [OF wf_less_than wf_less_than]])
  case (1 s n ds)
  have IH: "found look r ds'" if "n' < n \<or> n' = n \<and> length s' < length s" "resolve look target [r] n' ds1 s' = Some ds'"
    "found look r ds1" "s' \<noteq> [] \<longrightarrow> is_dir (hd ds1)" "0 \<notin> set s'" for n' s' ds1
    using "1.hyps" [of n' s' ds1] that by auto
  show ?case
  proof (cases "s = []")
    case True
    then show ?thesis using "1.prems" by (simp add: resolve.simps)
  next
    case s: False
    have z: "0 \<notin> set (rest_part s)" "0 \<notin> set (name_part s)" using "1.prems"(4) rest_part_sub [of s] by blast+
    show ?thesis
    proof (cases "hd s = slash")
      case True
      let ?t = "dropWhile (\<lambda>c. c = slash) (tl s)"
      have "length ?t < length s" using s by (cases s) (auto simp: less_Suc_eq_le length_dropWhile_le)
      moreover have "resolve look target [r] n [r] ?t = Some ds'" using "1.prems"(1) s True by (subst (asm) resolve.simps) simp
      moreover have "0 \<notin> set ?t" using "1.prems"(4) dropWhile_sub [of _ s] by blast
      ultimately show ?thesis using IH [of n ?t "[r]"] r by simp
    next
      case ns: False
      have short: "length (rest_part s) < length s" by (rule rest_part_shorter [OF s ns])
      note np = name_part_props [OF s ns "1.prems"(4)]
      have dir: "is_dir (hd ds)" using "1.prems"(3) s by simp
      note R = "1.prems"(1) [unfolded resolve.simps [of look target "[r]" n ds s] if_not_P [OF s] if_not_P [OF ns] Let_def]
      consider (dot) "name_part s = [0x2e]" | (dotdot) "name_part s \<noteq> [0x2e]" "name_part s = [0x2e, 0x2e]"
        | (other) "name_part s \<noteq> [0x2e]" "name_part s \<noteq> [0x2e, 0x2e]" by blast
      then show ?thesis
      proof cases
        case dot
        then show ?thesis using R IH [of n "rest_part s" ds] short z "1.prems"(2) dir by simp
      next
        case dotdot
        let ?ds = "if tl ds = [] then ds else tl ds"
        have "found look r ?ds" "is_dir (hd ?ds)" using "1.prems"(2) dir found_tl by auto
        then show ?thesis using R IH [of n "rest_part s" ?ds] short z dotdot by simp
      next
        case other
        note R' = R [unfolded if_not_P [OF other(1)] if_not_P [OF other(2)]]
        then obtain i where i: "look (hd ds) (name_part s) = Some i" by (cases "look (hd ds) (name_part s)") auto
        show ?thesis
        proof (cases "is_link i")
          case True
          let ?p = "link_path (target i) (rest_part s)"
          have go: "1 < n" "resolve look target [r] (n - 1) ds ?p = Some ds'" using R' i True by (auto split: if_splits)
          moreover have "0 \<notin> set ?p"
            using z(1) tree_opsD(4) [OF T, of i] by (auto simp: link_path_def Let_def slash_def split: if_splits)
          ultimately show ?thesis using IH [of "n - 1" ?p ds] "1.prems"(2) dir by simp
        next
          case False
          let ?d = "i\<lparr>iname := Some (name_part s @ [0])\<rparr>"
          have rs: "resolve look target [r] n (?d # ds) (rest_part s) = Some ds'" "rest_part s \<noteq> [] \<longrightarrow> is_dir i"
            using R' i False by (auto split: if_splits)
          have "ds \<noteq> []" using "1.prems"(2) by auto
          then have "found look r (?d # ds)" using "1.prems"(2) dir i False np other by (auto simp: plain_name_def)
          then show ?thesis using IH [of n "rest_part s" "?d # ds"] short z rs by simp
        qed
      qed
    qed
  qed
qed

lemma name_rest_append:
  assumes "slash \<notin> set n" "t = [] \<or> (\<exists>t'. t = slash # t' \<and> t' \<noteq> [] \<and> hd t' \<noteq> slash)"
  shows "name_part (n @ t) = n \<and> rest_part (n @ t) = tl t"
proof (cases "t = []")
  case True
  have w: "takeWhile (\<lambda>c. c \<noteq> slash) n = n" "dropWhile (\<lambda>c. c \<noteq> slash) n = []"
    using assms(1) by (auto simp: takeWhile_eq_all_conv dropWhile_eq_Nil_conv)
  show ?thesis unfolding name_part_def rest_part_def True append_Nil2 w by simp
next
  case False
  then obtain t' where t: "t = slash # t'" "t' \<noteq> []" "hd t' \<noteq> slash" using assms(2) by auto
  then show ?thesis using assms(1) by (cases t') (simp_all add: name_part_def rest_part_def)
qed

lemma resolve_path_step:
  "found look r ds \<Longrightarrow> tl ds \<noteq> [] \<Longrightarrow> t = [] \<or> (\<exists>t'. t = slash # t' \<and> t' \<noteq> [] \<and> hd t' \<noteq> slash) \<Longrightarrow> (t \<noteq> [] \<longrightarrow> is_dir (hd ds)) \<Longrightarrow>
   resolve look target [r] n ds0 (path_of ds @ t) = resolve look target [r] n ds (tl t)"
proof (induction ds arbitrary: t)
  case (Cons d ds)
  then have ds: "ds \<noteq> []" "found look r ds" "is_dir (hd ds)" by auto
  from Cons.prems(1) ds(1) obtain i nm where i: "look (hd ds) nm = Some i" "\<not> is_link i" "plain_name nm" "d = i\<lparr>iname := Some (nm @ [0])\<rparr>" by auto
  have nm: "nm \<noteq> []" "0 \<notin> set nm" "slash \<notin> set nm" "hd nm \<noteq> slash"
    using i(3) by (auto simp: plain_name_def dest: hd_in_set)
  have p: "path_of (d # ds) @ t = path_of ds @ slash # nm @ t" using ds(1) nm(2) i(4) by simp
  have "resolve look target [r] n ds0 (path_of ds @ slash # nm @ t) = resolve look target [r] n ds (nm @ t)"
  proof (cases "tl ds = []")
    case True
    then have r: "ds = [r]" "path_of ds = []" using ds(1,2) by (cases ds; auto)+
    have "dropWhile (\<lambda>c. c = slash) (nm @ t) = nm @ t" using nm(1,4) by (cases nm) auto
    then show ?thesis unfolding r by (subst resolve.simps) simp
  next
    case False
    then show ?thesis using Cons.IH [of "slash # nm @ t"] ds nm(1,4) by simp
  qed
  also have "\<dots> = resolve look target [r] n (d # ds) (tl t)"
  proof -
    note nr = name_rest_append [OF nm(3) Cons.prems(3)]
    have "tl t \<noteq> [] \<longrightarrow> is_dir i" using Cons.prems(4) i(4) by (cases t) auto
    moreover have "hd (nm @ t) \<noteq> slash" "nm @ t \<noteq> []" using nm(1,4) by auto
    ultimately show ?thesis using i nm(1,4) nr [THEN conjunct1] nr [THEN conjunct2] by (subst resolve.simps) (auto simp: plain_name_def Let_def)
  qed
  finally show ?case unfolding p .
qed simp

text \<open>The path of an inode as \<open>realpath\<close> gives it.\<close>

definition full_path :: "'p inode list \<Rightarrow> bytes" where
  "full_path ds = (if tl ds = [] then [slash] else path_of ds)"

lemma resolve_full_path:
  assumes "found look r ds"
  shows "resolve look target [r] n ds0 (full_path ds) = Some ds"
proof (cases "tl ds = []")
  case True
  then have "ds = [r]" using assms by (cases ds) auto
  then show ?thesis using True by (simp add: full_path_def resolve.simps)
next
  case False
  then show ?thesis using resolve_path_step [OF assms False, of "[]" target n ds0] by (simp add: full_path_def resolve.simps)
qed

lemma full_path_chars: "found look r ds \<Longrightarrow> 0 \<notin> set (path_of ds)"
proof (induction ds)
  case (Cons d ds)
  then show ?case by (cases "ds = []") (auto simp: plain_name_def slash_def)
qed simp


section \<open>Absolute paths\<close>

text \<open>The state in which a path can be searched: the root has the chain \<open>rt\<close>, the current directory \<open>cs\<close>, the slot \<open>k\<close> is free.\<close>

definition ready ::
  "('p, 'w) fs_ops \<Rightarrow> ('w \<Rightarrow> bool) \<Rightarrow> ('p inode \<Rightarrow> bytes \<Rightarrow> 'p inode option) \<Rightarrow> ('p inode \<Rightarrow> bytes option) \<Rightarrow>
   (nat \<Rightarrow> bytes option) \<Rightarrow> (('p, 'w) vfs \<Rightarrow> nat) \<Rightarrow> ('p, 'w) vfs \<Rightarrow> 'p inode list \<Rightarrow> 'p inode list \<Rightarrow> nat \<Rightarrow> bool" where
  "ready ops winv look target alloc inew st rt cs k \<longleftrightarrow>
     tree_ops ops winv look target \<and> alloc_ok alloc \<and> inew_ok inew \<and> op_searchdir ops = None \<and> op_close_file ops = generic_close_file \<and>
     counted {#} st \<and> idle_clear st \<and> winv (world st) \<and> alloc_file st = Some k \<and> card (dom (cells st)) < 2 ^ 25 \<and>
     (\<exists>ra. root_inode st = Some ra \<and> chain (cells st) ra rt) \<and> (\<exists>ca. cwd_inode st = Some ca \<and> chain (cells st) ca cs)"

definition a_path :: "bytes \<Rightarrow> bool" where
  "a_path nm \<longleftrightarrow> 0 \<notin> set nm \<and> nm \<noteq> [] \<and> length nm < 2 ^ 26"

lemma search_cases:
  assumes "ready ops winv look target alloc inew st rt cs k" "a_path nm"
  obtains (none) st' where "resolve look target rt 20 cs nm = None" "searchdir ops alloc inew (nm @ 0 # j) st = Some (st', -1)"
      "counted {#} st'" "idle_clear st'" "winv (world st')" "stable st st'"
  | (some) ds st' st1 a where "resolve look target rt 20 cs nm = Some ds" "searchdir ops alloc inew (nm @ 0 # j) st = Some (st', int k + 1)"
      "counted {#} st'" "idle_clear st'" "winv (world st')" "stable st st1"
      "st' = set_file k \<lparr>file_fs = True, foffset = 0, finode = Some a\<rparr> st1" "chain (cells st') a ds"
proof -
  from assms [unfolded ready_def a_path_def] obtain ra ca where
    "root_inode st = Some ra" "chain (cells st) ra rt" "cwd_inode st = Some ca" "chain (cells st) ca cs" by blast
  note e = searchdir_ok [OF _ _ _ _ _ _ _ _ _ this, of ops winv look target alloc inew k nm j]
  show thesis
  proof (cases "resolve look target rt 20 cs nm")
    case None
    then show thesis using e assms none unfolding ready_def a_path_def by auto
  next
    case (Some ds)
    then show thesis using e assms some unfolding ready_def a_path_def by auto
  qed
qed

text \<open>C13. \<open>realpath\<close> returns an absolute path of the inode that the search finds, terminated and with its
  length, when it fits; searching this path finds the very same chain of inodes again.  When the search finds nothing the
  result is -1 and the buffer is left alone.  The file that was opened on the way is closed again.\<close>

theorem realpath_roundtrip:
  assumes "ready ops winv look target alloc inew st [r] cs k" "a_path nm" "op_realpath ops = None"
    and "found look r cs" "is_dir r" "is_dir (hd cs)" "unat n \<le> length dst"
  shows "\<exists>st'. counted {#} st' \<and> stable st st' \<and>
    (case resolve look target [r] 20 cs nm of
       None \<Rightarrow> realpath ops alloc inew dst (nm @ 0 # j) n st = Some (st', dst, - 1)
     | Some ds \<Rightarrow> length (full_path ds) < unat n \<longrightarrow>
         realpath ops alloc inew dst (nm @ 0 # j) n st =
           Some (st', full_path ds @ 0 # drop (length (full_path ds) + 1) dst, of_nat (length (full_path ds))) \<and>
         resolve look target [r] 20 cs (full_path ds) = Some ds)"
  using assms(1,2)
proof (cases rule: search_cases [where j = j])
  case (none st')
  then show ?thesis using assms(3) by (auto simp: realpath_def)
next
  case (some ds st' st1 a)
  note rd = assms(1) [unfolded ready_def]
  have o: "handle_to_file (word_of_int (int k + 1)) = Some k" "the_file st' k = Some \<lparr>file_fs = True, foffset = 0, finode = Some a\<rparr>"
    "k < length (files st1)" "files st1 ! k = no_file" "cells st' = cells st1"
    using opened_file [of st k st1 st' a] rd some by auto
  have T: "tree_ops ops winv look target" using rd by blast
  have f: "found look r ds" by (rule resolve_found [OF T assms(5) some(1) assms(4)]) (use assms(2,6) in \<open>auto simp: a_path_def\<close>)
  obtain st2 where st2: "close_file_at ops k st' = Some st2" "counted {#} st2" "stable st st2"
    using close_file_ok [of k "\<lparr>file_fs = True, foffset = 0, finode = Some a\<rparr>" st1 a ops st ds] some o rd by auto
  have ex: "realpath ops alloc inew dst (nm @ 0 # j) n st =
      Some (st2, full_path ds @ 0 # drop (length (full_path ds) + 1) dst, of_nat (length (full_path ds)))"
    if len: "length (full_path ds) < unat n"
  proof -
    have l: "length (path_of ds) < unat n" using len by (cases ds) (auto simp: full_path_def split: if_splits)
    note p = inode_to_path_ok [OF some(8) found_named [OF f] l assms(7)]
    have s0: "(of_nat (length (path_of ds)) :: u32) = 0 \<longleftrightarrow> tl ds = []"
    proof -
      have "(of_nat (length (path_of ds)) :: u32) = 0 \<longleftrightarrow> length (path_of ds) = 0"
        using below_u32 [OF l] by (simp add: word_unat_eq_iff unat_of_nat)
      also have "\<dots> \<longleftrightarrow> tl ds = []" by (cases ds) auto
      finally show ?thesis .
    qed
    have r: "root_name = [slash] @ 0 # []" by (simp add: root_name_def slash_def)
    have c: "copy_string dst 0 n root_name = Some (slash # 0 # drop (Suc (Suc 0)) dst, 1)" if "tl ds = []"
    proof -
      have z: "0 \<notin> set [slash]" by (simp add: slash_def)
      have "copy_string dst 0 n ([slash] @ 0 # []) = Some (take (unat (0 :: u32)) dst @ [slash] @ 0 # drop (unat (0 :: u32) + length [slash] + 1) dst,
          0 + of_nat (length [slash]))"
        by (rule copy_string_ok [OF z]) (use len that assms(7) in \<open>simp_all add: full_path_def\<close>)
      then show ?thesis unfolding r by (simp del: copy_string.simps)
    qed
    show ?thesis
    proof (cases "tl ds = []")
      case True
      then have "path_of ds = []" by (cases ds) auto
      then show ?thesis using True p c o(1,2) st2(1) some(2) assms(3) by (simp add: realpath_def full_path_def)
    next
      case False
      then show ?thesis using p s0 o(1,2) st2(1) some(2) assms(3) by (simp add: realpath_def full_path_def)
    qed
  qed
  show ?thesis using some(1) st2 ex resolve_full_path [OF f, of target 20 cs] by auto
qed


text \<open>The current directory moves from \<open>ca\<close> to \<open>a\<close>.\<close>

lemma move_cwd:
  assumes C: "counted {#} st" and ca: "cwd_inode st = Some ca" and a: "a \<in># file_refs (files st)" "chain (cells st) a ds"
  shows "\<exists>st1 st2. put_inode (Some ca) st = Some st1 \<and> get_inode (Some a) st1 = Some st2 \<and> counted {#} (st2\<lparr>cwd_inode := Some a\<rparr>) \<and>
    files st2 = files st \<and> root_inode st2 = root_inode st \<and> cwd_name st2 = cwd_name st \<and> world st2 = world st \<and> chain (cells st2) a ds \<and>
    (\<forall>p ds. p \<in># opt_refs (root_inode st) + file_refs (files st) \<longrightarrow> chain (cells st) p ds \<longrightarrow> chain (cells st2) p ds)"
proof -
  let ?A = "st\<lparr>cwd_inode := None\<rparr>"
  have CA: "counted ({#} + {#ca#}) ?A" using C ca by (simp add: counted_def refs_def)
  have base: "base_refs ?A = opt_refs (root_inode st) + file_refs (files st)" by (simp add: base_refs_def)
  from release [OF CA stable_refl] obtain B where B: "put_inode (Some ca) ?A = Some B" "counted {#} B" "stable ?A B" "world B = world st" by auto
  have "a \<in># base_refs ?A" using a(1) base by simp
  then have aB: "chain (cells B) a ds" using B(3) a(2) by (simp add: stable_def)
  then have "a \<in> dom (cells B)" by (cases ds) auto
  from retain [OF B(2,3) _ this] obtain D where D: "get_inode (Some a) B = Some D" "counted {#a#} D" "stable ?A D" "world D = world B"
    "chain (cells D) a ds" using aB by auto
  have fB: "B = ?A\<lparr>cells := cells B\<rparr>" by (rule put_inode_form [OF B(1)])
  have fD: "D = B\<lparr>cells := cells D\<rparr>" by (rule get_inode_form [OF D(1)])
  let ?st1 = "st\<lparr>cells := cells B\<rparr>" and ?st2 = "st\<lparr>cells := cells D\<rparr>"
  have "put_inode (Some ca) st = Some ?st1" by (rule put_inode_frame [OF B(1)]) simp
  moreover have "get_inode (Some a) ?st1 = Some ?st2" using get_inode_frame [OF D(1), of ?st1] by simp
  moreover have DD: "D = ?st2\<lparr>cwd_inode := None\<rparr>" by (subst fD, subst fB) simp
  have "counted {#a#} (?st2\<lparr>cwd_inode := None\<rparr>)" using D(2) by (simp only: DD [symmetric])
  then have "counted {#} (?st2\<lparr>cwd_inode := Some a\<rparr>)" by (simp add: counted_def refs_def)
  ultimately show ?thesis using D(3,5) base by (auto simp: stable_def)
qed


lemma word_of_length: "m < 2 ^ 32 \<Longrightarrow> unat (of_nat m :: u32) = m"
  by (simp add: unat_of_nat)

lemma save_cwd_name_ok:
  assumes "found look r ds" "length (path_of ds) < 255" "length junk = 256" "buf = (if tl ds = [] then junk else path_of ds @ 0 # drop (length (path_of ds) + 1) junk)"
  shows "save_cwd_name buf (of_nat (length (path_of ds))) cwd = Some (path_of ds @ [slash, 0] @ drop (length (path_of ds) + 2) cwd)"
proof -
  let ?p = "path_of ds" and ?l = "length (path_of ds)"
  have u: "unat (of_nat ?l :: u32) = ?l" "unat (of_nat ?l + 1 :: u32) = ?l + 1" "unat (of_nat ?l + 2 :: u32) = ?l + 2"
    using assms(2) by (simp_all add: unat_of_nat unat_word_ariths)
  have p0: "?p = [] \<longleftrightarrow> tl ds = []" by (cases ds) auto
  have buf: "length buf = 256" "take ?l buf = ?p" using assms(2-4) p0 by auto
  have s1: "(of_nat ?l :: u32) < 1 \<longleftrightarrow> ?l = 0" by (simp add: word_less_nat_alt u(1))
  have slashed: "(if (of_nat ?l :: u32) < 1 then Some False else do { c \<leftarrow> rd buf (unat (of_nat ?l - 1 :: u32)); Some (c = 0x2f) }) = Some False"
  proof (cases "?l = 0")
    case False
    obtain d ds' i n where d: "ds = d # ds'" "ds' \<noteq> []" "plain_name n" "d = i\<lparr>iname := Some (n @ [0])\<rparr>"
      using assms(1) False by (cases ds) (auto split: if_splits)
    then have p: "?p = path_of ds' @ slash # n" "n \<noteq> []" "slash \<notin> set n" by (auto simp: plain_name_def)
    have m: "unat (of_nat ?l - 1 :: u32) = ?l - 1"
      using False u(1) by (subst unat_sub) (simp_all add: word_le_nat_alt Suc_le_eq)
    have "buf ! (?l - 1) = ?p ! (?l - 1)" using nth_take [of "?l - 1" ?l buf] buf(2) False by simp
    also have "\<dots> = last n" using p(1,2) by (metis last_append last_conv_nth last_ConsR list.discI append_is_Nil_conv)
    finally have "buf ! (?l - 1) \<noteq> slash" using p(2,3) by (metis last_in_set)
    then show ?thesis using False s1 buf(1) assms(2) m by (simp add: rd_def slash_def)
  qed (simp add: s1)
  have c: "(of_nat CURRENTDIR_MAX :: u32) \<le> of_nat ?l + 1 \<longleftrightarrow> False"
    using assms(2) u(2) by (simp add: word_le_nat_alt CURRENTDIR_MAX_def FILENAME_MAX_def)
  have w: "take (?l + 2) (buf[?l := 0x2f, ?l + 1 := 0]) = ?p @ [slash, 0]"
  proof -
    have b: "buf = ?p @ drop ?l buf" using buf(2) by (metis append_take_drop_id)
    have "?l < length buf" "Suc ?l < length buf" using buf(1) assms(2) by simp_all
    then have "drop ?l buf = buf ! ?l # buf ! Suc ?l # drop (Suc (Suc ?l)) buf" by (metis Cons_nth_drop_Suc)
    then show ?thesis by (subst b) (simp add: list_update_append slash_def)
  qed
  show ?thesis
    unfolding save_cwd_name_def slashed
    using buf(1) assms(2) u c w by (simp add: Let_def wr_def add.assoc)
qed


text \<open>C15. Changing the directory: when the path leads to a directory whose path fits, \<open>chdir\<close> makes it the current
  directory, saves its absolute path with a slash at the end, and keeps every reference count exact - the old directory
  is released and the new one retained; otherwise it returns -1 and the tables are as before.\<close>

theorem chdir_moves_or_undone:
  assumes "ready ops winv look target alloc inew st [r] cs k" "a_path nm" "op_chdir ops = None"
    and "found look r cs" "is_dir r" "is_dir (hd cs)" "length junk = 256"
  shows "\<exists>st'. counted {#} st' \<and> idle_clear st' \<and> files st' = files st \<and> root_inode st' = root_inode st \<and>
    (case resolve look target [r] 20 cs nm of
       None \<Rightarrow> chdir ops alloc inew junk (nm @ 0 # j) st = Some (st', -1) \<and> stable st st'
     | Some ds \<Rightarrow>
         if \<not> is_dir (hd ds) then chdir ops alloc inew junk (nm @ 0 # j) st = Some (st', -1) \<and> stable st st'
         else length (path_of ds) < 255 \<longrightarrow>
           chdir ops alloc inew junk (nm @ 0 # j) st = Some (st', 0) \<and>
           (\<exists>a. cwd_inode st' = Some a \<and> chain (cells st') a ds) \<and>
           cwd_name st' = path_of ds @ [slash, 0] @ drop (length (path_of ds) + 2) (cwd_name st))"
  using assms(1,2)
proof (cases rule: search_cases [where j = j])
  case (none st')
  then show ?thesis using assms(3) by (auto simp: chdir_def stable_def)
next
  case (some ds st' st1 a)
  let ?F = "\<lparr>file_fs = True, foffset = 0, finode = Some a\<rparr>"
  note rd = assms(1) [unfolded ready_def]
  have o: "handle_to_file (word_of_int (int k + 1)) = Some k" "the_file st' k = Some ?F" "file_inode st' k = cells st' a"
    "k < length (files st1)" "files st1 ! k = no_file" "cells st' = cells st1"
    using opened_file [of st k st1 st' a] rd some by auto
  obtain i where i: "cells st' a = Some i" "core i = hd ds" using some(8) by (cases ds) auto
  have dir: "imode i = ucast (dt_code DT_DIR) \<longleftrightarrow> is_dir (hd ds)" unfolding i(2) [symmetric] by (simp add: core_def is_dir_def)
  have st1: "files st1 = files st" "root_inode st1 = root_inode st" "cwd_inode st1 = cwd_inode st" "cwd_name st1 = cwd_name st"
    using some(6) by (simp_all add: stable_def)
  show ?thesis
  proof (cases "is_dir (hd ds)")
    case False
    obtain st2 where st2: "close_file_at ops k st' = Some st2" "counted {#} st2" "stable st st2"
      using close_file_ok [of k ?F st1 a ops st ds] some o rd by auto
    then have "chdir ops alloc inew junk (nm @ 0 # j) st = Some (st2, -1)"
      using assms(3) some(2) o(1,3) i dir False by (simp add: chdir_def)
    moreover have "files st2 = files st" "root_inode st2 = root_inode st" "idle_clear st2"
      using st2(3) rd by (simp_all add: stable_def idle_clear_def)
    ultimately show ?thesis using st2 some(1) False by auto
  next
    case True
    obtain ca where ca: "cwd_inode st = Some ca" using rd by blast
    have fs': "files st' = (files st1)[k := ?F]" "cwd_inode st' = Some ca" "root_inode st' = root_inode st" "cwd_name st' = cwd_name st"
      using some(7) st1 ca by (simp_all add: set_file_def)
    have "a \<in># file_refs (files st')" using file_refs_upd [OF o(4), of ?F] o(5) fs'(1) by (simp add: no_file_def)
    from move_cwd [OF some(3) fs'(2) this some(8)] obtain s1 s2 where s: "put_inode (Some ca) st' = Some s1" "get_inode (Some a) s1 = Some s2"
      "counted {#} (s2\<lparr>cwd_inode := Some a\<rparr>)" "files s2 = files st'" "root_inode s2 = root_inode st'" "cwd_name s2 = cwd_name st'"
      "chain (cells s2) a ds" by blast
    let ?s3 = "s2\<lparr>cwd_inode := Some a\<rparr>" and ?s4 = "set_file k no_file (s2\<lparr>cwd_inode := Some a\<rparr>)"
    have s3: "?s3 = set_file k ?F ?s4" using s(4) fs'(1) o(4) by (simp add: set_file_def)
    have fs4: "files ?s4 = files st" using s(4) fs'(1) o(4,5) st1(1) by (simp add: set_file_def) (metis list_update_id)
    have "counted {#} (set_file k ?F ?s4)" by (subst s3 [symmetric]) (rule s(3))
    moreover have "k < length (files ?s4)" "files ?s4 ! k = no_file" unfolding fs4 using o(4,5) st1(1) by simp_all
    moreover have "chain (cells ?s4) a ds" using s(7) by (simp add: set_file_def)
    ultimately obtain s5 where s5: "close_file_at ops k ?s3 = Some s5" "counted {#} s5" "stable ?s4 s5"
      using close_file_ok [of k ?F ?s4 a ops ?s4 ds] stable_refl rd unfolding s3 [symmetric] by auto
    have e: "files s5 = files st" "root_inode s5 = root_inode st" "cwd_inode s5 = Some a" "cwd_name s5 = cwd_name st"
      using s5(3) fs4 s(5,6) fs' by (simp_all add: stable_def set_file_def)
    have "a \<in># base_refs ?s4" by (simp add: base_refs_def set_file_def)
    then have ch5: "chain (cells s5) a ds" using s5(3) s(7) by (auto simp: stable_def set_file_def)
    have T: "tree_ops ops winv look target" using rd by blast
    have f: "found look r ds" by (rule resolve_found [OF T assms(5) some(1) assms(4)]) (use assms(2,6) in \<open>auto simp: a_path_def\<close>)
    let ?nm = "path_of ds @ [slash, 0] @ drop (length (path_of ds) + 2) (cwd_name st)"
    have tf: "the_file s1 k = Some ?F" using arg_cong [OF put_inode_form [OF s(1)], of files] o(2) by (simp add: the_file_def)
    have "chdir ops alloc inew junk (nm @ 0 # j) st = Some (s5\<lparr>cwd_name := ?nm\<rparr>, 0)"
      if l: "length (path_of ds) < 255"
    proof -
      note p = inode_to_path_ok [OF ch5 found_named [OF f], of 255 junk]
      note n = save_cwd_name_ok [OF f l assms(7) refl, of "cwd_name st"]
      have "chdir ops alloc inew junk (nm @ 0 # j) st =
        do { (cwd_buf, s) \<leftarrow> generic_inode_to_path (cells s5) a junk (of_nat (CURRENTDIR_MAX - 1));
             name \<leftarrow> save_cwd_name cwd_buf s (cwd_name s5); Some (s5\<lparr>cwd_name := name\<rparr>, 0) }"
        unfolding chdir_def using assms(3) some(2) o(1,3) i(1) dir True s(1,2) fs'(2) tf s5(1) e(3) by simp
      also have "\<dots> = Some (s5\<lparr>cwd_name := ?nm\<rparr>, 0)"
        using p n l assms(7) e(4) by (simp add: CURRENTDIR_MAX_def FILENAME_MAX_def)
      finally show ?thesis .
    qed
    moreover have "counted {#} (s5\<lparr>cwd_name := ?nm\<rparr>)" using s5(2) by (simp add: counted_def refs_def)
    moreover have "idle_clear (s5\<lparr>cwd_name := ?nm\<rparr>)" using rd e(1) by (simp add: idle_clear_def)
    ultimately show ?thesis using some(1) True e ch5 by (intro exI [of _ "s5\<lparr>cwd_name := ?nm\<rparr>"]) auto
  qed
qed


section \<open>Mangled names\<close>

fun collapse :: "bytes \<Rightarrow> bytes" where
  "collapse [] = []"
| "collapse (c # s) = (if c = slash \<and> s \<noteq> [] \<and> hd s = slash then collapse s else c # collapse s)"

definition trim_slash :: "bytes \<Rightarrow> bytes" where
  "trim_slash s = (if 1 < length s \<and> last s = slash then butlast s else s)"

fun no_double :: "bytes \<Rightarrow> bool" where
  "no_double [] \<longleftrightarrow> True"
| "no_double (c # s) \<longleftrightarrow> \<not> (c = slash \<and> s \<noteq> [] \<and> hd s = slash) \<and> no_double s"

lemma collapse_facts: "no_double (collapse s)" "length (collapse s) \<le> length s" "hd (collapse s @ [c]) = hd (s @ [c])" "set (collapse s) \<subseteq> set s"
  by (induction s) (auto simp: hd_append split: if_splits)

lemma collapse_same: "no_double s \<Longrightarrow> collapse s = s"
  by (induction s) auto

lemma no_double_snoc: "no_double (s @ [x]) \<Longrightarrow> no_double s \<and> (s \<noteq> [] \<and> x = slash \<longrightarrow> last s \<noteq> slash)"
  by (induction s) (auto simp: hd_append split: if_splits)

lemma trim_facts: "no_double s \<Longrightarrow> no_double (trim_slash s) \<and> trim_slash (trim_slash s) = trim_slash s"
  by (cases s rule: rev_cases) (auto simp: trim_slash_def dest!: no_double_snoc)

lemma slash_not_white: "not_whitespace slash"
  by (simp add: not_whitespace_def slash_def)

lemma gmangle_copy_ok:
  "list_all not_whitespace w \<Longrightarrow> \<not> not_whitespace e \<Longrightarrow> d + length (collapse w) \<le> length buf \<Longrightarrow>
   gmangle_copy (w @ e # j) buf d i =
     Some (take d buf @ collapse w @ drop (d + length (collapse w)) buf, d + length (collapse w), i - int (length w))"
proof (induction w arbitrary: buf d i)
  case (Cons c w)
  have e: "e \<noteq> slash" using Cons.prems(2) slash_not_white by auto
  have h: "hd (w @ e # j) = slash \<longleftrightarrow> w \<noteq> [] \<and> hd w = slash" using e by (cases w) auto
  show ?case
  proof (cases "c = slash \<and> w \<noteq> [] \<and> hd w = slash")
    case True
    then show ?thesis using Cons.IH [of d buf "i - 1"] Cons.prems h by (simp add: slash_def)
  next
    case False
    have b: "d < length buf" "Suc (d + length (collapse w)) \<le> length buf" using Cons.prems(3) False by auto
    have "take (d + 1) (buf[d := c]) = take d buf @ [c]" using b(1) by (simp add: take_Suc_conv_app_nth)
    then show ?thesis
      using Cons.IH [of "d + 1" "buf[d := c]" "i - 1"] Cons.prems(1,2) b h False by (auto simp: slash_def wr_def)
  qed
qed simp

lemma vmangle_trim_ok:
  assumes "no_double s" "take (length s) buf = s"
  shows "vmangle_trim buf (length s) i = (length (trim_slash s), i + int (length s - length (trim_slash s)))"
proof (cases s rule: rev_cases)
  case (snoc t x)
  have n: "buf ! length t = x" "t \<noteq> [] \<Longrightarrow> buf ! (length t - 1) = last t"
  proof -
    show "buf ! length t = x" using arg_cong [OF assms(2), of "\<lambda>l. l ! length t"] snoc by simp
    show "buf ! (length t - 1) = last t" if "t \<noteq> []"
      using arg_cong [OF assms(2), of "\<lambda>l. l ! (length t - 1)"] snoc that by (simp add: nth_append last_conv_nth)
  qed
  note d = no_double_snoc [OF assms(1) [unfolded snoc]]
  show ?thesis
  proof (cases "t = []")
    case True
    then show ?thesis using snoc by (simp add: trim_slash_def)
  next
    case False
    then obtain m where m: "length t = Suc m" by (cases t) auto
    then show ?thesis using snoc n d False by (auto simp: trim_slash_def slash_def)
  qed
qed (simp add: trim_slash_def)

lemma vmangle_pad_ok:
  "d + n \<le> length buf \<Longrightarrow> vmangle_pad buf d n = Some (take d buf @ replicate n 0 @ drop (d + n) buf)"
proof (induction n arbitrary: buf d)
  case (Suc n)
  have "take (d + 1) (buf[d := 0]) = take d buf @ [0]" using Suc.prems by (simp add: take_Suc_conv_app_nth)
  then show ?case using Suc.IH [of "d + 1" "buf[d := 0]"] Suc.prems by (simp add: wr_def)
qed simp

definition mangled :: "bytes \<Rightarrow> bytes" where
  "mangled w = trim_slash (collapse w)"

lemma generic_mangle_ok:
  assumes "list_all not_whitespace w" "\<not> not_whitespace e" "length w \<le> 255" "256 \<le> length dst" "T = 256 - (length w - length (collapse w))"
  shows "generic_mangle_name dst (w @ e # j) = Some (mangled w @ replicate (T - length (mangled w)) 0 @ drop T dst)"
proof -
  let ?c = "collapse w" and ?m = "mangled w"
  note cl = collapse_facts(2) [of w]
  let ?buf = "?c @ drop (length ?c) dst"
  have c: "gmangle_copy (w @ e # j) dst 0 255 = Some (?buf, length ?c, 255 - int (length w))"
    using gmangle_copy_ok [OF assms(1,2), of 0 dst j 255] assms(3,4) cl by simp
  have t: "vmangle_trim ?buf (length ?c) (255 - int (length w)) = (length ?m, 255 - int (length w) + int (length ?c - length ?m))"
    unfolding mangled_def by (rule vmangle_trim_ok) (simp_all add: collapse_facts(1))
  have ml: "length ?m \<le> length ?c" "take (length ?m) ?c = ?m" by (simp_all add: mangled_def trim_slash_def butlast_conv_take)
  have n: "nat (255 - int (length w) + int (length ?c - length ?m) + 1) = T - length ?m" using assms(3,5) ml(1) cl by simp
  have "T \<le> length ?buf" "length ?c \<le> T" using assms(3-5) cl by auto
  then have "vmangle_pad ?buf (length ?m) (T - length ?m) = Some (?m @ replicate (T - length ?m) 0 @ drop T dst)"
    using vmangle_pad_ok [of "length ?m" "T - length ?m" ?buf] ml by simp
  then show ?thesis using c t n by (simp add: generic_mangle_name_def FILENAME_MAX_def)
qed

text \<open>C32. The mangled name is the first word of the source with repeated slashes made one and a trailing slash removed,
  unless it is the whole name; it is padded with zeros, to 256 bytes less the number of dropped slashes.  Mangling the
  result again gives the same name.\<close>

theorem generic_mangle_normal_form:
  assumes "list_all not_whitespace w" "\<not> not_whitespace e" "length w \<le> 255" "256 \<le> length dst" "256 \<le> length dst'"
    and "T = 256 - (length w - length (collapse w))"
  shows "generic_mangle_name dst (w @ e # j) = Some (mangled w @ replicate (T - length (mangled w)) 0 @ drop T dst) \<and>
    generic_mangle_name dst' (mangled w @ 0 # j') = Some (mangled w @ replicate (256 - length (mangled w)) 0 @ drop 256 dst')"
proof -
  let ?m = "mangled w"
  have nd: "no_double ?m" "trim_slash ?m = ?m" using trim_facts [OF collapse_facts(1)] by (simp_all add: mangled_def)
  have mm: "collapse ?m = ?m" "mangled ?m = ?m" using collapse_same [OF nd(1)] nd(2) by (simp_all add: mangled_def)
  have sub: "set ?m \<subseteq> set w" "length ?m \<le> length w"
    using collapse_facts(2,4) [of w] by (auto simp: mangled_def trim_slash_def dest: in_set_butlastD)
  then have "list_all not_whitespace ?m" "length ?m \<le> 255" "\<not> not_whitespace 0"
    using assms(1,3) by (auto simp: list_all_iff not_whitespace_def)
  then show ?thesis using generic_mangle_ok [OF assms(1-4,6)] generic_mangle_ok [of ?m 0 dst' 256 j'] assms(5) mm by simp
qed

theorem generic_mangle_normal_form_witness:
  "generic_mangle_name (replicate 256 0xcc) ([0x2f, 0x2f, 0x61, 0x2f] @ 0x20 # []) = Some ([0x2f, 0x61] @ replicate 253 0 @ [0xcc])"
proof -
  have m: "mangled [0x2f, 0x2f, 0x61, 0x2f] = [0x2f, 0x61]" by (simp add: mangled_def trim_slash_def slash_def)
  have w: "list_all not_whitespace [0x2f, 0x2f, 0x61, 0x2f]" "\<not> not_whitespace 0x20" "length [0x2f, 0x2f, 0x61, 0x2f :: u8] \<le> 255"
    by (simp_all add: not_whitespace_def)
  have l: "256 \<le> length (replicate 256 (0xcc :: u8))" unfolding length_replicate by (rule order_refl)
  have T: "255 = 256 - (length [0x2f, 0x2f, 0x61, 0x2f :: u8] - length (collapse [0x2f, 0x2f, 0x61, 0x2f]))" by (simp add: slash_def)
  have d: "drop 255 (replicate 256 (0xcc :: u8)) = [0xcc]" "255 - length [0x2f, 0x61 :: u8] = 253" unfolding drop_replicate by simp_all
  show ?thesis using generic_mangle_normal_form [OF w l l T, of "[]" "[]", THEN conjunct1] unfolding m d .
qed


section \<open>The example tree\<close>

lemma demo_ready: "ready demo_ops (\<lambda>_. True) demo_look demo_target demo_alloc demo_inew demo_vfs [core demo_root] [core demo_root] 0"
  unfolding ready_def using demo_tree demo_alloc_ok demo_inew_ok demo_counted demo_given by simp

lemma demo_found: "found demo_look (core demo_root) [core demo_root]" "is_dir (core demo_root)" "is_dir (hd [core demo_root])"
  by (simp_all add: is_dir_def core_def demo_root_def)

lemma demo_path: "a_path [0x2f, 0x2e, 0x2f, 0x6c]" "a_path [0x64, 0x2f, 0x2e, 0x2e, 0x2f, 0x64]"
  by (simp_all add: a_path_def)

theorem realpath_roundtrip_witness:
  "\<exists>st'. realpath demo_ops demo_alloc demo_inew [1, 2, 3, 4] [0x2f, 0x2e, 0x2f, 0x6c, 0] 4 demo_vfs = Some (st', [0x2f, 0x61, 0, 4], 2) \<and> counted {#} st'"
proof -
  have "op_realpath demo_ops = None" by (simp add: demo_ops_def)
  from realpath_roundtrip [OF demo_ready demo_path(1) this demo_found, of 4 "[1, 2, 3, 4]" "[]"]
  show ?thesis unfolding demo_resolve option.case by (auto simp: full_path_def slash_def)
qed

lemma demo_resolve_dir:
  "resolve demo_look demo_target [core demo_root] 20 [core demo_root] [0x64, 0x2f, 0x2e, 0x2e, 0x2f, 0x64] =
     Some [demo_dir\<lparr>iname := Some [0x64, 0]\<rparr>, core demo_root]"
  by (simp add: resolve.simps name_part_def rest_part_def slash_def demo_look_def is_link_def is_dir_def demo_dir_def zero_inode_def Let_def)

theorem chdir_moves_or_undone_witness:
  "\<exists>st'. chdir demo_ops demo_alloc demo_inew (replicate 256 0xcc) [0x64, 0x2f, 0x2e, 0x2e, 0x2f, 0x64, 0] demo_vfs = Some (st', 0) \<and>
     counted {#} st' \<and> cwd_name st' = [0x2f, 0x64, 0x2f, 0]"
proof -
  have "op_chdir demo_ops = None" by (simp add: demo_ops_def)
  from chdir_moves_or_undone [OF demo_ready demo_path(2) this demo_found, of "replicate 256 0xcc" "[]"]
  show ?thesis
    unfolding demo_resolve_dir option.case by (auto simp: is_dir_def demo_dir_def slash_def demo_vfs_def)
qed

text \<open>
  A path of more than 256 bytes, and the size \<open>- 1\<close> of a path that could not be made, lead the last steps of
  \<open>chdir\<close> outside the local buffer.
\<close>

lemma save_cwd_name_overrun: "length buf = 256 \<Longrightarrow> 256 < unat s \<Longrightarrow> save_cwd_name buf s cwd = None"
proof -
  assume a: "length buf = 256" "256 < unat s"
  then have "\<not> s < 1" "unat (s - 1) = unat s - 1" by (auto simp: word_less_nat_alt unat_sub word_le_nat_alt)
  then show ?thesis using a by (simp add: save_cwd_name_def rd_def)
qed

end
