(* ===== verification/Ext2map.thy ===== *)
theory Ext2map
  imports Fatdir
begin

text \<open>
  The block map of ext2, ext3 and ext4: \<open>libcore/fs/ext2/bmap.c\<close> with the data of \<open>ext2_fs.h\<close>.

  The private part of an inode is its 60 bytes \<open>i_block\<close>: 15 block numbers, or the root node of an extent
  tree.  A node of the tree, in the inode or in a block, is read as bytes: a header of 12 bytes, then
  entries of 12 bytes each.  A read behind the bytes at hand gives \<open>None\<close>.  The optional pointer
  \<open>nblocks\<close> is an option: \<open>None\<close> for NULL, otherwise the value behind it.
\<close>

section \<open>Data\<close>

definition EXT2_NDIR_BLOCKS :: u32 where "EXT2_NDIR_BLOCKS = 12"
definition EXT2_IND_BLOCK :: nat where "EXT2_IND_BLOCK = 12"
definition EXT2_DIND_BLOCK :: nat where "EXT2_DIND_BLOCK = 13"
definition EXT2_TIND_BLOCK :: nat where "EXT2_TIND_BLOCK = 14"
definition EXT4_EXT_MAGIC :: u16 where "EXT4_EXT_MAGIC = 0xf30a"
definition EXT4_EXTENTS_FLAG :: u32 where "EXT4_EXTENTS_FLAG = 0x00080000"

type_synonym ext2_pvt = bytes

definition i_block :: "ext2_pvt \<Rightarrow> nat \<Rightarrow> u32 option" where
  "i_block p k = rd32 p (4 * k)"

record ext4_extent_header =
  eh_magic :: u16
  eh_entries :: u16
  eh_max :: u16
  eh_depth :: u16
  eh_generation :: u32

definition extent_header :: "bytes \<Rightarrow> ext4_extent_header option" where
  "extent_header n =
     do { m \<leftarrow> rd16 n 0; e \<leftarrow> rd16 n 2; x \<leftarrow> rd16 n 4; d \<leftarrow> rd16 n 6; g \<leftarrow> rd32 n 8;
          Some \<lparr>eh_magic = m, eh_entries = e, eh_max = x, eh_depth = d, eh_generation = g\<rparr> }"

record ext4_extent_idx =
  ei_block :: u32
  ei_leaf_lo :: u32
  ei_leaf_hi :: u16
  ei_unused :: u16

text \<open>\<open>EXT4_FIRST_INDEX(eh)[i]\<close> and \<open>EXT4_FIRST_EXTENT(eh)[i]\<close>.\<close>

definition extent_idx :: "bytes \<Rightarrow> nat \<Rightarrow> ext4_extent_idx option" where
  "extent_idx n i =
     do { b \<leftarrow> rd32 n (12 + 12 * i); lo \<leftarrow> rd32 n (12 + 12 * i + 4); hi \<leftarrow> rd16 n (12 + 12 * i + 8); u \<leftarrow> rd16 n (12 + 12 * i + 10);
          Some \<lparr>ei_block = b, ei_leaf_lo = lo, ei_leaf_hi = hi, ei_unused = u\<rparr> }"

record ext4_extent =
  ee_block :: u32
  ee_len :: u16
  ee_start_hi :: u16
  ee_start_lo :: u32

definition extent_at :: "bytes \<Rightarrow> nat \<Rightarrow> ext4_extent option" where
  "extent_at n i =
     do { b \<leftarrow> rd32 n (12 + 12 * i); l \<leftarrow> rd16 n (12 + 12 * i + 4); hi \<leftarrow> rd16 n (12 + 12 * i + 6); lo \<leftarrow> rd32 n (12 + 12 * i + 8);
          Some \<lparr>ee_block = b, ee_len = l, ee_start_hi = hi, ee_start_lo = lo\<rparr> }"

section \<open>Extents\<close>

text \<open>The search loops: the first of \<open>n\<close> entries, from \<open>i\<close> on, that starts behind \<open>block\<close>.\<close>

fun scan_idx :: "bytes \<Rightarrow> u64 \<Rightarrow> nat \<Rightarrow> nat \<Rightarrow> nat option" where
  "scan_idx eh block i 0 = Some i"
| "scan_idx eh block i (Suc n) =
     do { x \<leftarrow> extent_idx eh i; if block < ucast (ei_block x) then Some i else scan_idx eh block (i + 1) n }"

fun scan_ext :: "bytes \<Rightarrow> u32 \<Rightarrow> nat \<Rightarrow> nat \<Rightarrow> nat option" where
  "scan_ext eh block i 0 = Some i"
| "scan_ext eh block i (Suc n) =
     do { x \<leftarrow> extent_at eh i; if block < ee_block x then Some i else scan_ext eh block (i + 1) n }"

text \<open>The loop down the tree does not look at how the depth changes, so it may not end.\<close>

partial_function (option) ext4_find_leaf ::
  "('d \<Rightarrow> u64 \<Rightarrow> u32 \<Rightarrow> 'd \<times> bytes) \<Rightarrow> u32 \<Rightarrow> 'd device \<Rightarrow> bytes \<Rightarrow> u64 \<Rightarrow> ('d device \<times> bytes option) option" where
  "ext4_find_leaf rdwr secsz dev eh block =
     do { h \<leftarrow> extent_header eh;
          if eh_magic h \<noteq> EXT4_EXT_MAGIC then Some (dev, None)
          else if eh_depth h = 0 then Some (dev, Some eh)
          else do { i \<leftarrow> scan_idx eh block 0 (unat (eh_entries h));
                    if i = 0 then Some (dev, None)
                    else do { x \<leftarrow> extent_idx eh (i - 1);
                              let blk = push_bit 32 (ucast (ei_leaf_hi x)) + ucast (ei_leaf_lo x);
                              (dev, eh) \<leftarrow> read_block rdwr secsz dev blk;
                              ext4_find_leaf rdwr secsz dev eh block } } }"

definition bmap_extent ::
  "('d \<Rightarrow> u64 \<Rightarrow> u32 \<Rightarrow> 'd \<times> bytes) \<Rightarrow> u32 \<Rightarrow> 'd device \<Rightarrow> ext2_pvt \<Rightarrow> u32 \<Rightarrow> u32 option \<Rightarrow>
   ('d device \<times> u64 \<times> u32 option) option" where
  "bmap_extent rdwr secsz dev p block nblocks =
     do { (dev, leaf) \<leftarrow> ext4_find_leaf rdwr secsz dev p (ucast block);
          case leaf of
            None \<Rightarrow> Some (dev, 0, nblocks)
          | Some leaf \<Rightarrow>
              do { h \<leftarrow> extent_header leaf;
                   i \<leftarrow> scan_ext leaf block 0 (unat (eh_entries h));
                   if i = 0 then Some (dev, 0, nblocks)
                   else do { x \<leftarrow> extent_at leaf (i - 1);
                             let block = block - ee_block x;
                             if ucast (ee_len x) \<le> block then Some (dev, 0, nblocks)
                             else let first = push_bit 32 (ucast (ee_start_hi x)) + ucast (ee_start_lo x)
                                  in Some (dev, first + ucast block, map_option (\<lambda>_. ucast (ee_len x) - block) nblocks) } } }"

section \<open>Block pointers\<close>

text \<open>The entries from \<open>i\<close> on that continue the run, at most \<open>n\<close>.\<close>

fun scan_run :: "bytes \<Rightarrow> nat \<Rightarrow> u32 \<Rightarrow> u32 \<Rightarrow> nat \<Rightarrow> nat option" where
  "scan_run blk i nxt skip 0 = Some 0"
| "scan_run blk i nxt skip (Suc n) =
     do { v \<leftarrow> rd32 blk (4 * i); if v = nxt then map_option Suc (scan_run blk (i + 1) (nxt + skip) skip n) else Some 0 }"

definition scan_set_nblocks :: "bytes \<Rightarrow> nat \<Rightarrow> u32 \<Rightarrow> u32 option \<Rightarrow> (u32 \<times> u32 option) option" where
  "scan_set_nblocks tbl i count nblocks =
     do { blk \<leftarrow> rd32 tbl (4 * i);
          case nblocks of
            None \<Rightarrow> Some (blk, None)
          | Some _ \<Rightarrow>
              do { let skip = (if blk \<noteq> 0 then 1 else 0);
                   c \<leftarrow> scan_run tbl (i + 1) (blk + skip) skip (unat (count - 1));
                   Some (blk, Some (of_nat (c + 1))) } }"

definition addr_count :: "fs_info \<Rightarrow> u32" where
  "addr_count fs = push_bit (block_shift fs - 2) 1"

text \<open>\<open>blk\<close> and \<open>index\<close> are those of the level above.\<close>

fun indirect_loop ::
  "('d \<Rightarrow> u64 \<Rightarrow> u32 \<Rightarrow> 'd \<times> bytes) \<Rightarrow> u32 \<Rightarrow> fs_info \<Rightarrow> 'd device \<Rightarrow> u32 \<Rightarrow> u32 \<Rightarrow> nat \<Rightarrow> bytes \<Rightarrow> u32 \<Rightarrow> u32 option \<Rightarrow>
   ('d device \<times> u64 \<times> u32 option) option" where
  "indirect_loop rdwr secsz fs dev first block 0 blk index nblocks =
     do { (b, nblocks) \<leftarrow> scan_set_nblocks blk (unat index) (addr_count fs - index) nblocks;
          Some (dev, ucast b, nblocks) }"
| "indirect_loop rdwr secsz fs dev first block (Suc levels) blk index nblocks =
     (if first = 0 then Some (dev, 0, map_option (\<lambda>_. push_bit (levels * (block_shift fs - 2)) (addr_count fs)) nblocks)
      else do { (dev, blk) \<leftarrow> read_block rdwr secsz dev (ucast first);
                let index = drop_bit (levels * (block_shift fs - 2)) block AND (addr_count fs - 1);
                first \<leftarrow> rd32 blk (4 * unat index);
                indirect_loop rdwr secsz fs dev first block levels blk index nblocks })"

definition bmap_indirect ::
  "('d \<Rightarrow> u64 \<Rightarrow> u32 \<Rightarrow> 'd \<times> bytes) \<Rightarrow> u32 \<Rightarrow> fs_info \<Rightarrow> 'd device \<Rightarrow> u32 \<Rightarrow> u32 \<Rightarrow> nat \<Rightarrow> u32 option \<Rightarrow>
   ('d device \<times> u64 \<times> u32 option) option" where
  "bmap_indirect rdwr secsz fs dev first block levels nblocks =
     indirect_loop rdwr secsz fs dev first block levels [] 0 nblocks"

definition bmap_traditional ::
  "('d \<Rightarrow> u64 \<Rightarrow> u32 \<Rightarrow> 'd \<times> bytes) \<Rightarrow> u32 \<Rightarrow> fs_info \<Rightarrow> 'd device \<Rightarrow> ext2_pvt \<Rightarrow> u64 \<Rightarrow> u32 option \<Rightarrow>
   ('d device \<times> u64 \<times> u32 option) option" where
  "bmap_traditional rdwr secsz fs dev p block nblocks =
     (let addr_per_block = drop_bit 2 (block_size fs);
          shft_per_block = block_shift fs - 2;
          direct_blocks = EXT2_NDIR_BLOCKS;
          indirect_blocks = addr_per_block;
          double_blocks = push_bit shft_per_block addr_per_block;
          triple_blocks = push_bit shft_per_block double_blocks
      in if block < ucast direct_blocks
         then do { (b, nblocks) \<leftarrow> scan_set_nblocks p (unat block) (direct_blocks - ucast block) nblocks;
                   Some (dev, ucast b, nblocks) }
         else let block = block - ucast direct_blocks
         in if block < ucast indirect_blocks
         then do { s \<leftarrow> i_block p EXT2_IND_BLOCK; bmap_indirect rdwr secsz fs dev s (ucast block) 1 nblocks }
         else let block = block - ucast indirect_blocks
         in if block < ucast double_blocks
         then do { s \<leftarrow> i_block p EXT2_DIND_BLOCK; bmap_indirect rdwr secsz fs dev s (ucast block) 2 nblocks }
         else let block = block - ucast double_blocks
         in if block < ucast triple_blocks
         then do { s \<leftarrow> i_block p EXT2_TIND_BLOCK; bmap_indirect rdwr secsz fs dev s (ucast block) 3 nblocks }
         else Some (dev, 0, nblocks))"

section \<open>The map\<close>

definition ext2_bmap ::
  "('d \<Rightarrow> u64 \<Rightarrow> u32 \<Rightarrow> 'd \<times> bytes) \<Rightarrow> u32 \<Rightarrow> fs_info \<Rightarrow> 'd device \<Rightarrow> ext2_pvt inode \<Rightarrow> u64 \<Rightarrow> u32 option \<Rightarrow>
   ('d device \<times> u64 \<times> u32 option) option" where
  "ext2_bmap rdwr secsz fs dev inode block nblocks =
     (if iflags inode AND EXT4_EXTENTS_FLAG \<noteq> 0
      then bmap_extent rdwr secsz dev (pvt inode) (ucast block) nblocks
      else bmap_traditional rdwr secsz fs dev (pvt inode) block nblocks)"

definition ext2_next_extent ::
  "('d \<Rightarrow> u64 \<Rightarrow> u32 \<Rightarrow> 'd \<times> bytes) \<Rightarrow> u32 \<Rightarrow> fs_info \<Rightarrow> 'd device \<Rightarrow> ext2_pvt inode \<Rightarrow> u32 \<Rightarrow>
   ('d device \<times> ext2_pvt inode \<times> int) option" where
  "ext2_next_extent rdwr secsz fs dev inode lst =
     do { let blktosec = block_shift fs - sector_shift fs;
          let blkmask = (push_bit blktosec 1 - 1 :: u32);
          (dev, block, nblocks) \<leftarrow> ext2_bmap rdwr secsz fs dev inode (ucast (drop_bit blktosec lst)) (Some 0);
          n \<leftarrow> nblocks;
          let ps = (if block = 0 then EXTENT_ZERO else push_bit blktosec block OR ucast (lst AND blkmask));
          let x = (next_extent inode)\<lparr>pstart := ps, xlen := push_bit blktosec n - (lst AND blkmask)\<rparr>;
          Some (dev, inode\<lparr>next_extent := x\<rparr>, 0) }"


section \<open>The reference map\<close>

text \<open>
  Cached blocks of \<open>bs\<close> bytes.  The reference walks the tables by division: level \<open>k\<close> of the tree below
  \<open>first\<close> holds \<open>A ^ k\<close> blocks, \<open>A\<close> pointers in a block; 0 is a hole.
\<close>

definition blocks_cached ::
  "u32 \<Rightarrow> nat \<Rightarrow> ('d \<Rightarrow> bool) \<Rightarrow> (u64 \<Rightarrow> bytes) \<Rightarrow> (u64 \<Rightarrow> bytes) \<Rightarrow> u16 \<Rightarrow> 'd device \<Rightarrow> bool" where
  "blocks_cached secsz nsec dinv sector content bs dev \<longleftrightarrow>
     cache_block_size dev = bs \<and> (\<exists>xs. cache_ready secsz nsec dinv sector content dev xs)"

definition word_at :: "bytes \<Rightarrow> nat \<Rightarrow> u32" where
  "word_at b i = le32_of (b ! (4 * i)) (b ! (4 * i + 1)) (b ! (4 * i + 2)) (b ! (4 * i + 3))"

lemma rd32_word_at: "4 * i + 3 < length b \<Longrightarrow> rd32 b (4 * i) = Some (word_at b i)"
  by (simp add: rd32_in word_at_def)

fun walk_map :: "(u64 \<Rightarrow> bytes) \<Rightarrow> nat \<Rightarrow> nat \<Rightarrow> u32 \<Rightarrow> nat \<Rightarrow> u32" where
  "walk_map content A 0 first l = first"
| "walk_map content A (Suc k) first l =
     (if first = 0 then 0 else walk_map content A k (word_at (content (ucast first)) (l div A ^ k mod A)) l)"

text \<open>The blocks on the way to \<open>l\<close> are inside the partition.\<close>

fun walk_ok :: "(u64 \<Rightarrow> bytes) \<Rightarrow> (u64 \<Rightarrow> bool) \<Rightarrow> nat \<Rightarrow> nat \<Rightarrow> u32 \<Rightarrow> nat \<Rightarrow> bool" where
  "walk_ok content V A 0 first l \<longleftrightarrow> True"
| "walk_ok content V A (Suc k) first l \<longleftrightarrow>
     first \<noteq> 0 \<longrightarrow> V (ucast first) \<and> walk_ok content V A k (word_at (content (ucast first)) (l div A ^ k mod A)) l"

text \<open>The size of the subtree that is missing on the way to \<open>l\<close>, or 0.\<close>

fun hole_size :: "(u64 \<Rightarrow> bytes) \<Rightarrow> nat \<Rightarrow> nat \<Rightarrow> u32 \<Rightarrow> nat \<Rightarrow> nat" where
  "hole_size content A 0 first l = 0"
| "hole_size content A (Suc k) first l =
     (if first = 0 then A ^ Suc k else hole_size content A k (word_at (content (ucast first)) (l div A ^ k mod A)) l)"

context block_device begin

lemma read_cached:
  assumes "blocks_cached secsz nsec dinv sector content bs dev" "valid_block secsz nsec bs b"
  obtains dev' where "read_block rdwr secsz dev b = Some (dev', content b)" "blocks_cached secsz nsec dinv sector content bs dev'"
proof -
  from assms(1) obtain xs where R: "cache_ready secsz nsec dinv sector content dev xs" and bs: "cache_block_size dev = bs"
    by (auto simp: blocks_cached_def)
  from read_block_step [OF R, of b] assms(2) bs obtain dev' ys where
    "read_block rdwr secsz dev b = Some (dev', content b)" "cache_ready secsz nsec dinv sector content dev' ys"
    "cache_block_size dev' = cache_block_size dev" by metis
  then show thesis using that bs by (auto simp: blocks_cached_def)
qed

end

lemma scan_run_ok:
  "4 * (i + n) \<le> length b \<Longrightarrow> \<exists>c. scan_run b i nxt skip n = Some c \<and> c \<le> n \<and> (\<forall>j<c. word_at b (i + j) = nxt + of_nat j * skip)"
proof (induction n arbitrary: i nxt)
  case (Suc n)
  have r: "rd32 b (4 * i) = Some (word_at b i)" by (rule rd32_word_at) (use Suc.prems in simp)
  show ?case
  proof (cases "word_at b i = nxt")
    case True
    from Suc.IH [of "i + 1" "nxt + skip"] Suc.prems obtain c where c: "scan_run b (i + 1) (nxt + skip) skip n = Some c" "c \<le> n"
      "\<forall>j<c. word_at b (i + 1 + j) = nxt + skip + of_nat j * skip" by auto
    have "word_at b (i + j) = nxt + of_nat j * skip" if "j < Suc c" for j
      using that c(3) True by (cases j) (auto simp: algebra_simps)
    then show ?thesis using r True c by auto
  next
    case False
    then show ?thesis using r by simp
  qed
qed simp

text \<open>The run that \<open>scan_set_nblocks\<close> counts: holes, or consecutive blocks.\<close>

definition run_from :: "bytes \<Rightarrow> nat \<Rightarrow> nat \<Rightarrow> bool" where
  "run_from b i c \<longleftrightarrow> 1 \<le> c \<and> (\<forall>j<c. word_at b (i + j) = (if word_at b i = 0 then 0 else word_at b i + of_nat j))"

lemma scan_set_nblocks_ok:
  assumes "4 * (i + unat count) \<le> length b" "1 \<le> unat count"
  shows "\<exists>c. scan_set_nblocks b i count nb = Some (word_at b i, map_option (\<lambda>_. of_nat c) nb) \<and> c \<le> unat count \<and> run_from b i c"
proof -
  let ?skip = "if word_at b i \<noteq> 0 then 1 else 0 :: u32"
  have r: "rd32 b (4 * i) = Some (word_at b i)" by (rule rd32_word_at) (use assms in simp)
  have u: "unat (count - 1) = unat count - 1" using assms(2) by (simp add: unat_sub word_le_nat_alt)
  obtain c where c: "scan_run b (i + 1) (word_at b i + ?skip) ?skip (unat (count - 1)) = Some c" "c \<le> unat (count - 1)"
    "\<forall>j<c. word_at b (i + 1 + j) = word_at b i + ?skip + of_nat j * ?skip"
    using scan_run_ok [of "i + 1" "unat (count - 1)" b "word_at b i + ?skip" ?skip] assms u by auto
  have "word_at b (i + j) = (if word_at b i = 0 then 0 else word_at b i + of_nat j)" if "j < c + 1" for j
    using that c(3) by (cases j) (auto simp: algebra_simps)
  then have "run_from b i (c + 1)" by (simp add: run_from_def)
  moreover have "c + 1 \<le> unat count" using c(2) u assms(2) by simp
  ultimately show ?thesis using r c(1) by (intro exI [of _ "c + 1"]) (cases nb; simp add: scan_set_nblocks_def Let_def)
qed


lemma div_same:
  assumes "h dvd d" "(l :: nat) mod h + j < h"
  shows "(l + j) div d = l div d"
proof -
  obtain e where d: "d = h * e" using assms(1) by (elim dvdE)
  have "(l + j) div h = l div h"
  proof (rule div_nat_eqI)
    have "h * (l div h) + l mod h = l" by (rule mult_div_mod_eq)
    then show "h * (l div h) \<le> l + j" "l + j < h * Suc (l div h)" using assms(2) unfolding mult_Suc_right by linarith+
  qed
  then show ?thesis unfolding d by (simp add: div_mult2_eq)
qed

lemma walk_map_hole:
  assumes "1 < A"
  shows "hole_size content A k first l = h \<Longrightarrow> h \<noteq> 0 \<Longrightarrow> l mod h + j < h \<Longrightarrow> walk_map content A k first (l + j) = 0"
proof (induction k arbitrary: first)
  case (Suc k)
  show ?case
  proof (cases "first = 0")
    case False
    let ?f = "word_at (content (ucast first)) (l div A ^ k mod A)"
    have h: "hole_size content A k ?f l = h" using Suc.prems(1) False by simp
    have "\<exists>m\<le>k. h = A ^ m" using h Suc.prems(2)
    proof (induction k arbitrary: first)
      case (Suc k)
      then show ?case by (auto split: if_splits intro: le_SucI)
    qed simp
    then have "h dvd A ^ k" by (auto intro: le_imp_power_dvd)
    then have "(l + j) div A ^ k = l div A ^ k" using Suc.prems(3) by (rule div_same)
    then show ?thesis using Suc.IH [OF h Suc.prems(2,3)] by simp
  qed simp
qed simp


section \<open>The map is the reference\<close>

text \<open>A block of \<open>2 ^ s\<close> bytes holds \<open>2 ^ (s - 2)\<close> pointers.\<close>

definition ext2_blocks :: "fs_info \<Rightarrow> u16 \<Rightarrow> nat \<Rightarrow> bool" where
  "ext2_blocks fs bs A \<longleftrightarrow> 10 \<le> block_shift fs \<and> block_shift fs \<le> 12 \<and> block_size fs = push_bit (block_shift fs) 1 \<and>
     A = 2 ^ (block_shift fs - 2) \<and> unat bs = 4 * A"

lemma ext2_blocksD:
  assumes "ext2_blocks fs bs A"
  shows "1 < A" "A \<le> 1024" "unat (addr_count fs) = A" "addr_count fs = push_bit (block_shift fs - 2) 1"
    "unat (addr_count fs - 1) = A - 1"
proof -
  let ?a = "block_shift fs - 2"
  have a: "8 \<le> ?a" "?a \<le> 10" "A = 2 ^ ?a" using assms by (auto simp: ext2_blocks_def)
  have "(2 :: nat) ^ 8 \<le> 2 ^ ?a" "(2 :: nat) ^ ?a \<le> 2 ^ 10" using a(1,2) by (intro power_increasing; simp)+
  then show A: "1 < A" "A \<le> 1024" using a(3) by simp_all
  have "unat (push_bit ?a 1 :: u32) = 2 ^ ?a mod 2 ^ 32" by (simp only: unat_push_bit) simp
  then show u: "unat (addr_count fs) = A" using A(2) a(3) by (simp add: addr_count_def)
  show "addr_count fs = push_bit ?a 1" by (simp add: addr_count_def)
  show "unat (addr_count fs - 1) = A - 1" using u A by (simp add: unat_sub word_le_nat_alt)
qed

lemma index_value:
  assumes "ext2_blocks fs bs A"
  shows "unat (drop_bit (k * (block_shift fs - 2)) block AND (addr_count fs - 1)) = unat (block :: u32) div A ^ k mod A"
proof -
  let ?a = "block_shift fs - 2"
  have A: "A = 2 ^ ?a" using assms by (simp add: ext2_blocks_def)
  have "addr_count fs - 1 = mask ?a" by (simp add: ext2_blocksD(4) [OF assms] mask_eq_exp_minus_1 push_bit_eq_mult)
  then have "drop_bit (k * ?a) block AND (addr_count fs - 1) = take_bit ?a (drop_bit (k * ?a) block)"
    by (simp add: take_bit_eq_mask)
  moreover have "unat (take_bit ?a (drop_bit (k * ?a) block)) = unat (drop_bit (k * ?a) block) mod 2 ^ ?a"
    by (simp only: unsigned_take_bit_eq) (simp only: take_bit_eq_mod)
  moreover have "unat (drop_bit (k * ?a) block) = unat block div 2 ^ (k * ?a)"
    by (simp only: unat_drop_bit_eq) (simp only: drop_bit_eq_div)
  moreover have "2 ^ (k * ?a) = A ^ k" unfolding A by (simp add: power_mult [symmetric] mult.commute)
  ultimately show ?thesis using A by simp
qed

lemma hole_count:
  assumes "ext2_blocks fs bs A" "k \<le> 2"
  shows "unat (push_bit (k * (block_shift fs - 2)) (addr_count fs)) = A ^ Suc k"
proof -
  let ?a = "block_shift fs - 2"
  have A: "A = 2 ^ ?a" "?a \<le> 10" using assms by (auto simp: ext2_blocks_def)
  have "Suc k * ?a \<le> 3 * 10" using assms(2) A(2) by (intro mult_le_mono) simp_all
  then have l: "(2 :: nat) ^ (Suc k * ?a) \<le> 2 ^ 30" by (intro power_increasing) simp_all
  have e: "A * 2 ^ (k * ?a) = 2 ^ (Suc k * ?a)" "A ^ Suc k = 2 ^ (Suc k * ?a)"
    unfolding A(1) by (simp_all add: power_mult [symmetric] power_add [symmetric] mult.commute add.commute)
  have "unat (push_bit (k * ?a) (addr_count fs)) = 2 ^ (Suc k * ?a) mod 2 ^ 32"
    by (simp only: unat_push_bit ext2_blocksD(3) [OF assms(1)] e(1)) simp
  also have "\<dots> = 2 ^ (Suc k * ?a)" by (rule mod_less, rule le_less_trans [OF l]) simp
  finally show ?thesis unfolding e(2) .
qed

context block_device begin

lemma read_cached_len:
  assumes "blocks_cached secsz nsec dinv sector content bs dev" "valid_block secsz nsec bs b"
  obtains dev' where "read_block rdwr secsz dev b = Some (dev', content b)" "blocks_cached secsz nsec dinv sector content bs dev'"
    "length (content b) = unat bs"
proof -
  obtain dev' where r: "read_block rdwr secsz dev b = Some (dev', content b)" "blocks_cached secsz nsec dinv sector content bs dev'"
    by (rule read_cached [OF assms])
  then obtain i where "rd_range (cache_data dev') i (unat bs) = Some (content b)"
    by (auto simp: read_block_def blocks_cached_def split: bind_splits)
  then have "i + unat bs \<le> length (cache_data dev') \<and> content b = take (unat bs) (drop i (cache_data dev'))"
    by (auto simp: rd_range_def split: if_splits)
  then have "length (content b) = unat bs" by (auto simp: min_def)
  then show thesis using that r by blast
qed

lemma indirect_loop_ok:
  assumes E: "ext2_blocks fs bs A" and k: "k \<le> 2"
    and C: "blocks_cached secsz nsec dinv sector content bs dev"
    and W: "walk_ok content (valid_block secsz nsec bs) A (Suc k) first (unat block)"
  shows "\<exists>dev' c. indirect_loop rdwr secsz fs dev first block (Suc k) blk index nb =
      Some (dev', ucast (walk_map content A (Suc k) first (unat block)), map_option (\<lambda>_. c) nb) \<and>
    blocks_cached secsz nsec dinv sector content bs dev' \<and> 1 \<le> unat c \<and>
    (let h = hole_size content A (Suc k) first (unat block); w = walk_map content A (Suc k) first (unat block)
     in if h \<noteq> 0 then unat c = h
        else unat c \<le> A - unat block mod A \<and>
          (\<forall>j<unat c. walk_map content A (Suc k) first (unat block + j) = (if w = 0 then 0 else w + of_nat j)))"
  using k C W
proof (induction k arbitrary: dev first blk index)
  case (0 dev first blk index)
  note A = ext2_blocksD [OF E]
  let ?l = "unat block"
  show ?case
  proof (cases "first = 0")
    case True
    then show ?thesis using 0 hole_count [OF E, of 0] A(1) by (auto simp: Let_def intro!: exI [of _ dev])
  next
    case False
    then have v: "valid_block secsz nsec bs (ucast first)" using 0 by simp
    obtain dev' where r: "read_block rdwr secsz dev (ucast first) = Some (dev', content (ucast first))"
      "blocks_cached secsz nsec dinv sector content bs dev'" "length (content (ucast first)) = unat bs"
      by (rule read_cached_len [OF 0(2) v])
    let ?b = "content (ucast first)" and ?i = "drop_bit (0 * (block_shift fs - 2)) block AND (addr_count fs - 1)"
    have i: "unat ?i = ?l mod A" using index_value [OF E, of 0 block] by simp
    have lb: "length ?b = 4 * A" using r(3) E by (simp add: ext2_blocks_def)
    have il: "?l mod A < A" using A(1) by simp
    then have il1: "Suc 0 \<le> A - ?l mod A" by simp
    have w: "rd32 ?b (4 * unat ?i) = Some (word_at ?b (?l mod A))" unfolding i by (rule rd32_word_at) (use lb il in simp)
    have cnt: "unat (addr_count fs - ?i) = A - ?l mod A"
      using A(3) i il by (subst unat_sub) (simp_all add: word_le_nat_alt)
    obtain c where c: "scan_set_nblocks ?b (unat ?i) (addr_count fs - ?i) nb = Some (word_at ?b (?l mod A), map_option (\<lambda>_. of_nat c) nb)"
      "c \<le> A - ?l mod A" "run_from ?b (?l mod A) c"
      using scan_set_nblocks_ok [of "unat ?i" "addr_count fs - ?i" ?b nb] lb il il1 unfolding cnt i by auto
    have cu: "unat (of_nat c :: u32) = c" using c(2) A(2) by (simp add: unat_of_nat)
    have "walk_map content A (Suc 0) first (?l + j) = (if word_at ?b (?l mod A) = 0 then 0 else word_at ?b (?l mod A) + of_nat j)" if "j < c" for j
    proof -
      have "?l mod A + j < A" using that c(2) il by simp
      then have "(?l + j) mod A = ?l mod A + j" by (metis mod_add_left_eq mod_less)
      then show ?thesis using c(3) that False by (simp add: run_from_def)
    qed
    moreover have "hole_size content A (Suc 0) first ?l = 0" using False by simp
    ultimately show ?thesis
      using r(1,2) w c(1,3) cu c(2) False by (auto simp: run_from_def Let_def intro!: exI [of _ dev'] exI [of _ "of_nat c"])
  qed
next
  case (Suc k dev first blk index)
  note A = ext2_blocksD [OF E]
  let ?l = "unat block"
  show ?case
  proof (cases "first = 0")
    case True
    have "1 \<le> A ^ Suc (Suc k)" using A(1) by simp
    then show ?thesis using True Suc.prems hole_count [OF E, of "Suc k"] by (auto simp: Let_def intro!: exI [of _ dev])
  next
    case False
    then have v: "valid_block secsz nsec bs (ucast first)" using Suc.prems by simp
    obtain dev' where r: "read_block rdwr secsz dev (ucast first) = Some (dev', content (ucast first))"
      "blocks_cached secsz nsec dinv sector content bs dev'" "length (content (ucast first)) = unat bs"
      by (rule read_cached_len [OF Suc.prems(2) v])
    let ?b = "content (ucast first)" and ?i = "drop_bit (Suc k * (block_shift fs - 2)) block AND (addr_count fs - 1)"
    have i: "unat ?i = ?l div A ^ Suc k mod A" by (rule index_value [OF E])
    let ?f = "word_at ?b (?l div A ^ Suc k mod A)"
    have lb: "length ?b = 4 * A" using r(3) E by (simp add: ext2_blocks_def)
    have il: "?l div A ^ Suc k mod A < A" using A(1) by simp
    have w: "rd32 ?b (4 * unat ?i) = Some ?f" unfolding i by (rule rd32_word_at) (use lb il in simp)
    have W': "walk_ok content (valid_block secsz nsec bs) A (Suc k) ?f ?l" using Suc.prems(3) False by simp
    from Suc.IH [OF _ r(2) W', of ?b ?i] Suc.prems(1) obtain dev2 c where IH:
      "indirect_loop rdwr secsz fs dev' ?f block (Suc k) ?b ?i nb = Some (dev2, ucast (walk_map content A (Suc k) ?f ?l), map_option (\<lambda>_. c) nb)"
      "blocks_cached secsz nsec dinv sector content bs dev2" "1 \<le> unat c"
      "let h = hole_size content A (Suc k) ?f ?l; w = walk_map content A (Suc k) ?f ?l
       in if h \<noteq> 0 then unat c = h
          else unat c \<le> A - ?l mod A \<and> (\<forall>j<unat c. walk_map content A (Suc k) ?f (?l + j) = (if w = 0 then 0 else w + of_nat j))" by auto
    have step: "indirect_loop rdwr secsz fs dev first block (Suc (Suc k)) blk index nb = indirect_loop rdwr secsz fs dev' ?f block (Suc k) ?b ?i nb"
      using False r(1) w by (subst indirect_loop.simps) (simp only: Let_def bind.bind_lunit prod.case if_False)
    have m: "walk_map content A (Suc (Suc k)) first ?l = walk_map content A (Suc k) ?f ?l"
      "hole_size content A (Suc (Suc k)) first ?l = hole_size content A (Suc k) ?f ?l"
      by (subst walk_map.simps, simp add: False) (subst hole_size.simps, simp add: False)
    have run: "walk_map content A (Suc (Suc k)) first (?l + j) = walk_map content A (Suc k) ?f (?l + j)" if "j < A - ?l mod A" for j
    proof -
      have "A dvd A ^ Suc k" "?l mod A + j < A" using that by auto
      then have "(?l + j) div A ^ Suc k = ?l div A ^ Suc k" by (rule div_same)
      then show ?thesis using False by (subst walk_map.simps) simp
    qed
    show ?thesis
    proof (intro exI conjI)
      show "indirect_loop rdwr secsz fs dev first block (Suc (Suc k)) blk index nb =
        Some (dev2, ucast (walk_map content A (Suc (Suc k)) first ?l), map_option (\<lambda>_. c) nb)" unfolding step m by (rule IH(1))
      show "blocks_cached secsz nsec dinv sector content bs dev2" "1 \<le> unat c" by (rule IH(2), rule IH(3))
      show "let h = hole_size content A (Suc (Suc k)) first ?l; w = walk_map content A (Suc (Suc k)) first ?l
        in if h \<noteq> 0 then unat c = h
          else unat c \<le> A - ?l mod A \<and> (\<forall>j<unat c. walk_map content A (Suc (Suc k)) first (?l + j) = (if w = 0 then 0 else w + of_nat j))"
        unfolding m using IH(4) run by (auto simp: Let_def simp del: walk_map.simps hole_size.simps)
    qed
  qed
qed

end


text \<open>The level of the tree a block of the file belongs to, and its number there.\<close>

definition locate :: "nat \<Rightarrow> nat \<Rightarrow> nat \<times> nat" where
  "locate A l =
     (if l < 12 then (0, l) else if l - 12 < A then (1, l - 12) else if l - 12 - A < A ^ 2 then (2, l - 12 - A)
      else (3, l - 12 - A - A ^ 2))"

definition file_root :: "bytes \<Rightarrow> nat \<Rightarrow> nat \<Rightarrow> u32" where
  "file_root p k rel = (if k = 0 then word_at p rel else word_at p (11 + k))"

definition file_block :: "(u64 \<Rightarrow> bytes) \<Rightarrow> nat \<Rightarrow> bytes \<Rightarrow> nat \<Rightarrow> u32" where
  "file_block content A p l = (case locate A l of (k, rel) \<Rightarrow> walk_map content A k (file_root p k rel) rel)"

definition file_ok :: "(u64 \<Rightarrow> bytes) \<Rightarrow> (u64 \<Rightarrow> bool) \<Rightarrow> nat \<Rightarrow> bytes \<Rightarrow> nat \<Rightarrow> bool" where
  "file_ok content V A p l \<longleftrightarrow> l < 12 + A + A ^ 2 + A ^ 3 \<and> (case locate A l of (k, rel) \<Rightarrow> walk_ok content V A k (file_root p k rel) rel)"

text \<open>The size in blocks of the missing subtree that block \<open>l\<close> of the file lies in (0 if all tables on the way are there), and the place of \<open>l\<close> in it.\<close>

definition hole_at :: "(u64 \<Rightarrow> bytes) \<Rightarrow> nat \<Rightarrow> bytes \<Rightarrow> nat \<Rightarrow> nat" where
  "hole_at content A p l = (case locate A l of (k, rel) \<Rightarrow> hole_size content A k (file_root p k rel) rel)"

definition hole_pos :: "(u64 \<Rightarrow> bytes) \<Rightarrow> nat \<Rightarrow> bytes \<Rightarrow> nat \<Rightarrow> nat" where
  "hole_pos content A p l = snd (locate A l) mod hole_at content A p l"

text \<open>The block does not lie inside a missing subtree, other than at its start.\<close>

definition at_hole_start :: "(u64 \<Rightarrow> bytes) \<Rightarrow> nat \<Rightarrow> bytes \<Rightarrow> nat \<Rightarrow> bool" where
  "at_hole_start content A p l \<longleftrightarrow>
     hole_at content A p l = 0 \<or> hole_pos content A p l = 0"

lemma locate_shift:
  assumes "locate A l = (k, rel)" "1 < A" "if k = 0 then rel + j < 12 else rel + j < A ^ k"
  shows "locate A (l + j) = (k, rel + j)"
proof (cases "l < 12")
  case True
  then show ?thesis using assms by (auto simp: locate_def split: if_splits)
next
  case False
  then show ?thesis using assms by (auto simp: locate_def split: if_splits)
qed

text \<open>The end of the last table on the way to the block, behind the block; and the end of what one extent may cover: that of the missing subtree, or of the table.\<close>

definition leaf_end :: "nat \<Rightarrow> nat \<Rightarrow> nat" where
  "leaf_end A l = (if l < 12 then 12 else 12 + A * ((l - 12) div A + 1))"

definition subtree_end :: "(u64 \<Rightarrow> bytes) \<Rightarrow> nat \<Rightarrow> bytes \<Rightarrow> nat \<Rightarrow> nat" where
  "subtree_end content A p l =
     (if hole_at content A p l = 0 then leaf_end A l else l - hole_pos content A p l + hole_at content A p l)"

lemma leaf_end_room:
  assumes "locate A l = (k, rel)" "1 \<le> k" "1 < A" "c \<le> A - rel mod A"
  shows "l + c \<le> leaf_end A l"
proof -
  have l: "\<not> l < 12" using assms(1,2) by (auto simp: locate_def split: if_splits)
  have r: "rel = l - 12 \<or> rel + A = l - 12 \<or> rel + A + A ^ 2 = l - 12"
    using assms(1,2) by (auto simp: locate_def split: if_splits)
  have "(rel + A + A ^ 2) mod A = rel mod A"
    by (simp add: power2_eq_square)
  then have "(l - 12) mod A = rel mod A" using r by (metis mod_add_self2)
  moreover have "A * ((l - 12) div A) + (l - 12) mod A = l - 12" by simp
  moreover have "rel mod A < A" using assms(3) by simp
  ultimately have "(l - 12) + c \<le> A * ((l - 12) div A) + A" using assms(4) by linarith
  then show ?thesis using l by (simp add: leaf_end_def)
qed

lemma hole_size_dvd: "hole_size content A k first l = h \<Longrightarrow> h \<noteq> 0 \<Longrightarrow> h dvd A ^ k"
proof (induction k arbitrary: first)
  case (Suc k)
  then show ?case by (auto split: if_splits intro: dvd_mult)
qed simp

context block_device begin

lemma bmap_indirect_ok:
  assumes E: "ext2_blocks fs bs A" and k: "1 \<le> k" "k \<le> 3"
    and C: "blocks_cached secsz nsec dinv sector content bs dev"
    and W: "walk_ok content (valid_block secsz nsec bs) A k first (unat block)" and l: "unat block < A ^ k"
  shows "\<exists>dev' c. bmap_indirect rdwr secsz fs dev first block k nb = Some (dev', ucast (walk_map content A k first (unat block)), map_option (\<lambda>_. c) nb) \<and>
    blocks_cached secsz nsec dinv sector content bs dev' \<and>
    (1 \<le> unat c \<and> (if hole_size content A k first (unat block) = 0 then unat c \<le> A - unat block mod A else unat c = hole_size content A k first (unat block))) \<and>
    (hole_size content A k first (unat block) = 0 \<or> unat block mod hole_size content A k first (unat block) = 0 \<longrightarrow>
      (\<forall>j<unat c. unat block + j < A ^ k \<and> walk_map content A k first (unat block + j) =
        (if walk_map content A k first (unat block) = 0 then 0 else walk_map content A k first (unat block) + of_nat j)))"
proof -
  obtain k' where k': "k = Suc k'" "k' \<le> 2" using k by (cases k) auto
  let ?l = "unat block" and ?h = "hole_size content A k first (unat block)"
  note A = ext2_blocksD(1) [OF E]
  obtain dev' c where r: "indirect_loop rdwr secsz fs dev first block k [] 0 nb = Some (dev', ucast (walk_map content A k first ?l), map_option (\<lambda>_. c) nb)"
    "blocks_cached secsz nsec dinv sector content bs dev'" "1 \<le> unat c"
    "let h = ?h; w = walk_map content A k first ?l
     in if h \<noteq> 0 then unat c = h
        else unat c \<le> A - ?l mod A \<and> (\<forall>j<unat c. walk_map content A k first (?l + j) = (if w = 0 then 0 else w + of_nat j))"
    using indirect_loop_ok [OF E k'(2) C, of first block "[]" 0 nb] W unfolding k'(1) by blast
  have run: "?l + j < A ^ k \<and> walk_map content A k first (?l + j) =
      (if walk_map content A k first ?l = 0 then 0 else walk_map content A k first ?l + of_nat j)"
    if j: "j < unat c" and al: "?h = 0 \<or> ?l mod ?h = 0" for j
  proof (cases "?h = 0")
    case True
    have c: "unat c \<le> A - ?l mod A" "\<forall>j<unat c. walk_map content A k first (?l + j) =
        (if walk_map content A k first ?l = 0 then 0 else walk_map content A k first ?l + of_nat j)"
      using r(4) True unfolding Let_def by simp_all
    have "?l mod A + j < A" using c(1) j A by linarith
    moreover have "A dvd A ^ k" using k'(1) by simp
    ultimately have "(?l + j) div A ^ k = ?l div A ^ k" by (intro div_same) auto
    then have "?l + j < A ^ k" using l A by (simp add: div_eq_0_iff)
    then show ?thesis using c(2) j by blast
  next
    case False
    then have m: "?l mod ?h = 0" "j < ?h" using al r(4) j by (auto simp: Let_def)
    then have "(?l + j) div A ^ k = ?l div A ^ k" using hole_size_dvd [OF refl False] by (intro div_same) auto
    then have "?l + j < A ^ k" using l A by (simp add: div_eq_0_iff)
    moreover have "walk_map content A k first (?l + i) = 0" if "i < ?h" for i
      by (rule walk_map_hole [OF A refl False]) (use m(1) that in simp)
    from this [of j] this [of 0] have "walk_map content A k first (?l + j) = 0" "walk_map content A k first ?l = 0" using m(2) by auto
    ultimately show ?thesis by simp
  qed
  have c: "1 \<le> unat c \<and> (if ?h = 0 then unat c \<le> A - ?l mod A else unat c = ?h)" using r(3,4) by (simp add: Let_def split: if_splits)
  show ?thesis unfolding bmap_indirect_def
    by (intro exI [of _ dev'] exI [of _ c] conjI [OF _ conjI, OF _ _ conjI] impI allI, rule r(1), rule r(2), rule c)
      (rule run)
qed

end


lemma traditional_sizes:
  assumes E: "ext2_blocks fs bs A"
  defines "a \<equiv> block_shift fs - 2"
  shows "unat (drop_bit 2 (block_size fs)) = A" "unat (push_bit a (drop_bit 2 (block_size fs))) = A ^ 2"
    "unat (push_bit a (push_bit a (drop_bit 2 (block_size fs)))) = A ^ 3" "A ^ 3 \<le> 2 ^ 30" "A ^ 2 \<le> 2 ^ 20"
proof -
  note A = ext2_blocksD [OF E]
  have s: "10 \<le> block_shift fs" "block_shift fs \<le> 12" "block_size fs = push_bit (block_shift fs) 1" "A = 2 ^ a"
    using E by (simp_all add: ext2_blocks_def a_def)
  have sh: "block_shift fs = a + 2" using s(1) by (simp add: a_def)
  have "A ^ 3 \<le> 1024 ^ 3" "A ^ 2 \<le> 1024 ^ 2" by (intro power_mono A(2); simp)+
  then show A3: "A ^ 3 \<le> 2 ^ 30" "A ^ 2 \<le> 2 ^ 20" by simp_all
  have "unat (block_size fs) = 2 ^ (a + 2) mod 2 ^ 32" unfolding s(3) sh by (simp only: unat_push_bit) simp
  also have "\<dots> = 4 * A" using A(2) s(4) by (simp add: power_add)
  finally have "unat (block_size fs) = 4 * A" .
  then show u: "unat (drop_bit 2 (block_size fs)) = A" by (simp only: unat_drop_bit_eq) (simp add: drop_bit_eq_div)
  have "A * 2 ^ a = A ^ 2" "A ^ 2 * 2 ^ a = A ^ 3" unfolding s(4) by (simp_all add: power2_eq_square power3_eq_cube)
  then show v: "unat (push_bit a (drop_bit 2 (block_size fs))) = A ^ 2"
    using u A3(2) by (simp add: unat_push_bit)
  show "unat (push_bit a (push_bit a (drop_bit 2 (block_size fs)))) = A ^ 3"
    using v A3(1) \<open>A ^ 2 * 2 ^ a = A ^ 3\<close> by (simp only: unat_push_bit [of a "push_bit a (drop_bit 2 (block_size fs))"]) simp
qed

lemma file_block_run:
  assumes "locate A l = (k, rel)" "1 < A" "\<forall>j<c. (if k = 0 then rel + j < 12 else rel + j < A ^ k) \<and>
      walk_map content A k (file_root p k (rel + j)) (rel + j) = (if w = 0 then 0 else w + of_nat j)"
  shows "\<forall>j<c. file_block content A p (l + j) = (if w = 0 then 0 else w + of_nat j)"
proof (intro allI impI)
  fix j assume "j < c"
  then have j: "if k = 0 then rel + j < 12 else rel + j < A ^ k"
    "walk_map content A k (file_root p k (rel + j)) (rel + j) = (if w = 0 then 0 else w + of_nat j)" using assms(3) by blast+
  show "file_block content A p (l + j) = (if w = 0 then 0 else w + of_nat j)"
    using locate_shift [OF assms(1,2) j(1)] j(2) by (simp add: file_block_def)
qed

context block_device begin

lemma bmap_tree_ok:
  assumes E: "ext2_blocks fs bs A" and C: "blocks_cached secsz nsec dinv sector content bs dev" and p: "length p = 60"
    and ok: "file_ok content (valid_block secsz nsec bs) A p l" and loc: "locate A l = (k, unat block)" "1 \<le> k" "k \<le> 3"
  shows "\<exists>dev' c. do { s \<leftarrow> i_block p (11 + k); bmap_indirect rdwr secsz fs dev s block k nb } =
      Some (dev', ucast (file_block content A p l), map_option (\<lambda>_. c) nb) \<and>
    blocks_cached secsz nsec dinv sector content bs dev' \<and>
    (1 \<le> unat c \<and> (if hole_at content A p l = 0 then l + unat c \<le> leaf_end A l else unat c = hole_at content A p l)) \<and>
    (at_hole_start content A p l \<longrightarrow> (\<forall>j<unat c. file_block content A p (l + j) =
        (if file_block content A p l = 0 then 0 else file_block content A p l + of_nat j)))"
proof -
  note A = ext2_blocksD(1) [OF E]
  let ?s = "word_at p (11 + k)" and ?l = "unat block"
  have s: "i_block p (11 + k) = Some ?s" "file_root p k r = ?s" for r
    using p loc(2,3) rd32_word_at [of "11 + k" p] by (simp_all add: i_block_def file_root_def)
  have l: "?l < A ^ k"
    using loc ok A by (auto simp: locate_def file_ok_def split: if_splits)
  have w: "walk_ok content (valid_block secsz nsec bs) A k ?s ?l" using ok loc s(2) by (simp add: file_ok_def)
  have fb: "file_block content A p l = walk_map content A k ?s ?l" using loc(1) s(2) by (simp add: file_block_def)
  have hs: "at_hole_start content A p l \<longleftrightarrow> hole_size content A k ?s ?l = 0 \<or> ?l mod hole_size content A k ?s ?l = 0"
    using loc(1) s(2) by (simp add: at_hole_start_def hole_at_def hole_pos_def)
  from bmap_indirect_ok [OF E loc(2,3) C w l, of nb] obtain dev' c where
    R: "bmap_indirect rdwr secsz fs dev ?s block k nb = Some (dev', ucast (walk_map content A k ?s ?l), map_option (\<lambda>_. c) nb) \<and>
      blocks_cached secsz nsec dinv sector content bs dev' \<and>
      (1 \<le> unat c \<and> (if hole_size content A k ?s ?l = 0 then unat c \<le> A - ?l mod A else unat c = hole_size content A k ?s ?l)) \<and>
      (hole_size content A k ?s ?l = 0 \<or> ?l mod hole_size content A k ?s ?l = 0 \<longrightarrow>
      (\<forall>j<unat c. ?l + j < A ^ k \<and> walk_map content A k ?s (?l + j) = (if walk_map content A k ?s ?l = 0 then 0 else walk_map content A k ?s ?l + of_nat j)))"
    by (elim exE)
  note r = R [THEN conjunct1] R [THEN conjunct2, THEN conjunct1] R [THEN conjunct2, THEN conjunct2, THEN conjunct1]
    R [THEN conjunct2, THEN conjunct2, THEN conjunct2]
  have run: "\<forall>j<unat c. file_block content A p (l + j) = (if walk_map content A k ?s ?l = 0 then 0 else walk_map content A k ?s ?l + of_nat j)"
    if "at_hole_start content A p l"
    by (rule file_block_run [OF loc(1) A]) (use r(4) that hs s(2) loc(2) in auto)
  show ?thesis unfolding fb
  proof (intro exI [of _ dev'] exI [of _ c] conjI [OF _ conjI, OF _ _ conjI] impI)
    show "do { s \<leftarrow> i_block p (11 + k); bmap_indirect rdwr secsz fs dev s block k nb } =
      Some (dev', ucast (walk_map content A k ?s ?l), map_option (\<lambda>_. c) nb)" using s(1) r(1) by simp
    show "blocks_cached secsz nsec dinv sector content bs dev'" by (rule r(2))
    have "hole_at content A p l = hole_size content A k ?s ?l" using loc(1) s(2) by (simp add: hole_at_def)
    then show "1 \<le> unat c \<and> (if hole_at content A p l = 0 then l + unat c \<le> leaf_end A l else unat c = hole_at content A p l)"
      using r(3) leaf_end_room [OF loc(1,2) A] by auto
  qed (rule run)
qed

lemma bmap_traditional_ok:
  assumes E: "ext2_blocks fs bs A" and C: "blocks_cached secsz nsec dinv sector content bs dev" and p: "length p = 60"
    and ok: "file_ok content (valid_block secsz nsec bs) A p (unat block)"
  shows "\<exists>dev' c. bmap_traditional rdwr secsz fs dev p block nb =
      Some (dev', ucast (file_block content A p (unat block)), map_option (\<lambda>_. c) nb) \<and>
    blocks_cached secsz nsec dinv sector content bs dev' \<and>
    (1 \<le> unat c \<and> (if hole_at content A p (unat block) = 0 then unat block + unat c \<le> leaf_end A (unat block)
      else unat c = hole_at content A p (unat block))) \<and>
    (at_hole_start content A p (unat block) \<longrightarrow> (\<forall>j<unat c. file_block content A p (unat block + j) =
        (if file_block content A p (unat block) = 0 then 0 else file_block content A p (unat block) + of_nat j)))"
proof -
  note A = ext2_blocksD [OF E] and S = traditional_sizes [OF E]
  let ?l = "unat block" and ?d = "drop_bit 2 (block_size fs)"
  have lt: "block < ucast w \<longleftrightarrow> unat block < unat w" for block :: u64 and w :: u32
    by (simp add: word_less_nat_alt unat_ucast_up)
  have low: "unat (ucast x :: u32) = unat x" if "unat x < 2 ^ 32" for x :: u64
    using that by (simp add: unat_ucast_mod)
  have sub: "unat (x - ucast w) = unat x - unat w" if "\<not> unat x < unat w" for x :: u64 and w :: u32
    using that by (subst unat_sub) (simp_all add: word_le_nat_alt unat_ucast_up)
  show ?thesis
  proof (cases "?l < 12")
    case True
    have d12: "unat EXT2_NDIR_BLOCKS = 12" by (simp add: EXT2_NDIR_BLOCKS_def)
    have "unat (EXT2_NDIR_BLOCKS - ucast block) = 12 - ?l"
      using True low [of block] d12 by (subst unat_sub) (simp_all add: word_le_nat_alt)
    note d = this d12
    have "Suc 0 \<le> 12 - ?l" using True by simp
    then obtain c where c: "scan_set_nblocks p ?l (EXT2_NDIR_BLOCKS - ucast block) nb = Some (word_at p ?l, map_option (\<lambda>_. of_nat c) nb)"
      "c \<le> 12 - ?l" "run_from p ?l c"
      using scan_set_nblocks_ok [of ?l "EXT2_NDIR_BLOCKS - ucast block" p nb] True p unfolding d by auto
    have loc: "locate A ?l = (0, ?l)" using True by (simp add: locate_def)
    have fb: "file_block content A p ?l = word_at p ?l" using loc by (simp add: file_block_def file_root_def)
    have cu: "unat (of_nat c :: u32) = c" using c(2) by (simp add: unat_of_nat)
    have "\<forall>j<c. file_block content A p (?l + j) = (if word_at p ?l = 0 then 0 else word_at p ?l + of_nat j)"
      by (rule file_block_run [OF loc A(1)]) (use c(2,3) True in \<open>auto simp: file_root_def run_from_def\<close>)
    moreover have "bmap_traditional rdwr secsz fs dev p block nb = Some (dev, ucast (word_at p ?l), map_option (\<lambda>_. of_nat c) nb)"
      using True d(2) c(1) lt [of block EXT2_NDIR_BLOCKS] by (simp add: bmap_traditional_def Let_def)
    moreover have "c \<le> 12" "?l + c \<le> 12" using c(2) True by linarith+
    ultimately show ?thesis using C c(3) cu True unfolding fb by (intro exI [of _ dev] exI [of _ "of_nat c"]) (simp add: run_from_def leaf_end_def hole_at_def loc)
  next
    case n0: False
    have d: "unat (EXT2_NDIR_BLOCKS :: u32) = 12" by (simp add: EXT2_NDIR_BLOCKS_def)
    let ?b1 = "block - ucast EXT2_NDIR_BLOCKS"
    have b1: "unat ?b1 = ?l - 12" using sub [of block EXT2_NDIR_BLOCKS] n0 d by simp
    let ?b2 = "?b1 - ucast ?d" and ?dd = "push_bit (block_shift fs - 2) ?d"
    let ?b3 = "?b2 - ucast ?dd" and ?ddd = "push_bit (block_shift fs - 2) (push_bit (block_shift fs - 2) ?d)"
    have e: "bmap_traditional rdwr secsz fs dev p block nb =
      (if ?l - 12 < A then do { s \<leftarrow> i_block p (11 + 1); bmap_indirect rdwr secsz fs dev s (ucast ?b1) 1 nb }
       else if ?l - 12 - A < A ^ 2 then do { s \<leftarrow> i_block p (11 + 2); bmap_indirect rdwr secsz fs dev s (ucast ?b2) 2 nb }
       else if ?l - 12 - A - A ^ 2 < A ^ 3 then do { s \<leftarrow> i_block p (11 + 3); bmap_indirect rdwr secsz fs dev s (ucast ?b3) 3 nb }
       else Some (dev, 0, nb))" (is "_ = ?rhs")
    proof -
      have b2: "unat ?b2 = ?l - 12 - A" if "\<not> ?l - 12 < A" using sub [of ?b1 ?d] b1 S(1) that by simp
      have b3: "unat ?b3 = ?l - 12 - A - A ^ 2" if "\<not> ?l - 12 < A" "\<not> ?l - 12 - A < A ^ 2"
        using sub [of ?b2 ?dd] b2 S(2) that by simp
      show ?thesis
        using n0 d b1 b2 b3 S(1-3) by (simp add: bmap_traditional_def Let_def lt EXT2_IND_BLOCK_def EXT2_DIND_BLOCK_def EXT2_TIND_BLOCK_def)
    qed
    have m: "?l < 12 + A + A ^ 2 + A ^ 3" using ok by (simp add: file_ok_def)
    note le = order_refl [of "1 :: nat"] order_refl [of "3 :: nat"]
    have le': "(1 :: nat) \<le> 3" "(1 :: nat) \<le> 2" "(2 :: nat) \<le> 3" by simp_all
    have "0 < A ^ 3" using A(1) by simp
    then have m3: "?l - 12 - A - A ^ 2 < A ^ 3" using m n0 by linarith
    then consider (one) "?l - 12 < A" | (two) "\<not> ?l - 12 < A" "?l - 12 - A < A ^ 2"
      | (three) "\<not> ?l - 12 < A" "\<not> ?l - 12 - A < A ^ 2" "?l - 12 - A - A ^ 2 < A ^ 3" by blast
    then show ?thesis
    proof cases
      case one
      have "locate A ?l = (1, unat (ucast ?b1 :: u32))"
        using one n0 low [of ?b1] b1 A(2) by (simp add: locate_def)
      from bmap_tree_ok [OF E C p ok this le(1) le'(1), of nb] show ?thesis unfolding e if_P [OF one] .
    next
      case two
      have "unat ?b2 = ?l - 12 - A" using sub [of ?b1 ?d] b1 S(1) two(1) by simp
      then have "locate A ?l = (2, unat (ucast ?b2 :: u32))"
        using two n0 low [of ?b2] S(5) by (simp add: locate_def)
      from bmap_tree_ok [OF E C p ok this le'(2,3), of nb] show ?thesis
        unfolding e if_not_P [OF two(1)] if_P [OF two(2)] .
    next
      case three
      have b2: "unat ?b2 = ?l - 12 - A" using sub [of ?b1 ?d] b1 S(1) three(1) by simp
      have "unat ?b3 = ?l - 12 - A - A ^ 2" using sub [of ?b2 ?dd] b2 S(2) three by simp
      then have "locate A ?l = (3, unat (ucast ?b3 :: u32))"
        using three n0 low [of ?b3] S(4) by (simp add: locate_def)
      from bmap_tree_ok [OF E C p ok this le'(1) le(2), of nb] show ?thesis
        unfolding e if_not_P [OF three(1)] if_not_P [OF three(2)] if_P [OF three(3)] .
    qed
  qed
qed

end


lemma unat_push_or:
  fixes x y :: "'a :: len word"
  assumes "unat y < 2 ^ n" "unat x * 2 ^ n + unat y < 2 ^ LENGTH('a)"
  shows "unat (push_bit n x OR y) = unat x * 2 ^ n + unat y"
proof -
  have "push_bit n x AND y = 0"
  proof (rule bit_word_eqI)
    fix k assume "k < LENGTH('a)"
    have "\<not> bit y k" if "n \<le> k"
    proof -
      have "unat y < 2 ^ k" using assms(1) power_increasing [OF that, of "2 :: nat"] by linarith
      then have "\<not> bit (unat y) k" by (simp add: bit_iff_odd)
      then show ?thesis by (simp add: bit_unsigned_iff)
    qed
    then show "bit (push_bit n x AND y) k = bit 0 k" by (auto simp: bit_and_iff bit_push_bit_iff)
  qed
  then have "push_bit n x OR y = push_bit n x + y" by (simp add: disjunctive_add_eq_or)
  moreover have "unat (push_bit n x) = unat x * 2 ^ n" using assms(2) by (simp add: unat_push_bit)
  ultimately show ?thesis using assms(2) by (simp add: unat_add_no_wrap)
qed


text \<open>The block behind an extent that starts well is no more inside a missing subtree: sequential reading never asks there.\<close>

lemma hole_size_same:
  "hole_size content A k first l = h \<Longrightarrow> h \<noteq> 0 \<Longrightarrow> l' div h = l div h \<Longrightarrow> 1 < A \<Longrightarrow> hole_size content A k first l' = h"
proof (induction k arbitrary: first)
  case (Suc k)
  show ?case
  proof (cases "first = 0")
    case False
    let ?f = "word_at (content (ucast first)) (l div A ^ k mod A)"
    have h: "hole_size content A k ?f l = h" using Suc.prems(1) False by simp
    have "h dvd A ^ k" by (rule hole_size_dvd [OF h Suc.prems(2)])
    then obtain e where "A ^ k = h * e" by (elim dvdE)
    then have "l' div A ^ k = l div A ^ k" using Suc.prems(3) by (simp add: div_mult2_eq)
    then show ?thesis using Suc.IH [OF h Suc.prems(2-4)] False by simp
  qed (use Suc.prems in simp)
qed simp

lemma hole_size_leaf:
  "hole_size content A k first l = 0 \<Longrightarrow> l mod A + j < A \<Longrightarrow> hole_size content A k first (l + j) = 0"
proof (induction k arbitrary: first)
  case (Suc k)
  have "0 < A" using Suc.prems(2) by simp
  then have f: "first \<noteq> 0" using Suc.prems(1) by auto
  show ?case
  proof (cases k)
    case (Suc i)
    have "(l + j) div A ^ k = l div A ^ k" by (rule div_same [OF _ Suc.prems(2)]) (simp add: Suc)
    then show ?thesis using Suc.IH [OF _ Suc.prems(2), of "word_at (content (ucast first)) (l div A ^ k mod A)"] Suc.prems(1) f by simp
  qed (use f in simp)
qed simp

lemma next_at_hole_start:
  assumes A: "1 < A" and s: "at_hole_start content A p l" and c: "1 \<le> c"
      "if hole_at content A p l = 0 then l + c \<le> leaf_end A l else c = hole_at content A p l"
    and m: "l + c < 12 + A + A ^ 2 + A ^ 3"
  shows "at_hole_start content A p (l + c)"
proof (rule ccontr)
  assume not: "\<not> at_hole_start content A p (l + c)"
  let ?h = "hole_at content A p (l + c)"
  obtain k' rel' where L': "locate A (l + c) = (k', rel')" by fastforce
  have h: "?h \<noteq> 0" "rel' mod ?h \<noteq> 0" using not L' by (simp_all add: at_hole_start_def hole_pos_def)
  have h': "hole_size content A k' (file_root p k' rel') rel' = ?h" by (simp add: hole_at_def L')
  have k1: "1 \<le> k'" using h(1) h' by (cases k') auto
  have r0: "rel' \<noteq> 0" using h(2) by (cases rel') auto
  define q where "q = l + (c - 1)"
  have lq: "l + c = q + 1" using c(1) by (simp add: q_def)
  have Lq: "locate A q = (k', rel' - 1)"
    using L' r0 k1 unfolding lq by (auto simp: locate_def split: if_splits)
  have "(rel' - 1) div ?h = rel' div ?h"
    using h r0 by (metis Suc_pred' div_Suc diff_Suc_1 mod_Suc_eq neq0_conv)
  from hole_size_same [OF h' h(1) this A] have "hole_size content A k' (file_root p k' rel') (rel' - 1) = ?h" .
  moreover have "file_root p k' (rel' - 1) = file_root p k' rel'" using k1 by (simp add: file_root_def)
  ultimately have hq: "hole_at content A p q = ?h" by (simp add: hole_at_def Lq)
  obtain k rel where L: "locate A l = (k, rel)" by fastforce
  show False
  proof (cases "hole_at content A p l = 0")
    case True
    have le: "l + c \<le> leaf_end A l" using c(2) True by simp
    show False
    proof (cases "l < 12")
      case True
      then have "q < 12" using le c(1) by (simp add: leaf_end_def q_def)
      then show False using Lq k1 by (simp add: locate_def)
    next
      case False
      have k: "1 \<le> k" using L False by (auto simp: locate_def split: if_splits)
      have rm: "rel mod A = (l - 12) mod A"
      proof -
        have "rel = l - 12 \<or> rel + A = l - 12 \<or> rel + A + A ^ 2 = l - 12" using L False by (auto simp: locate_def split: if_splits)
        moreover have "(rel + A + A ^ 2) mod A = rel mod A" by (simp add: power2_eq_square)
        ultimately show ?thesis by (metis mod_add_self2)
      qed
      have "A * ((l - 12) div A) + (l - 12) mod A = l - 12" by simp
      moreover have "l + c \<le> 12 + A * ((l - 12) div A) + A" using le False by (simp add: leaf_end_def)
      ultimately have room: "rel mod A + (c - 1) < A" unfolding rm using False c(1) by linarith
      have "rel + (c - 1) < A ^ k"
      proof -
        have "rel < A ^ k" using L False m c(1) by (auto simp: locate_def split: if_splits)
        moreover have "A dvd A ^ k" using k by simp
        then have "(rel + (c - 1)) div A ^ k = rel div A ^ k" using room by (rule div_same)
        ultimately show ?thesis using A by (simp add: div_eq_0_iff)
      qed
      then have "locate A q = (k, rel + (c - 1))" unfolding q_def using locate_shift [OF L A, of "c - 1"] k by simp
      moreover have "hole_size content A k (file_root p k rel) (rel + (c - 1)) = 0"
        by (rule hole_size_leaf) (use True L room in \<open>simp_all add: hole_at_def\<close>)
      moreover have "file_root p k (rel + (c - 1)) = file_root p k rel" using k by (simp add: file_root_def)
      ultimately have "hole_at content A p q = 0" by (simp add: hole_at_def)
      then show False using hq h(1) by simp
    qed
  next
    case False
    then have ch: "c = hole_at content A p l" and al: "rel mod c = 0" using c(2) s L by (simp_all add: at_hole_start_def hole_pos_def)
    have hs: "hole_size content A k (file_root p k rel) rel = c" by (simp add: ch hole_at_def L)
    have c0: "c \<noteq> 0" using c(1) by simp
    have k: "1 \<le> k" using hs c0 by (cases k) auto
    have rl: "rel < A ^ k" using L m c(1) k by (auto simp: locate_def split: if_splits)
    have dv: "c dvd A ^ k" by (rule hole_size_dvd [OF hs c0])
    have same: "(rel + (c - 1)) div c = rel div c" by (rule div_same [of c]) (use al c0 in simp_all)
    have "(rel + (c - 1)) div A ^ k = rel div A ^ k" by (rule div_same [OF dv]) (use al c0 in simp)
    then have "rel + (c - 1) < A ^ k" using rl A by (simp add: div_eq_0_iff)
    then have "locate A q = (k, rel + (c - 1))" unfolding q_def using locate_shift [OF L A, of "c - 1"] k by simp
    then have kk: "k' = k" "rel' = rel + c" using Lq r0 c0 by auto
    have "file_root p k rel' = file_root p k rel" using k by (simp add: file_root_def)
    moreover have "hole_size content A k (file_root p k rel) (rel + (c - 1)) = c" by (rule hole_size_same [OF hs c0 same A])
    ultimately have "?h = c" using hq \<open>locate A q = (k, rel + (c - 1))\<close> k by (simp add: hole_at_def file_root_def)
    then show False using h(2) kk(2) al by simp
  qed
qed

lemma next_extent_ok:
  assumes D: "block_device rdwr secsz nsec dinv sector" and E: "ext2_blocks fs bs A"
    and S: "9 \<le> sector_shift fs" "sector_shift fs \<le> block_shift fs"
    and C: "blocks_cached secsz nsec dinv sector content bs dev"
    and inode: "iflags inode AND EXT4_EXTENTS_FLAG = 0" "length (pvt inode) = 60"
  defines "n \<equiv> 2 ^ (block_shift fs - sector_shift fs)"
  assumes l: "l = unat lst div n" "hole_at content A (pvt inode) l * n < 2 ^ 32"
    and ok: "file_ok content (valid_block secsz nsec bs) A (pvt inode) l" "unat (file_block content A (pvt inode) l) < 2 ^ 31"
  shows "\<exists>dev' x. ext2_next_extent rdwr secsz fs dev inode lst = Some (dev', inode\<lparr>next_extent := x\<rparr>, 0) \<and>
    blocks_cached secsz nsec dinv sector content bs dev' \<and> 0 < unat (xlen x) \<and>
    (pstart x = EXTENT_ZERO \<longleftrightarrow> file_block content A (pvt inode) l = 0) \<and>
    (at_hole_start content A (pvt inode) l \<longrightarrow> (\<forall>i<unat (xlen x).
       let g = unat lst + i; b = file_block content A (pvt inode) (g div n)
       in if pstart x = EXTENT_ZERO then b = 0
          else b \<noteq> 0 \<and> unat (pstart x) + i = unat b * n + g mod n)) \<and>
    (\<exists>c. unat (xlen x) + unat lst mod n = c * n \<and> 1 \<le> c \<and>
      (if hole_at content A (pvt inode) l = 0 then l + c \<le> leaf_end A l else c = hole_at content A (pvt inode) l))"
proof -
  note A = ext2_blocksD [OF E]
  let ?p = "pvt inode" and ?sh = "block_shift fs - sector_shift fs"
  define fb where "fb = file_block content A ?p"
  define r where "r = unat lst mod n"
  have s: "10 \<le> block_shift fs" "block_shift fs \<le> 12" "A = 2 ^ (block_shift fs - 2)" using E by (simp_all add: ext2_blocks_def)
  have sh: "?sh \<le> 3" using s(2) S(1) by simp
  have n: "0 < n" "n \<le> 8" "r < n" using power_increasing [OF sh, of "2 :: nat"] by (simp_all add: n_def r_def)
  have blk: "unat (ucast (drop_bit ?sh lst) :: u64) = l"
    by (simp add: unat_ucast_up unat_drop_bit_eq l(1) n_def) (simp only: unat_drop_bit_eq drop_bit_eq_div)
  have okb: "file_ok content (valid_block secsz nsec bs) A ?p (unat (ucast (drop_bit ?sh lst) :: u64))" unfolding blk by (rule ok(1))
  obtain dev' c where r1: "bmap_traditional rdwr secsz fs dev ?p (ucast (drop_bit ?sh lst)) (Some 0) = Some (dev', ucast (fb l), Some c)"
    "blocks_cached secsz nsec dinv sector content bs dev'" "1 \<le> unat c"
    "if hole_at content A ?p l = 0 then l + unat c \<le> leaf_end A l else unat c = hole_at content A ?p l"
    "at_hole_start content A ?p l \<longrightarrow> (\<forall>j<unat c. fb (l + j) = (if fb l = 0 then 0 else fb l + of_nat j))"
    using block_device.bmap_traditional_ok [OF D E C inode(2) okb, of "Some 0"] unfolding blk fb_def [symmetric]
    by (elim exE conjE) (rule that; simp)
  have room: "unat c \<le> 1024" if "hole_at content A ?p l = 0"
  proof -
    have le: "l + unat c \<le> leaf_end A l" using r1(4) that by simp
    show ?thesis
    proof (cases "l < 12")
      case False
      have "A * ((l - 12) div A) \<le> l - 12" by simp
      moreover have "l + unat c \<le> 12 + A * ((l - 12) div A) + A" using le False by (simp add: leaf_end_def)
      ultimately show ?thesis using False A(2) by linarith
    qed (use le in \<open>simp add: leaf_end_def\<close>)
  qed
  have cb: "unat c * n < 2 ^ 32"
  proof (cases "hole_at content A ?p l = 0")
    case True
    have "unat c * n \<le> 1024 * 8" using room [OF True] n by (intro mult_le_mono) simp_all
    then show ?thesis by simp
  qed (use r1(4) l(2) in simp)
  have hz: "fb l = 0" if "hole_at content A ?p l \<noteq> 0"
  proof -
    obtain k rel where L: "locate A l = (k, rel)" by fastforce
    have "hole_size content A k (file_root ?p k rel) rel = hole_at content A ?p l" by (simp add: hole_at_def L)
    from walk_map_hole [OF A(1) this that, of 0] that show ?thesis by (simp add: fb_def file_block_def L)
  qed
  have lst: "unat lst = l * n + r" unfolding l(1) r_def by (rule div_mult_mod_eq [symmetric])
  have tb: "unat (lst AND mask ?sh) = r"
    unfolding take_bit_eq_mask [symmetric] r_def n_def by (simp only: unsigned_take_bit_eq) (simp only: take_bit_eq_mod)
  have pc: "unat (push_bit ?sh c) = unat c * n" using cb by (simp add: unat_push_bit n_def)
  have rc: "r < unat c * n" by (rule less_le_trans [OF n(3)]) (use mult_le_mono [OF r1(3) order_refl, of n] in \<open>simp only: mult_1\<close>)
  let ?x = "(next_extent inode)\<lparr>pstart := if ucast (fb l) = (0 :: u64) then EXTENT_ZERO
      else push_bit ?sh (ucast (fb l)) OR ucast (lst AND mask ?sh), xlen := push_bit ?sh c - (lst AND mask ?sh)\<rparr>"
  have run: "ext2_next_extent rdwr secsz fs dev inode lst = Some (dev', inode\<lparr>next_extent := ?x\<rparr>, 0)"
    using r1(1) by (simp add: ext2_next_extent_def ext2_bmap_def inode(1) mask_eq_exp_minus_1 Let_def)
  have xl: "unat (xlen ?x) = unat c * n - r"
    using rc pc tb by (simp add: unat_sub word_le_nat_alt)
  have z: "ucast (fb l) = (0 :: u64) \<longleftrightarrow> fb l = 0" by (simp add: word_unat_eq_iff unat_ucast_up)
  have "unat (fb l) * n \<le> 2 ^ 31 * 8" using ok(2) n(2) by (intro mult_le_mono) (simp_all add: fb_def)
  then have small: "unat (fb l) * n + r < 2 ^ 40" using n by simp
  have ps: "unat (push_bit ?sh (ucast (fb l) :: u64) OR ucast (lst AND mask ?sh)) = unat (fb l) * n + r"
    using unat_push_or [of "ucast (lst AND mask ?sh) :: u64" ?sh "ucast (fb l)"] small n(3) tb by (simp add: unat_ucast_up n_def)
  have e0: "pstart ?x = EXTENT_ZERO \<longleftrightarrow> fb l = 0"
  proof (cases "fb l = 0")
    case False
    have "unat EXTENT_ZERO = 18446744073709551615" by (simp add: EXTENT_ZERO_def unat_minus_one)
    moreover have "unat (fb l) * n + r < 1099511627776" using small by simp
    ultimately have "unat (push_bit ?sh (ucast (fb l) :: u64) OR ucast (lst AND mask ?sh)) \<noteq> unat EXTENT_ZERO" using ps by linarith
    then show ?thesis using False z by auto
  qed (simp add: z)
  have each: "let g = unat lst + i; b = fb (g div n)
       in if pstart ?x = EXTENT_ZERO then b = 0 else b \<noteq> 0 \<and> unat (pstart ?x) + i = unat b * n + g mod n"
    if st: "at_hole_start content A ?p l" and i: "i < unat (xlen ?x)" for i
  proof -
    define j where "j = (r + i) div n"
    have "r + i < unat c * n" using i xl by simp
    then have j: "j < unat c" using n(1) by (simp add: j_def div_less_iff_less_mult)
    have g: "unat lst + i = n * l + (r + i)" by (simp add: lst mult.commute)
    have gd: "(unat lst + i) div n = l + j" "(unat lst + i) mod n = (r + i) mod n" unfolding g j_def using n(1) by simp_all
    have b: "fb (l + j) = (if fb l = 0 then 0 else fb l + of_nat j)" using r1(5) st j by blast
    have d: "n * j + (r + i) mod n = r + i" by (simp add: j_def)
    show ?thesis
    proof (cases "fb l = 0")
      case True
      then show ?thesis using e0 b gd by (simp add: Let_def)
    next
      case False
      then have "j < 1024" using j room hz by (metis less_le_trans)
      then have u: "unat (fb l + of_nat j) = unat (fb l) + j"
        using ok(2) by (subst unat_add_no_wrap) (simp_all add: fb_def unat_of_nat)
      then have "fb (l + j) \<noteq> 0" using b False by (auto simp: word_unat_eq_iff)
      moreover have "unat (pstart ?x) + i = unat (fb (l + j)) * n + (r + i) mod n"
        using False z ps b u d by (simp add: algebra_simps)
      ultimately show ?thesis using e0 False gd by (simp add: Let_def)
    qed
  qed
  have pos: "0 < unat (xlen ?x)" using xl rc by simp
  have "unat (xlen ?x) + unat lst mod n = unat c * n" unfolding xl r_def [symmetric] using rc by simp
  then have "\<exists>c. unat (xlen ?x) + unat lst mod n = c * n \<and> 1 \<le> c \<and>
      (if hole_at content A ?p l = 0 then l + c \<le> leaf_end A l else c = hole_at content A ?p l)" using r1(3,4) by blast
  then show ?thesis using run r1(2) pos e0 each unfolding fb_def [symmetric] by blast
qed

text \<open>C18. What \<open>ext2_next_extent\<close> gives for a file with block pointers, at all levels.  Asked at any sector of a block that is not inside a missing
  table (it may be at its start), the extent is right for every sector in it: a hole extent covers sectors of holes only, and
  any other extent maps each sector of the file to the disk sector where the reference walk of the tables finds it.
  Asked inside a missing table it is a fault: the hole is given the length of the whole missing subtree, counted from the block asked
  for, and so reaches behind its end.  The extent is never empty.  The sectors of a missing subtree have to be fewer than \<open>2 ^ 32\<close>, which rules out
  only a missing triple table with blocks of 4096 bytes and sectors of 512.\<close>

theorem next_extent_follows_map:
  assumes D: "block_device rdwr secsz nsec dinv sector" and E: "ext2_blocks fs bs A"
    and S: "9 \<le> sector_shift fs" "sector_shift fs \<le> block_shift fs"
    and C: "blocks_cached secsz nsec dinv sector content bs dev"
    and inode: "iflags inode AND EXT4_EXTENTS_FLAG = 0" "length (pvt inode) = 60"
  defines "n \<equiv> 2 ^ (block_shift fs - sector_shift fs)"
  assumes l: "l = unat lst div n" "hole_at content A (pvt inode) l * n < 2 ^ 32"
    and ok: "file_ok content (valid_block secsz nsec bs) A (pvt inode) l" "unat (file_block content A (pvt inode) l) < 2 ^ 31"
  shows "\<exists>dev' x. ext2_next_extent rdwr secsz fs dev inode lst = Some (dev', inode\<lparr>next_extent := x\<rparr>, 0) \<and>
    blocks_cached secsz nsec dinv sector content bs dev' \<and> 0 < unat (xlen x) \<and>
    (pstart x = EXTENT_ZERO \<longleftrightarrow> file_block content A (pvt inode) l = 0) \<and>
    (if at_hole_start content A (pvt inode) l
     then \<forall>i<unat (xlen x).
       let g = unat lst + i; b = file_block content A (pvt inode) (g div n)
       in if pstart x = EXTENT_ZERO then b = 0
          else b \<noteq> 0 \<and> unat (pstart x) + i = unat b * n + g mod n
     else pstart x = EXTENT_ZERO \<and> unat lst + unat (xlen x) = (l + hole_at content A (pvt inode) l) * n \<and>
       subtree_end content A (pvt inode) l < l + hole_at content A (pvt inode) l)"
proof -
  let ?p = "pvt inode"
  obtain dev' x c where X: "ext2_next_extent rdwr secsz fs dev inode lst = Some (dev', inode\<lparr>next_extent := x\<rparr>, 0)"
    "blocks_cached secsz nsec dinv sector content bs dev'" "0 < unat (xlen x)"
    "pstart x = EXTENT_ZERO \<longleftrightarrow> file_block content A ?p l = 0"
    "at_hole_start content A ?p l \<longrightarrow> (\<forall>i<unat (xlen x).
       let g = unat lst + i; b = file_block content A ?p (g div n)
       in if pstart x = EXTENT_ZERO then b = 0 else b \<noteq> 0 \<and> unat (pstart x) + i = unat b * n + g mod n)"
    "unat (xlen x) + unat lst mod n = c * n"
    "if hole_at content A ?p l = 0 then l + c \<le> leaf_end A l else c = hole_at content A ?p l"
    using next_extent_ok [OF D E S C inode l [unfolded n_def] ok] unfolding n_def [symmetric] by (elim exE conjE)
  show ?thesis
  proof (cases "at_hole_start content A ?p l")
    case True
    then show ?thesis using X(1-5) by (intro exI [of _ dev'] exI [of _ x]) simp
  next
    case False
    let ?h = "hole_at content A ?p l"
    have h: "?h \<noteq> 0" "0 < hole_pos content A ?p l" using False by (simp_all add: at_hole_start_def)
    obtain k rel where L: "locate A l = (k, rel)" by fastforce
    have "hole_size content A k (file_root ?p k rel) rel = ?h" by (simp add: hole_at_def L)
    from walk_map_hole [OF ext2_blocksD(1) [OF E] this h(1), of 0] h(1) have "file_block content A ?p l = 0" by (simp add: file_block_def L)
    moreover have "unat lst = l * n + unat lst mod n" unfolding l(1) by (rule div_mult_mod_eq [symmetric])
    then have "unat lst + unat (xlen x) = (l + ?h) * n" using X(6,7) h(1) by (simp add: algebra_simps)
    moreover have "rel \<le> l" using L by (auto simp: locate_def split: if_splits)
    then have "hole_pos content A ?p l \<le> l" by (simp add: hole_pos_def L) (meson le_trans mod_less_eq_dividend)
    then have "subtree_end content A ?p l < l + ?h" using h by (simp add: subtree_end_def)
    ultimately show ?thesis using X(1-4) False by (intro exI [of _ dev'] exI [of _ x]) simp
  qed
qed

lemma cache_init_blocks:
  assumes D: "block_device rdwr secsz nsec dinv sector"
    and c: "s \<le> 15" "2 ^ s + 40 \<le> unat (cache_size dev)" "(unat (cache_size dev) - 20) div (2 ^ s + 20) < 65536"
      "length (cache_data dev) = unat (cache_size dev)" "dinv (dev_disk dev)" "unat secsz dvd 2 ^ s"
  shows "blocks_cached secsz nsec dinv sector (dev_block sector secsz (of_nat (2 ^ s))) (of_nat (2 ^ s)) (cache_init dev s)"
proof -
  have "cache_block_size (cache_init dev s) = of_nat (2 ^ s)"
    unfolding cache_init_fields(3) [OF cache_init_usable(1) [OF c(1-3)]] ..
  then show ?thesis using block_device.cache_init_ready [OF D c] unfolding blocks_cached_def by blast
qed


definition demo_ext2_fs :: fs_info where
  "demo_ext2_fs = \<lparr>sector_shift = 9, sector_size = 512, block_shift = 10, block_size = 1024\<rparr>"

text \<open>A file of three consecutive blocks 5, 6, 7, then holes.\<close>

definition demo_blocks :: "ext2_pvt inode" where
  "demo_blocks = zero_inode ([5, 0, 0, 0, 6, 0, 0, 0, 7, 0, 0, 0] @ replicate 48 0)"

lemma demo_ext2: "ext2_blocks demo_ext2_fs 1024 256" "sector_shift demo_ext2_fs = 9" "block_shift demo_ext2_fs = 10"
  by (simp_all add: ext2_blocks_def demo_ext2_fs_def push_bit_eq_mult)

lemma demo_ext2_cached:
  "blocks_cached 512 100 (\<lambda>_. True) demo_sector (dev_block demo_sector 512 1024) 1024 (cache_init demo_device 10)"
  using cache_init_blocks [OF demo.block_device_axioms, of 10 demo_device] by (simp add: demo_device_def)

text \<open>The second part asks for block 13, the second of the missing indirect table, which ends at sector 536; the extent ends at 538.\<close>

theorem next_extent_follows_map_witness:
  "(\<exists>dev' x. ext2_next_extent demo_rdwr 512 demo_ext2_fs (cache_init demo_device 10) demo_blocks 1 =
     Some (dev', demo_blocks\<lparr>next_extent := x\<rparr>, 0) \<and> unat (pstart x) = 11 \<and> 0 < unat (xlen x)) \<and>
   (\<exists>dev' x. ext2_next_extent demo_rdwr 512 demo_ext2_fs (cache_init demo_device 10) demo_blocks 26 =
     Some (dev', demo_blocks\<lparr>next_extent := x\<rparr>, 0) \<and> pstart x = EXTENT_ZERO \<and> unat (xlen x) = 512)"
proof -
  let ?c = "dev_block demo_sector 512 1024" and ?p = "pvt demo_blocks"
  have p: "length ?p = 60" "iflags demo_blocks AND EXT4_EXTENTS_FLAG = 0" by (simp_all add: demo_blocks_def zero_inode_def)
  have w: "word_at ?p 0 = 5" by (simp add: word_at_def demo_blocks_def zero_inode_def le32_of_def)
  have l: "locate 256 0 = (0, 0)" by (simp add: locate_def)
  have ok: "file_ok ?c (valid_block 512 100 1024) 256 ?p 0" "unat (file_block ?c 256 ?p 0) < 2 ^ 31"
    by (simp_all add: file_ok_def file_block_def l file_root_def w)
  have h0: "hole_at ?c 256 ?p 0 = 0" by (simp add: hole_at_def l)
  then have st: "at_hole_start ?c 256 ?p 0" by (simp add: at_hole_start_def)
  have fb: "file_block ?c 256 ?p 0 = 5" by (simp add: file_block_def l file_root_def w)
  have sh: "9 \<le> sector_shift demo_ext2_fs" "sector_shift demo_ext2_fs \<le> block_shift demo_ext2_fs" by (simp_all add: demo_ext2(2,3))
  have lst: "0 = unat (1 :: u32) div 2 ^ (block_shift demo_ext2_fs - sector_shift demo_ext2_fs)"
    "hole_at ?c 256 ?p 0 * 2 ^ (block_shift demo_ext2_fs - sector_shift demo_ext2_fs) < 2 ^ 32" by (simp_all add: demo_ext2(2,3) h0)
  from next_extent_follows_map [OF demo.block_device_axioms demo_ext2(1) sh demo_ext2_cached p(2,1) lst ok]
  obtain dev' x where r: "ext2_next_extent demo_rdwr 512 demo_ext2_fs (cache_init demo_device 10) demo_blocks 1 =
      Some (dev', demo_blocks\<lparr>next_extent := x\<rparr>, 0)" "0 < unat (xlen x)" "pstart x = EXTENT_ZERO \<longleftrightarrow> file_block ?c 256 ?p 0 = 0"
    "\<forall>i<unat (xlen x). let g = unat (1 :: u32) + i; b = file_block ?c 256 ?p (g div 2)
       in if pstart x = EXTENT_ZERO then b = 0 else b \<noteq> 0 \<and> unat (pstart x) + i = unat b * 2 + g mod 2"
    using st by (auto simp: demo_ext2(2,3))
  have first: "unat (pstart x) = 11" using r(4) [rule_format, OF r(2)] r(3) by (simp add: fb Let_def)
  have L13: "locate 256 13 = (1, 1)" by (simp add: locate_def)
  have z: "file_root ?p (Suc 0) (Suc 0) = 0" by (simp add: file_root_def word_at_def demo_blocks_def zero_inode_def le32_of_def)
  have hole: "hole_at ?c 256 ?p 13 = 256" "hole_pos ?c 256 ?p 13 = 1" "file_block ?c 256 ?p 13 = 0" by (simp_all add: hole_at_def hole_pos_def file_block_def L13 z)
  then have not: "\<not> at_hole_start ?c 256 ?p 13" by (simp add: at_hole_start_def)
  have ok13: "file_ok ?c (valid_block 512 100 1024) 256 ?p 13" "unat (file_block ?c 256 ?p 13) < 2 ^ 31"
    using z by (simp_all add: file_ok_def L13 hole)
  have lst13: "13 = unat (26 :: u32) div 2 ^ (block_shift demo_ext2_fs - sector_shift demo_ext2_fs)"
    "hole_at ?c 256 ?p 13 * 2 ^ (block_shift demo_ext2_fs - sector_shift demo_ext2_fs) < 2 ^ 32" by (simp_all add: demo_ext2(2,3) hole)
  from next_extent_follows_map [OF demo.block_device_axioms demo_ext2(1) sh demo_ext2_cached p(2,1) lst13 ok13]
  obtain dev2 y where y: "ext2_next_extent demo_rdwr 512 demo_ext2_fs (cache_init demo_device 10) demo_blocks 26 =
      Some (dev2, demo_blocks\<lparr>next_extent := y\<rparr>, 0)" "pstart y = EXTENT_ZERO" "26 + unat (xlen y) = (13 + 256) * 2"
    using not by (auto simp: demo_ext2(2,3) hole)
  show ?thesis using r(1,2) first y by auto
qed

end
