(* ===== verification/Ext2.thy ===== *)
theory Ext2
  imports Ext2map Searchdir
begin

text \<open>
  The ext2 driver \<open>libcore/fs/ext2/ext2.c\<close>: group descriptors, inodes, directories, symbolic links and
  mounting.

  Structures on the disk are read at an offset of a cached block; a read behind the block gives \<open>None\<close>, as
  a division by zero does.  Only the fields that the code uses are in the records.  \<open>mem\<close> tells whether
  \<open>malloc\<close> has memory left.
\<close>

section \<open>Data\<close>

definition EXT2_SUPER_MAGIC :: u16 where "EXT2_SUPER_MAGIC = 0xEF53"
definition EXT2_ROOT_INO :: u32 where "EXT2_ROOT_INO = 2"

record ext2_super_block =
  sb_blocks_count :: u32
  sb_first_data_block :: u32
  sb_log_block_size :: u32
  sb_blocks_per_group :: u32
  sb_inodes_per_group :: u32
  sb_magic :: u16
  sb_inode_size :: u16
  sb_desc_size :: u16

definition super_block :: "bytes \<Rightarrow> ext2_super_block option" where
  "super_block b =
     do { n \<leftarrow> rd32 b 4; f \<leftarrow> rd32 b 20; l \<leftarrow> rd32 b 24; bpg \<leftarrow> rd32 b 32; ipg \<leftarrow> rd32 b 40;
          m \<leftarrow> rd16 b 56; i \<leftarrow> rd16 b 88; d \<leftarrow> rd16 b 254;
          Some \<lparr>sb_blocks_count = n, sb_first_data_block = f, sb_log_block_size = l, sb_blocks_per_group = bpg,
            sb_inodes_per_group = ipg, sb_magic = m, sb_inode_size = i, sb_desc_size = d\<rparr> }"

record ext2_group_desc =
  bg_inode_table :: u32

definition group_desc :: "bytes \<Rightarrow> nat \<Rightarrow> ext2_group_desc option" where
  "group_desc b off = do { t \<leftarrow> rd32 b (off + 8); Some \<lparr>bg_inode_table = t\<rparr> }"

definition sizeof_group_desc :: nat where "sizeof_group_desc = 32"

record ext2_inode =
  ei_mode :: u16
  ei_size :: u32
  ei_atime :: u32
  ei_ctime :: u32
  ei_mtime :: u32
  ei_dtime :: u32
  ei_blocks :: u32
  ei_flags :: u32
  ei_iblock :: bytes
  ei_file_acl :: u32

definition ext2_inode_at :: "bytes \<Rightarrow> nat \<Rightarrow> ext2_inode option" where
  "ext2_inode_at b o0 =
     do { m \<leftarrow> rd16 b o0; s \<leftarrow> rd32 b (o0 + 4); a \<leftarrow> rd32 b (o0 + 8); c \<leftarrow> rd32 b (o0 + 12); mt \<leftarrow> rd32 b (o0 + 16);
          d \<leftarrow> rd32 b (o0 + 20); n \<leftarrow> rd32 b (o0 + 28); f \<leftarrow> rd32 b (o0 + 32); p \<leftarrow> rd_range b (o0 + 40) 60;
          acl \<leftarrow> rd32 b (o0 + 104);
          Some \<lparr>ei_mode = m, ei_size = s, ei_atime = a, ei_ctime = c, ei_mtime = mt, ei_dtime = d, ei_blocks = n,
            ei_flags = f, ei_iblock = p, ei_file_acl = acl\<rparr> }"

text \<open>A directory entry; \<open>e_name\<close> is what is left of the block from the name on.\<close>

record ext2_dir_entry =
  d_inode :: u32
  d_rec_len :: u16
  d_name_len :: u8
  d_file_type :: u8
  e_name :: bytes

definition ext2_dir_entry_at :: "bytes \<Rightarrow> nat \<Rightarrow> ext2_dir_entry option" where
  "ext2_dir_entry_at b o0 =
     do { i \<leftarrow> rd32 b o0; r \<leftarrow> rd16 b (o0 + 4); l \<leftarrow> rd b (o0 + 6); t \<leftarrow> rd b (o0 + 7);
          Some \<lparr>d_inode = i, d_rec_len = r, d_name_len = l, d_file_type = t, e_name = drop (o0 + 8) b\<rparr> }"

record ext2_sb_info =
  s_inodes_per_block :: u32
  s_inodes_per_group :: u32
  s_blocks_per_group :: u32
  s_desc_per_block :: u32
  s_groups_count :: u32
  s_first_data_block :: u32
  s_inode_size :: s32

definition inode_type :: "dirent_type list" where
  "inode_type = [DT_UNKNOWN, DT_REG, DT_DIR, DT_CHR, DT_BLK, DT_FIFO, DT_SOCK, DT_LNK]"

definition ext2_cvt_type :: "u32 \<Rightarrow> dirent_type option" where
  "ext2_cvt_type t = (if of_nat (length inode_type) < t then Some DT_UNKNOWN else rd inode_type (unat t))"

text \<open>Quotient and remainder, undefined for 0.\<close>

definition udivmod :: "u32 \<Rightarrow> u32 \<Rightarrow> (u32 \<times> u32) option" where
  "udivmod a b = (if b = 0 then None else Some (a div b, a mod b))"

section \<open>Group descriptors and inodes\<close>

definition ext2_get_group_desc ::
  "('d \<Rightarrow> u64 \<Rightarrow> u32 \<Rightarrow> 'd \<times> bytes) \<Rightarrow> u32 \<Rightarrow> ext2_sb_info \<Rightarrow> 'd device \<Rightarrow> u32 \<Rightarrow> ('d device \<times> ext2_group_desc option) option" where
  "ext2_get_group_desc rdwr secsz sbi dev group_num =
     (if s_groups_count sbi \<le> group_num then Some (dev, None)
      else do { (desc_block, desc_index) \<leftarrow> udivmod group_num (s_desc_per_block sbi);
                let desc_block = desc_block + (s_first_data_block sbi + 1);
                (dev, b) \<leftarrow> read_block rdwr secsz dev (ucast desc_block);
                d \<leftarrow> group_desc b (unat desc_index * sizeof_group_desc);
                Some (dev, Some d) })"

definition ext2_get_inode ::
  "('d \<Rightarrow> u64 \<Rightarrow> u32 \<Rightarrow> 'd \<times> bytes) \<Rightarrow> u32 \<Rightarrow> ext2_sb_info \<Rightarrow> 'd device \<Rightarrow> u32 \<Rightarrow> ('d device \<times> ext2_inode option) option" where
  "ext2_get_inode rdwr secsz sbi dev inr =
     do { let inr = inr - 1;
          (inode_group, inode_offset) \<leftarrow> udivmod inr (s_inodes_per_group sbi);
          (dev, desc) \<leftarrow> ext2_get_group_desc rdwr secsz sbi dev inode_group;
          case desc of
            None \<Rightarrow> Some (dev, None)
          | Some desc \<Rightarrow>
              do { (q, block_off) \<leftarrow> udivmod inode_offset (s_inodes_per_block sbi);
                   let block_num = bg_inode_table desc + q;
                   (dev, data) \<leftarrow> read_block rdwr secsz dev (ucast block_num);
                   e \<leftarrow> ext2_inode_at data (unat (block_off * s_inode_size sbi));
                   Some (dev, Some e) } }"

definition IFTODT :: "u16 \<Rightarrow> u16" where
  "IFTODT m = drop_bit 12 (m AND 0xf000)"

definition fill_inode :: "ext2_pvt inode \<Rightarrow> ext2_inode \<Rightarrow> ext2_pvt inode" where
  "fill_inode inode e =
     inode\<lparr>imode := ucast (IFTODT (ei_mode e)), isize := ei_size e, atime := ei_atime e, ctime := ei_ctime e,
       mtime := ei_mtime e, dtime := ei_dtime e, iblocks := ei_blocks e, iflags := ei_flags e,
       file_acl := ei_file_acl e, pvt := ei_iblock e\<rparr>"

definition ext2_iget_by_inr ::
  "('d \<Rightarrow> u64 \<Rightarrow> u32 \<Rightarrow> 'd \<times> bytes) \<Rightarrow> u32 \<Rightarrow> ext2_sb_info \<Rightarrow> bool \<Rightarrow> 'd device \<Rightarrow> u32 \<Rightarrow> ('d device \<times> ext2_pvt inode option) option" where
  "ext2_iget_by_inr rdwr secsz sbi mem dev inr =
     do { (dev, e) \<leftarrow> ext2_get_inode rdwr secsz sbi dev inr;
          case e of
            None \<Rightarrow> Some (dev, None)
          | Some e \<Rightarrow>
              if \<not> mem then Some (dev, None)
              else Some (dev, Some (fill_inode (alloc_inode inr (replicate 60 0)) e)) }"

definition ext2_iget_root ::
  "('d \<Rightarrow> u64 \<Rightarrow> u32 \<Rightarrow> 'd \<times> bytes) \<Rightarrow> u32 \<Rightarrow> ext2_sb_info \<Rightarrow> bool \<Rightarrow> 'd device \<Rightarrow> ('d device \<times> ext2_pvt inode option) option" where
  "ext2_iget_root rdwr secsz sbi mem dev = ext2_iget_by_inr rdwr secsz sbi mem dev EXT2_ROOT_INO"

section \<open>Directories\<close>

definition ext2_get_cache ::
  "('d \<Rightarrow> u64 \<Rightarrow> u32 \<Rightarrow> 'd \<times> bytes) \<Rightarrow> u32 \<Rightarrow> fs_info \<Rightarrow> 'd device \<Rightarrow> ext2_pvt inode \<Rightarrow> u64 \<Rightarrow> ('d device \<times> bytes) option" where
  "ext2_get_cache rdwr secsz fs dev inode lblock =
     do { (dev, pblock, _) \<leftarrow> ext2_bmap rdwr secsz fs dev inode lblock None;
          read_block rdwr secsz dev pblock }"

definition ext2_match_entry :: "bytes \<Rightarrow> nat \<Rightarrow> ext2_dir_entry \<Rightarrow> bool option" where
  "ext2_match_entry name len de =
     (if d_inode de = 0 then Some False
      else if len \<noteq> unat (d_name_len de) then Some False
      else do { c \<leftarrow> memcmp name (e_name de) len; Some (c = 0) })"

text \<open>The entries of one block; an entry with \<open>d_rec_len\<close> 0 is looked at for ever.\<close>

partial_function (option) find_in_block :: "bytes \<Rightarrow> bytes \<Rightarrow> nat \<Rightarrow> u32 \<Rightarrow> u32 \<Rightarrow> ext2_dir_entry option option" where
  "find_in_block dat name len maxoffset offset =
     (if offset < maxoffset - 8
      then do { de \<leftarrow> ext2_dir_entry_at dat (unat offset);
                if maxoffset - offset < ucast (d_rec_len de) then Some None
                else do { eq \<leftarrow> ext2_match_entry name len de;
                          if eq then Some (Some de)
                          else find_in_block dat name len maxoffset (offset + ucast (d_rec_len de)) } }
      else Some None)"

text \<open>\<open>i\<close> wraps at 32 bits.  Note the bound of the last block: \<open>i - size\<close>, not \<open>size - i\<close>.\<close>

partial_function (option) find_in_blocks ::
  "('d \<Rightarrow> u64 \<Rightarrow> u32 \<Rightarrow> 'd \<times> bytes) \<Rightarrow> u32 \<Rightarrow> fs_info \<Rightarrow> ext2_pvt inode \<Rightarrow> bytes \<Rightarrow> nat \<Rightarrow> 'd device \<Rightarrow> u64 \<Rightarrow> u32 \<Rightarrow>
   ('d device \<times> ext2_dir_entry option) option" where
  "find_in_blocks rdwr secsz fs inode name len dev index i =
     (if i < isize inode
      then do { (dev, dat) \<leftarrow> ext2_get_cache rdwr secsz fs dev inode index;
                let maxoffset = min (block_size fs) (i - isize inode);
                r \<leftarrow> find_in_block dat name len maxoffset 0;
                case r of
                  Some de \<Rightarrow> Some (dev, Some de)
                | None \<Rightarrow> find_in_blocks rdwr secsz fs inode name len dev (index + 1) (i + block_size fs) }
      else Some (dev, None))"

definition ext2_find_entry ::
  "('d \<Rightarrow> u64 \<Rightarrow> u32 \<Rightarrow> 'd \<times> bytes) \<Rightarrow> u32 \<Rightarrow> fs_info \<Rightarrow> 'd device \<Rightarrow> ext2_pvt inode \<Rightarrow> bytes \<Rightarrow>
   ('d device \<times> ext2_dir_entry option) option" where
  "ext2_find_entry rdwr secsz fs dev inode dname =
     do { len \<leftarrow> strlen dname; find_in_blocks rdwr secsz fs inode dname len dev 0 0 }"

definition ext2_iget ::
  "('d \<Rightarrow> u64 \<Rightarrow> u32 \<Rightarrow> 'd \<times> bytes) \<Rightarrow> u32 \<Rightarrow> fs_info \<Rightarrow> ext2_sb_info \<Rightarrow> bool \<Rightarrow> bytes \<Rightarrow> ext2_pvt inode \<Rightarrow> 'd device \<Rightarrow>
   ('d device \<times> ext2_pvt inode option) option" where
  "ext2_iget rdwr secsz fs sbi mem dname dir dev =
     do { (dev, de) \<leftarrow> ext2_find_entry rdwr secsz fs dev dir dname;
          case de of
            None \<Rightarrow> Some (dev, None)
          | Some de \<Rightarrow> ext2_iget_by_inr rdwr secsz sbi mem dev (d_inode de) }"

text \<open>The file is given by its inode and offset; \<open>dirent\<close> is kept at the end of the file, where -1 is returned.\<close>

definition ext2_readdir ::
  "('d \<Rightarrow> u64 \<Rightarrow> u32 \<Rightarrow> 'd \<times> bytes) \<Rightarrow> u32 \<Rightarrow> fs_info \<Rightarrow> 'd device \<Rightarrow> ext2_pvt inode \<Rightarrow> u32 \<Rightarrow> dirent \<Rightarrow>
   ('d device \<times> u32 \<times> dirent \<times> int) option" where
  "ext2_readdir rdwr secsz fs dev inode offset dirent =
     (let index = drop_bit (block_shift fs) offset in
      if isize inode \<le> offset then Some (dev, offset, dirent, -1)
      else do { (dev, dat) \<leftarrow> ext2_get_cache rdwr secsz fs dev inode (ucast index);
                de \<leftarrow> ext2_dir_entry_at dat (unat (offset AND (block_size fs - 1)));
                t \<leftarrow> ext2_cvt_type (ucast (d_file_type de));
                let n = unat (d_name_len de);
                nm \<leftarrow> rd_range (e_name de) 0 n;
                dn \<leftarrow> wr_range (d_name dirent) 0 nm;
                dn \<leftarrow> wr dn n 0;
                Some (dev, offset + ucast (d_rec_len de),
                  \<lparr>d_ino = d_inode de, d_off = offset, d_reclen = of_nat (12 + n + 1), d_type = dt_code t, d_name = dn\<rparr>, 0) })"

section \<open>Symbolic links\<close>

partial_function (option) get_file_loop ::
  "('d \<Rightarrow> u64 \<Rightarrow> u32 \<Rightarrow> 'd \<times> bytes) \<Rightarrow> u32 \<Rightarrow> fs_info \<Rightarrow> ext2_pvt inode \<Rightarrow> 'd device \<Rightarrow> bytes \<Rightarrow> nat \<Rightarrow> u32 \<Rightarrow> u32 \<Rightarrow>
   ('d device \<times> bytes) option" where
  "get_file_loop rdwr secsz fs inode dev buf p index bytes =
     (if bytes \<noteq> 0
      then do { let chunk = min bytes (block_size fs);
                (dev, dat) \<leftarrow> ext2_get_cache rdwr secsz fs dev inode (ucast index);
                c \<leftarrow> rd_range dat 0 (unat chunk);
                buf \<leftarrow> wr_range buf p c;
                get_file_loop rdwr secsz fs inode dev buf (p + unat chunk) (index + 1) (bytes - chunk) }
      else Some (dev, buf))"

definition cache_get_file ::
  "('d \<Rightarrow> u64 \<Rightarrow> u32 \<Rightarrow> 'd \<times> bytes) \<Rightarrow> u32 \<Rightarrow> fs_info \<Rightarrow> 'd device \<Rightarrow> ext2_pvt inode \<Rightarrow> bytes \<Rightarrow> u32 \<Rightarrow>
   ('d device \<times> bytes \<times> int) option" where
  "cache_get_file rdwr secsz fs dev inode buf bytes =
     do { let bytes = (if bytes < isize inode then isize inode else bytes);
          (dev, buf) \<leftarrow> get_file_loop rdwr secsz fs inode dev buf 0 0 bytes;
          Some (dev, buf, 0) }"

definition ext2_readlink ::
  "('d \<Rightarrow> u64 \<Rightarrow> u32 \<Rightarrow> 'd \<times> bytes) \<Rightarrow> u32 \<Rightarrow> fs_info \<Rightarrow> ext2_pvt inode \<Rightarrow> bytes \<Rightarrow> 'd device \<Rightarrow> ('d device \<times> bytes \<times> int) option" where
  "ext2_readlink rdwr secsz fs inode buf dev =
     (let sec_per_block = push_bit (block_shift fs - sector_shift fs) 1 :: u32 in
      if block_size fs < isize inode then Some (dev, buf, -1)
      else let fast_symlink = ((if file_acl inode \<noteq> 0 then sec_per_block else 0) = iblocks inode)
           in do { (dev, buf) \<leftarrow>
                     (if fast_symlink
                      then do { c \<leftarrow> rd_range (pvt inode) 0 (unat (isize inode)); buf \<leftarrow> wr_range buf 0 c; Some (dev, buf) }
                      else do { (dev, buf, _) \<leftarrow> cache_get_file rdwr secsz fs dev inode buf (isize inode); Some (dev, buf) });
                   Some (dev, buf, sint (isize inode)) })"

section \<open>Mounting\<close>

text \<open>
  \<open>junk\<close> is the first contents of the 1024 bytes at \<open>sb\<close>; larger sectors write behind it.  The result is the
  return value and, unless it is -1, what is stored in \<open>fs\<close>.  \<open>mem\<close> says whether \<open>malloc\<close> finds memory; without it \<open>malloc_error\<close>
  halts the machine and there is no result.
\<close>

definition ext2_sb_info_of :: "fs_info \<Rightarrow> ext2_super_block \<Rightarrow> ext2_sb_info option" where
  "ext2_sb_info_of fs sb =
     do { (ipb, _) \<leftarrow> udivmod (block_size fs) (ucast (sb_inode_size sb));
          let desc_size = (if sb_desc_size sb < of_nat sizeof_group_desc then of_nat sizeof_group_desc else sb_desc_size sb);
          (dpb, _) \<leftarrow> udivmod (block_size fs) (ucast desc_size);
          (groups, _) \<leftarrow> udivmod (sb_blocks_count sb - sb_first_data_block sb + sb_blocks_per_group sb - 1) (sb_blocks_per_group sb);
          Some \<lparr>s_inodes_per_block = ipb, s_inodes_per_group = sb_inodes_per_group sb, s_blocks_per_group = sb_blocks_per_group sb,
            s_desc_per_block = dpb, s_groups_count = groups, s_first_data_block = sb_first_data_block sb,
            s_inode_size = ucast (sb_inode_size sb)\<rparr> }"

text \<open>The shift by \<open>block_shift\<close> is undefined from 32 on.\<close>

definition ext2_fs_init ::
  "('d \<Rightarrow> u64 \<Rightarrow> u32 \<Rightarrow> 'd \<times> bytes) \<Rightarrow> nat \<Rightarrow> bytes \<Rightarrow> bool \<Rightarrow> 'd device \<Rightarrow> ('d device \<times> int \<times> (fs_info \<times> ext2_sb_info) option) option" where
  "ext2_fs_init rdwr shft junk mem dev =
     do { let (dev, bs) = dev_rdwr rdwr dev 2 2;
          sb \<leftarrow> wr_range junk 0 bs;
          sb \<leftarrow> super_block sb;
          if sb_magic sb \<noteq> EXT2_SUPER_MAGIC then Some (dev, -1, None)
          else if \<not> mem then None
          else do { let bshift = unat (sb_log_block_size sb + 10);
                    (if 32 \<le> bshift then None else Some ());
                    let fs = \<lparr>sector_shift = shft, sector_size = push_bit shft 1,
                       block_shift = bshift, block_size = push_bit bshift 1\<rparr>;
                    sbi \<leftarrow> ext2_sb_info_of fs sb;
                    let dev = cache_init dev bshift;
                    (cs, dev) \<leftarrow> get_cache_block dev 0;
                    c \<leftarrow> rd (cache_nodes dev) cs;
                    dat \<leftarrow> c_data c;
                    buf \<leftarrow> wr_range (cache_data dev) dat (replicate (unat (block_size fs)) 0);
                    dev \<leftarrow> cache_lock_block (dev\<lparr>cache_data := buf\<rparr>) cs;
                    Some (dev, int bshift, Some (fs, sbi)) } }"


section \<open>Reading a file\<close>

text \<open>\<open>ext2_next_extent\<close> as \<open>generic_getfssec\<close> calls it: a result other than 0 is an error.\<close>

definition ext2_ne :: "('d \<Rightarrow> u64 \<Rightarrow> u32 \<Rightarrow> 'd \<times> bytes) \<Rightarrow> u32 \<Rightarrow> fs_info \<Rightarrow> ('d device, ext2_pvt) next_extent_op" where
  "ext2_ne rdwr secsz fs dev inode lst =
     map_option (\<lambda>(dev, inode, r). (dev, inode, r \<noteq> 0)) (ext2_next_extent rdwr secsz fs dev inode lst)"

text \<open>
  A file with block pointers: its first \<open>M\<close> blocks are inside the partition, and so are the tables on the way to them.  A pointer of 0
  is a hole, of one block or of a whole missing table; \<open>M\<close> is at the end of a table, present or missing.
\<close>

locale ext2_file = block_device +
  fixes fs :: fs_info and bs :: u16 and A :: nat and content :: "u64 \<Rightarrow> bytes" and p :: bytes and M :: nat
  assumes E: "ext2_blocks fs bs A" and S: "sector_shift fs = 9" "sector_size fs = 512" "secsz = 512"
    and nsec_small: "nsec < 2 ^ 40" and p: "length p = 60"
    and M: "M * 2 ^ (block_shift fs - 9) < 2 ^ 32"
    and ok: "l < M \<Longrightarrow> file_ok content (valid_block secsz nsec bs) A p l \<and> subtree_end content A p l \<le> M \<and>
        unat (file_block content A p l) < 2 ^ 31 \<and> (unat (file_block content A p l) + 1) * 2 ^ (block_shift fs - 9) \<le> nsec"
begin

definition n :: nat where "n = 2 ^ (block_shift fs - 9)"

definition psec :: "nat \<Rightarrow> u64" where
  "psec l = (let b = file_block content A p (l div n) in if b = 0 then EXTENT_ZERO else of_nat (unat b * n + l mod n))"

definition pinv :: "u32 \<Rightarrow> u32 \<Rightarrow> ext2_pvt \<Rightarrow> bool" where
  "pinv sz fl q \<longleftrightarrow> fl AND EXT4_EXTENTS_FLAG = 0 \<and> q = p"

text \<open>Where an extent may be asked for: at a block, but not inside a missing table.\<close>

definition bnd :: "nat \<Rightarrow> bool" where
  "bnd i \<longleftrightarrow> (i < M * n \<longrightarrow> n dvd i \<and> at_hole_start content A p (i div n))"

abbreviation cached :: "'a device \<Rightarrow> bool" where
  "cached \<equiv> blocks_cached secsz nsec dinv sector content bs"

lemma special_zero: "extent_special EXTENT_ZERO"
  by (simp add: extent_special_def EXTENT_VOID_def EXTENT_ZERO_def word_le_nat_alt unat_minus_one)

lemma n_pos [simp]: "0 < n" by (simp add: n_def)

lemma psec_value:
  assumes "l < M * n" "file_block content A p (l div n) \<noteq> 0"
  shows "unat (psec l) = unat (file_block content A p (l div n)) * n + l mod n" "unat (psec l) < nsec"
proof -
  let ?b = "file_block content A p (l div n)"
  have "l div n < M" using assms(1) by (simp add: div_less_iff_less_mult)
  from ok [OF this] have "(unat ?b + 1) * n \<le> nsec" by (simp add: n_def)
  moreover have "l mod n < n" by simp
  ultimately have b: "unat ?b * n + l mod n < nsec" unfolding distrib_right mult_1 by linarith
  then have "unat ?b * n + l mod n < 2 ^ 64" using nsec_small by simp
  then show "unat (psec l) = unat ?b * n + l mod n" unfolding psec_def Let_def if_not_P [OF assms(2)] by (intro unat_of_nat_small) simp
  then show "unat (psec l) < nsec" using b by simp
qed

lemma maps:
  assumes c: "cached dev" and q: "pinv (isize ino) (iflags ino) (pvt ino)" and l: "unat lst < M * n" "bnd (unat lst)"
  shows "\<exists>dev' e q. ext2_ne rdwr secsz fs dev ino lst = Some (dev', ino\<lparr>next_extent := e, pvt := q\<rparr>, False) \<and> cached dev' \<and>
    pinv (isize ino) (iflags ino) q \<and> xlen e \<noteq> 0 \<and> run_of_sectors psec (M * n) bnd (e\<lparr>lstart := lst\<rparr>)"
proof -
  let ?l = "unat lst div n"
  have lM: "?l < M" using l(1) by (simp add: div_less_iff_less_mult)
  have ask: "n dvd unat lst" "at_hole_start content A p ?l" using l by (simp_all add: bnd_def)
  note k = ok [OF lM]
  have A: "1 < A" by (rule ext2_blocksD(1) [OF E])
  have i: "iflags ino AND EXT4_EXTENTS_FLAG = 0" "length (pvt ino) = 60" "pvt ino = p" using q p by (simp_all add: pinv_def)
  have k': "file_ok content (valid_block secsz nsec bs) A (pvt ino) ?l" "unat (file_block content A (pvt ino) ?l) < 2 ^ 31" using k i(3) by auto
  have S9: "9 \<le> sector_shift fs" "sector_shift fs \<le> block_shift fs" using S(1) E by (simp_all add: ext2_blocks_def)
  have n9: "2 ^ (block_shift fs - sector_shift fs) = n" by (simp add: n_def S(1))
  have "hole_at content A p ?l \<le> subtree_end content A p ?l" by (simp add: subtree_end_def)
  then have "hole_at content A p ?l \<le> M" using k by linarith
  then have "hole_at content A p ?l * n \<le> M * n" by (rule mult_le_mono1)
  then have small: "hole_at content A (pvt ino) ?l * 2 ^ (block_shift fs - sector_shift fs) < 2 ^ 32" using M unfolding n9 i(3) n_def [symmetric] by linarith
  have l9: "?l = unat lst div 2 ^ (block_shift fs - sector_shift fs)" by (simp add: n9)
  note X = next_extent_ok [OF block_device_axioms E S9 c i(1,2) l9 small k', unfolded n9 i(3)]
  from X obtain dev' x c where x: "ext2_next_extent rdwr secsz fs dev ino lst = Some (dev', ino\<lparr>next_extent := x\<rparr>, 0)" "cached dev'"
    "0 < unat (xlen x)" "pstart x = EXTENT_ZERO \<longleftrightarrow> file_block content A p ?l = 0"
    "at_hole_start content A p ?l \<longrightarrow> (\<forall>j<unat (xlen x). let g = unat lst + j; b = file_block content A p (g div n)
       in if pstart x = EXTENT_ZERO then b = 0 else b \<noteq> 0 \<and> unat (pstart x) + j = unat b * n + g mod n)"
    "unat (xlen x) + unat lst mod n = c * n" "1 \<le> c"
    "if hole_at content A p ?l = 0 then ?l + c \<le> leaf_end A ?l else c = hole_at content A p ?l"
    by (elim exE conjE)
  note x5 = mp [OF x(5) ask(2)]
  have "?l * n = unat lst" using ask(1) by simp
  then have e: "unat lst + unat (xlen x) = (?l + c) * n" using x(6) ask(1) by (simp add: add_mult_distrib)
  have "?l + c \<le> subtree_end content A p ?l"
  proof (cases "hole_at content A p ?l = 0")
    case False
    then have "hole_pos content A p ?l = 0" using ask(2) by (simp add: at_hole_start_def)
    then show ?thesis using x(8) False by (simp add: subtree_end_def)
  qed (use x(8) in \<open>simp add: subtree_end_def\<close>)
  then have cM: "?l + c \<le> M" using k by linarith
  have mM: "(?l + c) * n \<le> M * n" using cM by (rule mult_le_mono1)
  have bn: "bnd ((?l + c) * n)"
    unfolding bnd_def
  proof (intro impI conjI)
    assume "(?l + c) * n < M * n"
    then have lt: "?l + c < M" by simp
    have "at_hole_start content A p (?l + c)"
      by (rule next_at_hole_start [OF A ask(2) x(7,8)]) (use ok [OF lt] in \<open>simp add: file_ok_def\<close>)
    then show "at_hole_start content A p ((?l + c) * n div n)" by simp
  qed simp
  have "psec (unat lst + j) = next_psector (pstart x) (of_nat j)" if j: "j < unat (xlen x)" for j
  proof -
    let ?g = "unat lst + j"
    have g: "?g < M * n" using j e mM by linarith
    note e = x5 [rule_format, OF j, unfolded Let_def]
    show ?thesis
    proof (cases "pstart x = EXTENT_ZERO")
      case True
      then show ?thesis using e by (simp add: psec_def next_psector_def special_zero)
    next
      case False
      then have e: "file_block content A p (?g div n) \<noteq> 0" "unat (pstart x) + j = unat (file_block content A p (?g div n)) * n + ?g mod n"
        using e by auto
      note ps = psec_value [OF g e(1)]
      have small: "unat (pstart x) + j < 2 ^ 40" using e(2) ps nsec_small by simp
      have "j < 4294967296" using j unat_u32_lt [of "xlen x"] by (rule less_trans)
      then have uj: "unat (ucast (of_nat j :: u32) :: u64) = j" by (simp add: unat_ucast_up unat_of_nat)
      have "unat EXTENT_VOID = 18446744073709551614" by (simp add: EXTENT_VOID_def unat_minus_one)
      then have "\<not> extent_special (pstart x)" using small by (simp add: extent_special_def word_le_nat_alt)
      then have "unat (next_psector (pstart x) (of_nat j)) = unat (pstart x) + j"
        using small uj by (simp add: next_psector_def unat_add_no_wrap)
      then show ?thesis using e(2) ps(1) by (simp add: word_unat_eq_iff)
    qed
  qed
  then have "run_of_sectors psec (M * n) bnd (x\<lparr>lstart := lst\<rparr>)" using e mM bn by (simp add: run_of_sectors_def)
  moreover have "ext2_ne rdwr secsz fs dev ino lst = Some (dev', ino\<lparr>next_extent := x, pvt := pvt ino\<rparr>, False)"
    using x(1) by (simp add: ext2_ne_def)
  moreover have "xlen x \<noteq> 0" using x(3) by auto
  ultimately show ?thesis using x(2) q by blast
qed

end

text \<open>Direct reads on the disk do not disturb the cache of blocks.\<close>

lemma blocks_cached_disk:
  "blocks_cached secsz nsec dinv sector content bs dev \<Longrightarrow> dinv (dev_disk dev)"
  "blocks_cached secsz nsec dinv sector content bs dev \<Longrightarrow> dinv d \<Longrightarrow> blocks_cached secsz nsec dinv sector content bs (dev\<lparr>dev_disk := d\<rparr>)"
proof -
  assume "blocks_cached secsz nsec dinv sector content bs dev"
  then obtain xs where x: "cache_block_size dev = bs" "cache_ready secsz nsec dinv sector content dev xs" by (auto simp: blocks_cached_def)
  then show "dinv (dev_disk dev)" by (simp add: cache_ready_def)
  show "blocks_cached secsz nsec dinv sector content bs (dev\<lparr>dev_disk := d\<rparr>)" if "dinv d"
    using cache_ready_disk [OF x(2) that] x(1) by (auto simp: blocks_cached_def)
qed

sublocale ext2_file \<subseteq> direct: block_device "dev_rdwr rdwr" secsz nsec cached sector
proof unfold_locales
  fix d :: "'a device" and lba :: u64 and k :: u32
  assume d: "cached d" and r: "unat lba + unat k \<le> nsec"
  note D = blocks_cached_disk(1) [OF d]
  show "snd (dev_rdwr rdwr d lba k) = concat (map (\<lambda>i. sector (lba + of_nat i)) [0..<unat k])"
    using rdwr_reads [OF D r] by (auto simp: dev_rdwr_def split: prod.splits)
  show "cached (fst (dev_rdwr rdwr d lba k))"
    using blocks_cached_disk(2) [OF d rdwr_inv [OF D r]] by (auto simp: dev_rdwr_def split: prod.splits)
qed (simp_all add: secsz_pos sector_length)

sublocale ext2_file \<subseteq> extents: extent_map "dev_rdwr rdwr" secsz nsec cached sector "ext2_ne rdwr secsz fs" pinv psec "M * n" bnd
proof unfold_locales
  show "nsec < 2 ^ 64 - 2" using nsec_small by simp
  show "M * n < 2 ^ 32" using M by (simp add: n_def)
  show "psec i = EXTENT_ZERO \<or> unat (psec i) < nsec" if "i < M * n" for i
    using psec_value(2) [OF that] by (cases "file_block content A p (i div n) = 0") (simp_all add: psec_def)
qed (rule maps)

text \<open>The bytes of a file: its blocks, zeros for a hole, cut at the size.\<close>

definition file_block_bytes :: "(u64 \<Rightarrow> bytes) \<Rightarrow> (u64 \<Rightarrow> bytes) \<Rightarrow> nat \<Rightarrow> u16 \<Rightarrow> bytes \<Rightarrow> nat \<Rightarrow> bytes" where
  "file_block_bytes sector content A bs q l =
     (let b = file_block content A q l in if b = 0 then replicate (unat bs) 0 else dev_block sector 512 bs (ucast b))"

definition ext2_content :: "(u64 \<Rightarrow> bytes) \<Rightarrow> (u64 \<Rightarrow> bytes) \<Rightarrow> nat \<Rightarrow> u16 \<Rightarrow> bytes \<Rightarrow> nat \<Rightarrow> nat \<Rightarrow> bytes" where
  "ext2_content sector content A bs q M k = take k (concat (map (file_block_bytes sector content A bs q) [0..<M]))"

context ext2_file begin

lemma spb: "unat bs = n * 512" "ucast bs div (512 :: u32) = of_nat n" "n \<le> 8"
proof -
  have s: "10 \<le> block_shift fs" "block_shift fs \<le> 12" "A = 2 ^ (block_shift fs - 2)" "unat bs = 4 * A" using E by (simp_all add: ext2_blocks_def)
  have "block_shift fs - 9 + 7 = block_shift fs - 2" using s(1) by simp
  then have "A = n * 2 ^ 7" unfolding s(3) n_def power_add [symmetric] by simp
  then show b: "unat bs = n * 512" using s(4) by simp
  have "block_shift fs - 9 \<le> 3" using s(2) by simp
  then show n: "n \<le> 8" unfolding n_def using power_increasing [of "block_shift fs - 9" 3 "2 :: nat"] by simp
  have u: "unat (of_nat n :: u32) = n" by (rule unat_of_nat_small) (use n in simp)
  have "unat (ucast bs div (512 :: u32)) = n" by (simp add: unat_div_distrib unat_ucast_up b)
  then show "ucast bs div (512 :: u32) = of_nat n" using u by (simp only: word_unat_eq_iff)
qed

lemma block_sectors:
  assumes "l < M"
  shows "file_sectors sector secsz psec (l * n) n = file_block_bytes sector content A bs p l"
proof -
  let ?b = "file_block content A p l"
  have u: "[l * n..<l * n + n] = map (\<lambda>r. l * n + r) [0..<n]" by (simp add: map_add_upt add.commute)
  have ln: "l * n + r < M * n" if "r < n" for r
  proof -
    have "(l + 1) * n \<le> M * n" using assms by (intro mult_le_mono) simp_all
    then show ?thesis using that unfolding distrib_right mult_1 by linarith
  qed
  have un: "unat (of_nat n :: u32) = n" by (rule unat_of_nat_small) (use spb(3) in simp)
  have db: "dev_block sector 512 bs (ucast ?b) = concat (map (\<lambda>i. sector (ucast ?b * of_nat n + of_nat i)) [0..<n])"
    using spb(3) by (simp add: dev_block_def Let_def spb(2) un ucast_of_nat_up)
  have f: "file_sector sector secsz psec (l * n + r) = (if ?b = 0 then replicate 512 0 else sector (ucast ?b * of_nat n + of_nat r))"
    if r: "r < n" for r
  proof (cases "?b = 0")
    case True
    then show ?thesis using r by (simp add: file_sector_def psec_def S(3))
  next
    case False
    have d: "(l * n + r) div n = l" "(l * n + r) mod n = r" using r by simp_all
    have v: "unat (psec (l * n + r)) < nsec" by (rule psec_value(2) [OF ln [OF r]]) (use False d in simp)
    have "psec (l * n + r) \<noteq> EXTENT_ZERO" using v nsec_small by (auto simp: EXTENT_ZERO_def unat_minus_one)
    moreover have "psec (l * n + r) = ucast ?b * of_nat n + of_nat r" using False d by (simp add: psec_def Let_def)
    ultimately show ?thesis using False by (simp add: file_sector_def)
  qed
  show ?thesis
  proof (cases "?b = 0")
    case True
    have "concat (map (\<lambda>r. replicate 512 (0 :: u8)) [0..<k]) = replicate (k * 512) 0" for k
      by (induction k) (simp_all add: replicate_add [symmetric] add.commute)
    moreover have "map (\<lambda>r. file_sector sector secsz psec (l * n + r)) [0..<n] = map (\<lambda>r. replicate 512 0) [0..<n]"
      by (rule map_cong) (use True f in auto)
    ultimately show ?thesis using True by (simp add: file_sectors_def u comp_def file_block_bytes_def spb(1) del: map_replicate_const map_eq_conv)
  next
    case False
    have "map (\<lambda>r. file_sector sector secsz psec (l * n + r)) [0..<n] = map (\<lambda>i. sector (ucast ?b * of_nat n + of_nat i)) [0..<n]"
      by (rule map_cong) (use False f in auto)
    then show ?thesis using False db by (simp add: file_sectors_def u comp_def file_block_bytes_def Let_def del: map_eq_conv)
  qed
qed

lemma all_sectors: "k \<le> M \<Longrightarrow> file_sectors sector secsz psec 0 (k * n) = concat (map (file_block_bytes sector content A bs p) [0..<k])"
proof (induction k)
  case (Suc k)
  then show ?case using block_sectors [of k] extents.file_sectors_split [of 0 "k * n" n] by (simp add: add.commute)
qed (simp add: file_sectors_def)

lemma is_extent_map:
  "extent_map (dev_rdwr rdwr) secsz nsec cached sector (ext2_ne rdwr secsz fs) pinv psec (M * n) bnd"
  by (rule extents.extent_map_axioms)

lemma bytes_of_file: "file_bytes psec (M * n) ino sector secsz = ext2_content sector content A bs p M (unat (isize ino))"
  using all_sectors [of M] by (simp add: file_bytes_def ext2_content_def)

end

text \<open>C7. Reading an ext2 file with block pointers: \<open>generic_getfssec\<close> over \<open>ext2_next_extent\<close>, from an offset at a block boundary that is not
  inside a missing table (the start of the file is such an offset), delivers the bytes of the file there, up to the number of sectors asked for and the end of
  the file: the blocks that the direct and indirect tables name, and zeros for holes, be they pointers of 0 or whole missing
  tables, of any level.  The reader asks for the extents one behind the other, and so never inside a missing table, where the length of the hole
  would be wrong (C18).  The block cache stays good.\<close>

theorem ext2_reads_file:
  assumes F: "ext2_file rdwr secsz nsec dinv sector fs bs A content p M"
    and dev: "blocks_cached secsz nsec dinv sector content bs dev"
    and ino: "iflags ino AND EXT4_EXTENTS_FLAG = 0" "pvt ino = p" "xlen (this_extent ino) = 0" "xlen (next_extent ino) = 0"
    and size: "unat (isize ino) \<le> M * unat bs" "unat (isize ino) + 512 \<le> 2 ^ 32"
    and offset: "unat bs dvd unat offset" "at_hole_start content A p (unat offset div unat bs)" "offset \<le> isize ino"
    and buf: "unat sectors * 512 \<le> length buf"
  shows "\<exists>dev' ino' buf' r more. generic_getfssec (ext2_ne rdwr secsz fs) (dev_rdwr rdwr) fs dev ino offset buf sectors =
      Some (dev', ino', offset + r, buf', r, more) \<and>
    unat r = min (unat sectors * 512) (unat (isize ino) - unat offset) \<and>
    take (unat r) buf' = take (unat r) (drop (unat offset) (ext2_content sector content A bs p M (unat (isize ino)))) \<and>
    more = (if r = 0 then None else Some (offset + r < isize ino)) \<and>
    blocks_cached secsz nsec dinv sector content bs dev'"
proof -
  note L = ext2_file.spb(1) [OF F]
  let ?n = "ext2_file.n fs" and ?psec = "ext2_file.psec fs A content p" and ?pinv = "ext2_file.pinv p" and ?bnd = "ext2_file.bnd fs A content p M"
  have secsz: "secsz = 512" "sector_shift fs = 9" "sector_size fs = secsz" using F by (simp_all add: ext2_file_def ext2_file_axioms_def)
  have A: "extents_agree ?psec (M * ?n) ?bnd ?pinv ino"
    using ino by (simp add: extents_agree_def ext2_file.pinv_def [OF F] run_of_sectors_def)
  obtain q where q: "unat offset = q * unat bs" using offset(1) by (auto simp: dvd_def mult.commute)
  have "unat (drop_bit 9 offset) = q * ?n" by (simp only: unat_drop_bit q L) simp
  moreover have "0 < unat bs" "0 < ?n" unfolding L by (simp_all add: ext2_file.n_pos [OF F])
  then have "at_hole_start content A p q" using offset(2) q by simp
  ultimately have P: "positioned ?bnd ino (drop_bit (sector_shift fs) offset)"
    using \<open>0 < ?n\<close> by (simp add: positioned_def secsz(2) ext2_file.bnd_def [OF F])
  have O: "unat secsz dvd unat offset" using q L by (simp add: secsz)
  have s9: "unat secsz = 2 ^ sector_shift fs" by (simp add: secsz)
  have "sectors_for fs (unat (isize ino)) \<le> sectors_for fs (M * ?n * 2 ^ sector_shift fs + 0)"
    unfolding sectors_for_def by (intro div_le_mono) (use size(1) L in \<open>simp add: secsz algebra_simps\<close>)
  also have "\<dots> = M * ?n" unfolding sectors_for_add by (simp add: sectors_for_def)
  finally have Mm: "sectors_for fs (unat (isize ino)) \<le> M * ?n" .
  have sz: "unat (isize ino) + unat secsz \<le> 2 ^ 32" using size(2) by (simp add: secsz)
  have B: "min (unat sectors) (sectors_for fs (unat (isize ino) - unat offset)) * unat secsz \<le> length buf"
    using buf by (simp add: secsz min_def) 
  have u: "unat secsz = 512" by (simp add: secsz)
  from getfssec_slice [OF ext2_file.is_extent_map [OF F] dev A secsz(3) s9 O offset(3) P Mm sz B]
  show ?thesis unfolding ext2_file.bytes_of_file [OF F] u by (elim exE conjE) (intro exI conjI)
qed


text \<open>The file of \<open>demo_blocks\<close> up to the end of its indirect table, which is missing.\<close>

lemma demo_file_block:
  assumes "l < 268"
  shows "file_block c 256 (pvt demo_blocks) l = (if l < 3 then of_nat l + 5 else 0)"
    "file_ok c V 256 (pvt demo_blocks) l" "subtree_end c 256 (pvt demo_blocks) l \<le> 268"
proof -
  have w: "word_at (pvt demo_blocks) l = (if l < 3 then of_nat l + 5 else 0)" if "l < 13" for l
  proof -
    have "l \<in> {0, 1, 2, 3, 4, 5, 6, 7, 8, 9, 10, 11, 12}" using that unfolding insert_iff empty_iff by presburger
    then show ?thesis by (elim insertE) (simp_all add: word_at_def demo_blocks_def zero_inode_def le32_of_def)
  qed
  have "file_block c 256 (pvt demo_blocks) l = (if l < 3 then of_nat l + 5 else 0) \<and>
    file_ok c V 256 (pvt demo_blocks) l \<and> subtree_end c 256 (pvt demo_blocks) l \<le> 268"
  proof (cases "l < 12")
    case True
    then show ?thesis using w [of l]
      by (simp add: file_block_def locate_def file_root_def file_ok_def subtree_end_def hole_at_def leaf_end_def)
  next
    case False
    then have L: "locate 256 l = (1, l - 12)" using assms by (simp add: locate_def)
    have z: "file_root (pvt demo_blocks) 1 (l - 12) = 0" using w [of 12] by (simp add: file_root_def)
    show ?thesis using False assms z
      by (simp add: file_block_def L file_ok_def subtree_end_def hole_at_def hole_pos_def)
  qed
  then show "file_block c 256 (pvt demo_blocks) l = (if l < 3 then of_nat l + 5 else 0)"
    "file_ok c V 256 (pvt demo_blocks) l" "subtree_end c 256 (pvt demo_blocks) l \<le> 268" by blast+
qed

interpretation demo_ext2: ext2_file demo_rdwr 512 100 "\<lambda>_. True" demo_sector demo_ext2_fs 1024 256 "dev_block demo_sector 512 1024" "pvt demo_blocks" 268
proof (intro ext2_file.intro ext2_file_axioms.intro)
  fix l :: nat assume l: "l < 268"
  have "unat (file_block (dev_block demo_sector 512 1024) 256 (pvt demo_blocks) l) \<le> 7"
  proof (cases "l < 3")
    case True
    then have "l \<in> {0, 1, 2}" by auto
    then show ?thesis unfolding demo_file_block(1) [OF l] by (elim insertE) simp_all
  qed (simp add: demo_file_block(1) [OF l])
  moreover have "block_shift demo_ext2_fs = 10" by (simp add: demo_ext2_fs_def)
  ultimately show "file_ok (dev_block demo_sector 512 1024) (valid_block 512 100 1024) 256 (pvt demo_blocks) l \<and>
    subtree_end (dev_block demo_sector 512 1024) 256 (pvt demo_blocks) l \<le> 268 \<and>
    unat (file_block (dev_block demo_sector 512 1024) 256 (pvt demo_blocks) l) < 2 ^ 31 \<and>
    (unat (file_block (dev_block demo_sector 512 1024) 256 (pvt demo_blocks) l) + 1) * 2 ^ (block_shift demo_ext2_fs - 9) \<le> 100"
    using demo_file_block [OF l] by simp
qed (use demo_ext2 demo.block_device_axioms in \<open>simp_all add: demo_ext2_fs_def demo_blocks_def zero_inode_def\<close>)

text \<open>A read from the third block, over the holes behind it and far into the missing table.\<close>

theorem ext2_reads_file_witness:
  "\<exists>dev' ino' buf' r. generic_getfssec (ext2_ne demo_rdwr 512 demo_ext2_fs) (dev_rdwr demo_rdwr) demo_ext2_fs
       (cache_init demo_device 10) (demo_blocks\<lparr>isize := 30000\<rparr>) 2048 (replicate 20480 0) 40 =
      Some (dev', ino', 2048 + r, buf', r, Some True) \<and> unat r = 20480 \<and>
    take 20480 buf' = take 20480 (drop 2048 (ext2_content demo_sector (dev_block demo_sector 512 1024) 256 1024 (pvt demo_blocks) 268 30000))"
proof -
  let ?i = "demo_blocks\<lparr>isize := 30000\<rparr>" and ?c = "dev_block demo_sector 512 1024"
  have i: "iflags ?i AND EXT4_EXTENTS_FLAG = 0" "pvt ?i = pvt demo_blocks" "xlen (this_extent ?i) = 0" "xlen (next_extent ?i) = 0"
    by (simp_all add: demo_blocks_def zero_inode_def zero_extent_def)
  have st: "at_hole_start ?c 256 (pvt demo_blocks) (unat (2048 :: u32) div unat (1024 :: u16))"
    by (simp add: at_hole_start_def hole_at_def locate_def)
  have sz: "unat (isize ?i) = 30000" "unat (30000 :: u32) = 30000" by simp_all
  have "\<exists>dev' ino' buf' r more. generic_getfssec (ext2_ne demo_rdwr 512 demo_ext2_fs) (dev_rdwr demo_rdwr) demo_ext2_fs
       (cache_init demo_device 10) ?i 2048 (replicate 20480 0) 40 = Some (dev', ino', 2048 + r, buf', r, more) \<and>
    unat r = min (unat (40 :: u32) * 512) (unat (isize ?i) - unat (2048 :: u32)) \<and>
    take (unat r) buf' = take (unat r) (drop (unat (2048 :: u32)) (ext2_content demo_sector ?c 256 1024 (pvt demo_blocks) 268 (unat (isize ?i)))) \<and>
    more = (if r = 0 then None else Some (2048 + r < isize ?i)) \<and>
    blocks_cached 512 100 (\<lambda>_. True) demo_sector ?c 1024 dev'"
    by (rule ext2_reads_file [OF demo_ext2.ext2_file_axioms demo_ext2_cached i _ _ _ st]) (simp_all add: word_le_nat_alt)
  then obtain dev' ino' buf' r more where g:
    "generic_getfssec (ext2_ne demo_rdwr 512 demo_ext2_fs) (dev_rdwr demo_rdwr) demo_ext2_fs
       (cache_init demo_device 10) ?i 2048 (replicate 20480 0) 40 = Some (dev', ino', 2048 + r, buf', r, more)"
    "unat r = 20480" "more = (if r = 0 then None else Some (2048 + r < 30000))"
    "take (unat r) buf' = take (unat r) (drop 2048 (ext2_content demo_sector ?c 256 1024 (pvt demo_blocks) 268 30000))"
    unfolding sz by (elim exE conjE) simp
  have r: "r = 20480" using g(2) by (simp add: word_unat_eq_iff)
  then have m: "more = Some True" using g(3) by simp
  show ?thesis using g(1) [unfolded m] g(2) g(4) [unfolded g(2)] by blast
qed


section \<open>Mounting\<close>

lemma blank_cache_ready:
  assumes "cache_shape dev xs" "xs \<noteq> []" "\<And>i. entry dev i \<Longrightarrow> tag dev i = - 1" "dinv (dev_disk dev)" "unat secsz dvd bsize dev"
  shows "cache_ready secsz nsec dinv sector (dev_block sector secsz (cache_block_size dev)) dev xs"
  using assms by (auto simp: cache_ready_def cache_tags_def)

lemma data_update [simp]:
  "node_next (dev\<lparr>cache_data := b\<rparr>) = node_next dev" "node_prev (dev\<lparr>cache_data := b\<rparr>) = node_prev dev"
  "has_node (dev\<lparr>cache_data := b\<rparr>) = has_node dev" "tag (dev\<lparr>cache_data := b\<rparr>) = tag dev"
  "bsize (dev\<lparr>cache_data := b\<rparr>) = bsize dev" "n_entries (dev\<lparr>cache_data := b\<rparr>) = n_entries dev" "entry (dev\<lparr>cache_data := b\<rparr>) = entry dev"
  by (simp_all add: fun_eq_iff node_next_def node_prev_def has_node_def tag_def bsize_def n_entries_def entry_def)

lemma data_update_shape:
  "cache_shape dev xs \<Longrightarrow> length b = length (cache_data dev) \<Longrightarrow> cache_shape (dev\<lparr>cache_data := b\<rparr>) xs"
  by (simp add: cache_shape_def chain_ok_def)

text \<open>
  The block that is zeroed and locked after \<open>cache_init\<close> has no number: the cache still shows the disk's
  block 0, and has one descriptor less.
\<close>

context block_device begin

lemma pin_no_block:
  assumes s: "s \<le> 15" "2 * 2 ^ s + 60 \<le> unat (cache_size dev)" "(unat (cache_size dev) - 20) div (2 ^ s + 20) < 65536"
    "length (cache_data dev) = unat (cache_size dev)" "dinv (dev_disk dev)" "unat secsz dvd 2 ^ s"
  obtains d1 c dat buf d2 where "get_cache_block (cache_init dev s) 0 = Some (1, d1)" "rd (cache_nodes d1) 1 = Some c" "c_data c = Some dat"
    "wr_range (cache_data d1) dat (replicate (2 ^ s) 0) = Some buf" "cache_lock_block (d1\<lparr>cache_data := buf\<rparr>) 1 = Some d2"
    "blocks_cached secsz nsec dinv sector (dev_block sector secsz (of_nat (2 ^ s))) (of_nat (2 ^ s)) d2"
proof -
  let ?d = "cache_init dev s" and ?n = "n_entries (cache_init dev s)"
  have s2: "2 ^ s + 40 \<le> unat (cache_size dev)" using s(2) by simp
  note U = cache_init_usable [OF s(1) s2 s(3)]
  have "2 \<le> (unat (cache_size dev) - 20) div (2 ^ s + 20)" using s(2) by (simp add: less_eq_div_iff_mult_less_eq)
  then have n: "2 \<le> ?n" by (simp add: U(2))
  note R = cache_init_ready [OF s(1) s2 s(3-6)]
  let ?xs = "[1..<Suc ?n]"
  have S: "cache_shape ?d ?xs" "?xs \<noteq> []" "dinv (dev_disk ?d)" "unat secsz dvd bsize ?d" using R by (simp_all add: cache_ready_def)
  have t: "tag ?d i = - 1" if "entry ?d i" for i
    using that cache_init_nodes [OF U(1) _ U(3)] by (simp add: tag_def entry_def)
  have "lookup ?d 0 = None"
  proof (cases "lookup ?d 0")
    case (Some k)
    then have "entry ?d k" "tag ?d k = 0" using lookup_Some [OF S(1)] by simp_all
    then show ?thesis using t by auto
  qed
  moreover have x: "?xs = 1 # [2..<Suc ?n]" using n by (simp add: upt_conv_Cons numeral_2_eq_2 del: upt_Suc)
  ultimately have v: "victim ?d ?xs 0 = 1" by (simp add: victim_def)
  obtain d1 where d1: "get_cache_block ?d 0 = Some (1, d1)" "cache_shape d1 (lru_order ?xs 1)" "same_payload ?d d1"
    using get_cache_block_spec [OF S(1,2), of 0] unfolding v by blast
  note P = same_payload_simps [OF d1(3)]
  have lo: "lru_order ?xs 1 = [2..<Suc ?n] @ [1]" unfolding x by (simp add: lru_order_def del: upt_Suc)
  have e1: "entry d1 1" using n by (simp add: P entry_def)
  have len: "length (cache_nodes d1) = Suc ?n" using d1(2) by (simp add: cache_shape_def P)
  have c: "rd (cache_nodes d1) 1 = Some (cache_nodes d1 ! 1)" "c_data (cache_nodes d1 ! 1) = Some 0"
    using len n d1(2) e1 by (auto simp: cache_shape_def)
  have fits: "2 ^ s \<le> length (cache_data d1)" using slot_in_buffer [OF d1(2) e1] by (simp add: P U(4))
  let ?buf = "replicate (2 ^ s) 0 @ drop (2 ^ s) (cache_data d1)" and ?d1 = "d1\<lparr>cache_data := replicate (2 ^ s) 0 @ drop (2 ^ s) (cache_data d1)\<rparr>"
  have w: "wr_range (cache_data d1) 0 (replicate (2 ^ s) 0) = Some ?buf" using fits by (simp add: wr_range_def)
  have S2: "cache_shape ?d1 ([2..<Suc ?n] @ [1])" using data_update_shape [OF d1(2), of ?buf] fits unfolding lo by simp
  have t1: "tag ?d1 i = - 1" if "entry ?d1 i" for i
    using that t [of i] same_payload_tag [OF d1(3), of i] S(1) by (simp add: P cache_shape_def entry_def)
  have b1: "cache_block_size ?d1 = of_nat (2 ^ s)" using cache_init_fields(3) [OF U(1)] by (simp add: P)
  have dd: "dinv (dev_disk ?d1)" "unat secsz dvd bsize ?d1" using S(3,4) by (simp_all add: P)
  have R1: "cache_ready secsz nsec dinv sector (dev_block sector secsz (cache_block_size ?d1)) ?d1 ([2..<Suc ?n] @ 1 # [])"
    by (rule blank_cache_ready [where dinv = dinv]; (rule S2 | rule t1 | rule dd | simp)) 
  have ne: "[2..<Suc ?n] @ [] \<noteq> []" using n by simp
  obtain d2 where d2: "cache_lock_block ?d1 1 = Some d2"
    "cache_ready secsz nsec dinv sector (dev_block sector secsz (cache_block_size ?d1)) d2 ([2..<Suc ?n] @ [])" "same_payload ?d1 d2"
    by (rule cache_lock_block_ready [OF R1 ne])
  have "blocks_cached secsz nsec dinv sector (dev_block sector secsz (of_nat (2 ^ s))) (of_nat (2 ^ s)) d2"
    using d2(2) b1 same_payload_simps(7) [OF d2(3)] unfolding blocks_cached_def by metis
  then show thesis by (intro that [OF d1(1) c w d2(1)])
qed

end


text \<open>The numbers that a mount keeps, in natural numbers.\<close>

definition ext2_geometry :: "ext2_super_block \<Rightarrow> fs_info \<Rightarrow> ext2_sb_info \<Rightarrow> bool" where
  "ext2_geometry sb fs sbi \<longleftrightarrow>
     unat (block_size fs) = 1024 * 2 ^ unat (sb_log_block_size sb) \<and>
     unat (s_inodes_per_block sbi) = unat (block_size fs) div unat (sb_inode_size sb) \<and>
     unat (s_desc_per_block sbi) = unat (block_size fs) div max 32 (unat (sb_desc_size sb)) \<and>
     unat (s_groups_count sbi) =
       (unat (sb_blocks_count sb) - unat (sb_first_data_block sb) + unat (sb_blocks_per_group sb) - 1) div unat (sb_blocks_per_group sb) \<and>
     s_inodes_per_group sbi = sb_inodes_per_group sb \<and> s_blocks_per_group sbi = sb_blocks_per_group sb \<and>
     s_first_data_block sbi = sb_first_data_block sb \<and> unat (s_inode_size sbi) = unat (sb_inode_size sb)"

definition ext2_super_ok :: "ext2_super_block \<Rightarrow> bool" where
  "ext2_super_ok sb \<longleftrightarrow> sb_magic sb = EXT2_SUPER_MAGIC \<and> sb_log_block_size sb \<le> 2 \<and> sb_inode_size sb \<noteq> 0 \<and>
     sb_blocks_per_group sb \<noteq> 0 \<and> sb_first_data_block sb \<le> sb_blocks_count sb \<and>
     unat (sb_blocks_count sb) - unat (sb_first_data_block sb) + unat (sb_blocks_per_group sb) \<le> 2 ^ 32"

lemma ext2_shift:
  assumes "sb_log_block_size sb \<le> 2"
  shows "unat (sb_log_block_size sb + 10) = unat (sb_log_block_size sb) + 10" "unat (sb_log_block_size sb) \<le> 2"
proof -
  show l: "unat (sb_log_block_size sb) \<le> 2" using assms by (simp add: word_le_nat_alt)
  then show "unat (sb_log_block_size sb + 10) = unat (sb_log_block_size sb) + 10" by (subst unat_add_no_wrap) simp_all
qed

lemma ext2_sb_info_ok:
  assumes sb: "ext2_super_ok sb" and fs: "block_size fs = push_bit (unat (sb_log_block_size sb) + 10) 1"
  obtains sbi where "ext2_sb_info_of fs sb = Some sbi" "ext2_geometry sb fs sbi"
proof -
  note S = sb [unfolded ext2_super_ok_def]
  let ?l = "unat (sb_log_block_size sb)"
  have l: "?l \<le> 2" using S by (intro ext2_shift(2)) simp
  have p: "(2 :: nat) ^ (?l + 10) \<le> 2 ^ 12" using l by (intro power_increasing) simp_all
  have "unat (block_size fs) = 2 ^ (?l + 10) mod 2 ^ 32" unfolding fs by (simp only: unat_push_bit) simp
  then have bs: "unat (block_size fs) = 2 ^ (?l + 10)" using p by simp
  let ?ds = "if sb_desc_size sb < of_nat sizeof_group_desc then of_nat sizeof_group_desc else sb_desc_size sb"
  have ds: "unat ?ds = max 32 (unat (sb_desc_size sb))" by (simp add: sizeof_group_desc_def word_less_nat_alt max_def)
  have z: "ucast (sb_inode_size sb) \<noteq> (0 :: u32)" "ucast ?ds \<noteq> (0 :: u32)"
    using S ds by (auto simp: word_unat_eq_iff unat_ucast_up)
  let ?b = "sb_blocks_count sb - sb_first_data_block sb" and ?g = "sb_blocks_per_group sb"
  have b: "unat ?b = unat (sb_blocks_count sb) - unat (sb_first_data_block sb)" using S by (simp add: unat_sub_no_wrap)
  have g: "1 \<le> unat ?g" using S by (simp add: unat_gt_0 Suc_leI)
  have one: "?b + ?g - 1 = ?b + (?g - 1)" by simp
  have g1: "unat (?g - 1) = unat ?g - 1" using g by (subst unat_sub_no_wrap) (simp_all add: word_le_nat_alt)
  have c: "unat (?b + ?g - 1) = unat (sb_blocks_count sb) - unat (sb_first_data_block sb) + unat ?g - 1"
  proof -
    have "unat (sb_blocks_count sb) - unat (sb_first_data_block sb) + unat ?g \<le> 4294967296" using S by simp
    then have "unat ?b + unat (?g - 1) < 4294967296" unfolding b g1 using g by linarith
    then show ?thesis unfolding one using b g g1 by (subst unat_add_no_wrap) simp_all
  qed
  show thesis
    by (rule that) (use S z in \<open>simp add: ext2_sb_info_of_def udivmod_def Let_def\<close>,
      simp add: ext2_geometry_def unat_div_distrib unat_ucast_up c ds, simp add: bs power_add)
qed

text \<open>C27. Mounting an ext2 volume with blocks of 1024, 2048 or 4096 bytes: \<open>ext2_fs_init\<close> returns the block shift, keeps the
  geometry that the super block gives, and leaves a block cache that shows the disk's blocks.  The code means to
  keep zeros under the number 0 for ever, but the buffer that it clears and locks has no block number: a later read of block 0 gives
  the first block of the disk.\<close>

theorem ext2_mounts:
  assumes D: "block_device rdwr 512 nsec dinv sector" and n: "8 \<le> nsec"
    and sb: "super_block (sector 2 @ sector 3) = Some sb" "ext2_super_ok sb" and junk: "length junk = 1024"
    and dev: "8252 \<le> unat (cache_size dev)" "unat (cache_size dev) \<le> 65536 * 1024"
      "length (cache_data dev) = unat (cache_size dev)" "dinv (dev_disk dev)"
  shows "\<exists>dev' fs sbi. ext2_fs_init rdwr 9 junk True dev = Some (dev', int (block_shift fs), Some (fs, sbi)) \<and>
    sector_shift fs = 9 \<and> ext2_blocks fs (of_nat (unat (block_size fs))) (unat (block_size fs) div 4) \<and> ext2_geometry sb fs sbi \<and>
    blocks_cached 512 nsec dinv sector (dev_block sector 512 (of_nat (unat (block_size fs)))) (of_nat (unat (block_size fs))) dev' \<and>
    (\<exists>dev''. read_block rdwr 512 dev' 0 = Some (dev'', dev_block sector 512 (of_nat (unat (block_size fs))) 0))"
proof -
  let ?l = "unat (sb_log_block_size sb)" and ?s = "unat (sb_log_block_size sb) + 10"
  have "sb_log_block_size sb \<le> 2" using sb(2) by (simp add: ext2_super_ok_def)
  note L = ext2_shift [OF this]
  obtain d bs where r: "rdwr (dev_disk dev) 2 2 = (d, bs)" by (cases "rdwr (dev_disk dev) 2 2")
  have bs: "bs = sector 2 @ sector 3" "dinv d"
    using block_device.rdwr_reads [OF D dev(4), of 2 2] block_device.rdwr_inv [OF D dev(4), of 2 2] n by (simp_all add: r upt_rec)
  have l: "length (sector 2) = 512" "length (sector 3) = 512" using block_device.sector_length [OF D] by simp_all
  let ?fs = "\<lparr>sector_shift = 9, sector_size = push_bit 9 1, block_shift = ?s, block_size = push_bit ?s 1\<rparr> :: fs_info"
  let ?dev = "dev\<lparr>dev_disk := d\<rparr>"
  obtain sbi where sbi: "ext2_sb_info_of ?fs sb = Some sbi" "ext2_geometry sb ?fs sbi"
    by (rule ext2_sb_info_ok [OF sb(2), of ?fs]) simp
  have p: "(2 :: nat) ^ ?s \<le> 2 ^ 12" "(2 :: nat) ^ 10 \<le> 2 ^ ?s" using L(2) by (intro power_increasing; simp)+
  have b: "unat (block_size ?fs) = 2 ^ ?s" using sbi(2) by (simp add: ext2_geometry_def power_add)
  have c: "?s \<le> 15" "2 * 2 ^ ?s + 60 \<le> unat (cache_size ?dev)" "(unat (cache_size ?dev) - 20) div (2 ^ ?s + 20) < 65536"
    "length (cache_data ?dev) = unat (cache_size ?dev)" "dinv (dev_disk ?dev)"
  proof -
    have "unat (cache_size dev) - 20 < 65536 * (2 ^ ?s + 20)" using dev(2) p(2) by simp
    then show "(unat (cache_size ?dev) - 20) div (2 ^ ?s + 20) < 65536" by (simp add: div_less_iff_less_mult)
  qed (use L(2) p(1) dev bs(2) in simp_all)
  have dv: "unat (512 :: u32) dvd 2 ^ ?s" using le_imp_power_dvd [of 9 ?s "2 :: nat"] by simp
  obtain d1 c dat buf d2 where k: "get_cache_block (cache_init ?dev ?s) 0 = Some (1, d1)" "rd (cache_nodes d1) 1 = Some c" "c_data c = Some dat"
    "wr_range (cache_data d1) dat (replicate (2 ^ ?s) 0) = Some buf" "cache_lock_block (d1\<lparr>cache_data := buf\<rparr>) 1 = Some d2"
    "blocks_cached 512 nsec dinv sector (dev_block sector 512 (of_nat (2 ^ ?s))) (of_nat (2 ^ ?s)) d2"
    by (rule block_device.pin_no_block [OF D c dv])
  have w: "wr_range junk 0 bs = Some (sector 2 @ sector 3)" using junk l by (simp add: wr_range_def bs(1))
  have m: "sb_magic sb = EXT2_SUPER_MAGIC" "?s < 32" using sb(2) L(2) by (simp_all add: ext2_super_ok_def)
  have "ext2_fs_init rdwr 9 junk True dev = Some (d2, int ?s, Some (?fs, sbi))"
    unfolding ext2_fs_init_def dev_rdwr_def r using sb(1) k(1-5) sbi(1) w m b arg_cong [OF L(1), of int] by (simp add: Let_def L(1))
  moreover have "ext2_blocks ?fs (of_nat (2 ^ ?s)) (2 ^ ?s div 4)"
  proof -
    have "unat (of_nat (2 ^ ?s) :: u16) = 2 ^ ?s" using unat_block_size [OF c(1)] by simp
    moreover have "(2 :: nat) ^ ?s = 2 ^ (?s - 2) * 2 ^ 2" unfolding power_add [symmetric] by simp
    ultimately show ?thesis using L(2) by (simp add: ext2_blocks_def)
  qed
  moreover have "valid_block 512 nsec (of_nat (2 ^ ?s)) 0"
  proof -
    have "unat (of_nat (2 ^ ?s) :: u16) = 2 ^ ?s" using unat_block_size [OF c(1)] by simp
    moreover have "unat (ucast x div (512 :: u32)) = unat x div 512" for x :: u16 by (simp add: unat_div_distrib unat_ucast_up)
    ultimately have "unat (ucast (of_nat (2 ^ ?s) :: u16) div (512 :: u32)) = 2 ^ ?s div 512" by presburger
    moreover have "(2 :: nat) ^ ?s div 512 \<le> 2 ^ 12 div 512" by (rule div_le_mono [OF p(1)])
    ultimately show ?thesis using n by (simp only: valid_block_def) simp
  qed
  then have "\<exists>d3. read_block rdwr 512 d2 0 = Some (d3, dev_block sector 512 (of_nat (2 ^ ?s)) 0)"
    using block_device.read_cached [OF D k(6)] by blast
  ultimately show ?thesis using sbi(2) k(6) b
    by - (rule exI [of _ d2], rule exI [of _ ?fs], rule exI [of _ sbi], simp add: b)
qed


text \<open>
  A volume of 100 sectors with blocks of 1024 bytes, one group of 16 inodes of 128 bytes in a table from block 5 on, and
  a directory in block 7 with the only name \<open>a\<close>, for inode 12.
\<close>

definition ext2_super_bytes :: bytes where
  "ext2_super_bytes = [16, 0, 0, 0, 50, 0, 0, 0] @ replicate 12 0 @ [1, 0, 0, 0, 0, 0, 0, 0, 0, 0, 0, 0, 0, 32, 0, 0, 0, 32, 0, 0, 16, 0, 0, 0] @
     replicate 12 0 @ [0x53, 0xEF] @ replicate 30 0 @ [128, 0] @ replicate 422 0"

definition ext2_demo_sector :: "u64 \<Rightarrow> bytes" where
  "ext2_demo_sector sn =
     (if sn = 2 then ext2_super_bytes
      else if sn = 4 then replicate 8 0 @ [5, 0, 0, 0] @ replicate 500 0
      else if sn = 14 then [12, 0, 0, 0, 0, 4, 1, 1, 0x61] @ replicate 503 0
      else replicate 512 (ucast sn))"

definition ext2_demo_device :: "unit device" where
  "ext2_demo_device = demo_device\<lparr>cache_data := replicate 16384 0, cache_size := 16384\<rparr>"

definition ext2_demo_super :: ext2_super_block where
  "ext2_demo_super = \<lparr>sb_blocks_count = 50, sb_first_data_block = 1, sb_log_block_size = 0, sb_blocks_per_group = 8192,
     sb_inodes_per_group = 16, sb_magic = 0xEF53, sb_inode_size = 128, sb_desc_size = 0\<rparr>"

lemma ext2_demo_disk: "block_device (ram_rdwr ext2_demo_sector) 512 100 (\<lambda>_. True) ext2_demo_sector"
  using ram_sector_cache [of ext2_demo_sector 100] by (simp add: sector_cache_def ext2_demo_sector_def ext2_super_bytes_def)

lemma ext2_demo_super: "super_block (ext2_demo_sector 2 @ ext2_demo_sector 3) = Some ext2_demo_super"
proof -
  have "super_block (ext2_super_bytes @ replicate 512 3) = Some ext2_demo_super"
    by (simp add: super_block_def ext2_super_bytes_def ext2_demo_super_def rd16_def rd32_def rd_def nth_append le16_of_def le32_of_def)
  then show ?thesis by (simp add: ext2_demo_sector_def)
qed

theorem ext2_mounts_witness:
  "\<exists>dev' fs sbi. ext2_fs_init (ram_rdwr ext2_demo_sector) 9 (replicate 1024 0xcc) True ext2_demo_device = Some (dev', int (block_shift fs), Some (fs, sbi)) \<and>
    unat (s_groups_count sbi) = 1 \<and> unat (s_inodes_per_block sbi) = 8 \<and>
    (\<exists>dev''. read_block (ram_rdwr ext2_demo_sector) 512 dev' 0 = Some (dev'', dev_block ext2_demo_sector 512 (of_nat (unat (block_size fs))) 0))"
proof -
  have ok: "ext2_super_ok ext2_demo_super" by (simp add: ext2_super_ok_def ext2_demo_super_def EXT2_SUPER_MAGIC_def)
  show ?thesis
    using ext2_mounts [OF ext2_demo_disk _ ext2_demo_super ok, of "replicate 1024 0xcc" ext2_demo_device]
    by (auto simp: ext2_demo_device_def demo_device_def ext2_geometry_def ext2_demo_super_def)
qed

end
