(* ===== verification/Ext2dir.thy ===== *)
theory Ext2dir
  imports Ext2
begin

text \<open>
  Directories, inodes and symbolic links of ext2 volumes: what \<open>ext2_iget\<close>, \<open>ext2_readdir\<close> and \<open>ext2_readlink\<close> of
  \<open>libcore/fs/ext2/ext2.c\<close> find on the disk.
\<close>

section \<open>Looking up names\<close>

text \<open>The entries of a directory block from an offset on, up to its end.\<close>

inductive dir_list :: "bytes \<Rightarrow> nat \<Rightarrow> ext2_dir_entry list \<Rightarrow> bool" for b where
  dir_end: "dir_list b (length b) []"
| dir_entry: "ext2_dir_entry_at b off = Some de \<Longrightarrow> 9 \<le> unat (d_rec_len de) \<Longrightarrow> 8 + unat (d_name_len de) \<le> unat (d_rec_len de) \<Longrightarrow>
    off + unat (d_rec_len de) \<le> length b \<Longrightarrow> dir_list b (off + unat (d_rec_len de)) des \<Longrightarrow> dir_list b off (de # des)"

definition entry_named :: "bytes \<Rightarrow> ext2_dir_entry \<Rightarrow> bool" where
  "entry_named nm de \<longleftrightarrow> d_inode de \<noteq> 0 \<and> take (unat (d_name_len de)) (e_name de) = nm"

lemma memcmp_zero:
  assumes "n \<le> length a" "n \<le> length b"
  shows "\<exists>c. memcmp a b n = Some c \<and> (c = 0 \<longleftrightarrow> take n a = take n b)"
  using memcmp_defined [OF assms] memcmp_equal_iff [OF assms] by auto

lemma match_entry_ok:
  assumes "unat (d_name_len de) \<le> length (e_name de)"
  shows "ext2_match_entry (nm @ 0 # j) (length nm) de = Some (entry_named nm de)"
proof (cases "d_inode de = 0 \<or> length nm \<noteq> unat (d_name_len de)")
  case True
  then show ?thesis using assms by (auto simp: ext2_match_entry_def entry_named_def)
next
  case False
  then show ?thesis using memcmp_zero [of "length nm" "nm @ 0 # j" "e_name de"] assms by (auto simp: ext2_match_entry_def entry_named_def)
qed

lemma entry_at_name: "ext2_dir_entry_at b off = Some de \<Longrightarrow> e_name de = drop (off + 8) b"
  by (auto simp: ext2_dir_entry_at_def split: bind_splits)

lemma find_in_block_ok:
  assumes "dir_list b off des" "length b = unat mx" "16 \<le> unat mx" "unat mx < 2 ^ 16"
  shows "find_in_block b (nm @ 0 # j) (length nm) mx (of_nat off) = Some (find (entry_named nm) des)"
  using assms(1)
proof induction
  case dir_end
  have "\<not> (of_nat (length b) :: u32) < mx - 8"
    using assms(2-4) by (simp add: word_less_nat_alt unat_sub_no_wrap word_le_nat_alt)
  then show ?case by (subst find_in_block.simps) simp
next
  case (dir_entry off de des)
  let ?r = "unat (d_rec_len de)"
  have o: "unat (of_nat off :: u32) = off" by (rule unat_of_nat_small) (use dir_entry.hyps assms in simp)
  have m8: "unat (mx - 8) = unat mx - 8" using assms(3) by (subst unat_sub_no_wrap) (simp_all add: word_le_nat_alt)
  have lt: "(of_nat off :: u32) < mx - 8" unfolding word_less_nat_alt o m8 using dir_entry.hyps(2,4) assms(2) by linarith
  have mo: "unat (mx - of_nat off) = unat mx - off" using dir_entry.hyps(4) assms(2) o by (subst unat_sub_no_wrap) (simp_all add: word_le_nat_alt)
  have fits: "\<not> mx - of_nat off < ucast (d_rec_len de)"
    using dir_entry.hyps(4) assms(2) by (simp add: word_less_nat_alt mo unat_ucast_up)
  have m: "ext2_match_entry (nm @ 0 # j) (length nm) de = Some (entry_named nm de)"
    by (rule match_entry_ok) (use dir_entry.hyps in \<open>simp add: entry_at_name [OF dir_entry.hyps(1)]\<close>)
  have nx: "(of_nat off :: u32) + ucast (d_rec_len de) = of_nat (off + ?r)" by (simp only: of_nat_add of_nat_unat)
  have "find_in_block b (nm @ 0 # j) (length nm) mx (of_nat off) =
      (if entry_named nm de then Some (Some de) else find_in_block b (nm @ 0 # j) (length nm) mx (of_nat off + ucast (d_rec_len de)))"
    by (subst find_in_block.simps) (simp only: if_P [OF lt] o dir_entry.hyps(1) bind.bind_lunit if_not_P [OF fits] m)
  then show ?case unfolding nx dir_entry.IH by simp
qed


lemma find_append: "find P (xs @ ys) = (case find P xs of None \<Rightarrow> find P ys | Some x \<Rightarrow> Some x)"
  by (induction xs) simp_all

text \<open>
  What the search of a directory relies on: the \<open>N\<close> blocks of the directory can be read, and each is filled
  with entries.
\<close>

locale ext2_dir = block_device +
  fixes fs :: fs_info and bs :: u16 and content :: "u64 \<Rightarrow> bytes" and inode :: "ext2_pvt inode"
    and blk :: "nat \<Rightarrow> bytes" and N :: nat and des :: "nat \<Rightarrow> ext2_dir_entry list"
  assumes geo: "unat (block_size fs) = unat bs" "16 \<le> unat bs"
    and dir_size: "unat (isize inode) = N * unat bs" "(N + 1) * unat bs \<le> 2 ^ 32"
    and get: "blocks_cached secsz nsec dinv sector content bs dev \<Longrightarrow> l < N \<Longrightarrow>
      \<exists>dev'. ext2_get_cache rdwr secsz fs dev inode (of_nat l) = Some (dev', blk l) \<and> blocks_cached secsz nsec dinv sector content bs dev'"
    and dirs: "l < N \<Longrightarrow> length (blk l) = unat bs \<and> dir_list (blk l) 0 (des l)"
begin

lemma start_of_block:
  assumes "k \<le> N"
  shows "unat (of_nat (k * unat bs) :: u32) = k * unat bs"
proof (rule unat_of_nat_small)
  have "k * unat bs \<le> N * unat bs" using assms by (rule mult_le_mono1)
  moreover have "N * unat bs + unat bs \<le> 4294967296" using dir_size(2) by simp
  ultimately have "k * unat bs < 4294967296" using geo(2) by linarith
  then show "k * unat bs < 2 ^ LENGTH(32)" by simp
qed

lemma whole_block:
  assumes "k < N"
  shows "min (block_size fs) (of_nat (k * unat bs) - isize inode) = block_size fs" "(of_nat (k * unat bs) :: u32) < isize inode"
proof -
  note s = start_of_block [OF less_imp_le [OF assms]]
  have k: "k * unat bs + unat bs \<le> N * unat bs" using mult_le_mono1 [of "k + 1" N "unat bs"] assms by simp
  show "(of_nat (k * unat bs) :: u32) < isize inode" unfolding word_less_nat_alt s dir_size(1) using k geo(2) by linarith
  have "\<not> unat (isize inode) \<le> unat (of_nat (k * unat bs) :: u32)" unfolding s dir_size(1) using k geo(2) by linarith
  then have "unat (of_nat (k * unat bs) - isize inode) = k * unat bs + 2 ^ 32 - N * unat bs"
    unfolding unat_sub_if' s dir_size(1) by simp
  moreover have "unat bs \<le> k * unat bs + 2 ^ 32 - N * unat bs" using dir_size(2) by simp
  ultimately have "block_size fs \<le> of_nat (k * unat bs) - isize inode" by (simp only: word_le_nat_alt geo(1))
  then show "min (block_size fs) (of_nat (k * unat bs) - isize inode) = block_size fs" by (simp only: min_def if_True)
qed

lemma find_in_blocks_ok:
  assumes "k \<le> N" "blocks_cached secsz nsec dinv sector content bs dev"
  shows "\<exists>dev'. find_in_blocks rdwr secsz fs inode (nm @ 0 # j) (length nm) dev (of_nat k) (of_nat (k * unat bs)) =
      Some (dev', find (entry_named nm) (concat (map des [k..<N]))) \<and> blocks_cached secsz nsec dinv sector content bs dev'"
  using assms
proof (induction "N - k" arbitrary: k dev)
  case 0
  then have "k = N" by simp
  moreover have "\<not> (of_nat (N * unat bs) :: u32) < isize inode"
    unfolding word_less_nat_alt start_of_block [OF order_refl] dir_size(1) by simp
  ultimately show ?case using 0 by (subst find_in_blocks.simps) (simp del: of_nat_mult)
next
  case (Suc m)
  then have k: "k < N" by simp
  note w = whole_block [OF k]
  obtain dev1 where g: "ext2_get_cache rdwr secsz fs dev inode (of_nat k) = Some (dev1, blk k)"
    "blocks_cached secsz nsec dinv sector content bs dev1" using get [OF Suc.prems(2) k] by blast
  have b16: "unat bs < 2 ^ 16" by simp
  have f: "find_in_block (blk k) (nm @ 0 # j) (length nm) (block_size fs) 0 = Some (find (entry_named nm) (des k))"
    using find_in_block_ok [of "blk k" 0 "des k" "block_size fs" nm j] dirs [OF k] geo b16 by simp
  have x: "[k..<N] = k # [k + 1..<N]" using k by (simp add: upt_conv_Cons)
  have step: "find_in_blocks rdwr secsz fs inode (nm @ 0 # j) (length nm) dev (of_nat k) (of_nat (k * unat bs)) =
    (case find (entry_named nm) (des k) of Some de \<Rightarrow> Some (dev1, Some de)
     | None \<Rightarrow> find_in_blocks rdwr secsz fs inode (nm @ 0 # j) (length nm) dev1 (of_nat k + 1) (of_nat (k * unat bs) + block_size fs))"
    by (subst find_in_blocks.simps) (simp only: if_P [OF w(2)] g(1) bind.bind_lunit prod.case Let_def w(1) f)
  show ?case
  proof (cases "find (entry_named nm) (des k)")
    case (Some de)
    then have "find (entry_named nm) (concat (map des [k..<N])) = Some de" unfolding x by (simp add: find_append)
    then show ?thesis using step Some g(2) by simp
  next
    case None
    have "block_size fs = of_nat (unat bs)" by (simp only: geo(1) [symmetric]) simp
    then have i: "(of_nat (k * unat bs) :: u32) + block_size fs = of_nat ((k + 1) * unat bs)" by (simp only: of_nat_add [symmetric]) (simp only: distrib_right mult_1)
    have "(of_nat k :: u64) + 1 = of_nat (k + 1)" by simp
    moreover obtain dev' where "find_in_blocks rdwr secsz fs inode (nm @ 0 # j) (length nm) dev1 (of_nat (k + 1)) (of_nat ((k + 1) * unat bs)) =
      Some (dev', find (entry_named nm) (concat (map des [k + 1..<N])))" "blocks_cached secsz nsec dinv sector content bs dev'"
    proof -
      have "m = N - (k + 1)" "k + 1 \<le> N" using Suc.hyps(2) k by linarith+
      then show thesis using Suc.hyps(1) [of "k + 1" dev1] g(2) that by blast
    qed
    moreover have "find (entry_named nm) (concat (map des [k..<N])) = find (entry_named nm) (concat (map des [k + 1..<N]))"
      using None unfolding x by (simp add: find_append)
    ultimately show ?thesis using step None i by (metis option.case(1))
  qed
qed

lemma find_entry_ok:
  assumes "blocks_cached secsz nsec dinv sector content bs dev" "0 \<notin> set nm"
  shows "\<exists>dev'. ext2_find_entry rdwr secsz fs dev inode (nm @ 0 # j) = Some (dev', find (entry_named nm) (concat (map des [0..<N]))) \<and>
    blocks_cached secsz nsec dinv sector content bs dev'"
  using find_in_blocks_ok [of 0 dev nm j] assms by (simp add: ext2_find_entry_def)

end

lemma get_cache_ptr:
  assumes D: "block_device rdwr secsz nsec dinv sector" and E: "ext2_blocks fs bs A"
    and C: "blocks_cached secsz nsec dinv sector content bs dev"
    and inode: "iflags inode AND EXT4_EXTENTS_FLAG = 0" "length (pvt inode) = 60"
    and ok: "file_ok content (valid_block secsz nsec bs) A (pvt inode) (unat l)"
      "valid_block secsz nsec bs (ucast (file_block content A (pvt inode) (unat l)))"
  obtains dev' where "ext2_get_cache rdwr secsz fs dev inode l = Some (dev', content (ucast (file_block content A (pvt inode) (unat l))))"
    "blocks_cached secsz nsec dinv sector content bs dev'" "length (content (ucast (file_block content A (pvt inode) (unat l)))) = unat bs"
proof -
  obtain dev1 where b: "bmap_traditional rdwr secsz fs dev (pvt inode) l None = Some (dev1, ucast (file_block content A (pvt inode) (unat l)), None)"
    "blocks_cached secsz nsec dinv sector content bs dev1"
    using block_device.bmap_traditional_ok [OF D E C inode(2) ok(1), of None] by (elim exE conjE) (simp only: option.map)
  obtain dev' where "read_block rdwr secsz dev1 (ucast (file_block content A (pvt inode) (unat l))) =
      Some (dev', content (ucast (file_block content A (pvt inode) (unat l))))" "blocks_cached secsz nsec dinv sector content bs dev'"
    "length (content (ucast (file_block content A (pvt inode) (unat l)))) = unat bs"
    by (rule block_device.read_cached_len [OF D b(2) ok(2)])
  then show thesis using that b(1) inode(1) by (simp add: ext2_get_cache_def ext2_bmap_def)
qed


section \<open>Finding inodes\<close>

text \<open>
  The group descriptors and the inodes of a group are arrays over consecutive blocks; the reference reads
  \<open>len\<close> bytes at \<open>pos\<close> in the blocks from \<open>first\<close> on.
\<close>

definition table_slice :: "(u64 \<Rightarrow> bytes) \<Rightarrow> nat \<Rightarrow> u32 \<Rightarrow> nat \<Rightarrow> nat \<Rightarrow> bytes" where
  "table_slice content bs first pos len =
     take len (drop pos (concat (map (\<lambda>i. content (ucast (first + of_nat i))) [0..<(pos + len) div bs + 1])))"

definition desc_bytes :: "(u64 \<Rightarrow> bytes) \<Rightarrow> nat \<Rightarrow> ext2_sb_info \<Rightarrow> nat \<Rightarrow> bytes" where
  "desc_bytes content bs sbi g = table_slice content bs (s_first_data_block sbi + 1) (32 * g) 32"

definition inode_table :: "(u64 \<Rightarrow> bytes) \<Rightarrow> nat \<Rightarrow> ext2_sb_info \<Rightarrow> nat \<Rightarrow> u32" where
  "inode_table content bs sbi g = word_at (desc_bytes content bs sbi g) 2"

definition inode_bytes :: "(u64 \<Rightarrow> bytes) \<Rightarrow> nat \<Rightarrow> ext2_sb_info \<Rightarrow> nat \<Rightarrow> bytes" where
  "inode_bytes content bs sbi inr =
     (let k = inr - 1; ipg = unat (s_inodes_per_group sbi)
      in table_slice content bs (inode_table content bs sbi (k div ipg)) (k mod ipg * unat (s_inode_size sbi)) 128)"

lemma slice_in_block:
  assumes "\<And>i. i \<le> q \<Longrightarrow> length (f i) = bs" "pos = q * bs + o0" "o0 + len \<le> bs" "q < m"
  shows "take len (drop pos (concat (map f [0..<m]))) = take len (drop o0 (f q))"
proof -
  have u: "[0..<m] = [0..<q] @ q # [q + 1..<m]" using assms(4) upt_add_eq_append [of 0 q "m - q"] by (simp add: upt_conv_Cons)
  have "length (concat (map f [0..<k])) = k * bs" if "k \<le> q" for k
    using that by (induction k) (simp_all add: assms(1))
  then have l: "length (concat (map f [0..<q])) = q * bs" by simp
  have "drop pos (concat (map f [0..<m])) = drop o0 (f q) @ concat (map f [q + 1..<m])"
    unfolding u using l assms(1) [of q] assms(2,3) by simp
  then show ?thesis using assms(1) [of q] assms(3) by simp
qed

text \<open>Reading a structure only looks at its own bytes.\<close>

lemma rd_slice: "i < len \<Longrightarrow> o0 + len \<le> length b \<Longrightarrow> rd (take len (drop o0 b)) i = rd b (o0 + i)"
  by (simp add: rd_def)

lemma rd16_slice: "i + 1 < len \<Longrightarrow> o0 + len \<le> length b \<Longrightarrow> rd16 (take len (drop o0 b)) i = rd16 b (o0 + i)"
  by (simp add: rd16_in)

lemma rd32_slice: "i + 3 < len \<Longrightarrow> o0 + len \<le> length b \<Longrightarrow> rd32 (take len (drop o0 b)) i = rd32 b (o0 + i)"
  by (simp add: rd32_in add.assoc)

lemma ext2_inode_slice:
  assumes "o0 + 128 \<le> length b"
  shows "ext2_inode_at b o0 = ext2_inode_at (take 128 (drop o0 b)) 0" "ext2_inode_at b o0 \<noteq> None"
proof -
  have "take 60 (drop (o0 + 40) b) = take 60 (drop 40 (take 128 (drop o0 b)))"
    using assms by (simp add: drop_take min_def add.commute)
  then show "ext2_inode_at b o0 = ext2_inode_at (take 128 (drop o0 b)) 0"
    using assms by (simp add: ext2_inode_at_def rd16_slice rd32_slice rd_range_def)
  show "ext2_inode_at b o0 \<noteq> None" using assms by (simp add: ext2_inode_at_def rd16_in rd32_in)
qed

lemma table_slice_block:
  assumes "\<And>i. i \<le> q \<Longrightarrow> length (content (ucast (first + of_nat i))) = bs" "pos = q * bs + o0" "o0 + len \<le> bs" "0 < bs"
  shows "table_slice content bs first pos len = take len (drop o0 (content (ucast (first + of_nat q))))"
  unfolding table_slice_def
proof (rule slice_in_block [OF assms(1-3)])
  have "q * bs div bs \<le> (pos + len) div bs" by (rule div_le_mono) (simp add: assms(2))
  then show "q < (pos + len) div bs + 1" using assms(4) by simp
qed


text \<open>
  The geometry that the lookup of an inode relies on: descriptors of 32 bytes and inodes fill their blocks, and
  the blocks with the descriptor and the inode are inside the partition.
\<close>

definition ext2_sb_ok :: "u16 \<Rightarrow> ext2_sb_info \<Rightarrow> bool" where
  "ext2_sb_ok bs sbi \<longleftrightarrow> unat (s_desc_per_block sbi) * 32 = unat bs \<and> unat (s_inodes_per_block sbi) * unat (s_inode_size sbi) = unat bs \<and>
     128 \<le> unat (s_inode_size sbi) \<and> s_inodes_per_group sbi \<noteq> 0 \<and> 0 < unat bs"

definition inode_in_volume :: "(u64 \<Rightarrow> bytes) \<Rightarrow> (u64 \<Rightarrow> bool) \<Rightarrow> u16 \<Rightarrow> ext2_sb_info \<Rightarrow> u32 \<Rightarrow> bool" where
  "inode_in_volume content V bs sbi inr \<longleftrightarrow>
     (let k = unat inr - 1; ipg = unat (s_inodes_per_group sbi); g = k div ipg in
      inr \<noteq> 0 \<and> g < unat (s_groups_count sbi) \<and> V (ucast (s_first_data_block sbi + 1 + of_nat (g div unat (s_desc_per_block sbi)))) \<and>
      V (ucast (inode_table content (unat bs) sbi g + of_nat (k mod ipg div unat (s_inodes_per_block sbi)))))"

lemma array_place:
  assumes "per * sz = (bs :: nat)" "0 < bs"
  shows "k * sz = k div per * bs + k mod per * sz" "k mod per * sz + sz \<le> bs" "0 < per"
proof -
  show p: "0 < per" using assms by (cases per) auto
  have "k div per * bs + k mod per * sz = (k div per * per + k mod per) * sz" unfolding assms(1) [symmetric] by (simp only: distrib_right mult.assoc)
  then show "k * sz = k div per * bs + k mod per * sz" by simp
  have "(k mod per + 1) * sz \<le> per * sz" using p by (intro mult_le_mono1) (simp add: Suc_leI)
  then show "k mod per * sz + sz \<le> bs" using assms(1) by simp
qed

lemma udivmod_ok:
  assumes "b \<noteq> 0"
  shows "udivmod a b = Some (of_nat (unat a div unat b), of_nat (unat a mod unat b))"
  using assms by (simp add: udivmod_def unat_div_distrib [symmetric] unat_mod_distrib [symmetric])

lemma group_desc_slice: "o0 + 32 \<le> length b \<Longrightarrow> group_desc b o0 = Some \<lparr>bg_inode_table = word_at (take 32 (drop o0 b)) 2\<rparr>"
  using rd32_slice [of 8 32 o0 b] rd32_word_at [of 2 "take 32 (drop o0 b)"] by (simp add: group_desc_def)

context block_device begin

lemma group_desc_ok:
  assumes C: "blocks_cached secsz nsec dinv sector content bs dev" and len: "\<And>b. length (content b) = unat bs" and s: "ext2_sb_ok bs sbi"
    and g: "unat g < unat (s_groups_count sbi)"
      "valid_block secsz nsec bs (ucast (s_first_data_block sbi + 1 + of_nat (unat g div unat (s_desc_per_block sbi))))"
  shows "\<exists>dev'. ext2_get_group_desc rdwr secsz sbi dev g = Some (dev', Some \<lparr>bg_inode_table = inode_table content (unat bs) sbi (unat g)\<rparr>) \<and>
    blocks_cached secsz nsec dinv sector content bs dev'"
proof -
  let ?d = "unat (s_desc_per_block sbi)" and ?f = "s_first_data_block sbi + 1"
  have dp: "?d * 32 = unat bs" "0 < unat bs" using s by (simp_all add: ext2_sb_ok_def)
  note P = array_place(1,2) [OF dp, of "unat g"] array_place(3) [OF dp]
  let ?b = "content (ucast (?f + of_nat (unat g div ?d)))"
  obtain dev' where r: "read_block rdwr secsz dev (ucast (?f + of_nat (unat g div ?d))) = Some (dev', ?b)"
    "blocks_cached secsz nsec dinv sector content bs dev'" by (rule read_cached [OF C g(2)])
  have nz: "s_desc_per_block sbi \<noteq> 0" using P(3) by auto
  have i: "unat (of_nat (unat g mod ?d) :: u32) = unat g mod ?d"
  proof (rule unat_of_nat_small)
    have "unat g mod ?d \<le> unat g" by simp
    then have "unat g mod ?d < 4294967296" using unat_u32_lt [of g] by (rule le_less_trans)
    then show "unat g mod ?d < 2 ^ LENGTH(32)" by simp
  qed
  have "desc_bytes content (unat bs) sbi (unat g) = take 32 (drop (unat g mod ?d * 32) ?b)"
    unfolding desc_bytes_def by (rule table_slice_block) (use len P dp in \<open>simp_all add: mult.commute\<close>)
  then have "group_desc ?b (unat g mod ?d * 32) = Some \<lparr>bg_inode_table = inode_table content (unat bs) sbi (unat g)\<rparr>"
    using group_desc_slice [of "unat g mod ?d * 32" ?b] P(2) len by (simp add: inode_table_def)
  then show ?thesis
    using g(1) r udivmod_ok [OF nz, of g]
    by (simp add: ext2_get_group_desc_def word_le_nat_alt i sizeof_group_desc_def Let_def add.commute add.left_commute)
qed

lemma iget_by_inr_ok:
  assumes C: "blocks_cached secsz nsec dinv sector content bs dev" and len: "\<And>b. length (content b) = unat bs" and s: "ext2_sb_ok bs sbi"
    and v: "inode_in_volume content (valid_block secsz nsec bs) bs sbi inr"
  shows "\<exists>dev' e. ext2_iget_by_inr rdwr secsz sbi True dev inr = Some (dev', Some (fill_inode (alloc_inode inr (replicate 60 0)) e)) \<and>
    ext2_inode_at (inode_bytes content (unat bs) sbi (unat inr)) 0 = Some e \<and> blocks_cached secsz nsec dinv sector content bs dev'"
proof -
  let ?k = "unat inr - 1" and ?ipg = "unat (s_inodes_per_group sbi)" and ?p = "unat (s_inodes_per_block sbi)" and ?sz = "unat (s_inode_size sbi)"
  let ?g = "?k div ?ipg" and ?o = "?k mod ?ipg"
  let ?t = "inode_table content (unat bs) sbi ?g"
  have vv: "inr \<noteq> 0" "?g < unat (s_groups_count sbi)" "valid_block secsz nsec bs (ucast (s_first_data_block sbi + 1 + of_nat (?g div unat (s_desc_per_block sbi))))"
    "valid_block secsz nsec bs (ucast (?t + of_nat (?o div ?p)))" using v by (simp_all add: inode_in_volume_def Let_def)
  have sb: "?p * ?sz = unat bs" "128 \<le> ?sz" "s_inodes_per_group sbi \<noteq> 0" "0 < unat bs" using s by (simp_all add: ext2_sb_ok_def)
  note P = array_place(1,2) [OF sb(1,4), of ?o] array_place(3) [OF sb(1,4)]
  have k: "unat (inr - 1) = ?k" using vv(1) by (subst unat_sub_no_wrap) (simp_all add: word_le_nat_alt unat_gt_0 Suc_leI)
  have small: "unat (of_nat x :: u32) = x" if "x \<le> ?k" for x
  proof (rule unat_of_nat_small)
    have "x < 4294967296" using that unat_u32_lt [of inr] by linarith
    then show "x < 2 ^ LENGTH(32)" by simp
  qed
  have ug: "unat (of_nat ?g :: u32) = ?g" "unat (of_nat ?o :: u32) = ?o" by (intro small; simp)+
  have um: "unat (of_nat (?o mod ?p) :: u32) = ?o mod ?p" by (rule small) (meson mod_less_eq_dividend order_trans)
  obtain dev1 where d: "ext2_get_group_desc rdwr secsz sbi dev (of_nat ?g) = Some (dev1, Some \<lparr>bg_inode_table = ?t\<rparr>)"
    "blocks_cached secsz nsec dinv sector content bs dev1"
    using group_desc_ok [OF C len s, of "of_nat ?g"] vv(2,3) unfolding ug by blast
  let ?b = "content (ucast (?t + of_nat (?o div ?p)))"
  obtain dev2 where r: "read_block rdwr secsz dev1 (ucast (?t + of_nat (?o div ?p))) = Some (dev2, ?b)"
    "blocks_cached secsz nsec dinv sector content bs dev2" by (rule read_cached [OF d(2) vv(4)])
  have off: "unat (of_nat (?o mod ?p) * s_inode_size sbi) = ?o mod ?p * ?sz"
  proof -
    have "?o mod ?p * ?sz < 4294967296" using P(2) unat_u16_lt [of bs] by linarith
    then have "unat (of_nat (?o mod ?p * ?sz) :: u32) = ?o mod ?p * ?sz" by (intro unat_of_nat_small) simp
    then show ?thesis by simp
  qed
  have "inode_bytes content (unat bs) sbi (unat inr) = take 128 (drop (?o mod ?p * ?sz) ?b)"
    unfolding inode_bytes_def Let_def by (rule table_slice_block) (use len P sb in simp_all)
  moreover obtain e where e: "ext2_inode_at ?b (?o mod ?p * ?sz) = Some e" using ext2_inode_slice(2) [of "?o mod ?p * ?sz" ?b] P(2) sb(2) len by auto
  ultimately have "ext2_inode_at (inode_bytes content (unat bs) sbi (unat inr)) 0 = Some e"
    using ext2_inode_slice(1) [of "?o mod ?p * ?sz" ?b] P(2) sb(2) len by simp
  moreover have nz: "s_inodes_per_block sbi \<noteq> 0" using P(3) by auto
  have "ext2_iget_by_inr rdwr secsz sbi True dev inr = Some (dev2, Some (fill_inode (alloc_inode inr (replicate 60 0)) e))"
    using udivmod_ok [OF sb(3), of "inr - 1"] udivmod_ok [OF nz, of "of_nat ?o"] d(1) r(1) e
    unfolding ext2_iget_by_inr_def ext2_get_inode_def k ug by (simp add: Let_def off del: One_nat_def)
  ultimately show ?thesis using r(2) by blast
qed

end


lemma ptr_dir:
  assumes D: "block_device rdwr secsz nsec dinv sector" and E: "ext2_blocks fs bs A"
    and dir: "iflags dir AND EXT4_EXTENTS_FLAG = 0" "length (pvt dir) = 60" "unat (isize dir) = N * unat bs" "(N + 1) * unat bs \<le> 2 ^ 32"
    and blocks: "\<forall>l<N. file_ok content (valid_block secsz nsec bs) A (pvt dir) l \<and>
        valid_block secsz nsec bs (ucast (file_block content A (pvt dir) l)) \<and> dir_list (content (ucast (file_block content A (pvt dir) l))) 0 (des l)"
    and len: "\<And>b. length (content b) = unat bs"
  shows "ext2_dir rdwr secsz nsec dinv sector fs bs content dir (\<lambda>l. content (ucast (file_block content A (pvt dir) l))) N des"
proof (intro ext2_dir.intro ext2_dir_axioms.intro)
  show "block_device rdwr secsz nsec dinv sector" by (rule D)
  note A = ext2_blocksD [OF E]
  have e: "10 \<le> block_shift fs" "block_shift fs \<le> 12" "block_size fs = push_bit (block_shift fs) 1" "A = 2 ^ (block_shift fs - 2)" "unat bs = 4 * A"
    using E by (simp_all add: ext2_blocks_def)
  have sh: "block_shift fs - 2 + 2 = block_shift fs" using e(1) by simp
  have "(2 :: nat) ^ (block_shift fs - 2 + 2) = 4 * 2 ^ (block_shift fs - 2)" by (simp only: power_add) simp
  then have b: "unat bs = 2 ^ block_shift fs" unfolding sh using e(4,5) by simp
  have "unat (block_size fs) = 2 ^ block_shift fs mod 2 ^ 32" unfolding e(3) by (simp only: unat_push_bit) simp
  moreover have "(2 :: nat) ^ block_shift fs \<le> 2 ^ 12" "(2 :: nat) ^ 10 \<le> 2 ^ block_shift fs" using e(1,2) by (intro power_increasing; simp)+
  ultimately show "unat (block_size fs) = unat bs" "16 \<le> unat bs" using b by simp_all
  show "unat (isize dir) = N * unat bs" "(N + 1) * unat bs \<le> 2 ^ 32" by (rule dir(3), rule dir(4))
  show "\<exists>dev'. ext2_get_cache rdwr secsz fs dev dir (of_nat l) = Some (dev', content (ucast (file_block content A (pvt dir) l))) \<and>
      blocks_cached secsz nsec dinv sector content bs dev'"
    if C: "blocks_cached secsz nsec dinv sector content bs dev" and l: "l < N" for dev l
  proof -
    have "l * 1 \<le> N * unat bs" using l \<open>16 \<le> unat bs\<close> by (intro mult_le_mono) simp_all
    then have "l < 4294967296" using dir(3) unat_u32_lt [of "isize dir"] by linarith
    then have u: "unat (of_nat l :: u64) = l" by (intro unat_of_nat_small) simp
    show ?thesis
      by (rule get_cache_ptr [OF D E C dir(1,2), of "of_nat l"]) (use blocks l in \<open>auto simp: u\<close>)
  qed
  show "length (content (ucast (file_block content A (pvt dir) l))) = unat bs \<and> dir_list (content (ucast (file_block content A (pvt dir) l))) 0 (des l)"
    if "l < N" for l using blocks that len by simp
qed

text \<open>C20. Looking up a name in an ext2 directory: \<open>ext2_iget\<close> goes through all blocks of a well-formed directory; when an entry in use has the
  name, it returns a new inode filled from the record of that entry's inode number, which is where the arrays of group
  descriptors and inodes have it, and otherwise NULL.  The search ends, also for a name that is not there.\<close>

theorem ext2_iget_finds:
  assumes D: "block_device rdwr secsz nsec dinv sector" and E: "ext2_blocks fs bs A"
    and C: "blocks_cached secsz nsec dinv sector content bs dev" and len: "\<And>b. length (content b) = unat bs" and s: "ext2_sb_ok bs sbi"
    and dir: "iflags dir AND EXT4_EXTENTS_FLAG = 0" "length (pvt dir) = 60" "unat (isize dir) = N * unat bs" "(N + 1) * unat bs \<le> 2 ^ 32"
    and blocks: "\<forall>l<N. file_ok content (valid_block secsz nsec bs) A (pvt dir) l \<and>
        valid_block secsz nsec bs (ucast (file_block content A (pvt dir) l)) \<and> dir_list (content (ucast (file_block content A (pvt dir) l))) 0 (des l)"
    and nm: "0 \<notin> set nm"
    and vol: "\<forall>de. find (entry_named nm) (concat (map des [0..<N])) = Some de \<longrightarrow> inode_in_volume content (valid_block secsz nsec bs) bs sbi (d_inode de)"
  shows "\<exists>dev' r. ext2_iget rdwr secsz fs sbi True (nm @ 0 # j) dir dev = Some (dev', r) \<and>
    blocks_cached secsz nsec dinv sector content bs dev' \<and>
    (case find (entry_named nm) (concat (map des [0..<N])) of
       None \<Rightarrow> r = None
     | Some de \<Rightarrow> \<exists>e. ext2_inode_at (inode_bytes content (unat bs) sbi (unat (d_inode de))) 0 = Some e \<and>
         r = Some (fill_inode (alloc_inode (d_inode de) (replicate 60 0)) e))"
proof -
  note L = ptr_dir [OF D E dir blocks len]
  obtain dev1 where f: "ext2_find_entry rdwr secsz fs dev dir (nm @ 0 # j) = Some (dev1, find (entry_named nm) (concat (map des [0..<N])))"
    "blocks_cached secsz nsec dinv sector content bs dev1" using ext2_dir.find_entry_ok [OF L C nm] by blast
  show ?thesis
  proof (cases "find (entry_named nm) (concat (map des [0..<N]))")
    case None
    then show ?thesis using f by (simp add: ext2_iget_def)
  next
    case (Some de)
    then have v: "inode_in_volume content (valid_block secsz nsec bs) bs sbi (d_inode de)" using vol by blast
    obtain dev2 e where "ext2_iget_by_inr rdwr secsz sbi True dev1 (d_inode de) = Some (dev2, Some (fill_inode (alloc_inode (d_inode de) (replicate 60 0)) e))"
      "ext2_inode_at (inode_bytes content (unat bs) sbi (unat (d_inode de))) 0 = Some e" "blocks_cached secsz nsec dinv sector content bs dev2"
      using block_device.iget_by_inr_ok [OF D f(2) len s v] by blast
    then show ?thesis using f(1) Some by (simp add: ext2_iget_def)
  qed
qed

definition ext2_demo_content :: "u64 \<Rightarrow> bytes" where
  "ext2_demo_content = dev_block ext2_demo_sector 512 1024"

definition ext2_demo_dir :: "ext2_pvt inode" where
  "ext2_demo_dir = (zero_inode ([7, 0, 0, 0] @ replicate 56 0))\<lparr>isize := 1024\<rparr>"

definition ext2_demo_sbi :: ext2_sb_info where
  "ext2_demo_sbi = \<lparr>s_inodes_per_block = 8, s_inodes_per_group = 16, s_blocks_per_group = 8192, s_desc_per_block = 32, s_groups_count = 1,
     s_first_data_block = 1, s_inode_size = 128\<rparr>"

lemma ext2_demo_block: "ext2_demo_content b = ext2_demo_sector (b * 2) @ ext2_demo_sector (b * 2 + 1)"
  by (simp add: ext2_demo_content_def dev_block_def Let_def upt_rec)

lemma ext2_demo_length: "length (ext2_demo_content b) = 1024"
  by (simp add: ext2_demo_block ext2_demo_sector_def ext2_super_bytes_def)

definition ext2_demo_entry :: ext2_dir_entry where
  "ext2_demo_entry = \<lparr>d_inode = 12, d_rec_len = 1024, d_name_len = 1, d_file_type = 1, e_name = 0x61 # replicate 503 0 @ replicate 512 15\<rparr>"

lemma ext2_demo_dir_list: "dir_list (ext2_demo_content 7) 0 [ext2_demo_entry]"
proof -
  have c: "ext2_demo_content 7 = [12, 0, 0, 0, 0, 4, 1, 1, 0x61] @ replicate 503 0 @ replicate 512 15"
    by (simp add: ext2_demo_block ext2_demo_sector_def)
  have e: "ext2_dir_entry_at (ext2_demo_content 7) 0 = Some ext2_demo_entry"
    by (simp add: c ext2_dir_entry_at_def ext2_demo_entry_def rd32_def rd16_def rd_def le32_of_def le16_of_def)
  have "dir_list (ext2_demo_content 7) (length (ext2_demo_content 7)) []" by (rule dir_end)
  then show ?thesis by (intro dir_list.dir_entry [OF e]) (simp_all add: ext2_demo_entry_def ext2_demo_length)
qed

lemma ext2_demo_cached:
  "blocks_cached 512 100 (\<lambda>_. True) ext2_demo_sector ext2_demo_content 1024 (cache_init ext2_demo_device 10)"
  using cache_init_blocks [OF ext2_demo_disk, of 10 ext2_demo_device] by (simp add: ext2_demo_device_def demo_device_def ext2_demo_content_def)

lemma ext2_demo_dir_ok:
  "iflags ext2_demo_dir AND EXT4_EXTENTS_FLAG = 0" "length (pvt ext2_demo_dir) = 60" "unat (isize ext2_demo_dir) = 1 * unat (1024 :: u16)"
  "(1 + 1) * unat (1024 :: u16) \<le> 2 ^ 32"
  "\<forall>l<1. file_ok ext2_demo_content (valid_block 512 100 1024) 256 (pvt ext2_demo_dir) l \<and>
     valid_block 512 100 1024 (ucast (file_block ext2_demo_content 256 (pvt ext2_demo_dir) l)) \<and>
     dir_list (ext2_demo_content (ucast (file_block ext2_demo_content 256 (pvt ext2_demo_dir) l))) 0 [ext2_demo_entry]"
proof -
  have b: "file_block ext2_demo_content 256 (pvt ext2_demo_dir) 0 = 7"
    by (simp add: file_block_def locate_def file_root_def word_at_def ext2_demo_dir_def zero_inode_def le32_of_def)
  show "\<forall>l<1. file_ok ext2_demo_content (valid_block 512 100 1024) 256 (pvt ext2_demo_dir) l \<and>
     valid_block 512 100 1024 (ucast (file_block ext2_demo_content 256 (pvt ext2_demo_dir) l)) \<and>
     dir_list (ext2_demo_content (ucast (file_block ext2_demo_content 256 (pvt ext2_demo_dir) l))) 0 [ext2_demo_entry]"
    using b ext2_demo_dir_list by (simp add: file_ok_def locate_def valid_block_def)
qed (simp_all add: ext2_demo_dir_def zero_inode_def)

interpretation demo_dir: ext2_dir "ram_rdwr ext2_demo_sector" 512 100 "\<lambda>_. True" ext2_demo_sector demo_ext2_fs 1024 ext2_demo_content ext2_demo_dir
  "\<lambda>l. ext2_demo_content (ucast (file_block ext2_demo_content 256 (pvt ext2_demo_dir) l))" 1 "\<lambda>_. [ext2_demo_entry]"
  by (rule ptr_dir [OF ext2_demo_disk demo_ext2(1) ext2_demo_dir_ok]) (simp add: ext2_demo_length)

theorem ext2_iget_finds_witness:
  "\<exists>dev' e. ext2_iget (ram_rdwr ext2_demo_sector) 512 demo_ext2_fs ext2_demo_sbi True [0x61, 0] ext2_demo_dir (cache_init ext2_demo_device 10) =
      Some (dev', Some (fill_inode (alloc_inode 12 (replicate 60 0)) e)) \<and> ei_size e = 0x0c0c0c0c"
proof -
  have s: "ext2_sb_ok 1024 ext2_demo_sbi" by (simp add: ext2_sb_ok_def ext2_demo_sbi_def)
  have f: "find (entry_named [0x61]) (concat (map (\<lambda>_. [ext2_demo_entry]) [0..<1])) = Some ext2_demo_entry"
    by (simp add: entry_named_def ext2_demo_entry_def)
  have "desc_bytes ext2_demo_content 1024 ext2_demo_sbi 0 = take 32 (ext2_demo_content 2)"
    using table_slice_block [of 0 ext2_demo_content 2 1024 0 0 32] by (simp add: desc_bytes_def ext2_demo_sbi_def ext2_demo_length)
  then have t: "inode_table ext2_demo_content 1024 ext2_demo_sbi 0 = 5"
    by (simp add: inode_table_def word_at_def ext2_demo_block ext2_demo_sector_def le32_of_def nth_append)
  have q: "s_inodes_per_block ext2_demo_sbi = 8" "s_inodes_per_group ext2_demo_sbi = 16" "s_desc_per_block ext2_demo_sbi = 32"
    "s_groups_count ext2_demo_sbi = 1" "s_first_data_block ext2_demo_sbi = 1" "s_inode_size ext2_demo_sbi = 128" by (simp_all add: ext2_demo_sbi_def)
  have i: "d_inode ext2_demo_entry = 12" by (simp add: ext2_demo_entry_def)
  have v: "inode_in_volume ext2_demo_content (valid_block 512 100 1024) 1024 ext2_demo_sbi 12"
    by (simp add: inode_in_volume_def Let_def q t valid_block_def)
  have "inode_bytes ext2_demo_content 1024 ext2_demo_sbi 12 = take 128 (drop 384 (ext2_demo_content 6))"
    using table_slice_block [of 1 ext2_demo_content 5 1024 1408 384 128] t
    by (simp add: inode_bytes_def Let_def ext2_demo_length q)
  moreover have "ext2_demo_content 6 = replicate 512 0x0c @ replicate 512 0x0d" by (simp add: ext2_demo_block ext2_demo_sector_def)
  ultimately have e: "ext2_inode_at (inode_bytes ext2_demo_content 1024 ext2_demo_sbi 12) 0 = Some e \<Longrightarrow> ei_size e = 0x0c0c0c0c" for e
    by (auto simp: ext2_inode_at_def rd16_in rd32_in le32_of_def)
  from ext2_iget_finds [OF ext2_demo_disk demo_ext2(1) ext2_demo_cached _ s ext2_demo_dir_ok, of "[0x61]" "[]"]
  show ?thesis unfolding f using ext2_demo_length v i e by auto
qed


section \<open>Listing a directory\<close>

text \<open>\<open>k\<close> successful calls of \<open>readdir\<close> in a row, and what each shows.\<close>

fun list_dir :: "('d \<Rightarrow> u32 \<Rightarrow> dirent \<Rightarrow> ('d \<times> u32 \<times> dirent \<times> int) option) \<Rightarrow> nat \<Rightarrow> 'd \<Rightarrow> u32 \<Rightarrow> dirent \<Rightarrow> ('d \<times> u32 \<times> dirent \<times> dirent list) option" where
  "list_dir rdd 0 dev off d = Some (dev, off, d, [])"
| "list_dir rdd (Suc k) dev off d =
     do { (dev, off, d, r) \<leftarrow> rdd dev off d;
          if r \<noteq> 0 then None
          else do { (dev, off, e, ds) \<leftarrow> list_dir rdd k dev off d; Some (dev, off, e, d # ds) } }"

definition shows_entry :: "dirent \<Rightarrow> ext2_dir_entry \<Rightarrow> bool" where
  "shows_entry d de \<longleftrightarrow> d_ino d = d_inode de \<and> length (d_name d) = 256 \<and>
     take (unat (d_name_len de) + 1) (d_name d) = take (unat (d_name_len de)) (e_name de) @ [0] \<and>
     d_type d = (if d_file_type de < 8 then dt_code (inode_type ! unat (d_file_type de)) else 0)"

lemma list_dir_append:
  "list_dir rdd m dev off d = Some (dev1, off1, d1, ds1) \<Longrightarrow> list_dir rdd n dev1 off1 d1 = Some (dev2, off2, d2, ds2) \<Longrightarrow>
   list_dir rdd (m + n) dev off d = Some (dev2, off2, d2, ds1 @ ds2)"
proof (induction m arbitrary: dev off d ds1)
  case (Suc m)
  from Suc.prems(1) obtain dev' off' d' ds where r: "rdd dev off d = Some (dev', off', d', 0)" "list_dir rdd m dev' off' d' = Some (dev1, off1, d1, ds)" "ds1 = d' # ds"
    by (auto split: bind_splits if_splits)
  from Suc.IH [OF r(2) Suc.prems(2)] show ?case using r by simp
qed simp

lemma cvt_type_ok:
  assumes "t \<noteq> 8"
  shows "ext2_cvt_type (ucast (t :: u8)) = Some (if t < 8 then inode_type ! unat t else DT_UNKNOWN)"
proof -
  have u: "unat (ucast t :: u32) = unat t" by (simp add: unat_ucast_up)
  have l: "length inode_type = 8" by (simp add: inode_type_def)
  have "unat t \<noteq> 8" using assms by (auto simp: word_unat_eq_iff)
  then show ?thesis using u l by (auto simp: ext2_cvt_type_def word_less_nat_alt)
qed

context ext2_dir begin

lemma readdir_step:
  assumes C: "blocks_cached secsz nsec dinv sector content bs dev" and l: "l < N" and sh: "unat bs = 2 ^ block_shift fs"
    and de: "ext2_dir_entry_at (blk l) off = Some de" "9 \<le> unat (d_rec_len de)" "8 + unat (d_name_len de) \<le> unat (d_rec_len de)" "off + unat (d_rec_len de) \<le> unat bs"
      "d_file_type de \<noteq> 8" and d: "length (d_name d) = 256"
  shows "\<exists>dev' d'. ext2_readdir rdwr secsz fs dev inode (of_nat (l * unat bs + off)) d = Some (dev', of_nat (l * unat bs + (off + unat (d_rec_len de))), d', 0) \<and>
    blocks_cached secsz nsec dinv sector content bs dev' \<and> shows_entry d' de"
proof -
  let ?o = "l * unat bs + off"
  have k: "l * unat bs + unat bs \<le> N * unat bs" using mult_le_mono1 [of "l + 1" N "unat bs"] l by simp
  have off: "off < unat bs" using de(2,4) by linarith
  have "?o < 4294967296" using k off dir_size(1) unat_u32_lt [of "isize inode"] by linarith
  then have o: "unat (of_nat ?o :: u32) = ?o" by (intro unat_of_nat_small) simp
  have "?o < N * unat bs" using k off by linarith
  then have lt: "\<not> isize inode \<le> of_nat ?o" unfolding word_le_nat_alt o dir_size(1) by simp
  have "?o div unat bs = l" "?o mod unat bs = off" using off by simp_all
  note dm = this [unfolded sh, folded sh]
  have ix: "unat (drop_bit (block_shift fs) (of_nat ?o :: u32)) = l" by (simp only: unat_drop_bit o) (simp only: sh [symmetric] dm)
  then have ixl: "(ucast (drop_bit (block_shift fs) (of_nat ?o :: u32)) :: u64) = of_nat l" by (metis of_nat_unat)
  have m: "block_size fs - 1 = mask (block_shift fs)"
  proof -
    have "unat (block_size fs) = 2 ^ block_shift fs" using geo(1) sh by simp
    then have "block_size fs = 2 ^ block_shift fs" by (rule word_eq_2_power)
    then show ?thesis by (simp add: mask_eq_exp_minus_1)
  qed
  have ofs: "unat (of_nat ?o AND (block_size fs - 1) :: u32) = off" unfolding m unat_mask_mod o sh [symmetric] dm ..
  obtain dev' where g: "ext2_get_cache rdwr secsz fs dev inode (of_nat l) = Some (dev', blk l)" "blocks_cached secsz nsec dinv sector content bs dev'"
    using get [OF C l] by blast
  let ?n = "unat (d_name_len de)" and ?t = "if d_file_type de < 8 then inode_type ! unat (d_file_type de) else DT_UNKNOWN"
  have nl: "?n \<le> 255" "?n \<le> 256" using unat_u8_le [of "d_name_len de"] by linarith+
  have en: "?n \<le> length (e_name de)" using dirs [OF l] de(3,4) by (simp add: entry_at_name [OF de(1)])
  let ?nm = "take ?n (e_name de)"
  let ?d = "\<lparr>d_ino = d_inode de, d_off = of_nat ?o, d_reclen = of_nat (12 + ?n + 1), d_type = dt_code ?t, d_name = (?nm @ drop ?n (d_name d))[?n := 0]\<rparr>"
  have nx: "(of_nat ?o :: u32) + ucast (d_rec_len de) = of_nat (l * unat bs + (off + unat (d_rec_len de)))"
    by (simp only: of_nat_add of_nat_unat add.assoc)
  have w: "wr_range (d_name d) 0 ?nm = Some (?nm @ drop ?n (d_name d))" "wr (?nm @ drop ?n (d_name d)) ?n 0 = Some ((?nm @ drop ?n (d_name d))[?n := 0])"
    "rd_range (e_name de) 0 ?n = Some ?nm"
    using d nl en by (auto simp: wr_range_def wr_def)
  have "ext2_readdir rdwr secsz fs dev inode (of_nat ?o) d = Some (dev', of_nat (l * unat bs + (off + unat (d_rec_len de))), ?d, 0)"
    unfolding ext2_readdir_def Let_def if_not_P [OF lt] ixl g(1) bind.bind_lunit prod.case ofs de(1) cvt_type_ok [OF de(5)] w nx ..
  moreover have "shows_entry ?d de"
    using d nl en by (auto simp: shows_entry_def list_update_append take_Suc_conv_app_nth)
  ultimately show ?thesis using g(2) by blast
qed

end


context ext2_dir begin

lemma list_block:
  assumes "dir_list (blk l) off rest" and l: "l < N" and sh: "unat bs = 2 ^ block_shift fs"
    and t: "\<forall>de\<in>set rest. d_file_type de \<noteq> 8"
    and "blocks_cached secsz nsec dinv sector content bs dev" "length (d_name d) = 256"
  shows "\<exists>dev' d' ds. list_dir (\<lambda>dev off d. ext2_readdir rdwr secsz fs dev inode off d) (length rest) dev (of_nat (l * unat bs + off)) d =
      Some (dev', of_nat ((l + 1) * unat bs), d', ds) \<and> blocks_cached secsz nsec dinv sector content bs dev' \<and> list_all2 shows_entry ds rest \<and>
    length (d_name d') = 256"
  using assms(1) t assms(5,6)
proof (induction arbitrary: dev d)
  case dir_end
  have "l * unat bs + length (blk l) = (l + 1) * unat bs" using dirs [OF l] by simp
  then show ?case using dir_end by (simp del: of_nat_add of_nat_mult mult_Suc)
next
  case (dir_entry off de des)
  have fit: "off + unat (d_rec_len de) \<le> unat bs" using dir_entry.hyps(4) dirs [OF l] by simp
  obtain dev1 d1 where r: "ext2_readdir rdwr secsz fs dev inode (of_nat (l * unat bs + off)) d =
      Some (dev1, of_nat (l * unat bs + (off + unat (d_rec_len de))), d1, 0)" "blocks_cached secsz nsec dinv sector content bs dev1" "shows_entry d1 de"
    using readdir_step [OF dir_entry.prems(2) l sh dir_entry.hyps(1,2,3) fit _ dir_entry.prems(3)] dir_entry.prems(1) by auto
  have d1: "length (d_name d1) = 256" using r(3) by (simp add: shows_entry_def)
  from dir_entry.IH [OF _ r(2) d1] dir_entry.prems(1) obtain dev' d' ds where
    ih: "list_dir (\<lambda>dev off d. ext2_readdir rdwr secsz fs dev inode off d) (length des) dev1 (of_nat (l * unat bs + (off + unat (d_rec_len de)))) d1 =
      Some (dev', of_nat ((l + 1) * unat bs), d', ds)" "blocks_cached secsz nsec dinv sector content bs dev'" "list_all2 shows_entry ds des" "length (d_name d') = 256"
    by auto
  have "list_dir (\<lambda>dev off d. ext2_readdir rdwr secsz fs dev inode off d) (length (de # des)) dev (of_nat (l * unat bs + off)) d =
      Some (dev', of_nat ((l + 1) * unat bs), d', d1 # ds)"
    using r(1) ih(1) by (simp del: of_nat_add of_nat_mult)
  then show ?case using ih(2-4) r(3) by blast
qed

lemma list_blocks:
  assumes sh: "unat bs = 2 ^ block_shift fs" and t: "\<forall>de\<in>set (concat (map des [0..<N])). d_file_type de \<noteq> 8"
    and C: "blocks_cached secsz nsec dinv sector content bs dev" "length (d_name d) = 256"
  shows "k \<le> N \<Longrightarrow> \<exists>dev' d' ds. list_dir (\<lambda>dev off d. ext2_readdir rdwr secsz fs dev inode off d) (length (concat (map des [0..<k]))) dev 0 d =
      Some (dev', of_nat (k * unat bs), d', ds) \<and> blocks_cached secsz nsec dinv sector content bs dev' \<and> list_all2 shows_entry ds (concat (map des [0..<k])) \<and>
    length (d_name d') = 256"
proof (induction k)
  case 0
  then show ?case using C by simp
next
  case (Suc k)
  then obtain dev1 d1 ds1 where a: "list_dir (\<lambda>dev off d. ext2_readdir rdwr secsz fs dev inode off d) (length (concat (map des [0..<k]))) dev 0 d =
      Some (dev1, of_nat (k * unat bs), d1, ds1)" "blocks_cached secsz nsec dinv sector content bs dev1" "list_all2 shows_entry ds1 (concat (map des [0..<k]))"
    "length (d_name d1) = 256" by auto
  have k: "k < N" using Suc.prems by simp
  then have tk: "\<forall>de\<in>set (des k). d_file_type de \<noteq> 8" using t by auto
  obtain dev' d' ds where b: "list_dir (\<lambda>dev off d. ext2_readdir rdwr secsz fs dev inode off d) (length (des k)) dev1 (of_nat (k * unat bs)) d1 =
      Some (dev', of_nat ((k + 1) * unat bs), d', ds)" "blocks_cached secsz nsec dinv sector content bs dev'" "list_all2 shows_entry ds (des k)" "length (d_name d') = 256"
    using list_block [of k 0 "des k", OF _ k sh tk a(2,4)] dirs [OF k] unfolding add_0_right by (auto simp del: of_nat_add of_nat_mult)
  have len: "length (concat (map des [0..<Suc k])) = length (concat (map des [0..<k])) + length (des k)" by simp
  have "list_dir (\<lambda>dev off d. ext2_readdir rdwr secsz fs dev inode off d) (length (concat (map des [0..<Suc k]))) dev 0 d =
      Some (dev', of_nat (Suc k * unat bs), d', ds1 @ ds)"
    unfolding len using list_dir_append [OF a(1) b(1)] by (simp only: Suc_eq_plus1)
  moreover have "list_all2 shows_entry (ds1 @ ds) (concat (map des [0..<Suc k]))" using a(3) b(3) by (simp add: list_all2_appendI)
  ultimately show ?case using b(2,4) by blast
qed

end

lemma ext2_block_shift:
  assumes "ext2_blocks fs bs A"
  shows "unat bs = 2 ^ block_shift fs"
proof -
  have e: "10 \<le> block_shift fs" "A = 2 ^ (block_shift fs - 2)" "unat bs = 4 * A" using assms by (simp_all add: ext2_blocks_def)
  have "block_shift fs - 2 + 2 = block_shift fs" using e(1) by simp
  moreover have "(2 :: nat) ^ (block_shift fs - 2 + 2) = 4 * 2 ^ (block_shift fs - 2)" by (simp only: power_add) simp
  ultimately show ?thesis using e(2,3) by simp
qed

text \<open>C26. Listing an ext2 directory ends and is complete: calling \<open>ext2_readdir\<close> again and again from offset 0 shows the entries of all blocks of a
  well-formed directory in their order, each with its inode number, name and type, unused ones included, and then returns -1.\<close>

theorem ext2_readdir_lists:
  assumes D: "block_device rdwr secsz nsec dinv sector" and E: "ext2_blocks fs bs A"
    and C: "blocks_cached secsz nsec dinv sector content bs dev" and len: "\<And>b. length (content b) = unat bs"
    and dir: "iflags dir AND EXT4_EXTENTS_FLAG = 0" "length (pvt dir) = 60" "unat (isize dir) = N * unat bs" "(N + 1) * unat bs \<le> 2 ^ 32"
    and blocks: "\<forall>l<N. file_ok content (valid_block secsz nsec bs) A (pvt dir) l \<and>
        valid_block secsz nsec bs (ucast (file_block content A (pvt dir) l)) \<and> dir_list (content (ucast (file_block content A (pvt dir) l))) 0 (des l)"
    and t: "\<forall>de\<in>set (concat (map des [0..<N])). d_file_type de \<noteq> 8" and d: "length (d_name d) = 256"
  shows "\<exists>dev' d' ds. list_dir (\<lambda>dev off d. ext2_readdir rdwr secsz fs dev dir off d) (length (concat (map des [0..<N]))) dev 0 d = Some (dev', isize dir, d', ds) \<and>
    list_all2 shows_entry ds (concat (map des [0..<N])) \<and> blocks_cached secsz nsec dinv sector content bs dev' \<and>
    ext2_readdir rdwr secsz fs dev' dir (isize dir) d' = Some (dev', isize dir, d', -1)"
proof -
  note L = ptr_dir [OF D E dir blocks len]
  have "isize dir = of_nat (N * unat bs)" by (simp only: dir(3) [symmetric]) simp
  moreover obtain dev' d' ds where "list_dir (\<lambda>dev off d. ext2_readdir rdwr secsz fs dev dir off d) (length (concat (map des [0..<N]))) dev 0 d =
      Some (dev', of_nat (N * unat bs), d', ds)" "blocks_cached secsz nsec dinv sector content bs dev'" "list_all2 shows_entry ds (concat (map des [0..<N]))"
    using ext2_dir.list_blocks [OF L ext2_block_shift [OF E] t C d order_refl] by blast
  moreover have "ext2_readdir rdwr secsz fs dev' dir (isize dir) d' = Some (dev', isize dir, d', -1)" by (simp add: ext2_readdir_def)
  ultimately show ?thesis by metis
qed

theorem ext2_readdir_lists_witness:
  "\<exists>dev' d' ds. list_dir (\<lambda>dev off d. ext2_readdir (ram_rdwr ext2_demo_sector) 512 demo_ext2_fs dev ext2_demo_dir off d) 1 (cache_init ext2_demo_device 10) 0
       \<lparr>d_ino = 0, d_off = 0, d_reclen = 0, d_type = 0, d_name = replicate 256 0\<rparr> = Some (dev', 1024, d', ds) \<and> map d_ino ds = [12] \<and> map d_type ds = [8]"
proof -
  have t: "\<forall>de\<in>set (concat (map (\<lambda>_. [ext2_demo_entry]) [0..<1])). d_file_type de \<noteq> 8" by (simp add: ext2_demo_entry_def)
  let ?d = "\<lparr>d_ino = 0, d_off = 0, d_reclen = 0, d_type = 0, d_name = replicate 256 0\<rparr>"
  have d: "length (d_name ?d) = 256" "length (ext2_demo_content b) = unat (1024 :: u16)" for b by (simp_all add: ext2_demo_length)
  from ext2_readdir_lists [OF ext2_demo_disk demo_ext2(1) ext2_demo_cached d(2) ext2_demo_dir_ok t d(1)]
  obtain dev' d' ds where r: "list_dir (\<lambda>dev off d. ext2_readdir (ram_rdwr ext2_demo_sector) 512 demo_ext2_fs dev ext2_demo_dir off d)
      (length (concat (map (\<lambda>_. [ext2_demo_entry]) [0..<1]))) (cache_init ext2_demo_device 10) 0 ?d = Some (dev', isize ext2_demo_dir, d', ds)"
    "list_all2 shows_entry ds (concat (map (\<lambda>_. [ext2_demo_entry]) [0..<1]))" by (elim exE conjE)
  have "isize ext2_demo_dir = 1024" "length (concat (map (\<lambda>_. [ext2_demo_entry]) [0..<1])) = 1" by (simp_all add: ext2_demo_dir_def)
  note r' = r(1) [unfolded this]
  have "map d_ino ds = [12] \<and> map d_type ds = [8]"
    using r(2) by (auto simp: list_all2_Cons2 shows_entry_def ext2_demo_entry_def inode_type_def)
  then show ?thesis by (intro exI conjI) (rule r', simp_all)
qed


section \<open>Symbolic links\<close>

definition fast_symlink :: "fs_info \<Rightarrow> ext2_pvt inode \<Rightarrow> bool" where
  "fast_symlink fs inode \<longleftrightarrow> (if file_acl inode \<noteq> 0 then push_bit (block_shift fs - sector_shift fs) 1 else 0) = iblocks inode"

text \<open>C37. Reading a symbolic link: a link longer than a block is refused with -1; otherwise \<open>ext2_readlink\<close> stores the target and
  returns its length.  The target is in the inode when no data block belongs to it, and else at the start of the
  first block of the file.  (A link whose blocks count says that the target is in the inode, but that is longer than the 60 bytes there, makes the
  code read behind them: the theorem leaves it out.)\<close>

theorem ext2_readlink_copies:
  assumes D: "block_device rdwr secsz nsec dinv sector" and E: "ext2_blocks fs bs A"
    and C: "blocks_cached secsz nsec dinv sector content bs dev"
    and ino: "iflags inode AND EXT4_EXTENTS_FLAG = 0" "length (pvt inode) = 60" and buf: "unat (isize inode) \<le> length buf"
    and fast: "fast_symlink fs inode \<longrightarrow> unat (isize inode) \<le> 60"
    and slow: "\<not> fast_symlink fs inode \<longrightarrow> file_ok content (valid_block secsz nsec bs) A (pvt inode) 0 \<and>
      valid_block secsz nsec bs (ucast (file_block content A (pvt inode) 0))"
  defines "target \<equiv> take (unat (isize inode)) (if fast_symlink fs inode then pvt inode else content (ucast (file_block content A (pvt inode) 0)))"
  shows "if block_size fs < isize inode then ext2_readlink rdwr secsz fs inode buf dev = Some (dev, buf, -1)
    else \<exists>dev'. ext2_readlink rdwr secsz fs inode buf dev = Some (dev', target @ drop (length target) buf, int (length target)) \<and>
      length target = unat (isize inode) \<and> blocks_cached secsz nsec dinv sector content bs dev'"
proof (cases "block_size fs < isize inode")
  case True
  then show ?thesis by (simp add: ext2_readlink_def Let_def)
next
  case False
  let ?n = "unat (isize inode)"
  have b: "unat (block_size fs) = unat bs" "unat bs \<le> 4096"
  proof -
    have e: "block_shift fs \<le> 12" "block_size fs = push_bit (block_shift fs) 1" using E by (simp_all add: ext2_blocks_def)
    have p: "(2 :: nat) ^ block_shift fs \<le> 2 ^ 12" using e(1) by (intro power_increasing) simp_all
    have "unat (block_size fs) = 2 ^ block_shift fs mod 2 ^ 32" unfolding e(2) by (simp only: unat_push_bit) simp
    then show "unat (block_size fs) = unat bs" "unat bs \<le> 4096" using p ext2_block_shift [OF E] by simp_all
  qed
  have n: "?n \<le> unat bs" using False b(1) by (simp add: word_less_nat_alt)
  have si: "sint (isize inode) = int ?n"
  proof -
    have "unat (isize inode) < 2 ^ 31" using n b(2) by simp
    then have "int (unat (isize inode)) < int (2 ^ 31)" by (simp only: of_nat_less_iff)
    then have "uint (isize inode) < 2 ^ 31" by simp
    moreover have "- (2 ^ 31) \<le> (0 :: int)" by simp
    then have "- (2 ^ 31) \<le> uint (isize inode)" by (rule order_trans) (rule unsigned_greater_eq)
    ultimately have "signed_take_bit (LENGTH(32) - 1) (uint (isize inode)) = uint (isize inode)" by (intro signed_take_bit_int_eq_self) simp_all
    then show ?thesis by (simp add: sint_uint)
  qed
  show ?thesis
  proof (cases "fast_symlink fs inode")
    case fa: True
    have "wr_range buf 0 target = Some (target @ drop ?n buf)" "rd_range (pvt inode) 0 ?n = Some target" "length target = ?n"
      using fa fast buf ino(2) by (auto simp: wr_range_def target_def)
    then show ?thesis using False fa C si unfolding ext2_readlink_def Let_def fast_symlink_def [symmetric] by simp
  next
    case sl: False
    then have ok: "file_ok content (valid_block secsz nsec bs) A (pvt inode) (unat (0 :: u64))"
      "valid_block secsz nsec bs (ucast (file_block content A (pvt inode) (unat (0 :: u64))))" using slow by simp_all
    obtain dev1 where g: "ext2_get_cache rdwr secsz fs dev inode 0 = Some (dev1, content (ucast (file_block content A (pvt inode) 0)))"
      "blocks_cached secsz nsec dinv sector content bs dev1" "length (content (ucast (file_block content A (pvt inode) 0))) = unat bs"
      using get_cache_ptr [OF D E C ino ok] by auto
    have t: "target = take ?n (content (ucast (file_block content A (pvt inode) 0)))" "length target = ?n" using sl n g(3) by (simp_all add: target_def)
    have w: "wr_range buf 0 target = Some (target @ drop ?n buf)" using t(2) buf by (simp add: wr_range_def)
    have r: "rd_range (content (ucast (file_block content A (pvt inode) 0))) 0 ?n = Some target" using n g(3) t(1) by simp
    have m: "min (isize inode) (block_size fs) = isize inode" using False by (simp add: min_def not_less)
    obtain dev2 where l: "get_file_loop rdwr secsz fs inode dev buf 0 0 (isize inode) = Some (dev2, target @ drop ?n buf)"
      "blocks_cached secsz nsec dinv sector content bs dev2"
    proof (cases "isize inode = 0")
      case True
      then have "target @ drop ?n buf = buf" using t(2) by simp
      then have "get_file_loop rdwr secsz fs inode dev buf 0 0 (isize inode) = Some (dev, target @ drop ?n buf)"
        using True by (subst get_file_loop.simps) simp
      then show thesis using that C by blast
    next
      case nz: False
      have "get_file_loop rdwr secsz fs inode dev1 (target @ drop ?n buf) (0 + ?n) (0 + 1) (isize inode - isize inode) = Some (dev1, target @ drop ?n buf)"
        by (subst get_file_loop.simps) simp
      then have "get_file_loop rdwr secsz fs inode dev buf 0 0 (isize inode) = Some (dev1, target @ drop ?n buf)"
        using nz g(1) r w m by (subst get_file_loop.simps) (simp add: Let_def)
      then show thesis using that g(2) by blast
    qed
    then show ?thesis using False sl si t(2) unfolding ext2_readlink_def Let_def fast_symlink_def [symmetric] by (simp add: cache_get_file_def)
  qed
qed

definition ext2_demo_link :: "ext2_pvt inode" where
  "ext2_demo_link = (zero_inode ([0x61, 0x2f, 0x62] @ replicate 57 0))\<lparr>isize := 3\<rparr>"

theorem ext2_readlink_copies_witness:
  "\<exists>dev'. ext2_readlink (ram_rdwr ext2_demo_sector) 512 demo_ext2_fs ext2_demo_link (replicate 8 0xcc) (cache_init ext2_demo_device 10) =
     Some (dev', [0x61, 0x2f, 0x62] @ replicate 5 0xcc, 3)"
  using ext2_readlink_copies [OF ext2_demo_disk demo_ext2(1) ext2_demo_cached, of ext2_demo_link "replicate 8 0xcc"]
  by (auto simp: ext2_demo_link_def zero_inode_def fast_symlink_def demo_ext2_fs_def)

end
