(* ===== verification/Diskio.thy ===== *)
theory Diskio
  imports Vfs
begin

text \<open>
  Disk access through the BIOS: \<open>libcore/fs/diskio.c\<close>.

  Memory is flat, with 32-bit addresses.  The BIOS is a parameter \<open>intcall\<close>: it gets the number of the interrupt,
  the registers and the machine (memory, and whatever state the BIOS and the disk have), and gives the new machine
  and registers.  \<open>pkt\<close>, \<open>xfer\<close> and \<open>params\<close> are the addresses of the static objects \<open>pkt\<close>,
  \<open>core_xfer_buf\<close> and \<open>edd_params\<close> in low memory.
\<close>

section \<open>Memory and registers\<close>

record 'b machine =
  mem :: "u32 \<Rightarrow> u8"
  bios :: 'b

type_synonym 'b intcall = "u8 \<Rightarrow> com32sys \<Rightarrow> 'b machine \<Rightarrow> 'b machine \<times> com32sys"

definition mem_read :: "(u32 \<Rightarrow> u8) \<Rightarrow> u32 \<Rightarrow> nat \<Rightarrow> bytes" where
  "mem_read f a n = map (\<lambda>i. f (a + of_nat i)) [0..<n]"

definition mem_write :: "(u32 \<Rightarrow> u8) \<Rightarrow> u32 \<Rightarrow> bytes \<Rightarrow> u32 \<Rightarrow> u8" where
  "mem_write f a bs = (\<lambda>x. if unat (x - a) < length bs then bs ! unat (x - a) else f x)"

definition poke :: "u32 \<Rightarrow> bytes \<Rightarrow> 'b machine \<Rightarrow> 'b machine" where
  "poke a bs m = m\<lparr>mem := mem_write (mem m) a bs\<rparr>"

definition copy :: "u32 \<Rightarrow> u32 \<Rightarrow> u32 \<Rightarrow> 'b machine \<Rightarrow> 'b machine" where
  "copy dst src n m = poke dst (mem_read (mem m) src (unat n)) m"

definition le16 :: "u16 \<Rightarrow> bytes" where
  "le16 w = [ucast w, ucast (drop_bit 8 w)]"

definition le64 :: "u64 \<Rightarrow> bytes" where
  "le64 w = map (\<lambda>i. ucast (drop_bit (8 * i) w)) [0..<8]"

definition set_b0 :: "u32 \<Rightarrow> u8 \<Rightarrow> u32" where
  "set_b0 r v = (r AND 0xffffff00) OR ucast v"

definition set_b1 :: "u32 \<Rightarrow> u8 \<Rightarrow> u32" where
  "set_b1 r v = (r AND 0xffff00ff) OR push_bit 8 (ucast v)"

definition b0 :: "u32 \<Rightarrow> u8" where "b0 r = ucast r"
definition b1 :: "u32 \<Rightarrow> u8" where "b1 r = ucast (drop_bit 8 r)"

definition zero_regs :: com32sys where
  "zero_regs = \<lparr>r_gs = 0, r_fs = 0, r_es = 0, r_ds = 0, r_edi = 0, r_esi = 0, r_ebp = 0, r_ebx = 0, r_edx = 0, r_ecx = 0, r_eax = 0, r_eflags = 0\<rparr>"

definition SEG :: "u32 \<Rightarrow> u16" where
  "SEG p = ucast (drop_bit 4 p)"

definition OFFS :: "u32 \<Rightarrow> u16" where
  "OFFS p = ucast p AND 0x000F"

definition MK_PTR :: "u16 \<Rightarrow> u16 \<Rightarrow> u32" where
  "MK_PTR seg offs = push_bit 4 (ucast seg) + ucast offs"

section \<open>Disks\<close>

datatype disk_io = CHS | EDD

record disk =
  disk_number :: u32
  disk_sector_size :: u32
  disk_sector_shift :: nat
  maxtransfer :: u32
  disk_h :: u32
  disk_s :: u32
  secpercyl :: u32
  part_start :: u64
  rdwr_sectors :: disk_io

definition RETRY_COUNT :: nat where "RETRY_COUNT = 6"

definition chs_max :: "disk \<Rightarrow> u64" where
  "chs_max disk = push_bit 10 (ucast (secpercyl disk))"

definition carry :: "com32sys \<Rightarrow> bool" where
  "carry r \<longleftrightarrow> r_eflags r AND EFLAGS_CF \<noteq> 0"

text \<open>Where a transfer goes: the room up to the next 64K line, and the buffer, directly or through \<open>core_xfer_buf\<close>.\<close>

definition freeseg_at :: "nat \<Rightarrow> u32 \<Rightarrow> u32" where
  "freeseg_at shft a = drop_bit shft (0x10000 - (a AND 0xffff))"

definition pick_buffer :: "u32 \<Rightarrow> nat \<Rightarrow> u32 \<Rightarrow> u32 \<Rightarrow> u32 \<times> u32" where
  "pick_buffer xfer shft low ptr =
     (if low \<le> 0xf0000 \<and> freeseg_at shft ptr \<noteq> 0 then (ptr, freeseg_at shft ptr) else (xfer, freeseg_at shft xfer))"

section \<open>CHS\<close>

text \<open>
  The loop around the call: \<open>retry\<close> more tries with this size, then half of it.  The result is the number of sectors
  that worked, and the size to remember.
\<close>

function chs_try ::
  "'b intcall \<Rightarrow> u32 \<Rightarrow> com32sys \<Rightarrow> 'b machine \<Rightarrow> u32 \<Rightarrow> u32 \<Rightarrow> nat \<Rightarrow> 'b machine \<times> (u32 \<times> u32) option" where
  "chs_try intcall c ireg m chunk maxt retry =
     (if c < 1024
      then let (m, oreg) = intcall 0x13 ireg m in
           if \<not> carry oreg then (m, Some (chunk, maxt))
           else if retry \<noteq> 0 then chs_try intcall c ireg m chunk maxt (retry - 1)
           else let chunk = drop_bit 1 chunk in
                if chunk \<noteq> 0 then chs_try intcall c (ireg\<lparr>r_eax := set_b0 (r_eax ireg) (ucast chunk)\<rparr>) m chunk chunk RETRY_COUNT
                else (m, None)
      else (m, None))"
  by pat_completeness auto

lemma drop_bit_1_smaller: "drop_bit (Suc 0) (w :: u32) \<noteq> 0 \<Longrightarrow> unat (drop_bit (Suc 0) w) < unat w"
  using unat_shr1_less [of w] by (cases "w = 0") simp_all

termination chs_try
  by (relation "measures [\<lambda>(_, _, _, _, chunk, _, _). unat chunk, \<lambda>(_, _, _, _, _, _, retry). retry]")
    (auto intro: drop_bit_1_smaller)

definition chs_regs :: "disk \<Rightarrow> bool \<Rightarrow> u32 \<Rightarrow> u32 \<Rightarrow> u32 \<Rightarrow> u32 \<Rightarrow> u32 \<Rightarrow> com32sys" where
  "chs_regs disk is_write chunk c h s tptr =
     zero_regs\<lparr>r_eax := set_b0 (set_b1 0 (0x02 + (if is_write then 1 else 0))) (ucast chunk),
       r_ecx := set_b0 (set_b1 0 (ucast c)) (ucast (drop_bit 2 (c AND 0x300) OR (s + 1))),
       r_edx := set_b1 (set_b0 0 (ucast (disk_number disk))) (ucast h),
       r_ebx := set_w0 0 (OFFS tptr), r_es := SEG tptr\<rparr>"

text \<open>A geometry with no heads or no sectors divides by zero.\<close>

partial_function (option) chs_loop ::
  "'b intcall \<Rightarrow> u32 \<Rightarrow> bool \<Rightarrow> u32 \<Rightarrow> disk \<Rightarrow> 'b machine \<Rightarrow> u32 \<Rightarrow> u32 \<Rightarrow> u32 \<Rightarrow> u32 \<Rightarrow> u32 \<Rightarrow> (disk \<times> 'b machine \<times> u32) option" where
  "chs_loop intcall xfer is_write buf disk m ptr xlba cnt dn maxt =
     (if cnt = 0 then Some (disk, m, dn)
      else if disk_s disk = 0 \<or> disk_h disk = 0 then None
      else let chunk = (if maxt < cnt then maxt else cnt);
               (tptr, freeseg) = pick_buffer xfer (disk_sector_shift disk) buf ptr;
               chunk = (if freeseg < chunk then freeseg else chunk);
               s = xlba mod disk_s disk;
               t = xlba div disk_s disk;
               h = t mod disk_h disk;
               c = t div disk_h disk;
               chunk = (if disk_s disk - s < chunk then disk_s disk - s else chunk);
               bytes = push_bit (disk_sector_shift disk) chunk;
               m = (if tptr \<noteq> ptr \<and> is_write then copy tptr ptr bytes m else m);
               (m, r) = chs_try intcall c (chs_regs disk is_write chunk c h s tptr) m chunk maxt RETRY_COUNT
           in case r of
                None \<Rightarrow> Some (disk, m, dn)
              | Some (chunk, maxt) \<Rightarrow>
                  let bytes = push_bit (disk_sector_shift disk) chunk;
                      m = (if tptr \<noteq> ptr \<and> \<not> is_write then copy ptr tptr bytes m else m)
                  in chs_loop intcall xfer is_write buf (disk\<lparr>maxtransfer := maxt\<rparr>) m
                       (ptr + bytes) (xlba + chunk) (cnt - chunk) (dn + chunk) maxt)"

definition chs_rdwr_sectors ::
  "'b intcall \<Rightarrow> u32 \<Rightarrow> disk \<Rightarrow> 'b machine \<Rightarrow> u32 \<Rightarrow> u64 \<Rightarrow> u32 \<Rightarrow> bool \<Rightarrow> (disk \<times> 'b machine \<times> u32) option" where
  "chs_rdwr_sectors intcall xfer disk m buf lba cnt is_write =
     (if chs_max disk \<le> lba + part_start disk then Some (disk, m, 0)
      else chs_loop intcall xfer is_write buf disk m buf (ucast (lba + part_start disk)) cnt 0 (maxtransfer disk))"

section \<open>EDD\<close>

text \<open>\<open>struct edd_rdwr_packet\<close> as it is stored at \<open>pkt\<close>.\<close>

definition edd_packet :: "u32 \<Rightarrow> u32 \<Rightarrow> u64 \<Rightarrow> bytes" where
  "edd_packet chunk tptr lba = le16 16 @ le16 (ucast chunk) @ le16 (OFFS tptr) @ le16 (SEG tptr) @ le64 lba"

function edd_try ::
  "'b intcall \<Rightarrow> u32 \<Rightarrow> com32sys \<Rightarrow> u32 \<Rightarrow> u64 \<Rightarrow> 'b machine \<Rightarrow> u32 \<Rightarrow> u32 \<Rightarrow> nat \<Rightarrow> 'b machine \<times> (u32 \<times> u32) option" where
  "edd_try intcall pkt ireg tptr lba m chunk maxt retry =
     (let m = poke pkt (edd_packet chunk tptr lba) m;
          (m, oreg) = intcall 0x13 ireg m
      in if \<not> carry oreg then (m, Some (chunk, maxt))
         else if retry \<noteq> 0 then edd_try intcall pkt ireg tptr lba m chunk maxt (retry - 1)
         else let (m, _) = intcall 0x13 zero_regs m;
                  chunk = drop_bit 1 chunk
              in if chunk \<noteq> 0 then edd_try intcall pkt ireg tptr lba m chunk chunk RETRY_COUNT
                 else (m, None))"
  by pat_completeness auto

termination edd_try
  by (relation "measures [\<lambda>(_, _, _, _, _, _, chunk, _, _). unat chunk, \<lambda>(_, _, _, _, _, _, _, _, retry). retry]")
    (auto intro: drop_bit_1_smaller)

declare chs_try.simps [simp del] edd_try.simps [simp del]

definition edd_regs :: "disk \<Rightarrow> bool \<Rightarrow> u32 \<Rightarrow> com32sys" where
  "edd_regs disk is_write pkt =
     zero_regs\<lparr>r_eax := set_b1 0 (0x42 + (if is_write then 1 else 0)), r_edx := set_b0 0 (ucast (disk_number disk)),
       r_ds := SEG pkt, r_esi := set_w0 0 (OFFS pkt)\<rparr>"

partial_function (option) edd_loop ::
  "'b intcall \<Rightarrow> u32 \<Rightarrow> u32 \<Rightarrow> bool \<Rightarrow> u32 \<Rightarrow> disk \<Rightarrow> 'b machine \<Rightarrow> u32 \<Rightarrow> u64 \<Rightarrow> u32 \<Rightarrow> u32 \<Rightarrow> u32 \<Rightarrow> (disk \<times> 'b machine \<times> u32) option" where
  "edd_loop intcall pkt xfer is_write buf disk m ptr lba cnt dn maxt =
     (if cnt = 0 then Some (disk, m, dn)
      else let chunk = (if maxt < cnt then maxt else cnt);
               (tptr, freeseg) = pick_buffer xfer (disk_sector_shift disk) ptr ptr;
               chunk = (if freeseg < chunk then freeseg else chunk);
               bytes = push_bit (disk_sector_shift disk) chunk;
               m = (if tptr \<noteq> ptr \<and> is_write then copy tptr ptr bytes m else m);
               (m, r) = edd_try intcall pkt (edd_regs disk is_write pkt) tptr lba m chunk maxt RETRY_COUNT
           in case r of
                None \<Rightarrow>
                  do { (disk, m, dn) \<leftarrow> chs_rdwr_sectors intcall xfer disk m buf (lba - part_start disk) cnt is_write;
                       if dn = push_bit (disk_sector_shift disk) cnt then Some (disk\<lparr>rdwr_sectors := CHS\<rparr>, m, dn)
                       else Some (disk, m, dn) }
              | Some (chunk, maxt) \<Rightarrow>
                  let bytes = push_bit (disk_sector_shift disk) chunk;
                      m = (if tptr \<noteq> ptr \<and> \<not> is_write then copy ptr tptr bytes m else m)
                  in edd_loop intcall pkt xfer is_write buf (disk\<lparr>maxtransfer := maxt\<rparr>) m
                       (ptr + bytes) (lba + ucast chunk) (cnt - chunk) (dn + chunk) maxt)"

definition edd_rdwr_sectors ::
  "'b intcall \<Rightarrow> u32 \<Rightarrow> u32 \<Rightarrow> disk \<Rightarrow> 'b machine \<Rightarrow> u32 \<Rightarrow> u64 \<Rightarrow> u32 \<Rightarrow> bool \<Rightarrow> (disk \<times> 'b machine \<times> u32) option" where
  "edd_rdwr_sectors intcall pkt xfer disk m buf lba cnt is_write =
     edd_loop intcall pkt xfer is_write buf disk m buf (lba + part_start disk) cnt 0 (maxtransfer disk)"

text \<open>The call through \<open>disk->rdwr_sectors\<close>.\<close>

definition disk_rdwr ::
  "'b intcall \<Rightarrow> u32 \<Rightarrow> u32 \<Rightarrow> disk \<Rightarrow> 'b machine \<Rightarrow> u32 \<Rightarrow> u64 \<Rightarrow> u32 \<Rightarrow> bool \<Rightarrow> (disk \<times> 'b machine \<times> u32) option" where
  "disk_rdwr intcall pkt xfer disk m buf lba cnt is_write =
     (case rdwr_sectors disk of
        CHS \<Rightarrow> chs_rdwr_sectors intcall xfer disk m buf lba cnt is_write
      | EDD \<Rightarrow> edd_rdwr_sectors intcall pkt xfer disk m buf lba cnt is_write)"

section \<open>Detection\<close>

definition is_power_of_2 :: "u32 \<Rightarrow> bool" where
  "is_power_of_2 x \<longleftrightarrow> x AND (x - 1) = 0"

text \<open>\<open>struct edd_disk_params\<close> has 74 bytes; \<open>len\<close> is at 0, \<open>sector_size\<close> at 24.\<close>

definition sizeof_edd_params :: nat where "sizeof_edd_params = 74"

definition mem16 :: "(u32 \<Rightarrow> u8) \<Rightarrow> u32 \<Rightarrow> u16" where
  "mem16 f a = le16_of (f a) (f (a + 1))"

definition edd_sector_size :: "'b intcall \<Rightarrow> u32 \<Rightarrow> com32sys \<Rightarrow> 'b machine \<Rightarrow> 'b machine \<times> u32" where
  "edd_sector_size intcall params ireg m =
     (let m = poke params (le16 (of_nat sizeof_edd_params)) m;
          ireg = ireg\<lparr>r_eax := set_b1 (r_eax ireg) 0x48, r_ds := SEG params, r_esi := set_w0 (r_esi ireg) (OFFS params)\<rparr>;
          (m, oreg) = intcall 0x13 ireg m
      in if \<not> carry oreg \<and> b1 (r_eax oreg) = 0
         then let len = unat (mem16 (mem m) params);
                  m = (if len < sizeof_edd_params then poke (params + of_nat len) (replicate (sizeof_edd_params - len) 0) m else m);
                  sz = ucast (mem16 (mem m) (params + 24)) :: u32
              in (m, if 512 \<le> sz \<and> is_power_of_2 sz then sz else 512)
         else (m, 512))"

text \<open>The geometry from the BIOS, for a hard disk (device numbers from 0x80 on).\<close>

definition bios_geometry :: "'b intcall \<Rightarrow> u8 \<Rightarrow> com32sys \<Rightarrow> u32 \<Rightarrow> u32 \<Rightarrow> 'b machine \<Rightarrow> 'b machine \<times> com32sys \<times> u32 \<times> u32" where
  "bios_geometry intcall devno ireg h s m =
     (if sint devno < 0
      then let ireg = ireg\<lparr>r_eax := set_b1 (r_eax ireg) 0x08\<rparr>;
               (m, oreg) = intcall 0x13 ireg m
           in if \<not> carry oreg then (m, ireg, ucast (b1 (r_edx oreg)) + 1, ucast (b0 (r_ecx oreg) AND 63)) else (m, ireg, h, s)
      else (m, ireg, h, s))"

text \<open>\<open>disk0\<close> is the old contents of the static \<open>disk\<close>: it keeps its geometry for a CD-ROM.\<close>

definition disk_init ::
  "'b intcall \<Rightarrow> u32 \<Rightarrow> disk \<Rightarrow> u8 \<Rightarrow> bool \<Rightarrow> u64 \<Rightarrow> u16 \<Rightarrow> u16 \<Rightarrow> u32 \<Rightarrow> 'b machine \<Rightarrow> ('b machine \<times> disk) option" where
  "disk_init intcall params disk0 devno cdrom part bsHeads bsSecPerTrack MaxTransfer m =
     do { let ireg = zero_regs\<lparr>r_edx := set_b0 0 devno\<rparr>;
          let (m, h, s, sector_size, ebios, hard_max) =
            (if cdrom then (m, disk_h disk0, disk_s disk0, 2048 :: u32, True, 32 :: u32)
             else let (m, ireg, h, s) = bios_geometry intcall devno ireg (ucast bsHeads) (ucast bsSecPerTrack) m;
                      ireg = ireg\<lparr>r_eax := set_b1 (r_eax ireg) 0x41, r_ebx := set_w0 (r_ebx ireg) 0x55aa, r_eflags := set_b0 (r_eflags ireg) 3\<rparr>;
                      (m, oreg) = intcall 0x13 ireg m
                  in if \<not> carry oreg \<and> w0 (r_ebx oreg) = 0xaa55 \<and> b0 (r_ecx oreg) AND 1 \<noteq> 0
                     then let (m, sz) = edd_sector_size intcall params ireg m in (m, h, s, sz, True, 127)
                     else (m, h, s, 512, False, 63));
          shft \<leftarrow> ilog2 sector_size;
          Some (m, \<lparr>disk_number = ucast devno, disk_sector_size = sector_size, disk_sector_shift = shft,
            maxtransfer = (if MaxTransfer = 0 \<or> hard_max < MaxTransfer then hard_max else MaxTransfer),
            disk_h = h, disk_s = s, secpercyl = h * s, part_start = part, rdwr_sectors = (if ebios then EDD else CHS)\<rparr>) }"

text \<open>\<open>dev\<close> is the old contents of the static \<open>dev\<close>, with the 128K of \<open>diskcache\<close>.\<close>

definition device_init ::
  "'b intcall \<Rightarrow> u32 \<Rightarrow> disk \<Rightarrow> bytes \<Rightarrow> (disk \<times> 'b machine) device \<Rightarrow> u8 \<Rightarrow> bool \<Rightarrow> u64 \<Rightarrow> u16 \<Rightarrow> u16 \<Rightarrow> u32 \<Rightarrow> 'b machine \<Rightarrow>
   (disk \<times> 'b machine) device option" where
  "device_init intcall params disk0 diskcache dev devno cdrom part bsHeads bsSecPerTrack MaxTransfer m =
     do { (m, disk) \<leftarrow> disk_init intcall params disk0 devno cdrom part bsHeads bsSecPerTrack MaxTransfer m;
          Some (dev\<lparr>dev_disk := (disk, m), cache_data := diskcache, cache_size := 131072\<rparr>) }"


section \<open>Ranges of memory\<close>

definition within :: "u32 \<Rightarrow> nat \<Rightarrow> u32 \<Rightarrow> bool" where
  "within a n x \<longleftrightarrow> unat (x - a) < n"

definition apart_from :: "u32 \<Rightarrow> nat \<Rightarrow> u32 \<Rightarrow> nat \<Rightarrow> bool" where
  "apart_from a n b k \<longleftrightarrow> (\<forall>x. \<not> (within a n x \<and> within b k x))"

lemma mem_write_at: "mem_write f a bs x = (if within a (length bs) x then bs ! unat (x - a) else f x)"
  by (simp add: mem_write_def within_def)

lemma within_shift:
  assumes "d + e \<le> 2 ^ 32"
  shows "within (a + of_nat d) e x \<longleftrightarrow> d \<le> unat (x - a) \<and> unat (x - a) < d + e"
proof (cases "e = 0")
  case False
  then have d: "d < 4294967296" using assms by simp
  have u: "unat (of_nat d :: u32) = d" by (rule unat_of_nat_small) (use d in simp)
  have s: "x - (a + of_nat d) = (x - a) - of_nat d" by simp
  have b: "unat (x - a) < 4294967296" by (rule unat_u32_lt)
  show ?thesis
  proof (cases "d \<le> unat (x - a)")
    case True
    then have "unat ((x - a) - of_nat d) = unat (x - a) - d" by (simp add: unat_sub_if' u)
    then show ?thesis unfolding within_def s using True False by auto
  next
    case f: False
    then have "unat ((x - a) - of_nat d) = unat (x - a) + 2 ^ LENGTH(32) - d" by (simp only: unat_sub_if' u if_False)
    then have "\<not> unat ((x - a) - of_nat d) < e" using assms by simp
    then show ?thesis unfolding within_def s using f by simp
  qed
qed (simp add: within_def)

lemma within_self: "i < n \<Longrightarrow> n \<le> 2 ^ 32 \<Longrightarrow> within a n (a + of_nat i)"
  by (simp add: within_def unat_of_nat)

lemma mem_read_length [simp]: "length (mem_read f a n) = n"
  by (simp add: mem_read_def)

lemma mem_read_nth: "i < n \<Longrightarrow> mem_read f a n ! i = f (a + of_nat i)"
  by (simp add: mem_read_def)

lemma mem_read_write: "n = length bs \<Longrightarrow> n \<le> 2 ^ 32 \<Longrightarrow> mem_read (mem_write f a bs) a n = bs"
  by (rule nth_equalityI) (simp_all add: mem_read_nth mem_write_at within_def unat_of_nat)

lemma mem_read_cong: "(\<And>x. within a n x \<Longrightarrow> f x = g x) \<Longrightarrow> n \<le> 2 ^ 32 \<Longrightarrow> mem_read f a n = mem_read g a n"
  by (rule nth_equalityI) (simp_all add: mem_read_nth within_self)

lemma mem_read_split: "mem_read f a (n + k) = mem_read f a n @ mem_read f (a + of_nat n) k"
  by (rule nth_equalityI) (auto simp: mem_read_nth nth_append add.assoc simp flip: of_nat_add)

lemma far_ptr:
  assumes "unat a < 2 ^ 20"
  shows "MK_PTR (SEG a) (OFFS a) = a"
proof -
  have d: "unat (drop_bit 4 a) = unat a div 16" by (simp only: unat_drop_bit) simp
  then have "unat (drop_bit 4 a) < 2 ^ 16" using assms by simp
  then have s: "unat (ucast (SEG a) :: u32) = unat a div 16" by (simp add: SEG_def unat_ucast_mod unat_ucast_up d)
  have m: "(0x000F :: u16) = mask 4" by (simp add: mask_eq_exp_minus_1)
  have "unat (OFFS a) = unat (ucast a :: u16) mod 2 ^ 4" unfolding OFFS_def m by (rule unat_mask_mod)
  also have "\<dots> = unat a mod 16" by (simp add: unat_ucast_mod mod_mod_cancel)
  finally have o: "unat (ucast (OFFS a) :: u32) = unat a mod 16" by (simp add: unat_ucast_up)
  have p: "unat (push_bit 4 (ucast (SEG a) :: u32)) = unat a div 16 * 16" using assms by (simp add: unat_push_bit s)
  have "unat (MK_PTR (SEG a) (OFFS a)) = unat a div 16 * 16 + unat a mod 16"
    unfolding MK_PTR_def using p o assms by (subst unat_add_no_wrap) simp_all
  then show ?thesis by (simp add: word_unat_eq_iff)
qed

lemma freeseg_value:
  assumes "shft \<le> 15"
  shows "unat (freeseg_at shft a) = (65536 - unat a mod 65536) div 2 ^ shft" "unat (freeseg_at shft a) * 2 ^ shft + unat a mod 65536 \<le> 65536"
proof -
  have m: "(0xffff :: u32) = mask 16" by (simp add: mask_eq_exp_minus_1)
  have u: "unat (a AND 0xffff) = unat a mod 65536" unfolding m by (simp add: unat_mask_mod)
  have "unat (0x10000 - (a AND 0xffff)) = 65536 - unat a mod 65536"
    by (subst unat_sub_no_wrap) (simp_all add: word_le_nat_alt u less_imp_le)
  then show f: "unat (freeseg_at shft a) = (65536 - unat a mod 65536) div 2 ^ shft" by (simp add: freeseg_at_def unat_drop_bit)
  have "unat (freeseg_at shft a) * 2 ^ shft \<le> 65536 - unat a mod 65536" unfolding f by (rule div_times_less_eq_dividend)
  moreover have "unat a mod 65536 < 65536" by simp
  ultimately show "unat (freeseg_at shft a) * 2 ^ shft + unat a mod 65536 \<le> 65536" by linarith
qed


section \<open>The BIOS\<close>

text \<open>
  What the code relies on in an EDD BIOS, for reads (AH = 42h) of drive \<open>drive\<close>: given a packet that DS:SI points to, with a
  buffer below 1M that does not cross a 64K line, the call transfers the sectors to the buffer and clears the
  carry flag, or it sets the flag and leaves anything in the buffer.  Either way it may write to the packet (the EDD
  specification stores the number of blocks that were transferred in its count field when the call fails); nothing
  else in memory changes.  It may refuse any transfer of several sectors, but not of one.  A reset leaves memory alone.
\<close>

definition sectors_from :: "(u64 \<Rightarrow> bytes) \<Rightarrow> u64 \<Rightarrow> nat \<Rightarrow> bytes" where
  "sectors_from dsk lba n = concat (map (\<lambda>i. dsk (lba + of_nat i)) [0..<n])"

locale edd_bios =
  fixes intcall :: "'b intcall" and drive :: u8 and shft :: nat and dsk :: "u64 \<Rightarrow> bytes" and total :: nat and binv :: "'b \<Rightarrow> bool"
  assumes shft: "9 \<le> shft" "shft \<le> 15"
    and dsk_length: "length (dsk l) = 2 ^ shft"
    and total: "total < 2 ^ 64"
    and read_call: "binv (bios m) \<Longrightarrow> b1 (r_eax r) = 0x42 \<Longrightarrow> b0 (r_edx r) = drive \<Longrightarrow>
      mem_read (mem m) (MK_PTR (r_ds r) (w0 (r_esi r))) 16 = le16 16 @ le16 c @ le16 (OFFS a) @ le16 (SEG a) @ le64 l \<Longrightarrow>
      1 \<le> unat c \<Longrightarrow> unat a < 2 ^ 20 \<Longrightarrow> unat a mod 65536 + unat c * 2 ^ shft \<le> 65536 \<Longrightarrow> unat l + unat c \<le> total \<Longrightarrow>
      \<exists>m' o'. intcall 0x13 r m = (m', o') \<and> binv (bios m') \<and>
        (\<forall>x. \<not> within (MK_PTR (r_ds r) (w0 (r_esi r))) 16 x \<longrightarrow> \<not> within a (unat c * 2 ^ shft) x \<longrightarrow> mem m' x = mem m x) \<and>
        (\<not> carry o' \<longrightarrow> mem_read (mem m') a (unat c * 2 ^ shft) = sectors_from dsk l (unat c)) \<and> (c = 1 \<longrightarrow> \<not> carry o')"
    and reset_call: "binv (bios m) \<Longrightarrow> \<exists>m' o'. intcall 0x13 zero_regs m = (m', o') \<and> binv (bios m') \<and> mem m' = mem m"
begin

lemma sectors_length: "length (sectors_from dsk l n) = n * 2 ^ shft"
  by (simp add: sectors_from_def length_concat comp_def dsk_length sum_list_triv)

lemma edd_call:
  assumes b: "binv (bios m)" and r: "b1 (r_eax r) = 0x42" "b0 (r_edx r) = drive" "MK_PTR (r_ds r) (w0 (r_esi r)) = pkt"
    and c: "1 \<le> unat c" "unat c < 65536" "unat a < 2 ^ 20" "unat a mod 65536 + unat c * 2 ^ shft \<le> 65536" "unat l + unat c \<le> total"
  shows "\<exists>m' o'. intcall 0x13 r (poke pkt (edd_packet c a l) m) = (m', o') \<and> binv (bios m') \<and>
    (\<forall>x. \<not> within pkt 16 x \<longrightarrow> \<not> within a (unat c * 2 ^ shft) x \<longrightarrow> mem m' x = mem m x) \<and>
    (\<not> carry o' \<longrightarrow> mem_read (mem m') a (unat c * 2 ^ shft) = sectors_from dsk l (unat c)) \<and> (c = 1 \<longrightarrow> \<not> carry o')"
proof -
  let ?m = "poke pkt (edd_packet c a l) m"
  have l16: "length (edd_packet c a l) = 16" by (simp add: edd_packet_def le16_def le64_def)
  have u: "unat (ucast c :: u16) = unat c" using c(2) by (simp add: unat_ucast_mod)
  have p: "mem_read (mem ?m) (MK_PTR (r_ds r) (w0 (r_esi r))) 16 = le16 16 @ le16 (ucast c) @ le16 (OFFS a) @ le16 (SEG a) @ le64 l"
    unfolding r(3) poke_def using mem_read_write [of 16 "edd_packet c a l" "mem m" pkt] l16 by (simp add: edd_packet_def)
  obtain m' o' where k: "intcall 0x13 r ?m = (m', o')" "binv (bios m')"
    "\<forall>x. \<not> within pkt 16 x \<longrightarrow> \<not> within a (unat c * 2 ^ shft) x \<longrightarrow> mem m' x = mem ?m x"
    "\<not> carry o' \<longrightarrow> mem_read (mem m') a (unat c * 2 ^ shft) = sectors_from dsk l (unat c)" "ucast c = (1 :: u16) \<longrightarrow> \<not> carry o'"
    using read_call [OF _ r(1,2) p] b c(1,3-5) unfolding u r(3) by (auto simp: poke_def)
  have "mem m' x = mem m x" if "\<not> within pkt 16 x" "\<not> within a (unat c * 2 ^ shft) x" for x
    using that k(3) by (simp add: poke_def mem_write_at l16)
  then show ?thesis using k(1,2,4,5) by auto
qed

text \<open>The tries: they end with a transfer that works, at the latest of one sector.\<close>

lemma edd_try_ok:
  assumes r: "b1 (r_eax r) = 0x42" "b0 (r_edx r) = drive" "MK_PTR (r_ds r) (w0 (r_esi r)) = pkt" and a: "unat a < 2 ^ 20"
  shows "binv (bios m) \<Longrightarrow> 1 \<le> unat c \<Longrightarrow> unat c < 65536 \<Longrightarrow> unat a mod 65536 + unat c * 2 ^ shft \<le> 65536 \<Longrightarrow> unat l + unat c \<le> total \<Longrightarrow>
    \<exists>m' k mt'. edd_try intcall pkt r a l m c mt retry = (m', Some (k, mt')) \<and> 1 \<le> unat k \<and> unat k \<le> unat c \<and> (k = c \<and> mt' = mt \<or> mt' = k) \<and> binv (bios m') \<and>
      mem_read (mem m') a (unat k * 2 ^ shft) = sectors_from dsk l (unat k) \<and>
      (\<forall>x. \<not> within pkt 16 x \<longrightarrow> \<not> within a (unat c * 2 ^ shft) x \<longrightarrow> mem m' x = mem m x)"
proof (induction "unat c" arbitrary: c m mt retry rule: less_induct)
  case (less c)
  note outer = less.hyps
  show ?case using less.prems
  proof (induction retry arbitrary: m)
    case (0 m)
    from edd_call [OF 0(1) r 0(2,3) a 0(4,5)] obtain m1 o1 where k: "intcall 0x13 r (poke pkt (edd_packet c a l) m) = (m1, o1)" "binv (bios m1)"
      "\<forall>x. \<not> within pkt 16 x \<longrightarrow> \<not> within a (unat c * 2 ^ shft) x \<longrightarrow> mem m1 x = mem m x"
      "\<not> carry o1 \<longrightarrow> mem_read (mem m1) a (unat c * 2 ^ shft) = sectors_from dsk l (unat c)" "c = 1 \<longrightarrow> \<not> carry o1" by blast
    show ?case
    proof (cases "carry o1")
      case False
      then show ?thesis using k 0 by (subst edd_try.simps) (auto simp: Let_def)
    next
      case True
      then have "c \<noteq> 1" using k(5) by auto
      then have c2: "2 \<le> unat c" using 0(2) by (auto simp: word_unat_eq_iff)
      let ?h = "drop_bit 1 c"
      have h: "unat ?h = unat c div 2" by (simp only: unat_drop_bit) simp
      have nz: "?h \<noteq> 0" using h c2 by (auto simp: word_unat_eq_iff)
      obtain m2 o2 where z: "intcall 0x13 zero_regs m1 = (m2, o2)" "binv (bios m2)" "mem m2 = mem m1" using reset_call [OF k(2)] by blast
      have le: "unat ?h * 2 ^ shft \<le> unat c * 2 ^ shft" using h by (intro mult_le_mono) simp_all
      have "\<exists>m' k mt'. edd_try intcall pkt r a l m2 ?h ?h RETRY_COUNT = (m', Some (k, mt')) \<and> 1 \<le> unat k \<and> unat k \<le> unat ?h \<and> (k = ?h \<and> mt' = ?h \<or> mt' = k) \<and> binv (bios m') \<and>
        mem_read (mem m') a (unat k * 2 ^ shft) = sectors_from dsk l (unat k) \<and>
        (\<forall>x. \<not> within pkt 16 x \<longrightarrow> \<not> within a (unat ?h * 2 ^ shft) x \<longrightarrow> mem m' x = mem m2 x)"
        by (rule outer) (use h c2 0 z(2) le in linarith)+
      then obtain m' q mt' where i: "edd_try intcall pkt r a l m2 ?h ?h RETRY_COUNT = (m', Some (q, mt'))" "1 \<le> unat q" "unat q \<le> unat ?h" "q = ?h \<and> mt' = ?h \<or> mt' = q"
        "binv (bios m')" "mem_read (mem m') a (unat q * 2 ^ shft) = sectors_from dsk l (unat q)"
        "\<forall>x. \<not> within pkt 16 x \<longrightarrow> \<not> within a (unat ?h * 2 ^ shft) x \<longrightarrow> mem m' x = mem m2 x" by blast
      have "edd_try intcall pkt r a l m c mt 0 = edd_try intcall pkt r a l m2 ?h ?h RETRY_COUNT"
        by (subst edd_try.simps) (use True nz in \<open>simp add: Let_def k(1) z(1)\<close>)
      moreover have "mem m' x = mem m x" if "\<not> within pkt 16 x" "\<not> within a (unat c * 2 ^ shft) x" for x
      proof -
        have "\<not> within a (unat ?h * 2 ^ shft) x" using that(2) le unfolding within_def by linarith
        then show ?thesis using that i(7) k(3) z(3) by metis
      qed
      ultimately show ?thesis using i h by (auto intro: le_trans)
    qed
  next
    case (Suc retry m)
    from edd_call [OF Suc.prems(1) r Suc.prems(2,3) a Suc.prems(4,5)] obtain m1 o1 where k: "intcall 0x13 r (poke pkt (edd_packet c a l) m) = (m1, o1)" "binv (bios m1)"
      "\<forall>x. \<not> within pkt 16 x \<longrightarrow> \<not> within a (unat c * 2 ^ shft) x \<longrightarrow> mem m1 x = mem m x"
      "\<not> carry o1 \<longrightarrow> mem_read (mem m1) a (unat c * 2 ^ shft) = sectors_from dsk l (unat c)" by blast
    show ?case
    proof (cases "carry o1")
      case False
      then show ?thesis using k Suc.prems by (subst edd_try.simps) (auto simp: Let_def)
    next
      case True
      have "edd_try intcall pkt r a l m c mt (Suc retry) = edd_try intcall pkt r a l m1 c mt retry"
        by (subst edd_try.simps) (use True in \<open>simp add: Let_def k(1)\<close>)
      then show ?thesis using Suc.IH [OF k(2) Suc.prems(2-5)] k(3) by fastforce
    qed
  qed
qed

end


lemma edd_regs_fields:
  "b1 (r_eax (edd_regs disk False pkt)) = 0x42" "b0 (r_edx (edd_regs disk False pkt)) = ucast (disk_number disk)"
  "r_ds (edd_regs disk False pkt) = SEG pkt" "w0 (r_esi (edd_regs disk False pkt)) = OFFS pkt"
  by (simp_all add: edd_regs_def b1_def set_b1_def b0_def set_b0_def w0_def set_w0_def) (auto intro!: bit_word_eqI simp: bit_simps)

lemma sectors_from_split: "sectors_from dsk lba (n + k) = sectors_from dsk lba n @ sectors_from dsk (lba + of_nat n) k"
proof -
  have "map f [0..<n + k] = map f [0..<n] @ map (\<lambda>i. f (n + i)) [0..<k]" for f :: "nat \<Rightarrow> bytes"
    by (induction k) (simp_all add: add.assoc)
  then show ?thesis by (simp add: sectors_from_def add.assoc)
qed

context edd_bios begin

text \<open>One round of the loop: some sectors arrive at \<open>ptr\<close>, directly or through the transfer buffer.\<close>

lemma edd_round:
  fixes ptr :: u32
  assumes pk: "unat pkt < 2 ^ 20" and xf: "unat xfer < 2 ^ 20" "unat xfer mod 65536 + 2 ^ shft \<le> 65536"
    and disk: "disk_sector_shift disk = shft" "ucast (disk_number disk) = drive"
    and b: "binv (bios m)" and cnt: "cnt \<noteq> 0" "unat lba + unat cnt \<le> total" and mt: "1 \<le> unat maxt" "unat maxt < 65536"
  defines "tf \<equiv> pick_buffer xfer shft ptr ptr"
  defines "c0 \<equiv> if maxt < cnt then maxt else cnt"
  defines "c \<equiv> if snd tf < c0 then snd tf else c0"
  shows "\<exists>m1 q mt'. edd_try intcall pkt (edd_regs disk False pkt) (fst tf) lba m c maxt RETRY_COUNT = (m1, Some (q, mt')) \<and>
    1 \<le> unat q \<and> unat q \<le> unat cnt \<and> (1 \<le> unat mt' \<and> unat mt' \<le> unat maxt) \<and> binv (bios m1) \<and> unat q * 2 ^ shft \<le> 65536 \<and>
    mem_read (mem m1) (fst tf) (unat q * 2 ^ shft) = sectors_from dsk lba (unat q) \<and>
    (\<forall>x. \<not> within ptr (unat cnt * 2 ^ shft) x \<longrightarrow> \<not> within pkt 16 x \<longrightarrow> \<not> within xfer 65536 x \<longrightarrow> mem m1 x = mem m x)"
proof -
  have tf: "snd tf = freeseg_at shft (fst tf)" "fst tf = ptr \<or> fst tf = xfer" "unat (fst tf) < 2 ^ 20" "1 \<le> unat (snd tf)"
  proof -
    show "snd tf = freeseg_at shft (fst tf)" "fst tf = ptr \<or> fst tf = xfer" by (simp_all add: tf_def pick_buffer_def)
    show "unat (fst tf) < 2 ^ 20" using xf(1) by (auto simp: tf_def pick_buffer_def word_le_nat_alt)
    have "1 \<le> unat (freeseg_at shft xfer)" unfolding freeseg_value(1) [OF shft(2)] using xf(2) by (simp add: div_greater_zero_iff Suc_leI)
    moreover have "1 \<le> unat (freeseg_at shft ptr)" if "freeseg_at shft ptr \<noteq> 0" using that by (simp add: Suc_leI unat_gt_0)
    ultimately show "1 \<le> unat (snd tf)" by (auto simp: tf_def pick_buffer_def)
  qed
  have c0: "1 \<le> unat c0" "unat c0 \<le> unat cnt" "unat c0 \<le> unat maxt"
    using cnt(1) mt(1) by (auto simp: c0_def word_less_nat_alt unat_gt_0 Suc_leI)
  have c: "1 \<le> unat c" "unat c \<le> unat c0" "unat c \<le> unat (snd tf)" using c0 tf(4) by (auto simp: c_def word_less_nat_alt)
  have "unat c * 2 ^ shft \<le> unat (snd tf) * 2 ^ shft" using c(3) by (intro mult_le_mono) simp_all
  then have room: "unat (fst tf) mod 65536 + unat c * 2 ^ shft \<le> 65536" using freeseg_value(2) [OF shft(2), of "fst tf", folded tf(1)] by linarith
  have r: "b1 (r_eax (edd_regs disk False pkt)) = 0x42" "b0 (r_edx (edd_regs disk False pkt)) = drive"
    "MK_PTR (r_ds (edd_regs disk False pkt)) (w0 (r_esi (edd_regs disk False pkt))) = pkt"
    using disk(2) far_ptr [OF pk] by (simp_all add: edd_regs_fields)
  have cs: "unat c < 65536" "unat lba + unat c \<le> total" using c c0 mt(2) cnt(2) by linarith+
  obtain m1 q mt' where k: "edd_try intcall pkt (edd_regs disk False pkt) (fst tf) lba m c maxt RETRY_COUNT = (m1, Some (q, mt'))"
    "1 \<le> unat q" "unat q \<le> unat c" "q = c \<and> mt' = maxt \<or> mt' = q" "binv (bios m1)"
    "mem_read (mem m1) (fst tf) (unat q * 2 ^ shft) = sectors_from dsk lba (unat q)"
    "\<forall>x. \<not> within pkt 16 x \<longrightarrow> \<not> within (fst tf) (unat c * 2 ^ shft) x \<longrightarrow> mem m1 x = mem m x"
    using edd_try_ok [OF r tf(3) b c(1) cs(1) room cs(2)] by blast
  have "mem m1 x = mem m x" if x: "\<not> within ptr (unat cnt * 2 ^ shft) x" "\<not> within pkt 16 x" "\<not> within xfer 65536 x" for x
  proof -
    have "unat c * 2 ^ shft \<le> unat cnt * 2 ^ shft" using c c0 by (intro mult_le_mono) simp_all
    have "unat c * 2 ^ shft \<le> 65536" using room by linarith
    from tf(2) consider "fst tf = ptr" | "fst tf = xfer" by blast
    then have "\<not> within (fst tf) (unat c * 2 ^ shft) x"
    proof cases
      case 1
      show ?thesis using x(1) \<open>unat c * 2 ^ shft \<le> unat cnt * 2 ^ shft\<close> unfolding within_def 1 by linarith
    next
      case 2
      show ?thesis using x(3) \<open>unat c * 2 ^ shft \<le> 65536\<close> unfolding within_def 2 by linarith
    qed
    then show ?thesis using k(7) x(2) by blast
  qed
  moreover have "unat q * 2 ^ shft \<le> 65536" using mult_le_mono1 [OF k(3), of "2 ^ shft"] room by linarith
  moreover have "unat q \<le> unat cnt" "1 \<le> unat mt' \<and> unat mt' \<le> unat maxt" using k(2-4) c c0 mt by auto
  ultimately show ?thesis using k by blast
qed

lemma edd_loop_ok:
  assumes pk: "unat pkt < 2 ^ 20" and xf: "unat xfer < 2 ^ 20" "unat xfer mod 65536 + 2 ^ shft \<le> 65536" and K: "K < 65536"
  shows "disk_sector_shift disk = shft \<Longrightarrow> ucast (disk_number disk) = drive \<Longrightarrow> 1 \<le> unat (maxtransfer disk) \<and> unat (maxtransfer disk) \<le> K \<Longrightarrow>
    binv (bios m) \<Longrightarrow> unat lba + unat cnt \<le> total \<Longrightarrow> 1 \<le> unat maxt \<and> unat maxt \<le> K \<Longrightarrow> unat cnt * 2 ^ shft \<le> 2 ^ 32 \<Longrightarrow>
    apart_from ptr (unat cnt * 2 ^ shft) pkt 16 \<Longrightarrow> apart_from ptr (unat cnt * 2 ^ shft) xfer 65536 \<Longrightarrow>
    \<exists>mt' m'. edd_loop intcall pkt xfer False buf disk m ptr lba cnt dn maxt = Some (disk\<lparr>maxtransfer := mt'\<rparr>, m', dn + cnt) \<and>
      1 \<le> unat mt' \<and> unat mt' \<le> K \<and> binv (bios m') \<and> mem_read (mem m') ptr (unat cnt * 2 ^ shft) = sectors_from dsk lba (unat cnt) \<and>
      (\<forall>x. \<not> within ptr (unat cnt * 2 ^ shft) x \<longrightarrow> \<not> within pkt 16 x \<longrightarrow> \<not> within xfer 65536 x \<longrightarrow> mem m' x = mem m x)"
proof (induction "unat cnt" arbitrary: disk m ptr lba cnt dn maxt rule: less_induct)
  case (less cnt disk m ptr lba dn maxt)
  note D = less.prems
  show ?case
  proof (cases "cnt = 0")
    case True
    then show ?thesis using D
      by (subst edd_loop.simps) (auto simp: sectors_from_def mem_read_def intro!: exI [of _ "maxtransfer disk"])
  next
    case False
    define tf where "tf = pick_buffer xfer shft ptr ptr"
    define c0 where "c0 = (if maxt < cnt then maxt else cnt)"
    define c where "c = (if snd tf < c0 then snd tf else c0)"
    have mt: "1 \<le> unat maxt" "unat maxt < 65536" using D(6) K by linarith+
    obtain m1 q mt1 where r: "edd_try intcall pkt (edd_regs disk False pkt) (fst tf) lba m c maxt RETRY_COUNT = (m1, Some (q, mt1))"
      "1 \<le> unat q" "unat q \<le> unat cnt" "1 \<le> unat mt1 \<and> unat mt1 \<le> unat maxt" "binv (bios m1)" "unat q * 2 ^ shft \<le> 65536"
      "mem_read (mem m1) (fst tf) (unat q * 2 ^ shft) = sectors_from dsk lba (unat q)"
      "\<forall>x. \<not> within ptr (unat cnt * 2 ^ shft) x \<longrightarrow> \<not> within pkt 16 x \<longrightarrow> \<not> within xfer 65536 x \<longrightarrow> mem m1 x = mem m x"
      using edd_round [OF pk xf D(1,2,4) False D(5) mt, of ptr] unfolding tf_def [symmetric] c0_def [symmetric] c_def [symmetric] by blast
    let ?n = "unat q * 2 ^ shft" and ?q = "unat q"
    have pb: "unat (push_bit shft q) = ?n" using r(6) by (simp add: unat_push_bit)
    then have pb': "push_bit shft q = of_nat ?n" by (metis of_nat_unat ucast_id)
    define m2 where "m2 = (if fst tf \<noteq> ptr then copy ptr (fst tf) (push_bit shft q) m1 else m1)"
    have qn: "?n \<le> unat cnt * 2 ^ shft" using r(3) by (intro mult_le_mono) simp_all
    have rd: "mem_read (mem m2) ptr ?n = sectors_from dsk lba ?q"
    proof (cases "fst tf = ptr")
      case f: False
      have "mem_read (mem_write (mem m1) ptr (mem_read (mem m1) (fst tf) ?n)) ptr ?n = mem_read (mem m1) (fst tf) ?n"
        by (rule mem_read_write) (use r(6) in simp_all)
      then show ?thesis using f r(7) by (simp add: m2_def copy_def poke_def pb)
    qed (use r(7) in \<open>simp add: m2_def\<close>)
    have fr: "mem m2 x = mem m x" if x: "\<not> within ptr (unat cnt * 2 ^ shft) x" "\<not> within pkt 16 x" "\<not> within xfer 65536 x" for x
    proof -
      have "\<not> within ptr ?n x" using x(1) qn unfolding within_def by linarith
      then have "mem m2 x = mem m1 x" by (simp add: m2_def copy_def poke_def mem_write_at pb)
      then show ?thesis using r(8) x by simp
    qed
    have b2: "binv (bios m2)" using r(5) by (simp add: m2_def copy_def poke_def)
    let ?ptr = "ptr + push_bit shft q" and ?cnt = "cnt - q" and ?lba = "lba + ucast q" and ?disk = "disk\<lparr>maxtransfer := mt1\<rparr>"
    have uc: "unat ?cnt = unat cnt - ?q" using r(3) by (simp add: unat_sub_no_wrap word_le_nat_alt)
    have ul: "unat ?lba = unat lba + ?q" using D(5) r(3) total by (subst unat_add_no_wrap) (simp_all add: unat_ucast_up)
    have sp: "unat cnt * 2 ^ shft = ?n + unat ?cnt * 2 ^ shft" using r(3) by (simp add: uc diff_mult_distrib qn)
    have w: "within ?ptr (unat ?cnt * 2 ^ shft) x \<longleftrightarrow> ?n \<le> unat (x - ptr) \<and> unat (x - ptr) < unat cnt * 2 ^ shft" for x
      unfolding pb' using within_shift [of ?n "unat ?cnt * 2 ^ shft" ptr x] D(7) sp by simp
    have "\<exists>mt' m'. edd_loop intcall pkt xfer False buf ?disk m2 ?ptr ?lba ?cnt (dn + q) mt1 = Some (?disk\<lparr>maxtransfer := mt'\<rparr>, m', dn + q + ?cnt) \<and>
      1 \<le> unat mt' \<and> unat mt' \<le> K \<and> binv (bios m') \<and> mem_read (mem m') ?ptr (unat ?cnt * 2 ^ shft) = sectors_from dsk ?lba (unat ?cnt) \<and>
      (\<forall>x. \<not> within ?ptr (unat ?cnt * 2 ^ shft) x \<longrightarrow> \<not> within pkt 16 x \<longrightarrow> \<not> within xfer 65536 x \<longrightarrow> mem m' x = mem m2 x)"
    proof (rule less.hyps)
      show "unat ?cnt < unat cnt" using uc r(2,3) by linarith
      show "apart_from ?ptr (unat ?cnt * 2 ^ shft) pkt 16" "apart_from ?ptr (unat ?cnt * 2 ^ shft) xfer 65536"
        using D(8,9) unfolding apart_from_def w by (auto simp: within_def)
    qed (use D r(4) b2 ul uc r(3) sp in auto)
    then obtain mt2 m3 where i: "edd_loop intcall pkt xfer False buf ?disk m2 ?ptr ?lba ?cnt (dn + q) mt1 = Some (disk\<lparr>maxtransfer := mt2\<rparr>, m3, dn + cnt)"
      "1 \<le> unat mt2 \<and> unat mt2 \<le> K" "binv (bios m3)" "mem_read (mem m3) ?ptr (unat ?cnt * 2 ^ shft) = sectors_from dsk ?lba (unat ?cnt)"
      "\<forall>x. \<not> within ?ptr (unat ?cnt * 2 ^ shft) x \<longrightarrow> \<not> within pkt 16 x \<longrightarrow> \<not> within xfer 65536 x \<longrightarrow> mem m3 x = mem m2 x" by auto
    have step: "edd_loop intcall pkt xfer False buf disk m ptr lba cnt dn maxt = edd_loop intcall pkt xfer False buf ?disk m2 ?ptr ?lba ?cnt (dn + q) mt1"
    proof -
      obtain a fsg where p: "tf = (a, fsg)" by (cases tf)
      have c': "(if fsg < c0 then fsg else c0) = c" by (simp add: c_def p)
      have r': "edd_try intcall pkt (edd_regs disk False pkt) a lba m c maxt RETRY_COUNT = (m1, Some (q, mt1))" using r(1) p by simp
      show ?thesis
        by (subst edd_loop.simps)
          (simp only: if_not_P [OF False] D(1) Let_def tf_def [symmetric] p c0_def [symmetric] prod.case c' r' option.case m2_def fst_conv simp_thms if_False)
    qed
    have "mem_read (mem m3) ptr (unat cnt * 2 ^ shft) = sectors_from dsk lba (unat cnt)"
    proof -
      have "mem_read (mem m3) ptr ?n = mem_read (mem m2) ptr ?n"
      proof (rule mem_read_cong)
        fix x assume x: "within ptr ?n x"
        then have "within ptr (unat cnt * 2 ^ shft) x" using qn unfolding within_def by linarith
        then have "\<not> within pkt 16 x" "\<not> within xfer 65536 x" using D(8,9) by (auto simp: apart_from_def)
        moreover have "\<not> within ?ptr (unat ?cnt * 2 ^ shft) x" unfolding w using x by (simp add: within_def)
        ultimately show "mem m3 x = mem m2 x" using i(5) by blast
      qed (use r(6) in simp)
      moreover have "mem_read (mem m3) ptr (unat cnt * 2 ^ shft) = mem_read (mem m3) ptr ?n @ mem_read (mem m3) ?ptr (unat ?cnt * 2 ^ shft)"
        unfolding sp pb' by (rule mem_read_split)
      moreover have "sectors_from dsk lba (unat cnt) = sectors_from dsk lba ?q @ sectors_from dsk ?lba (unat ?cnt)"
        using sectors_from_split [of dsk lba ?q "unat ?cnt"] uc r(3) by simp
      ultimately show ?thesis using rd i(4) by simp
    qed
    moreover have "mem m3 x = mem m x" if x: "\<not> within ptr (unat cnt * 2 ^ shft) x" "\<not> within pkt 16 x" "\<not> within xfer 65536 x" for x
    proof -
      have "\<not> within ?ptr (unat ?cnt * 2 ^ shft) x" unfolding w using x(1) by (simp add: within_def)
      then show ?thesis using i(5) x fr [OF x] by simp
    qed
    ultimately show ?thesis using step i(1-3) by auto
  qed
qed

end


text \<open>C10. Reading through an EDD BIOS: \<open>edd_rdwr_sectors\<close> delivers all sectors asked for at \<open>buf\<close>, for any place of the buffer and
  even when the BIOS refuses every transfer of more than one sector: the loop halves the size until
  the transfer works, and remembers the size.  The packet is filled for every try, since a failed call may have changed it.  Besides the buffer only the packet and the transfer buffer change in memory.
  It returns the number of sectors.\<close>

theorem edd_reads_sectors:
  assumes B: "edd_bios intcall drive shft dsk tot binv"
    and low: "unat pkt < 2 ^ 20" "unat xfer < 2 ^ 20" "unat xfer mod 65536 + 2 ^ shft \<le> 65536"
    and disk: "disk_sector_shift disk = shft" "ucast (disk_number disk) = drive" "1 \<le> unat (maxtransfer disk)" "unat (maxtransfer disk) \<le> 127"
    and m: "binv (bios m)" and lba: "unat lba + unat (part_start disk) + unat cnt \<le> tot"
    and buf: "unat cnt * 2 ^ shft \<le> 2 ^ 32" "apart_from buf (unat cnt * 2 ^ shft) pkt 16" "apart_from buf (unat cnt * 2 ^ shft) xfer 65536"
  shows "\<exists>mt m'. edd_rdwr_sectors intcall pkt xfer disk m buf lba cnt False = Some (disk\<lparr>maxtransfer := mt\<rparr>, m', cnt) \<and>
    1 \<le> unat mt \<and> unat mt \<le> 127 \<and> binv (bios m') \<and>
    mem_read (mem m') buf (unat cnt * 2 ^ shft) = sectors_from dsk (lba + part_start disk) (unat cnt) \<and>
    (\<forall>x. \<not> within buf (unat cnt * 2 ^ shft) x \<longrightarrow> \<not> within pkt 16 x \<longrightarrow> \<not> within xfer 65536 x \<longrightarrow> mem m' x = mem m x)"
proof -
  have "unat (lba + part_start disk) = unat lba + unat (part_start disk)"
    using lba edd_bios.total [OF B] by (subst unat_add_no_wrap) simp_all
  then show ?thesis
    using edd_bios.edd_loop_ok [OF B low _ disk(1,2) _ m _ _ buf, of 127 "lba + part_start disk" "maxtransfer disk" buf 0] disk(3,4) lba
    unfolding edd_rdwr_sectors_def by simp
qed


section \<open>The disk as a block device\<close>

text \<open>
  A read as the cache sees it: the bytes that arrive at the data pointer of the slot.  The model of the cache does not hand that pointer to the
  disk, so the pointers of a run are a sequence \<open>bufs\<close>, the \<open>k\<close>-th transfer going to \<open>bufs k\<close>; the count of transfers is part of the state.
  What is proved holds for every sequence, and so for the pointers of the slots that the run fills.
\<close>

definition disk_read ::
  "'b intcall \<Rightarrow> u32 \<Rightarrow> u32 \<Rightarrow> (nat \<Rightarrow> u32) \<Rightarrow> (disk \<times> 'b machine) \<times> nat \<Rightarrow> u64 \<Rightarrow> u32 \<Rightarrow> ((disk \<times> 'b machine) \<times> nat) \<times> bytes" where
  "disk_read intcall pkt xfer bufs = (\<lambda>((disk, m), k) lba n.
     case disk_rdwr intcall pkt xfer disk m (bufs k) lba n False of
       Some (disk', m', dn) \<Rightarrow> (((disk', m'), Suc k), mem_read (mem m') (bufs k) (unat dn * 2 ^ disk_sector_shift disk))
     | None \<Rightarrow> (((disk, m), k), []))"

text \<open>The cache calls the disk through \<open>getoneblk\<close> only, always for the same number of sectors.\<close>

lemma lru_touch_keeps_size:
  assumes "lru_touch dev head cs = Some dev'"
  shows "cache_block_size dev' = cache_block_size dev"
proof -
  have "put_next d p v = Some d' \<Longrightarrow> cache_block_size d' = cache_block_size d" "put_prev d p v = Some d' \<Longrightarrow> cache_block_size d' = cache_block_size d"
    for d d' :: "'a device" and p v by (auto simp: put_next_def put_prev_def split: if_splits)
  then show ?thesis using assms by (auto simp: lru_touch_def split: if_splits Option.bind_splits)
qed

lemma get_cache_keeps_size: "get_cache rdwr secsz dev b = Some (dev', q) \<Longrightarrow> cache_block_size dev' = cache_block_size dev"
  by (auto simp: get_cache_def get_cache_block_def put_block_def Let_def dest!: lru_touch_keeps_size split: if_splits Option.bind_splits prod.splits)

lemma get_cache_cong:
  assumes "\<And>d l. rdwr d l (ucast (cache_block_size dev) div secsz) = rdwr' d l (ucast (cache_block_size dev) div secsz)"
  shows "get_cache rdwr secsz dev b = get_cache rdwr' secsz dev b"
proof (cases "get_cache_block dev b")
  case (Some ce)
  obtain cs dev1 where ce: "ce = (cs, dev1)" by fastforce
  have "cache_block_size dev1 = cache_block_size dev"
    using Some unfolding ce get_cache_block_def by (auto dest!: lru_touch_keeps_size split: Option.bind_splits)
  then have "cache_block_size dev2 = cache_block_size dev" if "put_block dev1 cs b = Some dev2" for dev2
    using that by (auto simp: put_block_def split: if_splits)
  then have "getoneblk rdwr secsz (dev_disk dev2) b (cache_block_size dev2) = getoneblk rdwr' secsz (dev_disk dev2) b (cache_block_size dev2)"
    if "put_block dev1 cs b = Some dev2" for dev2
    using that assms by (simp add: getoneblk_def Let_def)
  then show ?thesis by (auto simp: get_cache_def Some ce split: Option.bind_splits)
qed (simp add: get_cache_def)

lemma read_blocks_cong:
  "(\<And>d l. rdwr d l (ucast (cache_block_size dev) div secsz) = rdwr' d l (ucast (cache_block_size dev) div secsz)) \<Longrightarrow>
    read_blocks rdwr secsz dev bs = read_blocks rdwr' secsz dev bs"
proof (induction bs arbitrary: dev)
  case (Cons b bs)
  have e: "read_block rdwr secsz dev b = read_block rdwr' secsz dev b" using get_cache_cong [of rdwr dev secsz rdwr' b] Cons.prems by (simp add: read_block_def)
  show ?case
  proof (cases "read_block rdwr' secsz dev b")
    case (Some dx)
    obtain dev1 x where dx: "dx = (dev1, x)" by fastforce
    have "cache_block_size dev1 = cache_block_size dev"
      using Some unfolding dx read_block_def by (auto dest!: get_cache_keeps_size split: Option.bind_splits)
    then have "read_blocks rdwr secsz dev1 bs = read_blocks rdwr' secsz dev1 bs" using Cons.prems by (intro Cons.IH) simp
    then show ?thesis by (simp add: e Some dx)
  qed (simp add: e)
qed simp

definition disk_ready :: "u8 \<Rightarrow> nat \<Rightarrow> u64 \<Rightarrow> disk \<Rightarrow> bool" where
  "disk_ready drive shft part disk \<longleftrightarrow> rdwr_sectors disk = EDD \<and> disk_sector_shift disk = shft \<and> ucast (disk_number disk) = drive \<and>
     part_start disk = part \<and> 1 \<le> unat (maxtransfer disk) \<and> unat (maxtransfer disk) \<le> 127"

text \<open>A partition, and buffers for \<open>spb\<close> sectors each that are apart from the packet and the transfer buffer.\<close>

locale edd_volume = edd_bios +
  fixes pkt xfer :: u32 and bufs :: "nat \<Rightarrow> u32" and part :: u64 and nsec :: nat and spb :: u32
  assumes low: "unat pkt < 2 ^ 20" "unat xfer < 2 ^ 20" "unat xfer mod 65536 + 2 ^ shft \<le> 65536"
    and vol: "unat part + nsec \<le> total" and block: "unat spb * 2 ^ shft \<le> 2 ^ 32"
    and apart: "apart_from (bufs k) (unat spb * 2 ^ shft) pkt 16" "apart_from (bufs k) (unat spb * 2 ^ shft) xfer 65536"
begin

definition disk_inv :: "(disk \<times> 'a machine) \<times> nat \<Rightarrow> bool" where
  "disk_inv d \<longleftrightarrow> disk_ready drive shft part (fst (fst d)) \<and> binv (bios (snd (fst d)))"

lemma read_volume:
  assumes d: "disk_inv ((disk, m), k)" and r: "unat lba + unat spb \<le> nsec"
  shows "\<exists>d'. disk_read intcall pkt xfer bufs ((disk, m), k) lba spb = (d', sectors_from dsk (lba + part) (unat spb)) \<and> disk_inv d'"
proof -
  have D: "disk_sector_shift disk = shft" "ucast (disk_number disk) = drive" "1 \<le> unat (maxtransfer disk)" "unat (maxtransfer disk) \<le> 127"
    "rdwr_sectors disk = EDD" "part_start disk = part" "binv (bios m)" using d by (simp_all add: disk_inv_def disk_ready_def)
  have u: "unat (lba + part) = unat lba + unat part" using r vol(1) total by (subst unat_add_no_wrap) simp_all
  have t: "unat (lba + part) + unat spb \<le> total" using u r vol(1) by simp
  obtain mt m' where "edd_loop intcall pkt xfer False (bufs k) disk m (bufs k) (lba + part) spb 0 (maxtransfer disk) = Some (disk\<lparr>maxtransfer := mt\<rparr>, m', 0 + spb)"
    "1 \<le> unat mt" "unat mt \<le> 127" "binv (bios m')" "mem_read (mem m') (bufs k) (unat spb * 2 ^ shft) = sectors_from dsk (lba + part) (unat spb)"
    using edd_loop_ok [OF low _ D(1,2) _ D(7) t _ block apart [of k], of 127 "maxtransfer disk" "bufs k" 0] D(3,4) by auto
  then show ?thesis using D
    by (simp add: disk_read_def disk_rdwr_def edd_rdwr_sectors_def disk_inv_def disk_ready_def)
qed

lemma unat_sector_size: "unat (of_nat (2 ^ shft) :: u32) = 2 ^ shft"
proof (rule unat_of_nat_small)
  have "(2 :: nat) ^ shft \<le> 2 ^ 15" using shft(2) by (intro power_increasing) simp_all
  then show "(2 :: nat) ^ shft < 2 ^ LENGTH(32)" by simp
qed

text \<open>The disk as a block device of any transfer size: \<open>disk_read\<close> for blocks, and the sectors themselves for sizes that the cache does not ask for.\<close>

definition block_read :: "(disk \<times> 'a machine) \<times> nat \<Rightarrow> u64 \<Rightarrow> u32 \<Rightarrow> ((disk \<times> 'a machine) \<times> nat) \<times> bytes" where
  "block_read d lba n = (if n = spb then disk_read intcall pkt xfer bufs d lba n else (d, sectors_from dsk (lba + part) (unat n)))"

end

sublocale edd_volume \<subseteq> dev: block_device block_read "of_nat (2 ^ shft)" nsec disk_inv "\<lambda>l. dsk (l + part)"
proof unfold_locales
  show "0 < unat (of_nat (2 ^ shft) :: u32)" unfolding unat_sector_size by simp
  show "length (dsk (sn + part)) = unat (of_nat (2 ^ shft) :: u32)" for sn unfolding unat_sector_size by (rule dsk_length)
  fix d :: "(disk \<times> 'a machine) \<times> nat" and lba :: u64 and n :: u32
  assume a: "disk_inv d" "unat lba + unat n \<le> nsec"
  obtain disk m k where d: "d = ((disk, m), k)" by (metis surj_pair)
  obtain d' where r: "block_read d lba n = (d', sectors_from dsk (lba + part) (unat n))" "disk_inv d'"
    using read_volume [of disk m k lba] a unfolding d by (cases "n = spb") (auto simp: block_read_def)
  show "snd (block_read d lba n) = concat (map (\<lambda>i. dsk (lba + of_nat i + part)) [0..<unat n])"
    unfolding r(1) by (simp add: sectors_from_def add.assoc add.commute [of part])
  show "disk_inv (fst (block_read d lba n))" unfolding r(1) using r(2) by simp
qed

context edd_volume begin

lemma volume_device: "block_device block_read (of_nat (2 ^ shft)) nsec disk_inv (\<lambda>l. dsk (l + part))"
  by (rule dev.block_device_axioms)

lemma read_blocks_volume:
  "ucast (cache_block_size dev) div of_nat (2 ^ shft) = spb \<Longrightarrow>
    read_blocks (disk_read intcall pkt xfer bufs) (of_nat (2 ^ shft)) dev bs = read_blocks block_read (of_nat (2 ^ shft)) dev bs"
  by (rule read_blocks_cong) (simp add: block_read_def)

end

section \<open>A BIOS to try it on\<close>

text \<open>It reads packets from memory, and refuses transfers of more than \<open>lim\<close> sectors of 512 bytes; then it stores 0 in the count field of the packet.\<close>

definition le64_of :: "bytes \<Rightarrow> u64" where
  "le64_of b = ucast (le32_of (b ! 0) (b ! 1) (b ! 2) (b ! 3)) + push_bit 32 (ucast (le32_of (b ! 4) (b ! 5) (b ! 6) (b ! 7)))"

definition ram_bios :: "(u64 \<Rightarrow> bytes) \<Rightarrow> nat \<Rightarrow> unit intcall" where
  "ram_bios dsk lim i r m =
     (if b1 (r_eax r) = 0x42
      then let p = mem_read (mem m) (MK_PTR (r_ds r) (w0 (r_esi r))) 16;
               c = le16_of (p ! 2) (p ! 3);
               a = MK_PTR (le16_of (p ! 6) (p ! 7)) (le16_of (p ! 4) (p ! 5))
           in if unat c \<le> lim then (poke a (sectors_from dsk (le64_of (drop 8 p)) (unat c)) m, r\<lparr>r_eflags := 0\<rparr>)
              else (poke (MK_PTR (r_ds r) (w0 (r_esi r)) + 2) (le16 0) m, r\<lparr>r_eflags := 1\<rparr>)
      else (m, r))"

lemma byte_of: "unat (ucast (drop_bit k w) :: u8) = unat (w :: 'a :: len word) div 2 ^ k mod 256"
  by (simp only: unat_ucast_mod unat_drop_bit) simp

lemma le16_of_le16: "le16_of (le16 w ! 0) (le16 w ! 1) = w"
proof -
  have "unat (ucast w :: u8) = unat w mod 256" using byte_of [of 0 w] by simp
  moreover have "unat (ucast (drop_bit 8 w) :: u8) = unat w div 256 mod 256" using byte_of [of 8 w] by simp
  moreover have "unat w div 256 < 256" using unat_u16_lt [of w] by (simp add: div_less_iff_less_mult)
  ultimately have "unat (le16_of (le16 w ! 0) (le16 w ! 1)) = unat w" by (simp add: le16_def unat_le16_of)
  then show ?thesis by (simp only: word_unat_eq_iff)
qed

lemma horner8:
  assumes "n0 = r0 + 256 * n1" "n1 = r1 + 256 * n2" "n2 = r2 + 256 * n3" "n3 = r3 + 256 * n4" "n4 = r4 + 256 * n5" "n5 = r5 + 256 * n6"
    "n6 = r6 + 256 * r7"
  shows "n0 = r0 + 256 * r1 + 65536 * r2 + 16777216 * r3 + 4294967296 * (r4 + 256 * r5 + 65536 * r6 + 16777216 * (r7 :: nat))"
  using assms by simp

lemma div_step: "(n :: nat) div 2 ^ k = n div 2 ^ k mod 256 + 256 * (n div 2 ^ (k + 8))"
  by (simp add: power_add div_mult2_eq)

lemma le64_of_le64: "le64_of (le64 w) = w"
proof -
  define n where "n = unat w"
  define r where "r i = n div 2 ^ (8 * i) mod 256" for i
  have b: "unat (le64 w ! i) = r i" if "i < 8" for i using that byte_of [of "8 * i" w] by (simp add: le64_def r_def n_def)
  define lo hi where "lo = le32_of (le64 w ! 0) (le64 w ! 1) (le64 w ! 2) (le64 w ! 3)"
    and "hi = le32_of (le64 w ! 4) (le64 w ! 5) (le64 w ! 6) (le64 w ! 7)"
  have n: "n < 18446744073709551616" using unat_u64_lt [of w] by (simp add: n_def)
  have st: "n div 2 ^ (8 * i) = r i + 256 * (n div 2 ^ (8 * j))" if "j = Suc i" for i j
    unfolding r_def that using div_step [of n "8 * i"] by (simp add: add.commute)
  have "n div 2 ^ 56 < 256" using n by (simp add: div_less_iff_less_mult)
  then have top: "n div 2 ^ (8 * 7) = r 7" by (simp add: r_def)
  have f: "n div 2 ^ (8 * 0) = r 0 + 256 * r 1 + 65536 * r 2 + 16777216 * r 3 + 4294967296 * (r 4 + 256 * r 5 + 65536 * r 6 + 16777216 * r 7)"
  proof (rule horner8)
    show "n div 2 ^ (8 * 0) = r 0 + 256 * (n div 2 ^ (8 * 1))" by (rule st) simp
    show "n div 2 ^ (8 * 1) = r 1 + 256 * (n div 2 ^ (8 * 2))" by (rule st) simp
    show "n div 2 ^ (8 * 2) = r 2 + 256 * (n div 2 ^ (8 * 3))" by (rule st) simp
    show "n div 2 ^ (8 * 3) = r 3 + 256 * (n div 2 ^ (8 * 4))" by (rule st) simp
    show "n div 2 ^ (8 * 4) = r 4 + 256 * (n div 2 ^ (8 * 5))" by (rule st) simp
    show "n div 2 ^ (8 * 5) = r 5 + 256 * (n div 2 ^ (8 * 6))" by (rule st) simp
    show "n div 2 ^ (8 * 6) = r 6 + 256 * r 7" using st [of 7 6] top by simp
  qed
  have lov: "unat lo = r 0 + 256 * r 1 + 65536 * r 2 + 16777216 * r 3" unfolding lo_def unat_le32_of using b by simp
  have hiv: "unat hi = r 4 + 256 * r 5 + 65536 * r 6 + 16777216 * r 7" unfolding hi_def unat_le32_of using b by simp
  have s: "n = unat lo + 4294967296 * unat hi" unfolding lov hiv using f by simp
  have up: "unat (ucast x :: u64) = unat x" for x :: u32 by (simp add: unat_ucast_up)
  note l = up [of lo]
  have h: "unat (push_bit 32 (ucast hi :: u64)) = 4294967296 * unat hi"
    using unat_u32_lt [of hi] up [of hi] by (simp add: unat_push_bit)
  have "unat (ucast lo + push_bit 32 (ucast hi) :: u64) = unat w"
    by (subst unat_add_no_wrap) (use s l h n in \<open>simp_all add: n_def\<close>)
  then show ?thesis
    unfolding le64_of_def lo_def [symmetric] hi_def [symmetric] by (simp only: word_unat_eq_iff)
qed


lemma apart_intervals:
  assumes "unat a + n \<le> unat b \<or> unat b + k \<le> unat a" "unat a + n \<le> 2 ^ 32" "unat b + k \<le> 2 ^ 32"
  shows "apart_from a n b k"
proof -
  have w: "unat (x - c) = (if unat c \<le> unat x then unat x - unat c else unat x + 4294967296 - unat c)" for x c :: u32
    by (simp add: unat_sub_if')
  show ?thesis
    unfolding apart_from_def within_def
  proof (intro allI notI)
    fix x assume "unat (x - a) < n \<and> unat (x - b) < k"
    then show False using assms unfolding w by (auto split: if_splits)
  qed
qed

definition padded :: "(u64 \<Rightarrow> bytes) \<Rightarrow> u64 \<Rightarrow> bytes" where
  "padded dsk l = take 512 (dsk l @ replicate 512 0)"

lemma ram_bios_packet:
  assumes "b1 (r_eax r) = 0x42" "mem_read (mem m) (MK_PTR (r_ds r) (w0 (r_esi r))) 16 = le16 16 @ le16 c @ le16 (OFFS a) @ le16 (SEG a) @ le64 l"
    "unat a < 2 ^ 20"
  shows "ram_bios dsk lim i r m = (if unat c \<le> lim then (poke a (sectors_from dsk l (unat c)) m, r\<lparr>r_eflags := 0\<rparr>)
    else (poke (MK_PTR (r_ds r) (w0 (r_esi r)) + 2) (le16 0) m, r\<lparr>r_eflags := 1\<rparr>))"
proof -
  let ?p = "le16 16 @ le16 c @ le16 (OFFS a) @ le16 (SEG a) @ le64 l"
  have l: "length (le16 w) = 2" for w by (simp add: le16_def)
  have "le16_of (?p ! 2) (?p ! 3) = c" using le16_of_le16 [of c] by (simp add: nth_append l)
  moreover have "le16_of (?p ! 4) (?p ! 5) = OFFS a" using le16_of_le16 [of "OFFS a"] by (simp add: nth_append l)
  moreover have "le16_of (?p ! 6) (?p ! 7) = SEG a" using le16_of_le16 [of "SEG a"] by (simp add: nth_append l)
  moreover have "le64_of (drop 8 ?p) = l" using le64_of_le64 [of l] by (simp add: l)
  ultimately show ?thesis unfolding ram_bios_def Let_def assms(2) using assms(1) far_ptr [OF assms(3)] by simp
qed

interpretation ram: edd_bios "ram_bios (padded dsk) (Suc lim)" drive 9 "padded dsk" "2 ^ 63" "\<lambda>_. True"
proof unfold_locales
  show len: "length (padded dsk l) = 2 ^ 9" for l by (simp add: padded_def)
  have n: "length (sectors_from (padded dsk) l n) = n * 2 ^ 9" for l n
    by (simp add: sectors_from_def length_concat comp_def len sum_list_triv)
  have carry: "\<not> carry (r\<lparr>r_eflags := 0\<rparr>)" "carry (r\<lparr>r_eflags := 1\<rparr>)" for r by (simp_all add: carry_def EFLAGS_CF_def)
  fix m :: "unit machine" and r :: com32sys and c a l
  assume p: "b1 (r_eax r) = 0x42"
    "mem_read (mem m) (MK_PTR (r_ds r) (w0 (r_esi r))) 16 = le16 16 @ le16 c @ le16 (OFFS a) @ le16 (SEG a) @ le64 l" "unat a < 2 ^ 20"
  assume a: "unat a mod 65536 + unat c * 2 ^ 9 \<le> 65536"
  let ?p = "MK_PTR (r_ds r) (w0 (r_esi r))"
  show "\<exists>m' o'. ram_bios (padded dsk) (Suc lim) 19 r m = (m', o') \<and> True \<and>
      (\<forall>x. \<not> within ?p 16 x \<longrightarrow> \<not> within a (unat c * 2 ^ 9) x \<longrightarrow> mem m' x = mem m x) \<and>
      (\<not> carry o' \<longrightarrow> mem_read (mem m') a (unat c * 2 ^ 9) = sectors_from (padded dsk) l (unat c)) \<and> (c = 1 \<longrightarrow> \<not> carry o')"
  proof (cases "unat c \<le> Suc lim")
    case True
    have "mem_read (mem_write (mem m) a (sectors_from (padded dsk) l (unat c))) a (unat c * 2 ^ 9) = sectors_from (padded dsk) l (unat c)"
      by (rule mem_read_write) (use n a in simp_all)
    then show ?thesis unfolding ram_bios_packet [OF p] using True by (simp add: poke_def carry mem_write_at n)
  next
    case False
    have "within ?p 16 x" if "within (?p + 2) (Suc (Suc 0)) x" for x
    proof -
      have "within (?p + of_nat 2) 2 x \<longleftrightarrow> 2 \<le> unat (x - ?p) \<and> unat (x - ?p) < 2 + 2" by (rule within_shift) simp
      then show ?thesis using that by (simp add: within_def numeral_2_eq_2)
    qed
    then show ?thesis unfolding ram_bios_packet [OF p] using False by (auto simp: poke_def carry mem_write_at le16_def)
  qed
qed (simp_all add: ram_bios_def zero_regs_def b1_def)


interpretation ram_volume: edd_volume "ram_bios (padded dsk) (Suc lim)" drive 9 "padded dsk" "2 ^ 63" "\<lambda>_. True" "0x8000" "0x10000"
    "\<lambda>k. 0x200000 + of_nat (1024 * (k mod 64))" 63 100 2
proof unfold_locales
  fix k :: nat
  have k: "k mod 64 < 64" by simp
  define j where "j = 1024 * (k mod 64)"
  have j: "j < 65536" using k by (simp add: j_def)
  have "unat (of_nat j :: u32) = j" using j by (intro unat_of_nat_small) simp
  then have "unat (0x200000 + of_nat j :: u32) = 0x200000 + j" using j by (subst unat_add_no_wrap) simp_all
  then show "apart_from (0x200000 + of_nat (1024 * (k mod 64))) (unat (2 :: u32) * 2 ^ 9) 0x8000 16"
    "apart_from (0x200000 + of_nat (1024 * (k mod 64))) (unat (2 :: u32) * 2 ^ 9) 0x10000 65536"
    using j unfolding j_def [symmetric] by (auto intro!: apart_intervals)
qed simp_all

definition demo_disk :: disk where
  "demo_disk = \<lparr>disk_number = 0x80, disk_sector_size = 512, disk_sector_shift = 9, maxtransfer = 127, disk_h = 16, disk_s = 63,
     secpercyl = 1008, part_start = 63, rdwr_sectors = EDD\<rparr>"

definition demo_machine :: "unit machine" where
  "demo_machine = \<lparr>mem = (\<lambda>_. 0), bios = ()\<rparr>"

theorem edd_reads_sectors_witness:
  "\<exists>mt m'. edd_rdwr_sectors (ram_bios (padded demo_sector) 4) 0x8000 0x10000 demo_disk demo_machine 0x200000 3 10 False =
       Some (demo_disk\<lparr>maxtransfer := mt\<rparr>, m', 10) \<and>
     mem_read (mem m') 0x200000 5120 = sectors_from (padded demo_sector) 66 10 \<and> mem m' 0x300000 = 0"
proof -
  have "\<exists>mt m'. edd_rdwr_sectors (ram_bios (padded demo_sector) (Suc 3)) 0x8000 0x10000 demo_disk demo_machine 0x200000 3 10 False =
       Some (demo_disk\<lparr>maxtransfer := mt\<rparr>, m', 10) \<and> 1 \<le> unat mt \<and> unat mt \<le> 127 \<and> True \<and>
    mem_read (mem m') 0x200000 (unat (10 :: u32) * 2 ^ 9) = sectors_from (padded demo_sector) (3 + part_start demo_disk) (unat (10 :: u32)) \<and>
    (\<forall>x. \<not> within 0x200000 (unat (10 :: u32) * 2 ^ 9) x \<longrightarrow> \<not> within 0x8000 16 x \<longrightarrow> \<not> within 0x10000 65536 x \<longrightarrow> mem m' x = mem demo_machine x)"
    by (rule edd_reads_sectors [OF ram.edd_bios_axioms]) (simp_all add: demo_disk_def apart_intervals)
  then obtain mt m' where r: "edd_rdwr_sectors (ram_bios (padded demo_sector) (Suc 3)) 0x8000 0x10000 demo_disk demo_machine 0x200000 3 10 False =
       Some (demo_disk\<lparr>maxtransfer := mt\<rparr>, m', 10)" "mem_read (mem m') 0x200000 5120 = sectors_from (padded demo_sector) 66 10"
      "\<forall>x. \<not> within 0x200000 5120 x \<longrightarrow> \<not> within 0x8000 16 x \<longrightarrow> \<not> within 0x10000 65536 x \<longrightarrow> mem m' x = mem demo_machine x"
    by (elim exE conjE) (simp add: demo_disk_def)
  have "mem m' 0x300000 = 0" using r(3) by (simp add: within_def demo_machine_def)
  then show ?thesis using r(1,2) by (intro exI conjI) simp_all
qed


section \<open>What \<open>disk_init\<close> sets up\<close>

lemma nat_power_of_2: "0 < n \<Longrightarrow> n AND (n - 1) = 0 \<Longrightarrow> \<exists>k. n = 2 ^ k" for n :: nat
proof (induction n rule: less_induct)
  case (less n)
  show ?case
  proof (cases "even n")
    case True
    then obtain m where m: "n = 2 * m" by blast
    then have p: "0 < m" using less.prems(1) by simp
    then have "n - 1 = Suc (2 * (m - 1))" using m by simp
    then have "(m AND (m - 1)) = 0" using less.prems(2) and_nat_rec [of n "n - 1"] m by simp
    then obtain k where "m = 2 ^ k" using less.IH [of m] p m by auto
    then show ?thesis using m by (intro exI [of _ "Suc k"]) simp
  next
    case False
    then obtain m where m: "n = Suc (2 * m)" by (auto elim: oddE)
    then have "m AND m = 0" using less.prems(2) and_nat_rec [of n "n - 1"] by simp
    then show ?thesis using m by (intro exI [of _ 0]) simp
  qed
qed

lemma is_power_of_2_power:
  assumes "is_power_of_2 x" "x \<noteq> 0"
  obtains k where "unat x = 2 ^ k"
proof -
  have p: "0 < unat x" using assms(2) by (simp add: unat_gt_0)
  then have "unat (x - 1) = unat x - 1" by (subst unat_sub_no_wrap) (simp_all add: word_le_nat_alt)
  moreover have "unat x AND unat (x - 1) = 0" using assms(1) by (simp add: is_power_of_2_def flip: unsigned_and_eq)
  ultimately show ?thesis using nat_power_of_2 [of "unat x"] p that by auto
qed

definition sector_size_ok :: "u32 \<Rightarrow> bool" where
  "sector_size_ok sz \<longleftrightarrow> (\<exists>k. 9 \<le> k \<and> k \<le> 15 \<and> unat sz = 2 ^ k)"

lemma sector_size_512: "sector_size_ok 512" and sector_size_2048: "sector_size_ok 2048"
  unfolding sector_size_ok_def by (rule exI [of _ 9], simp) (rule exI [of _ 11], simp)

lemma sector_size_range:
  assumes "512 \<le> (ucast (w :: u16) :: u32)" "is_power_of_2 (ucast w)"
  shows "sector_size_ok (ucast w)"
proof -
  have u: "unat (ucast w :: u32) = unat w" by (simp add: unat_ucast_up)
  have "(ucast w :: u32) \<noteq> 0" using assms(1) by auto
  then obtain k where k: "unat (ucast w :: u32) = 2 ^ k" by (rule is_power_of_2_power [OF assms(2)])
  have "(2 :: nat) ^ 9 \<le> 2 ^ k" using assms(1) k by (simp add: word_le_nat_alt)
  moreover have "(2 :: nat) ^ k < 2 ^ 16" using k u unat_u16_lt [of w] by simp
  ultimately have "9 \<le> k" "k < 16"
    using power_increasing_iff [of "2 :: nat" 9 k] power_strict_increasing_iff [of "2 :: nat" k 16] by linarith+
  then show ?thesis using k by (auto simp: sector_size_ok_def intro!: exI [of _ k])
qed

lemma edd_sector_size_ok: "sector_size_ok (snd (edd_sector_size intcall params ireg m))"
  by (auto simp: edd_sector_size_def Let_def sector_size_512 sector_size_range split: prod.split)


text \<open>C30. \<open>disk_init\<close> always gives a well-formed disk, whatever the BIOS answers: \<open>ilog2\<close> finds the shift of a sector size between 512 and
  32K, the transfer limit is between 1 and the limit of the access method (32 for a CD-ROM, 63 for CHS, 127 for EDD) and
  not above the one asked for, CHS goes with sectors of 512 bytes, and CD-ROMs use EDD with 2048.\<close>

theorem disk_init_well_formed:
  "\<exists>m' disk. disk_init intcall params disk0 devno cdrom part bsHeads bsSecPerTrack MaxTransfer m = Some (m', disk) \<and>
     disk_sector_shift disk \<in> {9..15} \<and> unat (disk_sector_size disk) = 2 ^ disk_sector_shift disk \<and>
     unat (maxtransfer disk) \<in> {1..(if cdrom then 32 else if rdwr_sectors disk = CHS then 63 else 127)} \<and>
     unat (maxtransfer disk) \<le> (if MaxTransfer = 0 then 127 else unat MaxTransfer) \<and>
     (if cdrom then rdwr_sectors disk = EDD \<and> disk_sector_size disk = 2048
      else if rdwr_sectors disk = CHS then disk_sector_size disk = 512 else sector_size_ok (disk_sector_size disk)) \<and>
     disk_number disk = ucast devno \<and> part_start disk = part \<and> secpercyl disk = disk_h disk * disk_s disk"
proof -
  have lim: "unat (if MaxTransfer = 0 \<or> n < MaxTransfer then n else MaxTransfer) \<in> {1..unat n}"
      "unat (if MaxTransfer = 0 \<or> n < MaxTransfer then n else MaxTransfer) \<le> (if MaxTransfer = 0 then unat n else unat MaxTransfer)"
    if "n \<noteq> 0" for n :: u32
    using that by (auto simp: word_less_nat_alt word_le_nat_alt not_less unat_gt_0 Suc_le_eq)
  have i: "ilog2 512 = Some 9" "ilog2 2048 = Some 11" by (rule ilog2_power; simp)+
  show ?thesis
  proof (cases cdrom)
    case True
    then show ?thesis using lim [of 32] by (auto simp: disk_init_def i)
  next
    case False
    obtain m1 r1 h s where g: "bios_geometry intcall devno (zero_regs\<lparr>r_edx := set_b0 0 devno\<rparr>) (ucast bsHeads) (ucast bsSecPerTrack) m = (m1, r1, h, s)"
      by (cases "bios_geometry intcall devno (zero_regs\<lparr>r_edx := set_b0 0 devno\<rparr>) (ucast bsHeads) (ucast bsSecPerTrack) m") auto
    define r2 where "r2 = r1\<lparr>r_eax := set_b1 (r_eax r1) 0x41, r_ebx := set_w0 (r_ebx r1) 0x55aa, r_eflags := set_b0 (r_eflags r1) 3\<rparr>"
    obtain m2 o2 where c: "intcall 0x13 r2 m1 = (m2, o2)" by (cases "intcall 0x13 r2 m1") auto
    obtain m3 sz where z: "edd_sector_size intcall params r2 m2 = (m3, sz)" by (cases "edd_sector_size intcall params r2 m2") auto
    have ok: "sector_size_ok sz" using edd_sector_size_ok [of intcall params r2 m2] z by simp
    then obtain k where k: "9 \<le> k" "k \<le> 15" "unat sz = 2 ^ k" by (auto simp: sector_size_ok_def)
    then have l: "ilog2 sz = Some k" by (intro ilog2_power) simp_all
    show ?thesis
      using False g c z l k ok lim [of 63] lim [of 127] i
      by (cases "\<not> carry o2 \<and> w0 (r_ebx o2) = 0xaa55 \<and> b0 (r_ecx o2) AND 1 \<noteq> 0")
        (simp_all add: disk_init_def Let_def flip: r2_def, auto)
  qed
qed


lemma sectors_per_block:
  assumes "9 \<le> shft" "shft \<le> s" "s \<le> 15"
  shows "ucast (of_nat (2 ^ s) :: u16) div of_nat (2 ^ shft) = (of_nat (2 ^ (s - shft)) :: u32)"
proof -
  have p: "(2 :: nat) ^ k \<le> 2 ^ 15" if "k \<le> s" for k using that assms(3) by (intro power_increasing) simp_all
  have "unat (of_nat (2 ^ s) :: u16) = 2 ^ s" "unat (of_nat (2 ^ shft) :: u32) = 2 ^ shft" "unat (of_nat (2 ^ (s - shft)) :: u32) = 2 ^ (s - shft)"
    using p [of s] p [of shft] p [of "s - shft"] assms(2) by (simp_all add: unat_of_nat_small del: of_nat_power)
  moreover have up: "unat (ucast w :: u32) = unat w" for w :: u16 by (simp add: unat_ucast_up)
  moreover have "(2 :: nat) ^ s div 2 ^ shft = 2 ^ (s - shft)" using assms(2) by (simp add: power_diff)
  ultimately show ?thesis by (simp only: word_unat_eq_iff unat_div up)
qed

text \<open>C21. The cache over the BIOS: on a disk set up for EDD, with the cache just initialised, every run of cached reads inside the partition
  gives the sectors of the partition, at the place \<open>part\<close> on the disk, and leaves a disk ready for more.  The transfers go to any
  buffers \<open>bufs\<close> of one cache block each that are apart from the packet and the transfer buffer, and so to the slots of a cache there.\<close>

theorem cached_edd_reads:
  assumes V: "edd_volume intcall drive shft dsk tot binv pkt xfer bufs part nsec (of_nat (2 ^ (s - shft)))"
    and d: "dev_disk dev = ((disk, m), k)" "disk_ready drive shft part disk" "binv (bios m)"
    and s: "s \<le> 15" "2 ^ s + 40 \<le> unat (cache_size dev)" "(unat (cache_size dev) - 20) div (2 ^ s + 20) < 65536" "shft \<le> s"
      "length (cache_data dev) = unat (cache_size dev)"
    and b: "\<forall>b \<in> set bs. valid_block (of_nat (2 ^ shft)) nsec (of_nat (2 ^ s)) b"
  shows "\<exists>dev'. read_blocks (disk_read intcall pkt xfer bufs) (of_nat (2 ^ shft)) (cache_init dev s) bs =
      Some (dev', map (dev_block (\<lambda>l. dsk (l + part)) (of_nat (2 ^ shft)) (of_nat (2 ^ s))) bs) \<and>
    disk_ready drive shft part (fst (fst (dev_disk dev')))"
proof -
  let ?sz = "of_nat (2 ^ shft) :: u32" and ?d = "cache_init dev s" and ?spb = "of_nat (2 ^ (s - shft)) :: u32"
  let ?content = "dev_block (\<lambda>l. dsk (l + part)) ?sz (of_nat (2 ^ s))" and ?inv = "edd_volume.disk_inv drive shft binv part"
  let ?rdwr = "edd_volume.block_read intcall dsk pkt xfer bufs part ?spb"
  note D = edd_volume.volume_device [OF V]
  have u: "unat ?sz = 2 ^ shft" by (rule edd_volume.unat_sector_size [OF V])
  then have dv: "unat ?sz dvd 2 ^ s" using s(4) by (simp add: le_imp_power_dvd)
  have i: "?inv (dev_disk dev)" using d by (simp add: edd_volume.disk_inv_def [OF V])
  have R: "cache_ready ?sz nsec ?inv (\<lambda>l. dsk (l + part)) ?content ?d [1..<Suc (n_entries ?d)]"
    by (rule block_device.cache_init_ready [OF D s(1-3,5) i dv])
  have bs: "cache_block_size ?d = of_nat (2 ^ s)" by (rule cache_init_fields(3) [OF cache_init_usable(1) [OF s(1-3)]])
  have b': "\<forall>b \<in> set bs. valid_block ?sz nsec (cache_block_size ?d) b" using b unfolding bs .
  have "9 \<le> shft" using V by (simp add: edd_volume_def edd_bios_def)
  then have "ucast (cache_block_size ?d) div ?sz = ?spb" unfolding bs by (rule sectors_per_block [OF _ s(4,1)])
  note C = edd_volume.read_blocks_volume [OF V this]
  obtain dev' ys where "read_blocks ?rdwr ?sz ?d bs = Some (dev', map ?content bs)"
    "cache_ready ?sz nsec ?inv (\<lambda>l. dsk (l + part)) ?content dev' ys"
    by (rule block_device.read_blocks_ready [OF D R b'])
  then show ?thesis unfolding C by (auto simp: cache_ready_def edd_volume.disk_inv_def [OF V])
qed

lemma demo_disk_ready: "disk_ready 0x80 9 63 demo_disk"
  by (simp add: disk_ready_def demo_disk_def)

theorem cached_edd_reads_witness:
  "\<exists>dev'. read_blocks (disk_read (ram_bios (padded demo_sector) 4) 0x8000 0x10000 (\<lambda>k. 0x200000 + of_nat (1024 * (k mod 64)))) 512
       (cache_init \<lparr>dev_disk = ((demo_disk, demo_machine), 0), cache_data = replicate 4096 0, cache_head = None, cache_nodes = [],
          cache_block_size = 0, cache_entries = 0, cache_size = 4096\<rparr> 10) [3, 4, 3] =
     Some (dev', map (dev_block (\<lambda>l. padded demo_sector (l + 63)) 512 1024) [3, 4, 3])"
proof -
  have V: "edd_volume (ram_bios (padded demo_sector) (Suc 3)) 0x80 9 (padded demo_sector) (2 ^ 63) (\<lambda>_. True) 0x8000 0x10000
      (\<lambda>k. 0x200000 + of_nat (1024 * (k mod 64))) 63 100 (of_nat (2 ^ (10 - 9)))"
    using ram_volume.edd_volume_axioms [of demo_sector 3 "0x80"] by simp
  have "\<exists>dev'. read_blocks (disk_read (ram_bios (padded demo_sector) (Suc 3)) 0x8000 0x10000 (\<lambda>k. 0x200000 + of_nat (1024 * (k mod 64)))) (of_nat (2 ^ 9))
       (cache_init \<lparr>dev_disk = ((demo_disk, demo_machine), 0), cache_data = replicate 4096 0, cache_head = None, cache_nodes = [],
          cache_block_size = 0, cache_entries = 0, cache_size = 4096\<rparr> 10) [3, 4, 3] =
     Some (dev', map (dev_block (\<lambda>l. padded demo_sector (l + 63)) (of_nat (2 ^ 9)) (of_nat (2 ^ 10))) [3, 4, 3]) \<and>
     disk_ready 0x80 9 63 (fst (fst (dev_disk dev')))"
    by (rule cached_edd_reads [OF V, where disk = demo_disk and m = demo_machine and k = 0])
      (simp_all add: demo_disk_ready valid_block_def)
  then show ?thesis by auto
qed


section \<open>CHS addresses\<close>

text \<open>How the BIOS reads cylinder, head and sector from CX and DX.\<close>

definition chs_decode :: "com32sys \<Rightarrow> nat \<times> nat \<times> nat" where
  "chs_decode r = (unat (b1 (r_ecx r)) + 256 * (unat (b0 (r_ecx r)) div 64), unat (b1 (r_edx r)), unat (b0 (r_ecx r)) mod 64)"

lemma byte_masks: "(0xffffff00 :: u32) = NOT (mask 8)" "(0xffff00ff :: u32) = NOT (push_bit 8 (mask 8))" "(0xffff0000 :: u32) = NOT (mask 16)"
  by (simp_all add: mask_eq_exp_minus_1 push_bit_eq_mult)

lemma set_byte [simp]: "b0 (set_b0 r v) = v" "b0 (set_b1 r v) = b0 r" "b1 (set_b1 r v) = v" "b1 (set_b0 r v) = b1 r" "w0 (set_w0 r u) = u"
  proof -
  have high: "\<not> bit v (8 + n)" for n using bit_imp_le_length [of v "8 + n"] by auto
  show "b0 (set_b0 r v) = v" "b0 (set_b1 r v) = b0 r" "b1 (set_b1 r v) = v" "b1 (set_b0 r v) = b1 r" "w0 (set_w0 r u) = u"
    unfolding b0_def b1_def w0_def set_b0_def set_b1_def set_w0_def byte_masks by (auto intro!: bit_word_eqI simp: bit_simps high)
qed

lemma or_low_bits:
  assumes "unat t < 64" "unat y < 4"
  shows "unat (push_bit 6 y OR t :: u32) = 64 * unat y + unat t"
proof -
  have b: "\<not> bit t i" if "6 \<le> i" for i
  proof -
    have "drop_bit 6 t = 0" using assms(1) by (simp add: word_unat_eq_iff unat_drop_bit)
    then have "bit (drop_bit 6 t) (i - 6) = False" by simp
    then show ?thesis using that by (simp add: bit_drop_bit_eq)
  qed
  then have "push_bit 6 y AND t = 0" by (intro bit_word_eqI) (auto simp: bit_simps)
  then have e: "push_bit 6 y OR t = push_bit 6 y + t" by (simp add: disjunctive_add_eq_or)
  have "unat (push_bit 6 y) = 64 * unat y" using assms(2) by (simp add: unat_push_bit)
  then show ?thesis unfolding e using assms by (subst unat_add_no_wrap) simp_all
qed

lemma cylinder_bits:
  fixes c t :: u32
  assumes "unat c < 1024" "unat t < 64"
  shows "unat (ucast (drop_bit 2 (c AND 0x300) OR t) :: u8) = 64 * (unat c div 256) + unat t"
proof -
  have m: "(0x300 :: u32) = push_bit 8 (mask 2)" by (simp add: push_bit_eq_mult mask_eq_exp_minus_1)
  have "drop_bit 2 (c AND 0x300) = push_bit 6 (drop_bit 8 c AND mask 2)" unfolding m by (intro bit_word_eqI) (auto simp: bit_simps)
  moreover have "unat (drop_bit 8 c AND mask 2) = unat c div 256" using assms(1) by (simp add: unat_mask_mod unat_drop_bit)
  moreover have "unat c div 256 < 4" using assms(1) by (simp add: div_less_iff_less_mult)
  ultimately have "unat (drop_bit 2 (c AND 0x300) OR t) = 64 * (unat c div 256) + unat t"
    using or_low_bits [OF assms(2), of "drop_bit 8 c AND mask 2"] by presburger
  moreover have "64 * (unat c div 256) + unat t < 256" using assms \<open>unat c div 256 < 4\<close> by linarith
  ultimately show ?thesis by (simp add: unat_ucast_mod)
qed


text \<open>C35. CHS addresses: the registers that \<open>chs_regs\<close> loads for the cylinder, head and sector the loop computes from an LBA name that LBA again,
  with the BIOS's packing of ten bits of cylinder and six of sector, for any geometry a BIOS can report; function, drive, size and
  buffer are what the call means them to be.\<close>

theorem chs_address_roundtrip:
  fixes disk :: disk and xlba chunk a :: u32 and w :: bool
  defines "t \<equiv> xlba div disk_s disk"
  defines "r \<equiv> chs_regs disk w chunk (t div disk_h disk) (t mod disk_h disk) (xlba mod disk_s disk) a"
  assumes geo: "1 \<le> unat (disk_h disk)" "unat (disk_h disk) \<le> 256" "1 \<le> unat (disk_s disk)" "unat (disk_s disk) \<le> 63"
    and lba: "unat xlba < 1024 * unat (disk_h disk) * unat (disk_s disk)" and a: "unat a < 2 ^ 20"
  shows "case chs_decode r of (cyl, head, sec) \<Rightarrow>
      cyl < 1024 \<and> head < unat (disk_h disk) \<and> 1 \<le> sec \<and> sec \<le> unat (disk_s disk) \<and>
      (cyl * unat (disk_h disk) + head) * unat (disk_s disk) + (sec - 1) = unat xlba \<and>
      b1 (r_eax r) = (if w then 3 else 2) \<and> b0 (r_eax r) = ucast chunk \<and> b0 (r_edx r) = ucast (disk_number disk) \<and>
      MK_PTR (r_es r) (w0 (r_ebx r)) = a"
proof -
  let ?S = "unat (disk_s disk)" and ?H = "unat (disk_h disk)"
  have S: "0 < ?S" and H: "0 < ?H" using geo by linarith+
  define s h c where "s = unat xlba mod ?S" and "h = unat xlba div ?S mod ?H" and "c = unat xlba div ?S div ?H"
  have u: "unat (xlba mod disk_s disk) = s" "unat (t mod disk_h disk) = h" "unat (t div disk_h disk) = c"
    by (simp_all add: s_def h_def c_def t_def unat_mod unat_div)
  have s: "s < ?S" and h: "h < ?H" using S H by (simp_all add: s_def h_def)
  have c: "c < 1024" unfolding c_def using lba S H by (simp add: div_mult2_eq [symmetric] less_mult_imp_div_less mult.commute mult.left_commute)
  have s1: "unat (xlba mod disk_s disk + 1) = s + 1" using s geo(4) by (subst unat_add_no_wrap) (simp_all add: u)
  have cl: "unat (b0 (r_ecx r)) = 64 * (c div 256) + (s + 1)" unfolding r_def chs_regs_def
    using cylinder_bits [of "t div disk_h disk" "xlba mod disk_s disk + 1"] s1 u c s geo(4) by simp
  have ch: "unat (b1 (r_ecx r)) = c mod 256" unfolding r_def chs_regs_def by (simp add: unat_ucast_mod u)
  have dh: "unat (b1 (r_edx r)) = h" unfolding r_def chs_regs_def using h geo(2) by (simp add: unat_ucast_mod u)
  have low: "s + 1 < 64" using s geo(4) by linarith
  then have "(64 * (c div 256) + (s + 1)) div 64 = c div 256" "(64 * (c div 256) + (s + 1)) mod 64 = s + 1" by simp_all
  then have d: "chs_decode r = (c, h, s + 1)" unfolding chs_decode_def cl ch dh by simp
  have "(c * ?H + h) * ?S + s = unat xlba" by (simp add: c_def h_def s_def)
  moreover have "b1 (r_eax r) = (if w then 3 else 2)" "b0 (r_eax r) = ucast chunk" "b0 (r_edx r) = ucast (disk_number disk)"
    "MK_PTR (r_es r) (w0 (r_ebx r)) = a" using far_ptr [OF a] by (simp_all add: r_def chs_regs_def)
  ultimately show ?thesis unfolding d using c h s by simp
qed

theorem chs_address_roundtrip_witness:
  "case chs_decode (chs_regs demo_disk False 1 (500000 div 63 div 16) (500000 div 63 mod 16) (500000 mod 63) 0x7c00) of (cyl, head, sec) \<Rightarrow>
     (cyl * 16 + head) * 63 + (sec - 1) = 500000"
proof -
  have g: "disk_h demo_disk = 16" "disk_s demo_disk = 63" by (simp_all add: demo_disk_def)
  show ?thesis using chs_address_roundtrip [of demo_disk 500000 "0x7c00" False 1] unfolding g by (auto split: prod.splits)
qed

end
