(* ===== verification/Install.thy ===== *)
theory Install
  imports Cstring
begin

text \<open>
  The installer \<^verbatim>\<open>src/install.c\<close>, which puts the boot image in front of the first partition of a disk and keeps the partition table.

  The Linux system calls are parameters, the fields of \<open>os\<close>; each gets the world and gives its result with the
  new world.  A C string is the list of its bytes without the NUL, except in \<open>find_device_name\<close>, where the bounds of
  the buffers matter.  The result of a function that may call \<open>_exit\<close> is \<open>Inl\<close> with the exit code, or \<open>Inr\<close> with
  its value.  \<open>None\<close> is undefined behaviour, or a loop that does not end.
\<close>

section \<open>System calls\<close>

record stat =
  st_dev :: u32
  st_mode :: u16
  st_rdev :: u32
  st_size :: u32

record 'w os =
  os_open :: "bytes \<Rightarrow> u32 \<Rightarrow> 'w \<Rightarrow> int \<times> 'w"
  os_close :: "int \<Rightarrow> 'w \<Rightarrow> 'w"
  os_read :: "int \<Rightarrow> nat \<Rightarrow> 'w \<Rightarrow> int \<times> bytes \<times> 'w"
  os_write :: "int \<Rightarrow> bytes \<Rightarrow> 'w \<Rightarrow> int \<times> 'w"
  os_lseek :: "int \<Rightarrow> int \<Rightarrow> nat \<Rightarrow> 'w \<Rightarrow> int \<times> 'w"
  os_unlink :: "bytes \<Rightarrow> 'w \<Rightarrow> 'w"
  os_fstat :: "int \<Rightarrow> 'w \<Rightarrow> stat option \<times> 'w"
  os_stat :: "bytes \<Rightarrow> 'w \<Rightarrow> stat option \<times> 'w"
  os_lstat :: "bytes \<Rightarrow> 'w \<Rightarrow> stat option \<times> 'w"
  os_getdents :: "int \<Rightarrow> nat \<Rightarrow> 'w \<Rightarrow> u32 \<times> bytes \<times> 'w"
  os_errno :: "'w \<Rightarrow> int"
  os_geteuid :: "'w \<Rightarrow> u32"

definition O_RDONLY :: u32 where "O_RDONLY = 0"
definition O_RDWR :: u32 where "O_RDWR = 2"
definition O_DIRECTORY :: u32 where "O_DIRECTORY = 0x10000"
definition SEEK_SET :: nat where "SEEK_SET = 0"
definition EACCES :: int where "EACCES = 13"
definition ENOENT :: int where "ENOENT = 2"
definition S_IFMT :: u16 where "S_IFMT = 0xf000"

definition S_ISDIR :: "u16 \<Rightarrow> bool" where "S_ISDIR mode \<longleftrightarrow> mode AND S_IFMT = 0x4000"
definition S_ISBLK :: "u16 \<Rightarrow> bool" where "S_ISBLK mode \<longleftrightarrow> mode AND S_IFMT = 0x6000"

text \<open>The static variables.\<close>

record prog =
  do_rm :: bool
  argv0 :: bytes

type_synonym ('w, 'a) run = "nat \<times> 'w + 'a \<times> 'w"

definition str :: "string \<Rightarrow> bytes" where
  "str s = map of_char s"

definition line :: "string \<Rightarrow> bytes" where
  "line s = str s @ [10]"

definition write_err :: "'w os \<Rightarrow> bytes \<Rightarrow> 'w \<Rightarrow> 'w" where
  "write_err os msg w = snd (os_write os 2 msg w)"

definition bye :: "'w os \<Rightarrow> prog \<Rightarrow> nat \<Rightarrow> 'w \<Rightarrow> ('w, 'a) run" where
  "bye os p exit_code w = Inl (exit_code, if do_rm p then os_unlink os (argv0 p) w else w)"

definition die :: "'w os \<Rightarrow> prog \<Rightarrow> string \<Rightarrow> 'w \<Rightarrow> ('w, 'a) run" where
  "die os p msg w = bye os p 2 (write_err os (line msg) w)"

section \<open>Finding the device\<close>

text \<open>
  \<open>struct linux_dirent\<close>: \<open>d_reclen\<close> is at 8, \<open>d_name\<close> at 10.  The scan of one buffer of entries: \<open>True\<close> when the device was found.
  The \<open>continue\<close> for a long name does not go to the next entry.
\<close>

definition dirent_reclen :: "bytes \<Rightarrow> nat option" where
  "dirent_reclen d = (if 10 \<le> length d then Some (unat (le16_of (d ! 8) (d ! 9))) else None)"

definition dirent_name :: "bytes \<Rightarrow> bytes option" where
  "dirent_name d = (if is_cstr (drop 10 d) then Some (cstr (drop 10 d)) else None)"

partial_function (option) scan_dirents ::
  "'w os \<Rightarrow> u32 \<Rightarrow> bytes \<Rightarrow> nat \<Rightarrow> nat \<Rightarrow> bytes \<Rightarrow> 'w \<Rightarrow> (bool \<times> bytes \<times> 'w) option" where
  "scan_dirents os mbr_dev dirent_buf nread bpos dev_name w =
     (if nread \<le> bpos then Some (False, dev_name, w)
      else do { n \<leftarrow> strlen dev_name;
                if length dev_name < n + 6 then scan_dirents os mbr_dev dirent_buf nread bpos dev_name w
                else do { name \<leftarrow> dirent_name (drop bpos dirent_buf);
                          dev_name \<leftarrow> wr_range dev_name 5 (name @ [0]);
                          let (st, w) = os_lstat os (cstr dev_name) w;
                          if (case st of Some st \<Rightarrow> S_ISBLK (st_mode st) \<and> st_rdev st = mbr_dev | None \<Rightarrow> False)
                          then Some (True, dev_name, w)
                          else do { reclen \<leftarrow> dirent_reclen (drop bpos dirent_buf);
                                    scan_dirents os mbr_dev dirent_buf nread (bpos + reclen) dev_name w } } })"

partial_function (option) read_dirents :: "'w os \<Rightarrow> u32 \<Rightarrow> int \<Rightarrow> bytes \<Rightarrow> 'w \<Rightarrow> (int \<times> bytes \<times> 'w) option" where
  "read_dirents os mbr_dev fd dev_name w =
     (let (nread, dirent_buf, w) = os_getdents os fd 4096 w
      in if nread = - 1 then Some (- 1, dev_name, w)
         else if nread = 0 then Some (1, dev_name, w)
         else do { (found, dev_name, w) \<leftarrow> scan_dirents os mbr_dev dirent_buf (unat nread) 0 dev_name w;
                   if found then Some (0, dev_name, w) else read_dirents os mbr_dev fd dev_name w })"

definition find_device_name :: "'w os \<Rightarrow> u32 \<Rightarrow> bytes \<Rightarrow> 'w \<Rightarrow> (int \<times> bytes \<times> 'w) option" where
  "find_device_name os mbr_dev dev_name w =
     (if length dev_name < 7 then Some (1, dev_name, w)
      else do { dev_name \<leftarrow> wr_range dev_name 0 (str ''/dev/'');
                let (fd, w) = os_open os (str ''/dev'') (O_RDONLY OR O_DIRECTORY) w;
                if fd < 0 then Some (- 1, dev_name, w)
                else do { (res, dev_name, w) \<leftarrow> read_dirents os mbr_dev fd dev_name w;
                          Some (res, dev_name, os_close os fd w) } })"

section \<open>Writing the image\<close>

record pte =
  flags :: u8
  ptype :: u8
  lba_first :: u32

definition pte_at :: "bytes \<Rightarrow> nat \<Rightarrow> pte" where
  "pte_at buf i = (let b = 0x1be + 16 * i in
     \<lparr>flags = buf ! b, ptype = buf ! (b + 4), lba_first = le32_of (buf ! (b + 8)) (buf ! (b + 9)) (buf ! (b + 10)) (buf ! (b + 11))\<rparr>)"

definition mbr_magic :: "bytes \<Rightarrow> bool" where
  "mbr_magic buf \<longleftrightarrow> le16_of (buf ! 0x1fe) (buf ! 0x1ff) = 0xaa55"

definition merge_table :: "bytes \<Rightarrow> bytes \<Rightarrow> bytes" where
  "merge_table buf oldmbr = take 0x1b8 buf @ take 0x46 (drop 0x1b8 oldmbr) @ drop 0x1fe buf"

definition first_partition :: "bytes \<Rightarrow> u32" where
  "first_partition buf =
     fold (\<lambda>i m. if ptype (pte_at buf i) \<noteq> 0 \<and> lba_first (pte_at buf i) < m then lba_first (pte_at buf i) else m) [0..<4] (- 1)"

definition set_active :: "bytes \<Rightarrow> nat \<Rightarrow> bytes" where
  "set_active buf active_part =
     (if 0 < active_part
      then let buf = fold (\<lambda>i buf. buf[0x1be + 16 * i := buf ! (0x1be + 16 * i) AND NOT 0x80]) [0..<4] buf;
               i = 0x1be + 16 * (active_part - 1)
           in buf[i := buf ! i OR 0x80]
      else buf)"

definition open_target :: "'w os \<Rightarrow> prog \<Rightarrow> bytes \<Rightarrow> 'w \<Rightarrow> ('w, int) run" where
  "open_target os p target w =
     (let (fdout, w) = os_open os target O_RDWR w in
      if fdout < 0
      then if os_errno os w = EACCES \<and> os_geteuid os w \<noteq> 0 then die os p ''fatal: error opening mbr target; use sudo'' w
           else if os_errno os w = ENOENT then die os p ''fatal: error opening mbr target; create image file first'' w
           else die os p ''fatal: error opening mbr target'' w
      else Inr (fdout, w))"

text \<open>What is in the target already: the buffer with its partition table, and the first sector in use.\<close>

definition merge_old :: "'w os \<Rightarrow> prog \<Rightarrow> int \<Rightarrow> int \<Rightarrow> bytes \<Rightarrow> 'w \<Rightarrow> ('w, bytes \<times> u32) run" where
  "merge_old os p fdin fdout buf w =
     (let (got2, d, w) = os_read os fdout 512 w;
          oldmbr = d @ replicate (512 - length d) 0
      in if got2 = 0 then Inr ((buf, - 1), w)
         else if got2 < 0 then die os p ''fatal: error reading from mbr target'' w
         else if got2 < 512 then die os p ''fatal: mbr truncated in mbr target'' w
         else let (pos, w) = os_lseek os fdout 0 SEEK_SET w in
           if pos \<noteq> 0 then die os p ''fatal: error seeking in mbr target'' w
           else if mbr_magic oldmbr
           then let (st, w) = os_fstat os fdin w in
             case st of
               None \<Rightarrow> die os p ''fatal: error statting source'' w
             | Some st \<Rightarrow>
                 let source_sector_count = drop_bit 9 (st_size st + 511);
                     buf = merge_table buf oldmbr;
                     lba_first_min = first_partition buf
                 in if lba_first_min < source_sector_count then die os p ''fatal: partition in mbr target starts too early'' w
                    else Inr ((buf, lba_first_min), w)
           else if list_all (\<lambda>c. c = 0) oldmbr then Inr ((buf, - 1), w)
           else die os p ''fatal: refusing to modify unusual mbr'' w)"

text \<open>The variable \<open>lba\<close> of the code stays 0.\<close>

partial_function (option) copy_loop ::
  "'w os \<Rightarrow> prog \<Rightarrow> int \<Rightarrow> int \<Rightarrow> u32 \<Rightarrow> u32 \<Rightarrow> bytes \<Rightarrow> int \<Rightarrow> 'w \<Rightarrow> ('w, unit) run option" where
  "copy_loop os p fdin fdout lba lba_first_min buf got w =
     (if got = 0 then Some (Inr ((), w))
      else if lba_first_min < lba + drop_bit 9 (of_int got + 511)
      then Some (die os p ''fatal: partition in mbr target starts too early, stopping'' w)
      else if got < 4096
      then let n = unat ((of_int got + 511) AND - 512 :: u32);
               (k, w) = os_write os fdout (take n buf) w
           in if k \<noteq> int n then Some (die os p ''fatal: error writing to mbr target'' w) else Some (Inr ((), w))
      else let (k, w) = os_write os fdout buf w in
        if k \<noteq> 4096 then Some (die os p ''fatal: error writing to mbr target'' w)
        else let (got, d, w) = os_read os fdin 4096 w in
          if got < 0 then Some (die os p ''fatal: error reading from source'' w)
          else copy_loop os p fdin fdout lba lba_first_min (d @ drop (length d) buf) got w)"

definition install :: "'w os \<Rightarrow> prog \<Rightarrow> bytes \<Rightarrow> bytes \<Rightarrow> u8 \<Rightarrow> 'w \<Rightarrow> ('w, unit) run option" where
  "install os p source target active_part w =
     (let active_part = (if 4 < active_part then 0 else active_part);
          w = (if active_part \<noteq> 0 then write_err os ((0x30 + active_part) # line '' active'') (write_err os (str ''info: will make partition '') w) else w);
          (fdin, w) = os_open os source O_RDONLY w
      in if fdin < 0 then Some (die os p ''fatal: error opening source'' w)
         else let (got, d, w) = os_read os fdin 4096 w;
                  buf = d @ replicate (4096 - length d) 0
           in if got < 0 then Some (die os p ''fatal: error reading from source'' w)
              else if got < 512 then Some (die os p ''fatal: source too short'' w)
              else if \<not> mbr_magic buf then Some (die os p ''fatal: bad mbr in source'' w)
              else case open_target os p target w of
                Inl e \<Rightarrow> Some (Inl e)
              | Inr (fdout, w) \<Rightarrow>
                  (case merge_old os p fdin fdout buf w of
                     Inl e \<Rightarrow> Some (Inl e)
                   | Inr ((buf, lba_first_min), w) \<Rightarrow>
                       copy_loop os p fdin fdout 0 lba_first_min (set_active buf (unat active_part)) got w))"


section \<open>The command line\<close>

definition usage :: "'w os \<Rightarrow> prog \<Rightarrow> 'w \<Rightarrow> ('w, 'a) run" where
  "usage os p w =
     bye os p 1
       (write_err os (line '' install image <image>'' @ line ''<target> is name of directory or blockdev, default is /'' @
           line ''<image> is name of hard disk image file'')
         (write_err os (argv0 p)
           (write_err os (str ''    or '')
             (write_err os (line '' install [<target>]'')
               (write_err os (argv0 p)
                 (write_err os (line ''Tool to install liigboot to Master Boot Record (MBR).'' @
                   line ''See also https://liigboot.github.io/install'' @ str ''Usage: '') w))))))"

text \<open>The device to write to and the partition to make active.\<close>

definition choose_target :: "'w os \<Rightarrow> prog \<Rightarrow> bytes \<Rightarrow> 'w \<Rightarrow> ('w, bytes \<times> u8) run option" where
  "choose_target os p target w =
     (let (st, w) = os_stat os target w in
      case st of
        None \<Rightarrow> Some (die os p ''fatal: target not found'' w)
      | Some st \<Rightarrow>
          if S_ISDIR (st_mode st)
          then if st_dev st AND 15 = 0 then Some (die os p ''fatal: refusing to install to mounted mbr device'' w)
               else do { (res, dev_name, w) \<leftarrow> find_device_name os (st_dev st AND NOT 15) (replicate 32 0) w;
                         if res \<noteq> 0 then Some (die os p ''fatal: mbr device not found in /dev'' w)
                         else Some (Inr ((cstr dev_name, ucast (st_dev st AND 15)), w)) }
          else if S_ISBLK (st_mode st)
          then if st_rdev st AND 15 \<noteq> 0 then Some (die os p ''fatal: refusing to install to partition'' w)
               else Some (Inr ((target, 0), w))
          else Some (die os p ''fatal: target not a directory or blockdev'' w))"

definition run_install :: "'w os \<Rightarrow> prog \<Rightarrow> bytes \<Rightarrow> bytes \<Rightarrow> bool \<Rightarrow> 'w \<Rightarrow> ('w, unit) run option" where
  "run_install os p source target is_target_image w =
     do { let w = write_err os (line '''') (write_err os source (write_err os (str ''info: install source: '') w));
          let w = write_err os (line '''') (write_err os target (write_err os (str ''info: install target: '') w));
          r \<leftarrow> (if is_target_image then Some (Inr ((target, 0), w)) else choose_target os p target w);
          case r of
            Inl e \<Rightarrow> Some (Inl e)
          | Inr ((target, active_part), w) \<Rightarrow>
              do { let w = write_err os (line '''') (write_err os target (write_err os (str ''info: install mbr target: '') w));
                   r \<leftarrow> install os p source target active_part w;
                   case r of
                     Inl e \<Rightarrow> Some (Inl e)
                   | Inr (_, w) \<Rightarrow> Some (bye os p 0 (write_err os (line ''info: install OK'') w)) } }"

definition main :: "'w os \<Rightarrow> bytes list \<Rightarrow> 'w \<Rightarrow> ('w, unit) run option" where
  "main os argv w =
     (case argv of
        [] \<Rightarrow> None
      | cmd # args \<Rightarrow>
          let rm = (case args of a # _ \<Rightarrow> a = str ''--rm'' | [] \<Rightarrow> False);
              p = \<lparr>do_rm = rm, argv0 = cmd\<rparr>;
              args = (if rm then tl args else args)
          in case args of
               [] \<Rightarrow> Some (usage os p w)
             | a # args \<Rightarrow>
                 if a \<noteq> str ''install'' then Some (usage os p w)
                 else let sz = length cmd in
                   if sz < 9 \<or> 1024 - 8 \<le> sz \<or> drop (sz - 8) cmd \<noteq> str ''.install''
                   then Some (die os p ''fatal: command name must end with .install'' w)
                   else let source = take (sz - 8) cmd in
                     (case args of
                        [] \<Rightarrow> run_install os p source (str ''/'') False w
                      | [t] \<Rightarrow> run_install os p source t False w
                      | [i, t] \<Rightarrow> if i = str ''image'' then run_install os p source t True w else Some (usage os p w)
                      | _ \<Rightarrow> Some (usage os p w)))"


section \<open>What the installer relies on\<close>

text \<open>The file descriptors and files of one installation, as seen through \<open>view\<close>: the contents of the target, and where both files are read.\<close>

record files =
  tgt :: bytes
  ipos :: nat
  opos :: nat

text \<open>
  The system calls may fail at any time.  A write may store any part from the front of its data; the result is the length only
  when all of it is stored.  A read of the source, a regular file other than the target, gives all that is there.  Messages, \<open>unlink\<close> and the other calls leave both files alone.
\<close>

definition put_at :: "bytes \<Rightarrow> nat \<Rightarrow> bytes \<Rightarrow> bytes" where
  "put_at xs q ys = take q xs @ ys @ drop (q + length ys) xs"

locale installation =
  fixes os :: "'w os" and source target src :: bytes and fi fo :: int and view :: "'w \<Rightarrow> files"
  assumes fds: "0 \<le> fi" "0 \<le> fo" "fi \<noteq> fo" "fi \<noteq> 2" "fo \<noteq> 2" and small: "length src < 2 ^ 31"
    and message: "view (snd (os_write os 2 msg w)) = view w"
    and removal: "view (os_unlink os name w) = view w"
    and open_source: "os_open os source O_RDONLY w = (fd, w') \<Longrightarrow> fd < 0 \<and> view w' = view w \<or> fd = fi \<and> view w' = view w\<lparr>ipos := 0\<rparr>"
    and open_tgt: "os_open os target O_RDWR w = (fd, w') \<Longrightarrow> fd < 0 \<and> view w' = view w \<or> fd = fo \<and> view w' = view w\<lparr>opos := 0\<rparr>"
    and read_source: "os_read os fi n w = (k, d, w') \<Longrightarrow> k < 0 \<and> d = [] \<and> view w' = view w \<or>
      d = take n (drop (ipos (view w)) src) \<and> k = int (length d) \<and> view w' = view w\<lparr>ipos := ipos (view w) + length d\<rparr>"
    and read_target: "os_read os fo n w = (k, d, w') \<Longrightarrow> k < 0 \<and> d = [] \<and> view w' = view w \<or>
      d = take n (drop (opos (view w)) (tgt (view w))) \<and> k = int (length d) \<and> view w' = view w\<lparr>opos := opos (view w) + length d\<rparr>"
    and write_target: "os_write os fo bs w = (k, w') \<Longrightarrow> opos (view w) \<le> length (tgt (view w)) \<Longrightarrow>
      \<exists>j \<le> length bs. (k = int (length bs) \<longrightarrow> j = length bs) \<and>
        view w' = view w\<lparr>tgt := put_at (tgt (view w)) (opos (view w)) (take j bs), opos := opos (view w) + j\<rparr>"
    and rewind: "os_lseek os fo 0 SEEK_SET w = (k, w') \<Longrightarrow> k \<noteq> 0 \<and> view w' = view w \<or> k = 0 \<and> view w' = view w\<lparr>opos := 0\<rparr>"
    and stat_source: "os_fstat os fi w = (r, w') \<Longrightarrow> view w' = view w \<and> (case r of None \<Rightarrow> True | Some st \<Rightarrow> unat (st_size st) = length src)"
begin

lemma write_err_view [simp]: "view (write_err os msg w) = view w"
  by (simp add: write_err_def message)

lemma bye_view: "\<exists>w'. bye os p c w = Inl (c, w') \<and> view w' = view w"
  by (simp add: bye_def removal)

lemma die_view: "\<exists>w'. die os p msg w = Inl (2, w') \<and> view w' = view w"
  using bye_view [of p 2 "write_err os (line msg) w"] by (simp add: die_def)

end

lemma put_at_length: "q \<le> length xs \<Longrightarrow> length (put_at xs q ys) = max (length xs) (q + length ys)"
  by (simp add: put_at_def)

lemma put_at_nth: "q \<le> length xs \<Longrightarrow> i < length (put_at xs q ys) \<Longrightarrow> put_at xs q ys ! i = (if q \<le> i \<and> i < q + length ys then ys ! (i - q) else xs ! i)"
  by (auto simp: put_at_def nth_append min_def)

text \<open>\<open>updated old new q R img\<close>: from \<open>q\<close> on, bytes of \<open>img\<close> may have replaced those of \<open>old\<close>; the padding between the end of \<open>img\<close> and \<open>R\<close> may be anything.\<close>

definition updated :: "bytes \<Rightarrow> bytes \<Rightarrow> nat \<Rightarrow> nat \<Rightarrow> bytes \<Rightarrow> bool" where
  "updated old new q R img \<longleftrightarrow> length old \<le> length new \<and> length new \<le> max (length old) R \<and>
     (\<forall>i < length new. i < length old \<and> new ! i = old ! i \<or> q \<le> i \<and> i < length img \<and> new ! i = img ! i \<or> length img \<le> i \<and> i < R)"

lemma updated_refl: "updated xs xs q R img"
  by (simp add: updated_def)

lemma updated_put:
  assumes "q \<le> length old" "q + length ys \<le> R"
    and "\<And>i. i < length ys \<Longrightarrow> q + i < length img \<Longrightarrow> ys ! i = img ! (q + i)"
  shows "updated old (put_at old q ys) q R img"
  unfolding updated_def
proof (intro conjI allI impI)
  fix i assume i: "i < length (put_at old q ys)"
  show "i < length old \<and> put_at old q ys ! i = old ! i \<or> q \<le> i \<and> i < length img \<and> put_at old q ys ! i = img ! i \<or> length img \<le> i \<and> i < R"
  proof (cases "q \<le> i \<and> i < q + length ys")
    case True
    then have "i - q < length ys" by arith
    then show ?thesis using True put_at_nth [OF assms(1) i] assms(2) assms(3) [of "i - q"] by (cases "i < length img") auto
  next
    case False
    then show ?thesis using put_at_nth [OF assms(1) i] i put_at_length [OF assms(1), of ys] assms(1) by (auto simp: max_def split: if_splits)
  qed
qed (use put_at_length [OF assms(1), of ys] assms(2) in auto)

lemma updated_trans:
  assumes "updated a b q R img" "updated b c q' R img" "q \<le> q'"
  shows "updated a c q R img"
  unfolding updated_def
proof (intro conjI allI impI)
  fix i assume i: "i < length c"
  then consider "i < length b" "c ! i = b ! i" | "q' \<le> i" "i < length img" "c ! i = img ! i" | "length img \<le> i" "i < R"
    using assms(2) by (auto simp: updated_def)
  then show "i < length a \<and> c ! i = a ! i \<or> q \<le> i \<and> i < length img \<and> c ! i = img ! i \<or> length img \<le> i \<and> i < R"
    using assms(1,3) by cases (auto simp: updated_def)
qed (use assms in \<open>auto simp: updated_def\<close>)


lemma round_up_512:
  assumes "g \<le> 4096"
  shows "unat ((of_int (int g) + 511) AND - 512 :: u32) = (g + 511) div 512 * 512"
proof -
  have m: "(- 512 :: u32) = NOT (mask 9)" by (simp add: mask_eq_exp_minus_1)
  have s: "w AND NOT (mask 9) = push_bit 9 (drop_bit 9 w)" for w :: u32 by (intro bit_word_eqI) (auto simp: bit_simps)
  have g: "unat (of_nat g + 511 :: u32) = g + 511" using assms by (subst unat_add_no_wrap) (simp_all add: unat_of_nat_small)
  have "unat (drop_bit 9 (of_nat g + 511 :: u32)) = (g + 511) div 512" unfolding unat_drop_bit g by simp
  moreover have "(g + 511) div 512 < 10" using assms by (simp add: div_less_iff_less_mult)
  ultimately show ?thesis unfolding m s by (simp add: unat_push_bit)
qed

abbreviation world_of :: "('w, 'a) run \<Rightarrow> 'w" where
  "world_of r \<equiv> case_sum snd snd r"

definition image_end :: "bytes \<Rightarrow> nat" where
  "image_end src = (length src + 511) div 512 * 512"

lemma image_end_ge: "length src \<le> image_end src"
  unfolding image_end_def using div_mult_mod_eq [of "length src + 511" 512] mod_less_divisor [of 512 "length src + 511"] by linarith

context installation begin

lemma copy_loop_ok:
  assumes img: "length img = length src" "\<And>i. 4096 \<le> i \<Longrightarrow> i < length src \<Longrightarrow> img ! i = src ! i"
  shows "opos (view w) = q \<Longrightarrow> 4096 dvd q \<Longrightarrow> q \<le> length src \<Longrightarrow> q \<le> length (tgt (view w)) \<Longrightarrow> g = min 4096 (length src - q) \<Longrightarrow> ipos (view w) = q + g \<Longrightarrow>
    length buf = 4096 \<Longrightarrow> (\<And>i. i < g \<Longrightarrow> buf ! i = img ! (q + i)) \<Longrightarrow>
    \<exists>r. copy_loop os p fi fo 0 lim buf (int g) w = Some r \<and> updated (tgt (view w)) (tgt (view (world_of r))) q (image_end src) img \<and>
      (isl r \<or> (\<forall>i \<in> {q..<length src}. i < length (tgt (view (world_of r))) \<and> tgt (view (world_of r)) ! i = img ! i))"
proof (induction "length src - q" arbitrary: q g buf w rule: less_induct)
  case less
  note pre = less.prems
  let ?old = "tgt (view w)"
  have stop: ?case if d: "copy_loop os p fi fo 0 lim buf (int g) w = Some (die os p msg w')" "updated ?old (tgt (view w')) q (image_end src) img" for msg w'
  proof -
    obtain w2 where "(die os p msg w' :: ('w, unit) run) = Inl (2, w2)" "view w2 = view w'" using die_view [of p msg w'] by blast
    then show ?thesis using d by (intro exI [of _ "Inl (2, w2)"]) simp
  qed
  show ?case
  proof (cases "g = 0")
    case True
    then have "q = length src" using pre(3,5) by auto
    then show ?thesis using True by (subst copy_loop.simps) (simp add: updated_refl)
  next
    case g0: False
    show ?thesis
    proof (cases "lim < drop_bit 9 (of_int (int g) + 511)")
      case True
      show ?thesis
        by (rule stop [of "''fatal: partition in mbr target starts too early, stopping''" w]) (use True g0 in \<open>simp_all add: copy_loop.simps updated_refl\<close>)
    next
      case lim: False
      show ?thesis
      proof (cases "g < 4096")
        case True
        define n where "n = (g + 511) div 512 * 512"
        have n: "unat ((of_int (int g) + 511) AND - 512 :: u32) = n" unfolding n_def by (rule round_up_512) (use True in simp)
        have e: "length src = q + g" using True pre(3,5) by auto
        have "(512 :: nat) dvd 4096" by simp
        then have "512 dvd q" using pre(2) by (rule dvd_trans)
        then obtain z where z: "q = 512 * z" by (elim dvdE)
        have "(g + 511 + 512 * z) div 512 = z + (g + 511) div 512" by (rule div_mult_self2) simp
        moreover have "512 * z + g + 511 = g + 511 + 512 * z" by (simp only: add.assoc add.commute)
        ultimately have "(512 * z + g + 511) div 512 = z + (g + 511) div 512" by (simp only:)
        then have qn: "q + n = image_end src" unfolding image_end_def e n_def z by simp
        have n4: "n \<le> 4096" "g \<le> n" using True unfolding n_def by auto
        obtain k w' where wr: "os_write os fo (take n buf) w = (k, w')" by fastforce
        have ln: "length (take n buf) = n" using n4 pre(7) by simp
        have "opos (view w) \<le> length ?old" using pre(1,4) by simp
        from write_target [OF wr this] obtain j where j': "j \<le> n" "k = int n \<longrightarrow> j = n"
          "view w' = view w\<lparr>tgt := put_at ?old (opos (view w)) (take j (take n buf)), opos := opos (view w) + j\<rparr>" unfolding ln by blast
        then have j: "j \<le> n" "k = int n \<longrightarrow> j = n" "tgt (view w') = put_at ?old q (take j buf)" using pre(1) by (simp_all add: min_absorb1)
        have lj: "length (take j buf) = j" using j(1) n4 pre(7) by simp
        have u: "updated ?old (tgt (view w')) q (image_end src) img" unfolding j(3)
          by (rule updated_put) (use pre(4,8) lj j(1) qn e img(1) in auto)
        show ?thesis
        proof (cases "k = int n")
          case False
          show ?thesis by (rule stop [OF _ u]) (use False True g0 lim n wr in \<open>simp add: copy_loop.simps\<close>)
        next
          case k: True
          then have c: "copy_loop os p fi fo 0 lim buf (int g) w = Some (Inr ((), w'))" using True g0 lim n wr by (simp add: copy_loop.simps)
          have "i < length (tgt (view w')) \<and> tgt (view w') ! i = img ! i" if i: "q \<le> i" "i < length src" for i
          proof -
            have b: "i - q < g" "i < q + j" using i e j(2) k n4 by auto
            have "i < length (tgt (view w'))" unfolding j(3) put_at_length [OF pre(4)] lj using b by simp
            then show ?thesis using put_at_nth [OF pre(4), of i "take j buf"] pre(8) [OF b(1)] b i lj unfolding j(3) by simp
          qed
          then show ?thesis using c u by auto
        qed
      next
        case False
        then have g: "g = 4096" "q + 4096 \<le> length src" using pre(3,5) by auto
        obtain k w1 where wr: "os_write os fo buf w = (k, w1)" by fastforce
        have "opos (view w) \<le> length ?old" using pre(1,4) by simp
        from write_target [OF wr this] obtain j where "j \<le> length buf" "k = int (length buf) \<longrightarrow> j = length buf"
          "view w1 = view w\<lparr>tgt := put_at ?old (opos (view w)) (take j buf), opos := opos (view w) + j\<rparr>" by blast
        then have j: "j \<le> 4096" "k = 4096 \<longrightarrow> j = 4096" "view w1 = view w\<lparr>tgt := put_at ?old q (take j buf), opos := q + j\<rparr>"
          using pre(1,7) by simp_all
        have lj: "length (take j buf) = j" using j(1) pre(7) by simp
        have t1: "tgt (view w1) = put_at ?old q (take j buf)" by (simp add: j(3))
        have u: "updated ?old (tgt (view w1)) q (image_end src) img" unfolding t1
          by (rule updated_put) (use pre(4,8) lj j(1) g image_end_ge [of src] in auto)
        show ?thesis
        proof (cases "k = 4096")
          case False
          show ?thesis by (rule stop [OF _ u]) (use False g g0 lim wr in \<open>simp add: copy_loop.simps\<close>)
        next
          case True
          then have j4: "j = 4096" using j(2) by simp
          obtain k2 d w2 where rd: "os_read os fi 4096 w1 = (k2, d, w2)" by (metis prod_cases3)
          have step: "copy_loop os p fi fo 0 lim buf (int g) w = (if k2 < 0 then Some (die os p ''fatal: error reading from source'' w2)
              else copy_loop os p fi fo 0 lim (d @ drop (length d) buf) k2 w2)"
            using True g g0 lim wr rd by (subst copy_loop.simps) simp
          from read_source [OF rd] show ?thesis
          proof (elim disjE conjE)
            assume "k2 < 0" "view w2 = view w1"
            then show ?thesis using step u by (intro stop [of _ w2]) simp_all
          next
            assume r: "d = take 4096 (drop (ipos (view w1)) src)" "k2 = int (length d)" "view w2 = view w1\<lparr>ipos := ipos (view w1) + length d\<rparr>"
            have ip: "ipos (view w1) = q + 4096" using pre(6) g j(3) by simp
            have ld: "length d = min 4096 (length src - (q + 4096))" using r(1) ip by simp
            have t2: "tgt (view w2) = tgt (view w1)" by (simp add: r(3))
            have "\<exists>r. copy_loop os p fi fo 0 lim (d @ drop (length d) buf) (int (length d)) w2 = Some r \<and>
                updated (tgt (view w2)) (tgt (view (world_of r))) (q + 4096) (image_end src) img \<and>
                (isl r \<or> (\<forall>i \<in> {q + 4096..<length src}. i < length (tgt (view (world_of r))) \<and> tgt (view (world_of r)) ! i = img ! i))"
            proof (rule less.hyps)
              show "length src - (q + 4096) < length src - q" using g by simp
              show "opos (view w2) = q + 4096" using r(3) j(3) j4 by simp
              show "4096 dvd q + 4096" using pre(2) by simp
              show "q + 4096 \<le> length (tgt (view w2))" using put_at_length [OF pre(4), of "take j buf"] lj j4 unfolding t2 t1 by simp
              show "ipos (view w2) = q + 4096 + length d" using r(3) ip by simp
              show "length (d @ drop (length d) buf) = 4096" using ld pre(7) by simp
              show "(d @ drop (length d) buf) ! i = img ! (q + 4096 + i)" if "i < length d" for i
              proof -
                have "q + 4096 + i < length src" using that ld by arith
                then show ?thesis using that ld g(2) img(2) [of "q + 4096 + i"] by (simp add: nth_append r(1) ip)
              qed
            qed (use g ld in simp_all)
            then obtain r' where i: "copy_loop os p fi fo 0 lim (d @ drop (length d) buf) (int (length d)) w2 = Some r'"
              "updated (tgt (view w1)) (tgt (view (world_of r'))) (q + 4096) (image_end src) img"
              "isl r' \<or> (\<forall>i \<in> {q + 4096..<length src}. i < length (tgt (view (world_of r'))) \<and> tgt (view (world_of r')) ! i = img ! i)"
              unfolding t2 by blast
            let ?new = "tgt (view (world_of r'))"
            have "updated ?old ?new q (image_end src) img" by (rule updated_trans [OF u i(2)]) simp
            moreover have "i < length ?new \<and> ?new ! i = img ! i" if b: "q \<le> i" "i < q + 4096" for i
            proof -
              have l1: "i < length (tgt (view w1))" using put_at_length [OF pre(4), of "take j buf"] lj j4 b unfolding t1 by simp
              then have ln: "i < length ?new" using i(2) by (simp add: updated_def)
              moreover have "\<not> q + 4096 \<le> i" "\<not> length img \<le> i" using b g img(1) by simp_all
              ultimately have "?new ! i = tgt (view w1) ! i" using i(2) unfolding updated_def by blast
              note this ln
              moreover have "tgt (view w1) ! i = img ! i"
                using put_at_nth [OF pre(4) l1 [unfolded t1]] pre(8) [of "i - q"] b g lj j4 unfolding t1 by simp
              ultimately show ?thesis by simp
            qed
            ultimately show ?thesis using i(1,3) step r(2) by (intro exI [of _ r']) (auto simp: not_less)
          qed
        qed
      qed
    qed
  qed
qed

end


section \<open>The boot sector that is written\<close>

lemma merge_table_length: "512 \<le> length buf \<Longrightarrow> 512 \<le> length old \<Longrightarrow> length (merge_table buf old) = length buf"
  by (simp add: merge_table_def min_def) linarith

lemma merge_table_nth:
  assumes "512 \<le> length buf" "512 \<le> length old" "i < length buf"
  shows "merge_table buf old ! i = (if 0x1b8 \<le> i \<and> i < 0x1fe then old ! i else buf ! i)"
proof -
  have "length (take 0x46 (drop 0x1b8 old)) = 70" using assms(2) by simp
  then show ?thesis using assms by (auto simp: merge_table_def nth_append)
qed

definition active_bytes :: "nat set" where
  "active_bytes = {0x1be, 0x1ce, 0x1de, 0x1ee}"

lemma set_active_length [simp]: "length (set_active buf k) = length buf"
  by (simp add: set_active_def Let_def upt_conv_Cons)

lemma set_active_nth:
  assumes "512 \<le> length buf" "k \<le> 4"
  shows "set_active buf k ! i =
    (if 0 < k \<and> i \<in> active_bytes then (if i = 0x1be + 16 * (k - 1) then (buf ! i AND NOT 0x80) OR 0x80 else buf ! i AND NOT 0x80) else buf ! i)"
proof -
  have "k \<in> {0, 1, 2, 3, 4}" using assms(2) by auto
  then show ?thesis using assms(1) by (auto simp: set_active_def active_bytes_def Let_def upt_conv_Cons nth_list_update)
qed

lemma pte_merged: "i < 4 \<Longrightarrow> 512 \<le> length buf \<Longrightarrow> 512 \<le> length old \<Longrightarrow> pte_at (merge_table buf old) i = pte_at old i"
  by (simp add: pte_at_def merge_table_nth)

lemma first_partition_merged: "512 \<le> length buf \<Longrightarrow> 512 \<le> length old \<Longrightarrow> first_partition (merge_table buf old) = first_partition old"
  by (simp add: first_partition_def pte_merged upt_conv_Cons)

lemma fold_min_le:
  fixes f :: "nat \<Rightarrow> u32"
  shows "fold (\<lambda>i m. if P i \<and> f i < m then f i else m) xs m \<le> m"
    and "x \<in> set xs \<Longrightarrow> P x \<Longrightarrow> fold (\<lambda>i m. if P i \<and> f i < m then f i else m) xs m \<le> f x"
proof -
  show le: "fold (\<lambda>i m. if P i \<and> f i < m then f i else m) xs m \<le> m" for xs m
  proof (induction xs arbitrary: m)
    case (Cons y ys)
    show ?case using Cons.IH [of "f y"] Cons.IH [of m] by (auto intro: order_trans less_imp_le)
  qed simp
  show "x \<in> set xs \<Longrightarrow> P x \<Longrightarrow> fold (\<lambda>i m. if P i \<and> f i < m then f i else m) xs m \<le> f x"
  proof (induction xs arbitrary: m)
    case (Cons y ys)
    show ?case
    proof (cases "x = y")
      case True
      then show ?thesis using Cons.prems(2) le [of ys "f y"] le [of ys m] by (auto intro: order_trans)
    qed (use Cons in auto)
  qed simp
qed

lemma first_partition_le: "i < 4 \<Longrightarrow> ptype (pte_at buf i) \<noteq> 0 \<Longrightarrow> first_partition buf \<le> lba_first (pte_at buf i)"
  unfolding first_partition_def by (rule fold_min_le(2)) simp_all

text \<open>
  What the first bytes of the target shall be, byte by byte and apart from the code: those of the source, and from 0x1b8 to 0x1fd those
  of the old boot sector where there is one; of the four active flags the top bit of entry \<open>k\<close> is set and of the others it is clear.
  With \<open>k = 0\<close> the flags stay.
\<close>

definition has_boot_sector :: "bytes \<Rightarrow> bool" where
  "has_boot_sector old \<longleftrightarrow> 512 \<le> length old \<and> old ! 510 = 0x55 \<and> old ! 511 = 0xaa"

definition entry_flag :: "nat \<Rightarrow> nat option" where
  "entry_flag i = (if i = 0x1be then Some 1 else if i = 0x1ce then Some 2 else if i = 0x1de then Some 3 else if i = 0x1ee then Some 4 else None)"

definition image_for :: "bytes \<Rightarrow> bytes \<Rightarrow> nat \<Rightarrow> bytes" where
  "image_for src old k = map (\<lambda>i.
     let c = (if has_boot_sector old \<and> 0x1b8 \<le> i \<and> i \<le> 0x1fd then old ! i else src ! i)
     in case entry_flag i of
          None \<Rightarrow> c
        | Some e \<Rightarrow> if k = 0 then c else if e = k then c OR 0x80 else c AND 0x7f) [0..<length src]"

lemma le16_signature: "le16_of a b = 0xaa55 \<longleftrightarrow> a = 0x55 \<and> b = 0xaa"
proof
  assume e: "le16_of a b = 0xaa55"
  have "unat (le16_of a b) = unat a + 256 * unat b" by (rule unat_le16_of)
  then have s: "unat a + 256 * unat b = 0xaa55" unfolding e by simp
  have "unat a < 256" "unat b < 256" using unsigned_less [of a, where 'a = nat] unsigned_less [of b, where 'a = nat] by simp_all
  then have "unat a = (unat a + 256 * unat b) mod 256" "unat b = (unat a + 256 * unat b) div 256" by simp_all
  then have "unat a = 0x55" "unat b = 0xaa" unfolding s by simp_all
  then show "a = 0x55 \<and> b = 0xaa" by (simp add: word_unat_eq_iff)
qed (simp add: le16_of_def)

lemma has_boot_sector_iff: "has_boot_sector old \<longleftrightarrow> 512 \<le> length old \<and> mbr_magic old"
  by (simp add: has_boot_sector_def mbr_magic_def le16_signature)

text \<open>The code makes this image: \<open>merge_table\<close> and \<open>set_active\<close> on the whole of the source.\<close>

lemma image_for_code:
  assumes "512 \<le> length src" "k \<le> 4"
  shows "image_for src old k = set_active (if 512 \<le> length old \<and> mbr_magic old then merge_table src old else src) k"
proof (rule nth_equalityI)
  let ?part = "512 \<le> length old \<and> mbr_magic old"
  let ?src = "if ?part then merge_table src old else src"
  have ls: "length ?src = length src" using merge_table_length [of src old] assms(1) by auto
  show "length (image_for src old k) = length (set_active ?src k)" using ls by (simp add: image_for_def)
  fix i assume "i < length (image_for src old k)"
  then have i: "i < length src" by (simp add: image_for_def)
  have c: "(if has_boot_sector old \<and> 0x1b8 \<le> i \<and> i \<le> 0x1fd then old ! i else src ! i) = ?src ! i"
    using i assms(1) merge_table_nth [of src old i] by (auto simp: has_boot_sector_iff)
  have "512 \<le> length ?src" using ls assms(1) by simp
  note S = set_active_nth [OF this assms(2), of i]
  have "bit (0x7f :: u8) n" if "n < 8" "\<not> bit (0x80 :: u8) n" for n
  proof -
    have "n = 0 \<or> n = 1 \<or> n = 2 \<or> n = 3 \<or> n = 4 \<or> n = 5 \<or> n = 6 \<or> n = 7" using that(1) by arith
    then show ?thesis using that(2) by (elim disjE) simp_all
  qed
  then have m: "c AND 0x7f OR 0x80 = c OR 0x80" for c :: u8 by (intro bit_word_eqI) (auto simp: bit_simps)
  have low: "(- 129 :: u8) = 0x7f" by simp
  have L: "image_for src old k ! i = (case entry_flag i of None \<Rightarrow> ?src ! i
      | Some e \<Rightarrow> if k = 0 then ?src ! i else if e = k then ?src ! i OR 0x80 else ?src ! i AND 0x7f)"
    using i unfolding c [symmetric] by (simp only: image_for_def Let_def length_map length_upt minus_nat.diff_0 nth_map nth_upt add_0)
  show "image_for src old k ! i = set_active ?src k ! i"
  proof (cases "entry_flag i")
    case None
    then have "i \<notin> active_bytes" by (auto simp: entry_flag_def active_bytes_def split: if_splits)
    then show ?thesis unfolding S L None by simp
  next
    case (Some e)
    then have e: "i \<in> active_bytes" "i = 0x1be + 16 * (e - 1)" "0 < e" by (auto simp: entry_flag_def active_bytes_def split: if_splits)
    then have "e = k \<longleftrightarrow> i = 0x1be + 16 * (k - 1)" if "0 < k" using that by auto
    then show ?thesis unfolding S L Some using e(1) m by (cases "k = 0") (simp_all add: low)
  qed
qed

lemma image_for_bytes:
  fixes old :: bytes
  assumes "512 \<le> length src" "k \<le> 4" "length buf = 4096" "\<And>i. i < n \<Longrightarrow> buf ! i = src ! i" "n \<le> length src" "n \<le> 4096"
  defines "part \<equiv> 512 \<le> length old \<and> mbr_magic old"
  shows "length (image_for src old k) = length src" "length (if part then merge_table buf old else buf) = 4096"
    and "i < n \<Longrightarrow> set_active (if part then merge_table buf old else buf) k ! i = image_for src old k ! i"
    and "4096 \<le> i \<Longrightarrow> i < length src \<Longrightarrow> image_for src old k ! i = src ! i"
proof -
  let ?src = "if part then merge_table src old else src" and ?buf = "if part then merge_table buf old else buf"
  have ls: "length ?src = length src" using merge_table_length [of src old] assms(1) by (auto simp: part_def)
  show lb: "length ?buf = 4096" using merge_table_length [of buf old] assms(3) by (auto simp: part_def)
  have im: "image_for src old k = set_active ?src k" using image_for_code [OF assms(1,2)] by (simp add: part_def)
  show "length (image_for src old k) = length src" by (simp add: image_for_def)
  show "set_active ?buf k ! i = image_for src old k ! i" if "i < n"
  proof -
    have e: "?buf ! i = ?src ! i" using that assms(1,3-6) by (auto simp: merge_table_nth part_def)
    have l: "512 \<le> length ?buf" "512 \<le> length ?src" using ls lb assms(1) by simp_all
    show ?thesis by (simp only: im set_active_nth [OF l(1) assms(2)] set_active_nth [OF l(2) assms(2)] e)
  qed
  show "image_for src old k ! i = src ! i" if "4096 \<le> i" "i < length src"
    unfolding im using that set_active_nth [of ?src k i] ls assms(1,2) by (auto simp: merge_table_nth active_bytes_def part_def)
qed

context installation begin

lemma open_target_ok:
  "case open_target os p target w of Inl e \<Rightarrow> view (snd e) = view w | Inr (fd, w') \<Rightarrow> fd = fo \<and> view w' = view w\<lparr>opos := 0\<rparr>"
proof -
  obtain fd w1 where o: "os_open os target O_RDWR w = (fd, w1)" by fastforce
  show ?thesis using open_tgt [OF o] fds(2) by (auto simp: open_target_def o die_def bye_def removal)
qed

lemma sectors_of_source: "unat (drop_bit 9 (s + 511) :: u32) = (length src + 511) div 512" if "unat s = length src"
proof -
  have "unat (s + 511) = length src + 511" using small that by (subst unat_add_no_wrap) simp_all
  then show ?thesis unfolding unat_drop_bit by simp
qed

lemma merge_old_ok:
  assumes "opos (view w) = 0" "length buf = 4096"
  defines "old \<equiv> tgt (view w)"
  defines "part \<equiv> 512 \<le> length old \<and> mbr_magic old"
  shows "case merge_old os p fi fo buf w of
      Inl e \<Rightarrow> tgt (view (snd e)) = old
    | Inr ((buf', lim), w') \<Rightarrow> view w' = view w \<and> buf' = (if part then merge_table buf old else buf) \<and>
        (part \<longrightarrow> image_end src \<le> 512 * unat (first_partition old))"
proof -
  obtain got2 d w1 where r: "os_read os fo 512 w = (got2, d, w1)" by (metis prod_cases3)
  have die: "view (snd (projl (die os p msg w' :: ('w, bytes \<times> u32) run))) = view w'" "isl (die os p msg w' :: ('w, bytes \<times> u32) run)" for msg w'
    by (simp_all add: die_def bye_def removal)
  have stop: ?thesis if "merge_old os p fi fo buf w = die os p msg w'" "tgt (view w') = old" for msg w'
    using that die [of msg w'] by (auto simp: isl_def)
  from read_target [OF r] show ?thesis
  proof (elim disjE conjE)
    assume "got2 < 0" "view w1 = view w"
    then show ?thesis by (intro stop [of "''fatal: error reading from mbr target''" w1]) (simp_all add: merge_old_def r old_def)
  next
    assume d: "d = take 512 (drop (opos (view w)) (tgt (view w)))" "got2 = int (length d)" "view w1 = view w\<lparr>opos := opos (view w) + length d\<rparr>"
    have d0: "d = take 512 old" using d(1) assms(1) by (simp add: old_def)
    consider "old = []" | "old \<noteq> []" "length old < 512" | "512 \<le> length old" by fastforce
    then show ?thesis
    proof cases
      case 1
      then show ?thesis using d d0 assms(1) by (simp add: merge_old_def r part_def)
    next
      case 2
      then show ?thesis using d d0
        by (intro stop [of "''fatal: mbr truncated in mbr target''" w1]) (simp_all add: merge_old_def r old_def)
    next
      case 3
      then have ld: "length d = 512" using d0 by simp
      obtain pos w2 where s: "os_lseek os fo 0 SEEK_SET w1 = (pos, w2)" by fastforce
      have mg: "mbr_magic d = mbr_magic old" "merge_table buf d = merge_table buf old" using 3 unfolding d0 by (simp_all add: mbr_magic_def merge_table_def drop_take)
      show ?thesis
      proof (cases "pos = 0")
        case False
        then show ?thesis using rewind [OF s] d ld
          by (intro stop [of "''fatal: error seeking in mbr target''" w2]) (simp_all add: merge_old_def r s old_def)
      next
        case True
        then have v2: "view w2 = view w" using rewind [OF s] d(3) assms(1) by simp
        show ?thesis
        proof (cases "mbr_magic old")
          case False
          show ?thesis
          proof (cases "list_all (\<lambda>c. c = 0) d")
            case zero: True
            then show ?thesis using False d(2) ld True s r v2 mg by (simp add: merge_old_def part_def)
          next
            case nz: False
            then show ?thesis using False d(2) ld True s r v2 mg
              by (intro stop [of "''fatal: refusing to modify unusual mbr''" w2]) (simp_all add: merge_old_def old_def)
          qed
        next
          case m: True
          then have part: part using 3 by (simp add: part_def)
          obtain st w3 where f: "os_fstat os fi w2 = (st, w3)" by fastforce
          have v3: "view w3 = view w" using stat_source [OF f] v2 by simp
          show ?thesis
          proof (cases st)
            case None
            then show ?thesis using d(2) ld True s r v3 mg m f
              by (intro stop [of "''fatal: error statting source''" w3]) (simp_all add: merge_old_def old_def)
          next
            case (Some st')
            have fp: "first_partition (merge_table buf old) = first_partition old" using 3 assms(2) by (simp add: first_partition_merged)
            have n: "unat (drop_bit 9 (st_size st' + 511)) = (length src + 511) div 512"
              using stat_source [OF f] Some by (intro sectors_of_source) simp
            show ?thesis
            proof (cases "first_partition old < drop_bit 9 (st_size st' + 511)")
              case early: True
              show ?thesis using d(2) ld True s r v3 mg m f Some fp early
                by (intro stop [of "''fatal: partition in mbr target starts too early''" w3]) (simp_all add: merge_old_def old_def)
            next
              case late: False
              then have "(length src + 511) div 512 \<le> unat (first_partition old)" by (simp add: word_less_nat_alt n not_less)
              then have "image_end src \<le> 512 * unat (first_partition old)" by (simp add: image_end_def)
              then show ?thesis using d(2) ld True s r v3 mg m f Some fp late part by (simp add: merge_old_def)
            qed
          qed
        qed
      qed
    qed
  qed
qed

lemma install_ok:
  fixes active :: u8 and w :: 'w
  defines "old \<equiv> tgt (view w)"
  defines "k \<equiv> if 4 < active then 0 else unat active"
  shows "\<exists>r. install os p source target active w = Some r \<and>
    updated old (tgt (view (world_of r))) 0 (image_end src) (image_for src old k) \<and>
    (isl r \<or> 512 \<le> length src \<and> (\<forall>i < length src. i < length (tgt (view (world_of r))) \<and> tgt (view (world_of r)) ! i = image_for src old k ! i)) \<and>
    (tgt (view (world_of r)) = old \<or> 512 \<le> length src \<and> (512 \<le> length old \<and> mbr_magic old \<longrightarrow> image_end src \<le> 512 * unat (first_partition old)))"
proof -
  let ?goal = "\<lambda>r. install os p source target active w = Some r \<and>
    updated old (tgt (view (world_of r))) 0 (image_end src) (image_for src old k) \<and>
    (isl r \<or> 512 \<le> length src \<and> (\<forall>i < length src. i < length (tgt (view (world_of r))) \<and> tgt (view (world_of r)) ! i = image_for src old k ! i)) \<and>
    (tgt (view (world_of r)) = old \<or> 512 \<le> length src \<and> (512 \<le> length old \<and> mbr_magic old \<longrightarrow> image_end src \<le> 512 * unat (first_partition old)))"
  have stop: "\<exists>r. ?goal r" if "install os p source target active w = Some (die os p msg w')" "tgt (view w') = old" for msg w'
  proof -
    obtain w2 where "(die os p msg w' :: ('w, unit) run) = Inl (2, w2)" "view w2 = view w'" using die_view [of p msg w'] by blast
    then show ?thesis using that by (intro exI [of _ "Inl (2, w2)"]) (simp add: updated_refl)
  qed
  define act where "act = (if 4 < active then 0 else active)"
  have k: "k = unat act" by (simp add: k_def act_def)
  define w0 where "w0 = (if act \<noteq> 0 then write_err os ((0x30 + act) # line '' active'') (write_err os (str ''info: will make partition '') w) else w)"
  have v0: "view w0 = view w" by (simp add: w0_def)
  obtain fdin w1 where o: "os_open os source O_RDONLY w0 = (fdin, w1)" by fastforce
  note I = install_def Let_def act_def [symmetric] w0_def [symmetric] o prod.case
  show ?thesis
  proof (cases "fdin < 0")
    case True
    show ?thesis by (rule stop [of "''fatal: error opening source''" w1]) (use True open_source [OF o] v0 fds(1) in \<open>simp_all add: I old_def\<close>)
  next
    case False
    then have fi: "fdin = fi" "view w1 = view w\<lparr>ipos := 0\<rparr>" using open_source [OF o] v0 by auto
    obtain got d w2 where r: "os_read os fi 4096 w1 = (got, d, w2)" by (metis prod_cases3)
    note I = I fi(1) r if_not_P [OF False [unfolded fi(1)]]
    from read_source [OF r] show ?thesis
    proof (elim disjE conjE)
      assume "got < 0" "view w2 = view w1"
      then show ?thesis by (intro stop [of "''fatal: error reading from source''" w2]) (simp_all add: I old_def fi)
    next
      assume d: "d = take 4096 (drop (ipos (view w1)) src)" "got = int (length d)" "view w2 = view w1\<lparr>ipos := ipos (view w1) + length d\<rparr>"
      define buf where "buf = d @ replicate (4096 - length d) 0"
      have d0: "d = take 4096 src" "view w2 = view w\<lparr>ipos := length d\<rparr>" using d fi(2) by simp_all
      have lb: "length buf = 4096" by (simp add: buf_def d0)
      show ?thesis
      proof (cases "got < 512 \<or> \<not> mbr_magic buf")
        case True
        show ?thesis
        proof (cases "got < 512")
          case True
          then show ?thesis using d(2) d0
            by (intro stop [of "''fatal: source too short''" w2]) (simp_all add: I old_def min_less_iff_disj)
        next
          case False
          then show ?thesis using d(2) d0 True by (intro stop [of "''fatal: bad mbr in source''" w2]) (simp_all add: I old_def buf_def)
        qed
      next
        case False
        then have ok: "\<not> got < 0" "\<not> got < 512" "mbr_magic buf" "512 \<le> length src" using d(2) d0(1) by auto
        have rest: "install os p source target active w = (case open_target os p target w2 of
            Inl e \<Rightarrow> Some (Inl e)
          | Inr (fdout, w) \<Rightarrow> (case merge_old os p fi fdout buf w of
              Inl e \<Rightarrow> Some (Inl e)
            | Inr ((buf, lim), w) \<Rightarrow> copy_loop os p fi fdout 0 lim (set_active buf k) got w))"
          unfolding I buf_def [symmetric] k using ok by simp
        show ?thesis
        proof (cases "open_target os p target w2")
          case (Inl e)
          show ?thesis using open_target_ok [of w2 p] Inl d0(2)
            by (intro exI [of _ "Inl e"]) (simp add: rest updated_refl old_def)
        next
          case (Inr fw)
          then obtain w3 where w3: "open_target os p target w2 = Inr (fo, w3)" "view w3 = view w2\<lparr>opos := 0\<rparr>"
            using open_target_ok [of w2 p] by (cases fw) auto
          have t3: "tgt (view w3) = old" using w3(2) d0(2) by (simp add: old_def)
          have M: "case merge_old os p fi fo buf w3 of
              Inl e \<Rightarrow> tgt (view (snd e)) = old
            | Inr ((buf', lim), w') \<Rightarrow> view w' = view w3 \<and> buf' = (if 512 \<le> length old \<and> mbr_magic old then merge_table buf old else buf) \<and>
                (512 \<le> length old \<and> mbr_magic old \<longrightarrow> image_end src \<le> 512 * unat (first_partition old))"
            by (rule merge_old_ok [of w3 buf p, unfolded t3]) (use w3(2) lb in simp_all)
          show ?thesis
          proof (cases "merge_old os p fi fo buf w3")
            case (Inl e)
            then show ?thesis using M w3(1)
              by (intro exI [of _ "Inl e"]) (simp add: rest updated_refl)
          next
            case (Inr blw)
            obtain buf' lim w4 where blw: "blw = ((buf', lim), w4)" by (metis surj_pair)
            let ?img = "image_for src old k"
            have m: "view w4 = view w3" "buf' = (if 512 \<le> length old \<and> mbr_magic old then merge_table buf old else buf)"
              "512 \<le> length old \<and> mbr_magic old \<longrightarrow> image_end src \<le> 512 * unat (first_partition old)"
              using M unfolding Inr blw by simp_all
            have k4: "k \<le> 4" by (simp add: k_def word_less_nat_alt)
            have c: "install os p source target active w = copy_loop os p fi fo 0 lim (set_active buf' k) (int (length d)) w4"
              using w3(1) Inr blw by (simp add: rest d(2))
            have bs: "buf ! i = src ! i" if "i < length d" for i using that by (simp add: buf_def nth_append d0(1))
            have n: "length d \<le> length src" "length d \<le> 4096" using d0(1) by simp_all
            note B = image_for_bytes [OF ok(4) k4 lb bs n, where old = old, folded m(2)]
            have "\<exists>r. copy_loop os p fi fo 0 lim (set_active buf' k) (int (length d)) w4 = Some r \<and>
                updated (tgt (view w4)) (tgt (view (world_of r))) 0 (image_end src) ?img \<and>
                (isl r \<or> (\<forall>i \<in> {0..<length src}. i < length (tgt (view (world_of r))) \<and> tgt (view (world_of r)) ! i = ?img ! i))"
              by (rule copy_loop_ok [OF B(1,4)]) (use m(1) w3(2) d0 B(2,3) in simp_all)
            then show ?thesis using c m(1,3) t3 ok(4) by (elim exE) (auto intro!: exI)
          qed
        qed
      qed
    qed
  qed
qed

end


lemma image_for_length: "length (image_for src old k) = length src"
  by (simp add: image_for_def)

lemma image_for_table:
  assumes "512 \<le> length src" "512 \<le> length old" "mbr_magic old" "j \<in> {0x1b8..<0x1fe} - active_bytes" "k \<le> 4"
  shows "image_for src old k ! j = old ! j"
  using assms merge_table_length [of src old] by (auto simp: image_for_code set_active_nth merge_table_nth)

lemma updated_drop:
  assumes "updated old new 0 R img" "length img \<le> R" "R \<le> s"
  shows "drop s new = drop s old"
proof (cases "s < length new")
  case True
  then have l: "length new = length old" using assms(1,3) by (auto simp: updated_def max_def split: if_splits)
  show ?thesis
  proof (rule nth_equalityI)
    fix i assume "i < length (drop s new)"
    then have "s + i < length new" by simp
    then have "new ! (s + i) = old ! (s + i)" using assms unfolding updated_def by fastforce
    then show "drop s new ! i = drop s old ! i" using True l by simp
  qed (use l in simp)
next
  case False
  then show ?thesis using assms(1) by (simp add: updated_def)
qed

text \<open>C14. The installer never destroys a partition: whatever fails, at whatever point (a read, a short write, an exit in the middle), no byte
  at or behind the start of a partition in the table changes, and the disk signature and the table itself, other than the
  active flags, stay as they are.  It always ends.\<close>

theorem install_keeps_partitions:
  assumes "installation os source target src fi fo view" "512 \<le> length (tgt (view w))" "mbr_magic (tgt (view w))"
  shows "\<exists>r. install os p source target active w = Some r \<and>
    (\<forall>i < 4. ptype (pte_at (tgt (view w)) i) \<noteq> 0 \<longrightarrow>
      drop (512 * unat (lba_first (pte_at (tgt (view w)) i))) (tgt (view (world_of r))) = drop (512 * unat (lba_first (pte_at (tgt (view w)) i))) (tgt (view w))) \<and>
    (\<forall>j \<in> {0x1b8..<0x1fe} - active_bytes. tgt (view (world_of r)) ! j = tgt (view w) ! j)"
proof -
  let ?old = "tgt (view w)" and ?k = "if 4 < active then 0 else unat active"
  obtain r where r: "install os p source target active w = Some r" "updated ?old (tgt (view (world_of r))) 0 (image_end src) (image_for src ?old ?k)"
    "tgt (view (world_of r)) = ?old \<or> 512 \<le> length src \<and> (512 \<le> length ?old \<and> mbr_magic ?old \<longrightarrow> image_end src \<le> 512 * unat (first_partition ?old))"
    using installation.install_ok [OF assms(1), of p active w] by blast
  show ?thesis
  proof (cases "tgt (view (world_of r)) = ?old")
    case False
    then have b: "512 \<le> length src" "image_end src \<le> 512 * unat (first_partition ?old)" using r(3) assms(2,3) by blast+
    have l: "length (image_for src ?old ?k) \<le> image_end src" using image_for_length image_end_ge [of src] by simp
    have "drop (512 * unat (lba_first (pte_at ?old i))) (tgt (view (world_of r))) = drop (512 * unat (lba_first (pte_at ?old i))) ?old"
      if "i < 4" "ptype (pte_at ?old i) \<noteq> 0" for i
    proof (rule updated_drop [OF r(2) l])
      show "image_end src \<le> 512 * unat (lba_first (pte_at ?old i))" using b(2) first_partition_le [OF that] by (simp add: word_le_nat_alt)
    qed
    moreover have "tgt (view (world_of r)) ! j = ?old ! j" if j: "j \<in> {0x1b8..<0x1fe} - active_bytes" for j
    proof -
      have k: "?k \<le> 4" by (simp add: word_less_nat_alt)
      have "j < length (tgt (view (world_of r)))" "j < length (image_for src ?old ?k)"
        using r(2) j assms(2) b(1) image_for_length by (auto simp: updated_def)
      then show ?thesis using r(2) image_for_table [OF b(1) assms(2,3) j k] unfolding updated_def by fastforce
    qed
    ultimately show ?thesis using r(1) by blast
  qed (use r(1) in auto)
qed

text \<open>C24. A run of the installer that ends well has written the whole image, with the old partition table merged into its first sector
  and the chosen partition made active, and nothing behind the image's last sector.\<close>

theorem install_writes_image:
  assumes "installation os source target src fi fo view" "install os p source target active w = Some (Inr ((), w'))"
  shows "take (length src) (tgt (view w')) = image_for src (tgt (view w)) (if 4 < active then 0 else unat active) \<and>
    drop (image_end src) (tgt (view w')) = drop (image_end src) (tgt (view w))"
proof -
  let ?img = "image_for src (tgt (view w)) (if 4 < active then 0 else unat active)"
  have r: "updated (tgt (view w)) (tgt (view w')) 0 (image_end src) ?img" "512 \<le> length src"
    "\<forall>i < length src. i < length (tgt (view w')) \<and> tgt (view w') ! i = ?img ! i"
    using installation.install_ok [OF assms(1), of p active w] assms(2) by auto
  have l: "length ?img = length src" by (rule image_for_length)
  have "length src \<le> length (tgt (view w'))" using r(3) by (metis linorder_not_le nat_less_le)
  then have "take (length src) (tgt (view w')) = ?img" using r(3) l by (intro nth_equalityI) simp_all
  moreover have "drop (image_end src) (tgt (view w')) = drop (image_end src) (tgt (view w))"
    by (rule updated_drop [OF r(1)]) (use l image_end_ge [of src] in simp_all)
  ultimately show ?thesis by blast
qed

section \<open>Searching \<open>/dev\<close>\<close>

lemma scan_dirents_stuck:
  "scan_dirents os mbr_dev buf nread bpos dev_name w = Some y \<Longrightarrow> nread \<le> bpos \<or> strlen dev_name = None \<or> the (strlen dev_name) + 6 \<le> length dev_name"
proof (induction rule: scan_dirents.raw_induct [rotated, consumes 1, case_names step])
  case (step scan os mbr_dev buf nread bpos dev_name w y)
  show ?case
  proof (cases "nread \<le> bpos \<or> strlen dev_name = None \<or> the (strlen dev_name) + 6 \<le> length dev_name")
    case False
    then have "scan os mbr_dev buf nread bpos dev_name w = Some y" using step(2) by (auto simp: not_le)
    then show ?thesis by (rule step.IH)
  qed
qed


text \<open>
  A directory listing as the system gives it: \<open>rest\<close> are the buffers that \<open>getdents\<close> has not yet given, each the list of its entries; an empty one
  is the end.  What \<open>lstat\<close> says of a name does not change during the search.
\<close>

definition is_dirent :: "bytes \<Rightarrow> bool" where
  "is_dirent d \<longleftrightarrow> dirent_reclen d = Some (length d) \<and> is_cstr (drop 10 d)"

definition entry_name :: "bytes \<Rightarrow> bytes" where
  "entry_name d = cstr (drop 10 d)"

definition good_listing :: "bytes list list \<Rightarrow> bool" where
  "good_listing bufs \<longleftrightarrow> list_all (\<lambda>ds. ds \<noteq> [] \<and> length (concat ds) \<le> 4096 \<and> list_all is_dirent ds) bufs"

locale dev_listing =
  fixes os :: "'w os" and fd :: int and rest :: "'w \<Rightarrow> bytes list list" and status :: "bytes \<Rightarrow> stat option"
  assumes getdents: "os_getdents os fd 4096 w = (n, buf, w') \<Longrightarrow> (case rest w of
        [] \<Rightarrow> n = 0 \<and> rest w' = []
      | ds # r \<Rightarrow> n = of_nat (length (concat ds)) \<and> take (length (concat ds)) buf = concat ds \<and> rest w' = r)"
    and lstat: "os_lstat os path w = (st, w') \<Longrightarrow> st = status path \<and> rest w' = rest w"

definition is_device :: "(bytes \<Rightarrow> stat option) \<Rightarrow> u32 \<Rightarrow> bytes \<Rightarrow> bool" where
  "is_device status mbr_dev name = (case status (str ''/dev/'' @ name) of Some st \<Rightarrow> S_ISBLK (st_mode st) \<and> st_rdev st = mbr_dev | None \<Rightarrow> False)"

text \<open>The search over the names alone: \<open>prev\<close> is the name before, which is still in \<open>dev_name\<close>.\<close>

fun dev_search :: "(bytes \<Rightarrow> bool) \<Rightarrow> bytes \<Rightarrow> bytes list \<Rightarrow> (bool \<times> bytes) option" where
  "dev_search dev prev [] = Some (False, prev)"
| "dev_search dev prev (n # ns) =
     (if 21 < length prev \<or> 26 < length n then None else if dev n then Some (True, n) else dev_search dev n ns)"

lemma dev_search_append:
  "dev_search dev prev (xs @ ys) = do { (found, p) \<leftarrow> dev_search dev prev xs; if found then Some (True, p) else dev_search dev p ys }"
  by (induction dev prev xs rule: dev_search.induct) auto

definition tried :: "(bytes \<Rightarrow> bool) \<Rightarrow> bytes list \<Rightarrow> bytes list" where
  "tried dev ns = take (Suc (length (takeWhile (\<lambda>n. \<not> dev n) ns))) ns"

lemma tried_simps: "tried dev [] = []" "tried dev (n # ns) = n # (if dev n then [] else tried dev ns)"
  by (simp_all add: tried_def)

lemma dev_search_ends:
  "dev_search dev prev ns \<noteq> None \<longleftrightarrow>
    (\<forall>n \<in> set (butlast (prev # tried dev ns)). length n \<le> 21) \<and> (ns \<noteq> [] \<longrightarrow> length (last (tried dev ns)) \<le> 26)"
proof (induction ns arbitrary: prev)
  case (Cons n ns)
  have "tried dev ns = [] \<longleftrightarrow> ns = []" by (cases ns) (simp_all add: tried_simps)
  then show ?case using Cons.IH [of n] by (cases "dev n"; cases ns) (auto simp: tried_simps not_less)
qed (simp add: tried_simps)

lemma dev_search_finds:
  "dev_search dev prev ns = Some (found, p) \<Longrightarrow>
    if found then (\<exists>i < length ns. p = ns ! i \<and> dev p \<and> (\<forall>j < i. \<not> dev (ns ! j))) else (\<forall>n \<in> set ns. \<not> dev n)"
proof (induction ns arbitrary: prev)
  case (Cons n ns)
  show ?case
  proof (cases "dev n")
    case True
    then show ?thesis using Cons.prems by (auto split: if_splits)
  next
    case False
    then have s: "dev_search dev n ns = Some (found, p)" using Cons.prems by (auto split: if_splits)
    show ?thesis
    proof (cases found)
      case True
      then obtain i where i: "i < length ns" "p = ns ! i" "dev p" "\<forall>j < i. \<not> dev (ns ! j)" using Cons.IH [OF s] by auto
      have "\<not> dev ((n # ns) ! j)" if "j < Suc i" for j using that i(4) False by (cases j) auto
      then have "\<exists>i < length (n # ns). p = (n # ns) ! i \<and> dev p \<and> (\<forall>j < i. \<not> dev ((n # ns) ! j))" using i(1-3) by (intro exI [of _ "Suc i"]) simp
      then show ?thesis using True by simp
    qed (use Cons.IH [OF s] False in auto)
  qed
qed simp

text \<open>What \<open>dev_name\<close> holds.\<close>

definition holds_name :: "bytes \<Rightarrow> bytes \<Rightarrow> bool" where
  "holds_name dev_name name \<longleftrightarrow> length dev_name = 32 \<and> 0 \<notin> set name \<and> (\<exists>junk. dev_name = str ''/dev/'' @ name @ 0 # junk)"

lemma str_dev: "str ''/dev/'' = [0x2f, 0x64, 0x65, 0x76, 0x2f]" "str ''/dev'' = [0x2f, 0x64, 0x65, 0x76]"
  by (simp_all add: str_def)

lemma holds_name_cstr:
  assumes "holds_name dev_name name"
  shows "cstr dev_name = str ''/dev/'' @ name" "strlen dev_name = Some (5 + length name)" "length dev_name = 32"
proof -
  show c: "cstr dev_name = str ''/dev/'' @ name" using assms by (auto simp: holds_name_def str_dev)
  have "is_cstr dev_name" using assms by (auto simp: holds_name_def is_cstr_def)
  then show "strlen dev_name = Some (5 + length name)" using c by (simp add: strlen_cstr str_dev)
qed (use assms in \<open>simp add: holds_name_def\<close>)

lemma holds_name_put:
  assumes "holds_name dev_name prev" "0 \<notin> set name"
  shows "wr_range dev_name 5 (name @ [0]) = (if 26 < length name then None
    else Some (str ''/dev/'' @ name @ 0 # drop (6 + length name) dev_name))"
    and "length name \<le> 26 \<Longrightarrow> holds_name (str ''/dev/'' @ name @ 0 # drop (6 + length name) dev_name) name"
proof -
  have l: "length dev_name = 32" and t: "take 5 dev_name = str ''/dev/''" using assms(1) by (auto simp: holds_name_def str_dev)
  show "wr_range dev_name 5 (name @ [0]) = (if 26 < length name then None
    else Some (str ''/dev/'' @ name @ 0 # drop (6 + length name) dev_name))" using l t by (simp add: wr_range_def)
  show "holds_name (str ''/dev/'' @ name @ 0 # drop (6 + length name) dev_name) name" if "length name \<le> 26"
    using that l assms(2) by (simp add: holds_name_def str_dev)
qed

lemma dirent_append:
  assumes "is_dirent d"
  shows "dirent_reclen (d @ x) = Some (length d)" "dirent_name (d @ x) = Some (entry_name d)" "0 < length d" "0 \<notin> set (entry_name d)"
proof -
  have l: "10 \<le> length d" and r: "unat (le16_of (d ! 8) (d ! 9)) = length d" using assms by (auto simp: is_dirent_def dirent_reclen_def split: if_splits)
  show "dirent_reclen (d @ x) = Some (length d)" using l r by (simp add: dirent_reclen_def nth_append)
  show "0 < length d" using l by (cases d) simp_all
  obtain t where t: "drop 10 d = cstr (drop 10 d) @ 0 # t" using is_cstr_split assms unfolding is_dirent_def by blast
  then have "drop 10 (d @ x) = cstr (drop 10 d) @ 0 # (t @ x)" using l by simp
  then show "dirent_name (d @ x) = Some (entry_name d)" by (simp add: dirent_name_def entry_name_def)
  show "0 \<notin> set (entry_name d)" by (simp add: entry_name_def)
qed

context dev_listing begin

lemma scan_dirents_ok:
  assumes "holds_name dev_name prev" "\<And>d. d \<in> set ds \<Longrightarrow> is_dirent d" "take nread buf = pre @ concat ds" "nread = length (pre @ concat ds)" "nread \<le> length buf"
  shows "case dev_search (is_device status mbr_dev) prev (map entry_name ds) of
      None \<Rightarrow> scan_dirents os mbr_dev buf nread (length pre) dev_name w = None
    | Some (found, p) \<Rightarrow> \<exists>dev_name' w'. scan_dirents os mbr_dev buf nread (length pre) dev_name w = Some (found, dev_name', w') \<and>
        holds_name dev_name' p \<and> rest w' = rest w"
  using assms
proof (induction ds arbitrary: dev_name prev pre w)
  case Nil
  then show ?case by (subst scan_dirents.simps) simp
next
  case (Cons d ds)
  let ?n = "entry_name d"
  note d = dirent_append [OF Cons.prems(2) [OF list.set_intros(1)]]
  have "buf = pre @ d @ concat ds @ drop nread buf" using Cons.prems(3) append_take_drop_id [of nread buf] by simp
  then have b: "drop (length pre) buf = d @ (concat ds @ drop nread buf)" by (metis append_eq_conv_conj)
  have more: "\<not> nread \<le> length pre" using Cons.prems(4) d(3) by simp
  note h = holds_name_cstr [OF Cons.prems(1)] and put = holds_name_put [OF Cons.prems(1) d(4)]
  consider "21 < length prev" | "length prev \<le> 21" "26 < length ?n" | "length prev \<le> 21" "length ?n \<le> 26" by linarith
  then show ?case
  proof cases
    case 1
    have "scan_dirents os mbr_dev buf nread (length pre) dev_name w = None"
    proof (rule ccontr)
      assume "scan_dirents os mbr_dev buf nread (length pre) dev_name w \<noteq> None"
      then obtain y where "scan_dirents os mbr_dev buf nread (length pre) dev_name w = Some y" by blast
      from scan_dirents_stuck [OF this] show False using more h 1 by simp
    qed
    then show ?thesis using 1 by simp
  next
    case 2
    then show ?thesis using more h put(1) by (subst scan_dirents.simps) (simp add: b d(2))
  next
    case 3
    define dn where "dn = str ''/dev/'' @ ?n @ 0 # drop (6 + length ?n) dev_name"
    have dn: "wr_range dev_name 5 (?n @ [0]) = Some dn" "holds_name dn ?n" using put 3 by (simp_all add: dn_def)
    obtain st w1 where st: "os_lstat os (str ''/dev/'' @ ?n) w = (st, w1)" by fastforce
    have w1: "st = status (str ''/dev/'' @ ?n)" "rest w1 = rest w" using lstat [OF st] by simp_all
    have step: "scan_dirents os mbr_dev buf nread (length pre) dev_name w =
        (if is_device status mbr_dev ?n then Some (True, dn, w1) else scan_dirents os mbr_dev buf nread (length pre + length d) dn w1)"
      using more h 3 dn(1) st holds_name_cstr(1) [OF dn(2)] w1(1)
      by (subst scan_dirents.simps) (simp add: b d(1,2) is_device_def)
    show ?thesis
    proof (cases "is_device status mbr_dev ?n")
      case True
      then show ?thesis using step 3 dn(2) w1(2) by simp
    next
      case False
      then show ?thesis using Cons.IH [OF dn(2), of "pre @ d" w1, unfolded length_append w1(2)] Cons.prems(2-5) 3 unfolding step by simp
    qed
  qed
qed

lemma read_dirents_ok:
  assumes "holds_name dev_name prev" "good_listing (rest w)"
  shows "case dev_search (is_device status mbr_dev) prev (map entry_name (concat (rest w))) of
      None \<Rightarrow> read_dirents os mbr_dev fd dev_name w = None
    | Some (found, p) \<Rightarrow> \<exists>dev_name' w'. read_dirents os mbr_dev fd dev_name w = Some (if found then 0 else 1, dev_name', w') \<and> holds_name dev_name' p"
  using assms
proof (induction "rest w" arbitrary: w dev_name prev)
  case Nil
  obtain n buf w1 where g: "os_getdents os fd 4096 w = (n, buf, w1)" by (metis prod_cases3)
  then show ?case using getdents [OF g] Nil by (simp add: read_dirents.simps [of os mbr_dev fd dev_name w])
next
  case (Cons ds r)
  obtain n buf w1 where g: "os_getdents os fd 4096 w = (n, buf, w1)" by (metis prod_cases3)
  let ?l = "length (concat ds)"
  have n: "n = of_nat ?l" "take ?l buf = concat ds" "rest w1 = r" using getdents [OF g] Cons.hyps(2) [symmetric] by simp_all
  have ds: "ds \<noteq> []" "?l \<le> 4096" "\<And>d. d \<in> set ds \<Longrightarrow> is_dirent d" using Cons.prems(2) Cons.hyps(2) [symmetric] by (simp_all add: good_listing_def list_all_iff)
  have u: "unat n = ?l" unfolding n(1) using ds(2) by (intro unat_of_nat_small) simp
  have "0 < length (hd ds)" "length (hd ds) \<le> ?l" using ds(1,3) dirent_append(3) [of "hd ds"] by (cases ds; simp)+
  then have "0 < unat n" unfolding u by (rule less_le_trans)
  then have "n \<noteq> 0" by auto
  moreover have "n \<noteq> - 1"
  proof
    assume "n = - 1"
    then have "unat n = 0xffffffff" by (simp add: unsigned_minus_1_eq_mask mask_eq_exp_minus_1)
    then show False using u ds(2) by simp
  qed
  ultimately have step: "read_dirents os mbr_dev fd dev_name w =
      do { (found, dev_name, w) \<leftarrow> scan_dirents os mbr_dev buf ?l 0 dev_name w1;
           if found then Some (0, dev_name, w) else read_dirents os mbr_dev fd dev_name w }"
    using g u by (subst read_dirents.simps) simp
  have lb: "?l \<le> length buf" using n(2) by (metis length_take min.absorb_iff2 min.commute order_refl)
  have t: "take ?l buf = [] @ concat ds" "?l = length ([] @ concat ds)" using n(2) by simp_all
  have S: "case dev_search (is_device status mbr_dev) prev (map entry_name ds) of
      None \<Rightarrow> scan_dirents os mbr_dev buf ?l 0 dev_name w1 = None
    | Some (found, p) \<Rightarrow> \<exists>dev_name' w'. scan_dirents os mbr_dev buf ?l 0 dev_name w1 = Some (found, dev_name', w') \<and>
        holds_name dev_name' p \<and> rest w' = rest w1"
    by (rule scan_dirents_ok [OF Cons.prems(1) ds(3) t lb, unfolded list.size(3)])
  have split: "dev_search (is_device status mbr_dev) prev (map entry_name (concat (rest w))) =
      do { (found, p) \<leftarrow> dev_search (is_device status mbr_dev) prev (map entry_name ds);
           if found then Some (True, p) else dev_search (is_device status mbr_dev) p (map entry_name (concat r)) }"
    unfolding Cons.hyps(2) [symmetric] by (simp add: dev_search_append)
  show ?case
  proof (cases "dev_search (is_device status mbr_dev) prev (map entry_name ds)")
    case None
    then show ?thesis using S unfolding step split by simp
  next
    case (Some fp)
    obtain found p where fp: "fp = (found, p)" by fastforce
    obtain dn w2 where s: "scan_dirents os mbr_dev buf ?l 0 dev_name w1 = Some (found, dn, w2)" "holds_name dn p" "rest w2 = r"
      using S n(3) unfolding Some fp by auto
    have "good_listing (rest w2)" using Cons.prems(2) Cons.hyps(2) [symmetric] s(3) by (simp add: good_listing_def)
    note I = Cons.hyps(1) [OF s(3) [symmetric] s(2) this, unfolded s(3)]
    show ?thesis using s(2) I unfolding step split Some fp s(1) bind.bind_lunit prod.case by (cases found) simp_all
  qed
qed

end

text \<open>C39. When the search of \<^verbatim>\<open>/dev\<close> for the disk ends, and what it finds.  Of the names up to the disk's own (of all names, when it is not there), each
  but the last has to have at most 21 bytes and the last at most 26; then the result is 0 with the path of the first entry that is the disk, or 1
  when there is none.  In every other case there is no result.  This is a fault: a name of 22 to 26 bytes before the disk still fits the buffer,
  but the test for the room for the next name measures it instead of the next one, and its \<open>continue\<close> goes to the same entry again for ever (a longer name overruns the buffer).\<close>

theorem find_device_name_ends_iff:
  fixes os :: "'w os" and mbr_dev :: u32 and rest status
  assumes "dev_listing os fd rest status" "os_open os (str ''/dev'') (O_RDONLY OR O_DIRECTORY) w = (fd, w1)" "0 \<le> fd" "good_listing (rest w1)"
  defines "names \<equiv> map entry_name (concat (rest w1))" and "dev \<equiv> is_device status mbr_dev"
  shows "(find_device_name os mbr_dev (replicate 32 0) w \<noteq> None \<longleftrightarrow>
      (\<forall>n \<in> set (butlast (tried dev names)). length n \<le> 21) \<and> (names \<noteq> [] \<longrightarrow> length (last (tried dev names)) \<le> 26)) \<and>
    (\<forall>res dev_name w'. find_device_name os mbr_dev (replicate 32 0) w = Some (res, dev_name, w') \<longrightarrow>
      (if res = 0 then \<exists>i < length names. cstr dev_name = str ''/dev/'' @ names ! i \<and> dev (names ! i) \<and> (\<forall>j < i. \<not> dev (names ! j))
       else res = 1 \<and> (\<forall>n \<in> set names. \<not> dev n)))"
proof -
  define dn where "dn = str ''/dev/'' @ replicate 27 0"
  have h: "holds_name dn []" unfolding holds_name_def dn_def str_dev by (intro conjI exI [of _ "replicate 26 0"]) (simp_all add: replicate_Suc [symmetric] del: replicate_Suc)
  have "wr_range (replicate 32 0) 0 (str ''/dev/'') = Some dn" by (simp add: dn_def str_dev wr_range_def)
  then have f: "find_device_name os mbr_dev (replicate 32 0) w =
      do { (res, dev_name, w) \<leftarrow> read_dirents os mbr_dev fd dn w1; Some (res, dev_name, os_close os fd w) }"
    using assms(2,3) by (simp add: find_device_name_def)
  have R: "case dev_search dev [] names of
      None \<Rightarrow> read_dirents os mbr_dev fd dn w1 = None
    | Some (found, p) \<Rightarrow> \<exists>dev_name' w'. read_dirents os mbr_dev fd dn w1 = Some (if found then 0 else 1, dev_name', w') \<and> holds_name dev_name' p"
    unfolding names_def dev_def by (rule dev_listing.read_dirents_ok [OF assms(1) h assms(4)])
  have E: "dev_search dev [] names \<noteq> None \<longleftrightarrow>
      (\<forall>n \<in> set (butlast (tried dev names)). length n \<le> 21) \<and> (names \<noteq> [] \<longrightarrow> length (last (tried dev names)) \<le> 26)"
    using dev_search_ends [of dev "[]" names] by (cases names) (auto simp: tried_simps)
  show ?thesis
  proof (cases "dev_search dev [] names")
    case None
    then show ?thesis using R E f by simp
  next
    case (Some fp)
    obtain found p where fp: "fp = (found, p)" by fastforce
    obtain dn' w' where r: "read_dirents os mbr_dev fd dn w1 = Some (if found then 0 else 1, dn', w')" "holds_name dn' p" using R unfolding Some fp by auto
    show ?thesis using f r(1) E dev_search_finds [OF Some [unfolded fp]] holds_name_cstr(1) [OF r(2)] unfolding Some by (cases found) auto
  qed
qed


section \<open>A system to try it on\<close>

text \<open>Files with descriptors 3 (the source) and 4 (the target), no errors; \<^verbatim>\<open>/dev\<close> has the entries of one buffer.\<close>

definition ram_read :: "bytes \<Rightarrow> nat \<Rightarrow> nat \<Rightarrow> bytes" where
  "ram_read c q n = take n (drop q c)"

definition ram_os :: "bytes \<Rightarrow> bytes \<Rightarrow> bytes \<Rightarrow> bytes \<Rightarrow> files os" where
  "ram_os source target src dents =
     \<lparr>os_open = (\<lambda>path flags w. if path = source \<and> flags = O_RDONLY then (3, w\<lparr>ipos := 0\<rparr>) else if path = target then (4, w\<lparr>opos := 0\<rparr>) else if path = str ''/dev'' then (5, w) else (- 1, w)),
      os_close = (\<lambda>fd w. w),
      os_read = (\<lambda>fd n w.
        if fd = 3 then let d = ram_read src (ipos w) n in (int (length d), d, w\<lparr>ipos := ipos w + length d\<rparr>)
        else let d = ram_read (tgt w) (opos w) n in (int (length d), d, w\<lparr>opos := opos w + length d\<rparr>)),
      os_write = (\<lambda>fd bs w. if fd = 4 then (int (length bs), w\<lparr>tgt := put_at (tgt w) (opos w) bs, opos := opos w + length bs\<rparr>) else (int (length bs), w)),
      os_lseek = (\<lambda>fd pos whence w. (0, w\<lparr>opos := 0\<rparr>)),
      os_unlink = (\<lambda>path w. w),
      os_fstat = (\<lambda>fd w. (Some \<lparr>st_dev = 0, st_mode = 0x8000, st_rdev = 0, st_size = of_nat (length src)\<rparr>, w)),
      os_stat = (\<lambda>path w. (None, w)),
      os_lstat = (\<lambda>path w. (None, w)),
      os_getdents = (\<lambda>fd n w. (of_nat (length dents), dents, w)),
      os_errno = (\<lambda>w. 0),
      os_geteuid = (\<lambda>w. 0)\<rparr>"

definition demo_image :: bytes where
  "demo_image = replicate 510 1 @ [0x55, 0xaa] @ replicate 600 7"

text \<open>A disk with one partition, that starts at sector 3.\<close>

definition demo_old :: bytes where
  "demo_old = replicate 0x1be 9 @ [0, 0, 0, 0, 0x83, 0, 0, 0, 3, 0, 0, 0, 5, 0, 0, 0] @ replicate 48 0 @ [0x55, 0xaa] @ replicate 2048 0xee"

definition demo_files :: files where
  "demo_files = \<lparr>tgt = demo_old, ipos = 0, opos = 0\<rparr>"

interpretation ram_disk: installation "ram_os [1] [2] demo_image []" "[1]" "[2]" demo_image 3 4 "\<lambda>w. w"
proof unfold_locales
  show "length demo_image < 2 ^ 31" by (simp add: demo_image_def)
next
  fix bs w k w'
  assume "os_write (ram_os [1] [2] demo_image []) 4 bs w = (k, w')" "opos w \<le> length (tgt w)"
  then show "\<exists>j\<le>length bs. (k = int (length bs) \<longrightarrow> j = length bs) \<and> w' = w\<lparr>tgt := put_at (tgt w) (opos w) (take j bs), opos := opos w + j\<rparr>"
    by (intro exI [of _ "length bs"]) (auto simp: ram_os_def)
qed (auto simp: ram_os_def ram_read_def O_RDONLY_def O_RDWR_def demo_image_def str_def)


lemma demo_mbr: "512 \<le> length demo_old" "mbr_magic demo_old" "ptype (pte_at demo_old 0) = 0x83" "lba_first (pte_at demo_old 0) = 3"
    "first_partition demo_old = 3"
proof -
  show "512 \<le> length demo_old" by (simp add: demo_old_def)
  show "mbr_magic demo_old" by (simp add: demo_old_def mbr_magic_def nth_append le16_of_def)
  have "pte_at demo_old 0 = \<lparr>flags = 0, ptype = 0x83, lba_first = 3\<rparr>"
    by (simp add: demo_old_def pte_at_def nth_append le32_of_def)
  moreover have "ptype (pte_at demo_old i) = 0" if "i \<in> {1, 2, 3}" for i
    using that by (auto simp: demo_old_def pte_at_def nth_append le32_of_def)
  ultimately show "ptype (pte_at demo_old 0) = 0x83" "lba_first (pte_at demo_old 0) = 3" "first_partition demo_old = 3"
    by (simp_all add: first_partition_def upt_conv_Cons)
qed

theorem install_keeps_partitions_witness:
  "\<exists>r. install (ram_os [1] [2] demo_image []) \<lparr>do_rm = True, argv0 = [1]\<rparr> [1] [2] 1 demo_files = Some r \<and> drop 1536 (tgt (world_of r)) = drop 1536 demo_old"
proof -
  have t: "tgt demo_files = demo_old" by (simp add: demo_files_def)
  obtain r where r: "install (ram_os [1] [2] demo_image []) \<lparr>do_rm = True, argv0 = [1]\<rparr> [1] [2] 1 demo_files = Some r"
    "\<forall>i < 4. ptype (pte_at demo_old i) \<noteq> 0 \<longrightarrow>
      drop (512 * unat (lba_first (pte_at demo_old i))) (tgt (world_of r)) = drop (512 * unat (lba_first (pte_at demo_old i))) demo_old"
    using install_keeps_partitions [OF ram_disk.installation_axioms, of demo_files "\<lparr>do_rm = True, argv0 = [1]\<rparr>" 1] demo_mbr(1,2) unfolding t by blast
  then show ?thesis using r(2) [rule_format, of 0] demo_mbr(3,4) by auto
qed

lemma demo_install: "\<exists>w'. install (ram_os [1] [2] demo_image []) \<lparr>do_rm = False, argv0 = []\<rparr> [1] [2] 1 demo_files = Some (Inr ((), w'))"
proof -
  let ?os = "ram_os [1] [2] demo_image []" and ?p = "\<lparr>do_rm = False, argv0 = []\<rparr>"
  define buf d where "buf = demo_image @ replicate 2984 0" and "d = take 512 demo_old"
  have b: "length buf = 4096" "mbr_magic buf" by (simp_all add: buf_def demo_image_def mbr_magic_def nth_append le16_of_def)
  have ld: "length d = 512" using demo_mbr(1) by (simp add: d_def)
  have "mbr_magic d = mbr_magic demo_old" using demo_mbr(1) by (simp add: d_def mbr_magic_def)
  moreover have "first_partition d = first_partition demo_old" using demo_mbr(1) by (simp add: d_def first_partition_def pte_at_def upt_conv_Cons)
  ultimately have old: "mbr_magic d" "first_partition (merge_table buf d) = 3"
    using demo_mbr first_partition_merged [of buf d] b ld by simp_all
  have li: "length demo_image = 1112" by (simp add: demo_image_def)
  have o: "os_open ?os [1] O_RDONLY w = (3, w\<lparr>ipos := 0\<rparr>)" "os_open ?os [2] O_RDWR w = (4, w\<lparr>opos := 0\<rparr>)" "os_lseek ?os fd 0 SEEK_SET w = (0, w\<lparr>opos := 0\<rparr>)"
    "os_write ?os 4 bs w = (int (length bs), w\<lparr>tgt := put_at (tgt w) (opos w) bs, opos := opos w + length bs\<rparr>)" for w fd bs
    by (simp_all add: ram_os_def)
  have f: "os_fstat ?os 3 w = (Some \<lparr>st_dev = 0, st_mode = 0x8000, st_rdev = 0, st_size = 1112\<rparr>, w)" for w by (simp add: ram_os_def li)
  have e: "write_err ?os msg w = w" for msg w by (simp add: write_err_def ram_os_def)
  have r: "os_read ?os 3 4096 (w\<lparr>ipos := 0\<rparr>) = (1112, demo_image, w\<lparr>ipos := 1112\<rparr>)" for w by (simp add: ram_os_def ram_read_def li)
  have r2: "os_read ?os 4 512 (w\<lparr>opos := 0\<rparr>) = (512, d, w\<lparr>opos := 512\<rparr>)" if "tgt w = demo_old" for w
    using that ld by (simp add: ram_os_def ram_read_def d_def)
  have demo: "demo_files\<lparr>ipos := 0\<rparr> = demo_files" "tgt demo_files = demo_old" by (simp_all add: demo_files_def)
  have m: "merge_old ?os ?p 3 4 buf (w\<lparr>opos := 0\<rparr>) = Inr ((merge_table buf d, 3), w\<lparr>opos := 0\<rparr>)" if "tgt w = demo_old" for w
    using old ld by (simp add: merge_old_def r2 [OF that] o f)
  have c: "\<exists>w'. copy_loop ?os ?p 3 4 0 3 b 1112 w = Some (Inr ((), w'))" if "length b = 4096" for b w
    using that by (subst copy_loop.simps) (simp add: o)
  have t: "open_target ?os ?p [2] w = Inr (4, w\<lparr>opos := 0\<rparr>)" for w by (simp add: open_target_def o)
  have "install ?os ?p [1] [2] 1 demo_files = copy_loop ?os ?p 3 4 0 3 (set_active (merge_table buf d) 1) 1112 (demo_files\<lparr>ipos := 1112, opos := 0\<rparr>)"
    using b(2) by (simp add: install_def e o r t buf_def [symmetric] li m demo)
  then show ?thesis using c [of "set_active (merge_table buf d) 1"] merge_table_length [of buf d] b ld by simp
qed

theorem install_writes_image_witness:
  "\<exists>w' :: files. take 1112 (tgt w') = image_for demo_image demo_old 1 \<and> drop 1536 (tgt w') = drop 1536 demo_old"
proof -
  obtain w' where "install (ram_os [1] [2] demo_image []) \<lparr>do_rm = False, argv0 = []\<rparr> [1] [2] 1 demo_files = Some (Inr ((), w'))"
    using demo_install by blast
  from install_writes_image [OF ram_disk.installation_axioms this]
  have "take (length demo_image) (tgt w') = image_for demo_image demo_old 1 \<and> drop (image_end demo_image) (tgt w') = drop (image_end demo_image) demo_old"
    by (simp add: demo_files_def)
  moreover have "length demo_image = 1112" "image_end demo_image = 1536" by (simp_all add: demo_image_def image_end_def)
  ultimately show ?thesis by auto
qed

text \<open>A \<^verbatim>\<open>/dev\<close> whose listing is the world: \<open>getdents\<close> gives one buffer after the other.\<close>

definition dev_os :: "(bytes \<Rightarrow> stat option) \<Rightarrow> bytes list list os" where
  "dev_os status =
     \<lparr>os_open = (\<lambda>path flags w. (5, w)), os_close = (\<lambda>fd w. w), os_read = (\<lambda>fd n w. (- 1, [], w)), os_write = (\<lambda>fd bs w. (- 1, w)),
      os_lseek = (\<lambda>fd pos whence w. (- 1, w)), os_unlink = (\<lambda>path w. w), os_fstat = (\<lambda>fd w. (None, w)), os_stat = (\<lambda>path w. (status path, w)),
      os_lstat = (\<lambda>path w. (status path, w)),
      os_getdents = (\<lambda>fd n w. case w of [] \<Rightarrow> (0, [], []) | ds # r \<Rightarrow> (of_nat (length (concat ds)), concat ds, r)),
      os_errno = (\<lambda>w. 0), os_geteuid = (\<lambda>w. 0)\<rparr>"

interpretation ram_dev: dev_listing "dev_os status" 5 "\<lambda>w. w" status
  by unfold_locales (auto simp: dev_os_def split: list.splits)

text \<open>A disk \<^verbatim>\<open>sda\<close> (of length 3), and an entry with a name of 22 letters.\<close>

definition demo_disk :: bytes where
  "demo_disk = replicate 8 0 @ [16, 0] @ [115, 100, 97, 0, 0, 0]"

definition demo_long :: bytes where
  "demo_long = replicate 8 0 @ [40, 0] @ replicate 22 97 @ replicate 8 0"

definition demo_status :: "bytes \<Rightarrow> stat option" where
  "demo_status path = (if path = str ''/dev/sda'' then Some \<lparr>st_dev = 5, st_mode = 0x6000, st_rdev = 0x800, st_size = 0\<rparr> else None)"

lemma demo_dir: "is_dirent demo_disk" "is_dirent demo_long" "entry_name demo_disk = [115, 100, 97]" "entry_name demo_long = replicate 22 97"
    "length demo_disk = 16" "length demo_long = 40"
  by (simp_all add: demo_disk_def demo_long_def is_dirent_def dirent_reclen_def entry_name_def nth_append le16_of_def is_cstr_def takeWhile_append cstr_def)

lemma demo_device: "is_device demo_status 0x800 [115, 100, 97]" "\<not> is_device demo_status 0x800 (replicate 22 97)"
  by (simp_all add: is_device_def demo_status_def str_def S_ISBLK_def S_IFMT_def numeral_eq_Suc)

text \<open>With the long name before the disk there is no result; with the disk first it is found.\<close>

theorem find_device_name_ends_iff_witness:
  "find_device_name (dev_os demo_status) 0x800 (replicate 32 0) [[demo_long, demo_disk]] = None \<and>
   (\<exists>dev_name w'. find_device_name (dev_os demo_status) 0x800 (replicate 32 0) [[demo_disk], [demo_long]] = Some (0, dev_name, w') \<and>
     cstr dev_name = str ''/dev/sda'')"
proof -
  have o: "os_open (dev_os demo_status) (str ''/dev'') (O_RDONLY OR O_DIRECTORY) w = (5, w)" for w by (simp add: dev_os_def)
  note F = find_device_name_ends_iff [OF ram_dev.dev_listing_axioms o, where mbr_dev = "0x800"]
  have a: "good_listing [[demo_long, demo_disk]]" "good_listing [[demo_disk], [demo_long]]" by (simp_all add: good_listing_def demo_dir)
  have "find_device_name (dev_os demo_status) 0x800 (replicate 32 0) [[demo_long, demo_disk]] = None"
    using F [OF _ a(1), THEN conjunct1] by (simp add: demo_dir demo_device tried_simps del: not_None_eq)
  moreover obtain r dn w' where r: "find_device_name (dev_os demo_status) 0x800 (replicate 32 0) [[demo_disk], [demo_long]] = Some (r, dn, w')"
    using F [OF _ a(2), THEN conjunct1] by (auto simp: demo_dir demo_device tried_simps)
  moreover have "if r = 0 then \<exists>i < 2. cstr dn = str ''/dev/'' @ [[115, 100, 97], replicate 22 97] ! i \<and> is_device demo_status 0x800 ([[115, 100, 97], replicate 22 97] ! i)
      else r = 1 \<and> \<not> is_device demo_status 0x800 [115, 100, 97]"
    using F [OF _ a(2), THEN conjunct2, rule_format, OF _ r] by (auto simp: demo_dir numeral_2_eq_2 split: if_splits)
  then have "r = 0 \<and> cstr dn = str ''/dev/sda''"
    using demo_device by (auto simp: less_Suc_eq numeral_2_eq_2 str_def split: if_splits)
  ultimately show ?thesis by blast
qed

end
