(* ===== verification/Spec2Isabelle.thy ===== *)
theory Spec2Isabelle
  imports Libgcc Cstring Rllpack Fatmount Malloc Pathname Ext2dir Diskio Install
begin

text \<open>
  Verification of the C code of liigboot, a boot manager that is built on a stripped SYSLINUX 4.07, and of its installer.

  \<^bold>\<open>The program.\<close>  The boot sector loads \<^verbatim>\<open>ldlinux\<close>, whose real-mode part is assembler
  (\<^verbatim>\<open>syslinux/core\<close>) and whose 32-bit part is the C code under \<^verbatim>\<open>syslinux/libcore\<close> and
  \<^verbatim>\<open>syslinux/libcomcore\<close>.  The assembler calls \<open>fs_init\<close> with the drive and the partition it was loaded
  from; the C code asks the BIOS for the disk (\<open>device_init\<close>, \<open>disk_init\<close>), tries the file systems in turn, looks for
  the configuration file, and from then on serves \<open>pm_searchdir\<close>, \<open>pm_getfssec\<close>, \<open>pm_close_file\<close> and the
  calls for directories.  A path goes through \<open>searchdir\<close> and the \<open>iget\<close> of the file system to an inode; reading
  a file goes through \<open>generic_getfssec\<close> and the \<open>next_extent\<close> of the file system to runs of sectors, which
  \<open>rdwr_sectors\<close> fetches with BIOS calls; metadata goes through the block cache.

  \<^bold>\<open>The theories\<close>, from the bottom up.  Paths are relative to \<^verbatim>\<open>src/syslinux\<close>.

  \<^item> \<^verbatim>\<open>Prelude\<close>: words of 8 to 64 bits, C objects as lists of bytes with checked access, little-endian
    fields, and the lemmas on words, lists and options that all components share.
  \<^item> \<^verbatim>\<open>Dll\<close>: circular doubly linked lists.  The locale \<open>dll_store\<close> is the interface of a store of links; the
    unlink and insert sequences are verified once there.
  \<^item> \<^verbatim>\<open>Libgcc\<close> (\<^verbatim>\<open>libcomcore/libgcc\<close>): 64-bit division on a 32-bit machine.  It is exact for all operands, except that
    \<open>__moddi3\<close> has the sign of the wrong operand, which is stated exactly.
  \<^item> \<^verbatim>\<open>Cstring\<close> (\<^verbatim>\<open>libcomcore/str*.c\<close>, \<^verbatim>\<open>memcmp.c\<close>, \<^verbatim>\<open>zalloc.c\<close>, \<^verbatim>\<open>libcore/str*casecmp.c\<close>): every routine,
    with the bounds that it keeps.
  \<^item> \<^verbatim>\<open>Vsnprintf\<close> (\<^verbatim>\<open>libcomcore/vsnprintf.c\<close>, \<^verbatim>\<open>snprintf.c\<close>, \<^verbatim>\<open>sprintf.c\<close>, \<^verbatim>\<open>libcore/printf.c\<close>): the state machine and the
    conversions, refined to a reference formatter that builds the whole text, cut at the size of the buffer.
  \<^item> \<^verbatim>\<open>Rllpack\<close> (\<^verbatim>\<open>libcore/rllpack.c\<close>): the run-length packer, with its round trip.
  \<^item> \<^verbatim>\<open>Malloc\<close> (\<^verbatim>\<open>libcore/mem\<close>): both heaps in a flat memory.  The invariant \<open>heap_ok\<close> covers both chains of
    a heap; allocation is first fit over it, freeing merges neighbours, the tagged release frees all blocks of a tag.
  \<^item> \<^verbatim>\<open>Cache\<close> (\<^verbatim>\<open>libcore/fs/cache.c\<close>, \<open>getoneblk\<close>): the LRU block cache.  The locale \<open>block_device\<close> is what the cache needs of
    \<open>rdwr_sectors\<close>; \<open>cache_ready\<close> is its invariant, and the chain refines an abstract LRU list.
  \<^item> \<^verbatim>\<open>Diskio\<close> (\<^verbatim>\<open>libcore/fs/diskio.c\<close>): the drivers behind \<open>rdwr_sectors\<close>, CHS and EDD, with their retries, the bounce
    buffer for memory that real mode cannot reach, and the detection of the disk.  The locale \<open>edd_bios\<close> is the contract
    of the BIOS call; \<open>edd_volume\<close> adds a partition and the buffers of the cache, and is a \<open>sublocale\<close> of \<open>block_device\<close>.
  \<^item> \<^verbatim>\<open>Fstypes\<close> (\<^verbatim>\<open>include/fs.h\<close>): inodes, extents, the geometry of a mounted file system.
  \<^item> \<^verbatim>\<open>Getfssec\<close> (\<^verbatim>\<open>libcore/fs/getfssec.c\<close>, \<^verbatim>\<open>nonextextent.c\<close>): reading a file through \<open>next_extent\<close>.  The locale \<open>extent_map\<close> is
    the contract of that method: asked at a boundary (what the boundaries are is a parameter), the run it gives starts at the sector asked for, is not
    empty, maps every sector of it, and ends at a boundary.
  \<^item> \<^verbatim>\<open>Fat\<close>, \<^verbatim>\<open>Fatdir\<close>, \<^verbatim>\<open>Fatfind\<close>, \<^verbatim>\<open>Fatmount\<close> (\<^verbatim>\<open>libcore/fs/fat/fat.c\<close>): the allocation table in its three widths, the
    extents of a file, short and long names, the search in a directory, the directory reader, mounting.  The locales
    \<open>fat_volume\<close>, \<open>fat_file\<close> and \<open>fat_tree\<close> describe a volume, a cluster chain and a directory on it; \<open>fat_file\<close> is a \<open>sublocale\<close>
    of \<open>extent_map\<close>, which gives the reader for FAT files.
  \<^item> \<^verbatim>\<open>Ext2map\<close>, \<^verbatim>\<open>Ext2\<close>, \<^verbatim>\<open>Ext2dir\<close> (\<^verbatim>\<open>libcore/fs/ext2\<close>): the block map (extent trees and indirect blocks), group descriptors and
    inodes, directories, links and mounting.  \<open>ext2_file\<close> is a \<open>sublocale\<close> of \<open>extent_map\<close>, with boundaries at the blocks that are not inside
    a missing table; \<open>ext2_dir\<close> describes a directory.
  \<^item> \<^verbatim>\<open>Vfs\<close>, \<^verbatim>\<open>Searchdir\<close> (\<^verbatim>\<open>libcore/fs/fs.c\<close>): the table of open files, inodes with reference counts, the path
    search with symbolic links over the operations of a file system, the entry points of the real-mode code.
  \<^item> \<^verbatim>\<open>Pathname\<close> (\<^verbatim>\<open>chdir.c\<close>, \<^verbatim>\<open>getcwd.c\<close>, \<^verbatim>\<open>readdir.c\<close>, \<^verbatim>\<open>lib/*.c\<close>, \<^verbatim>\<open>newconfig.c\<close>): paths from inodes, the current
    directory, name mangling, and the search for the configuration file.
  \<^item> \<^verbatim>\<open>Install\<close> (\<^verbatim>\<open>src/install.c\<close>, a Linux program): writes the boot image in front of the first partition, keeps the partition table.
    The locale \<open>installation\<close> says what it relies on in the system calls, any of which may fail, and \<open>dev_listing\<close> what the search of \<^verbatim>\<open>/dev\<close> relies on.

  \<^bold>\<open>How the code is modelled.\<close>  One definition stands for one function, or for a loop or a step of one, with the same name
  where Isabelle allows it, and takes the branches of the code in their order.  A structure is a record, an enumeration a
  datatype.  Integers are words of the width the code has; \<open>int\<close> variables whose overflow is undefined are integers with a check.
  State (the device with its cache, the heap, the table of files, the current directory, memory) is passed
  explicitly.  \<open>None\<close> is undefined behaviour (an access outside an object, a division by zero) or a loop that does not end; so a
  theorem that gives \<open>Some\<close> says that the code returns, and stays inside its objects.  Failures that the code reports
  are values: \<open>NULL\<close> is \<open>None\<close> inside the result, an error code is the number the code returns.

  \<^bold>\<open>What comes from outside\<close> is a parameter: the BIOS call, the codepage tables (a generated file), where an
  allocation is put and whether it succeeds, the real-mode \<open>core_open\<close>, the system calls of the installer.  What the code relies on is stated in the
  locales named above, and every one of them is interpreted.  The interfaces inside the program are interpreted on the model of
  the code that provides them: \<open>dll_store\<close> on the chains of the cache, \<open>block_device\<close> on the cached disk reads
  and on the EDD driver, \<open>extent_map\<close> on FAT and on ext2.  The contracts of outside code and of
  data on a disk are interpreted on small volumes and on a simulated BIOS, with which each theorem that has
  hypotheses is applied once (\<open>*_witness\<close>).

  \<^bold>\<open>Termination and fuel.\<close>  Loops with a decreasing measure are \<open>function\<close>s with a termination proof.  Loops whose end depends on data
  (a chain of clusters, a path with symbolic links, a directory, an LRU search, the transfer loop of a driver) are
  \<open>partial_function (option)\<close>s, and the theorems about them give \<open>Some\<close>.  No definition has fuel of its own; the bounds in the
  model are those of the code: 32 open files, 20 symbolic links in a path, three levels of indirect blocks, six retries of a call.

  \<^bold>\<open>What the theorems show.\<close>  The cache is transparent and LRU, and over the EDD driver it shows the sectors of the partition,
  even when the BIOS fails for long transfers.  Files on FAT and on ext2 (with block pointers) are read exactly, holes as zeros.  Names are
  found in FAT directories by their long or short name and in ext2 directories, directories are listed completely, paths
  are resolved as a reference search does, with every reference count exact on every path through the code, errors
  of the file system included, as long as allocations succeed.  Paths, numbers, short names, packed data and CHS addresses survive their round trips.  The allocator
  keeps its heaps and takes the first free block that fits.  The installer never changes a byte of a partition, whatever fails,
  and a run that ends well has written the image.  Several theorems state faults of the code exactly
  (\<open>moddi3_agrees_iff\<close>, \<open>strlcpy_needs_extra_byte\<close>, \<open>malloc_huge_wraps\<close>, \<open>readdir_ordinal_wraps\<close>, \<open>ext2_mounts\<close>,
  \<open>next_extent_follows_map\<close>, \<open>find_device_name_ends_iff\<close>).

  \<^bold>\<open>Not modelled.\<close>  The NTFS and btrfs drivers (\<^verbatim>\<open>libcore/fs/ntfs\<close>, \<^verbatim>\<open>libcore/fs/btrfs\<close>) are not part of this
  development yet.  \<^verbatim>\<open>loadhigh.c\<close> loads a file above 1M through the assembler.  \<^verbatim>\<open>vdprintf.c\<close>, \<^verbatim>\<open>dprintf.c\<close> and \<^verbatim>\<open>console.c\<close> write to
  a serial port or the screen.  \<^verbatim>\<open>call16.c\<close>, \<^verbatim>\<open>sys/*.c\<close>, \<^verbatim>\<open>kaboom.c\<close>, \<^verbatim>\<open>idle.c\<close> and \<^verbatim>\<open>pmapi.c\<close> switch the mode of the
  processor, halt it, or are tables of pointers.  The headers \<^verbatim>\<open>syslinux/*.h\<close> and \<^verbatim>\<open>pxe_api.h\<close> declare
  interfaces of modules that are not in the repository, and \<^verbatim>\<open>lintiny.h\<close> is a list of Linux system calls.  The assembler under
  \<^verbatim>\<open>core\<close>, the build tools and the Python scripts are not C code.
\<close>

end
